(* ===== verification/Prelude.thy ===== *)
theory Prelude
  imports "HOL-Library.Word"
begin

text \<open>
  Shared vocabulary of the development: the fixed-width integers of the C++ sources, the
  failures a C++ operation can end in, checked array access, and the lemmas on lists, maps and
  words that several components use.

  A C++ operation that can throw, or whose behaviour the language leaves undefined for some
  arguments, returns a \<open>result\<close>: \<open>Inl\<close> carries the failure, \<open>Inr\<close> the value together
  with the new state.
\<close>

unbundle bit_operations_syntax

section \<open>Machine integers\<close>

type_synonym u8 = "8 word"
type_synonym u16 = "16 word"
type_synonym u32 = "32 word"
type_synonym u64 = "64 word"

text \<open>\<open>std::size_t\<close> on the 64-bit targets the sources name (x86_64 and ARM64 Linux).\<close>

type_synonym usize = u64

section \<open>Failures\<close>

text \<open>
  \<open>Undefined\<close> stands for undefined behaviour: an out-of-bounds \<open>memcpy\<close>, an index past the end
  of a \<open>std::array\<close>, a dereferenced null pointer. The other constructors are the standard
  exception classes the sources throw; \<open>Assertion_failed\<close> is a failed \<open>assert\<close>, \<open>Terminated\<close> a call
  of \<open>std::terminate\<close> and \<open>Diverged\<close> a call that never returns.
\<close>

datatype cpp_error =
    Undefined
  | Length_error
  | Invalid_argument
  | Logic_error
  | Assertion_failed
  | Terminated
  | Diverged

type_synonym 'a result = "cpp_error + 'a"

definition and_then :: "'a result \<Rightarrow> ('a \<Rightarrow> 'b result) \<Rightarrow> 'b result" where
  "and_then r f = (case r of Inl e \<Rightarrow> Inl e | Inr x \<Rightarrow> f x)"

lemma and_then_simps [simp]:
  "and_then (Inl e) f = Inl e"
  "and_then (Inr x) f = f x"
  by (simp_all add: and_then_def)

lemma and_then_Inr_iff:
  "and_then r f = Inr y \<longleftrightarrow> (\<exists>x. r = Inr x \<and> f x = Inr y)"
  by (cases r) auto

lemma and_then_Inl_iff:
  "and_then r f = Inl e \<longleftrightarrow> r = Inl e \<or> (\<exists>x. r = Inr x \<and> f x = Inl e)"
  by (cases r) auto

text \<open>Dereferencing a pointer.\<close>

definition deref :: "'a option \<Rightarrow> 'a result" where
  "deref p = (case p of None \<Rightarrow> Inl Undefined | Some x \<Rightarrow> Inr x)"

lemma deref_simps [simp]: "deref None = Inl Undefined" "deref (Some x) = Inr x"
  by (simp_all add: deref_def)

text \<open>A counted loop whose body may fail.\<close>

fun for_each :: "('a \<Rightarrow> 's \<Rightarrow> 's result) \<Rightarrow> 'a list \<Rightarrow> 's \<Rightarrow> 's result" where
  "for_each f [] s = Inr s"
| "for_each f (x # xs) s = and_then (f x s) (for_each f xs)"

lemma for_each_append: "for_each f (xs @ ys) s = and_then (for_each f xs s) (for_each f ys)"
proof (induction xs arbitrary: s)
  case (Cons x xs)
  then show ?case by (cases "f x s") auto
qed simp

text \<open>An invariant of the iterations done so far holds after the loop, and no iteration fails.\<close>

lemma for_each_invariant:
  assumes "P 0 s"
    and "\<And>k s. k < length xs \<Longrightarrow> P k s \<Longrightarrow> \<exists>s'. f (xs ! k) s = Inr s' \<and> P (Suc k) s'"
  shows "\<exists>s'. for_each f xs s = Inr s' \<and> P (length xs) s'"
  using assms
proof (induction xs arbitrary: s P)
  case Nil
  then show ?case by simp
next
  case (Cons x xs)
  obtain s1 where s1: "f x s = Inr s1" "P (Suc 0) s1"
    using Cons.prems(2) [of 0 s] Cons.prems(1) by auto
  have "\<exists>s'. for_each f xs s1 = Inr s' \<and> P (Suc (length xs)) s'"
    using Cons.prems(2) [of "Suc _"] s1(2) by (intro Cons.IH [of "\<lambda>k. P (Suc k)"]) auto
  then show ?case using s1(1) by auto
qed

section \<open>Memory regions and arrays\<close>

text \<open>
  \<open>memcpy\<close> between byte regions. A region is the list of the bytes a pointer may reach; reading
  or writing past it is undefined.
\<close>

definition mem_read :: "u8 list \<Rightarrow> nat \<Rightarrow> nat \<Rightarrow> u8 list result" where
  "mem_read region off n =
     (if off + n \<le> length region then Inr (take n (drop off region)) else Inl Undefined)"

definition mem_write :: "u8 list \<Rightarrow> nat \<Rightarrow> u8 list \<Rightarrow> u8 list result" where
  "mem_write region off bs =
     (if off + length bs \<le> length region
      then Inr (take off region @ bs @ drop (off + length bs) region)
      else Inl Undefined)"

definition array_get :: "'a list \<Rightarrow> nat \<Rightarrow> 'a result" where
  "array_get xs i = (if i < length xs then Inr (xs ! i) else Inl Undefined)"

definition array_set :: "'a list \<Rightarrow> nat \<Rightarrow> 'a \<Rightarrow> 'a list result" where
  "array_set xs i x = (if i < length xs then Inr (xs[i := x]) else Inl Undefined)"

lemma mem_read_ok: "off + n \<le> length region \<Longrightarrow> mem_read region off n = Inr (take n (drop off region))"
  by (simp add: mem_read_def)

lemma mem_write_ok:
  "off + length bs \<le> length region \<Longrightarrow>
   mem_write region off bs = Inr (take off region @ bs @ drop (off + length bs) region)"
  by (simp add: mem_write_def)

lemma mem_write_length: "mem_write region off bs = Inr region' \<Longrightarrow> length region' = length region"
  by (auto simp: mem_write_def split: if_splits)

lemma array_get_ok [simp]: "i < length xs \<Longrightarrow> array_get xs i = Inr (xs ! i)"
  by (simp add: array_get_def)

lemma array_set_ok [simp]: "i < length xs \<Longrightarrow> array_set xs i x = Inr (xs[i := x])"
  by (simp add: array_set_def)

text \<open>\<open>std::vector::resize\<close>: truncate, or extend with value-initialised elements.\<close>

definition vec_resize :: "'a \<Rightarrow> 'a list \<Rightarrow> nat \<Rightarrow> 'a list" where
  "vec_resize z xs n = take n xs @ replicate (n - length xs) z"

lemma length_vec_resize [simp]: "length (vec_resize z xs n) = n"
  by (simp add: vec_resize_def)

lemma take_vec_resize: "k \<le> length xs \<Longrightarrow> k \<le> n \<Longrightarrow> take k (vec_resize z xs n) = take k xs"
  by (simp add: vec_resize_def min_def)

lemma drop_vec_resize_beyond: "n \<le> k \<Longrightarrow> drop k (vec_resize z xs n) = []"
  by simp

section \<open>Words and natural numbers\<close>

lemma unat_add_nowrap:
  fixes a b :: "'a::len word"
  assumes "unat a + unat b < 2 ^ LENGTH('a)"
  shows "unat (a + b) = unat a + unat b"
  using assms by (simp add: unat_word_ariths)

lemma unat_of_nat_small:
  assumes "n < 2 ^ LENGTH('a::len)"
  shows "unat (of_nat n :: 'a word) = n"
  using assms by (simp add: unat_of_nat take_bit_nat_eq_self)

lemma unat_of_nat64: "n < 2 ^ 64 \<Longrightarrow> unat (of_nat n :: u64) = n"
  by (simp add: unat_of_nat_small)

lemma of_nat_eq64: "m < 2 ^ 64 \<Longrightarrow> n < 2 ^ 64 \<Longrightarrow> (of_nat m :: u64) = of_nat n \<longleftrightarrow> m = n"
  using unat_of_nat64 [of m] unat_of_nat64 [of n] by (simp only: word_unat_eq_iff)

lemma unat_of_nat32: "n < 2 ^ 32 \<Longrightarrow> unat (of_nat n :: u32) = n"
  by (simp add: unat_of_nat_small)

lemma unat_lt64: "unat (w :: u64) < 18446744073709551616"
  using unsigned_less [of w, where ?'a = nat] by simp

lemma unat_lt32: "unat (w :: u32) < 4294967296"
  using unsigned_less [of w, where ?'a = nat] by simp

lemma unat_lt16: "unat (w :: u16) < 65536"
  using unsigned_less [of w, where ?'a = nat] by simp

lemma unat_ucast_32_64: "unat (ucast (w :: u32) :: u64) = unat w"
  using unat_lt32 [of w] by (simp add: unsigned_ucast_eq take_bit_nat_eq_self)

lemma of_nat_eq_0_small:
  assumes "n < 2 ^ LENGTH('a::len)"
  shows "(of_nat n :: 'a word) = 0 \<longleftrightarrow> n = 0"
proof
  assume "(of_nat n :: 'a word) = 0"
  then have "unat (of_nat n :: 'a word) = 0" by simp
  then show "n = 0" using unat_of_nat_small [OF assms] by simp
qed simp

lemma ucast_of_nat_32_64:
  assumes "n < 2 ^ 32"
  shows "(ucast (of_nat n :: u32) :: u64) = of_nat n"
proof (rule word_unat_eq_iff [THEN iffD2])
  have "unat (ucast (of_nat n :: u32) :: u64) = n"
    using assms by (simp only: unat_ucast_32_64 unat_of_nat32)
  also have "n = unat (of_nat n :: u64)"
    using assms unat_of_nat64 [of n] by simp
  finally show "unat (ucast (of_nat n :: u32) :: u64) = unat (of_nat n :: u64)" .
qed

lemma sint_of_nat_small: "n < 2 ^ 31 \<Longrightarrow> sint (of_nat n :: u32) = int n"
  by (simp add: sint_uint uint_nat unat_of_nat32 signed_take_bit_int_eq_self)

lemma sint_of_int_small:
  assumes "- (2 ^ 63) \<le> i" and "i < 2 ^ 63"
  shows "sint (of_int i :: u64) = i"
proof -
  have "sint (of_int i :: u64) = signed_take_bit 63 i" by (simp add: signed_of_int)
  then show ?thesis using assms by (simp add: signed_take_bit_int_eq_self)
qed

text \<open>\<open>x & (2^k - 1)\<close>, by which the sources replace a remainder, is that remainder.\<close>

lemma and_mask_mod:
  fixes w :: "'a::len word"
  shows "unat (w AND (2 ^ k - 1)) = unat w mod 2 ^ k"
proof -
  have "w AND (2 ^ k - 1) = take_bit k w"
    by (simp add: take_bit_eq_mask mask_eq_exp_minus_1)
  then have "unat (w AND (2 ^ k - 1)) = take_bit k (unat w)"
    by (simp add: unsigned_take_bit_eq)
  then show ?thesis
    by (simp add: take_bit_eq_mod)
qed

section \<open>Lists\<close>

lemma take_append_drop_same: "n \<le> length xs \<Longrightarrow> take n (xs @ ys) = take n xs"
  by simp

lemma nth_append_right: "length xs \<le> i \<Longrightarrow> (xs @ ys) ! i = ys ! (i - length xs)"
  by (simp add: nth_append)

lemma filter_all: "(\<forall>x \<in> set xs. P x) \<Longrightarrow> filter P xs = xs"
  by (induction xs) auto

lemma sum_list_update_plus:
  fixes f :: "'a \<Rightarrow> 'b::comm_monoid_add"
  shows "i < length xs \<Longrightarrow> sum_list (map f (xs[i := y])) + f (xs ! i) = sum_list (map f xs) + f y"
proof (induction xs arbitrary: i)
  case (Cons x xs)
  then show ?case by (cases i) (auto simp: ac_simps)
qed simp

end
