(* ===== verification/Bytes.thy ===== *)
theory Bytes
  imports Prelude
begin

text \<open>
  Object representations. The sources move trivially copyable values through byte buffers with
  \<open>memcpy\<close> and assert at compile time that the host is little-endian
  (\<open>SerializationTraits.hpp\<close>), so a \<open>w\<close>-bit unsigned integer is its \<open>w / 8\<close> bytes, least
  significant first. The locale \<open>byte_codec\<close> is the contract every fixed-size layout meets; the
  integers are interpreted here, the packed structs in their own theories.
\<close>

section \<open>Little-endian bytes of a number\<close>

fun le_bytes :: "nat \<Rightarrow> nat \<Rightarrow> u8 list" where
  "le_bytes 0 v = []"
| "le_bytes (Suc n) v = of_nat (v mod 256) # le_bytes n (v div 256)"

fun le_value :: "u8 list \<Rightarrow> nat" where
  "le_value [] = 0"
| "le_value (b # bs) = unat b + 256 * le_value bs"

lemma length_le_bytes [simp]: "length (le_bytes n v) = n"
  by (induction n arbitrary: v) auto

lemma unat_byte: "unat (of_nat (v mod 256) :: u8) = v mod 256"
  by (simp add: unat_of_nat_small)

lemma le_value_le_bytes: "v < 256 ^ n \<Longrightarrow> le_value (le_bytes n v) = v"
proof (induction n arbitrary: v)
  case 0
  then show ?case by simp
next
  case (Suc n)
  then have "v div 256 < 256 ^ n"
    by (simp add: less_mult_imp_div_less mult.commute)
  then have "le_value (le_bytes n (v div 256)) = v div 256"
    by (rule Suc.IH)
  then show ?case
    by (simp only: le_bytes.simps le_value.simps unat_byte) (simp add: mult.commute)
qed

lemma le_value_bound: "le_value bs < 256 ^ length bs"
proof (induction bs)
  case Nil
  show ?case by simp
next
  case (Cons b bs)
  have "unat b < 256" using unsigned_less [of b, where ?'a = nat] by simp
  moreover have "le_value bs + 1 \<le> 256 ^ length bs" using Cons.IH by simp
  then have "256 * (le_value bs + 1) \<le> 256 * 256 ^ length bs"
    by (rule mult_le_mono2)
  ultimately show ?case by simp
qed

lemma le_bytes_le_value: "le_bytes (length bs) (le_value bs) = bs"
proof (induction bs)
  case Nil
  show ?case by simp
next
  case (Cons b bs)
  have b: "unat b < 256" using unsigned_less [of b, where ?'a = nat] by simp
  then have "(unat b + 256 * le_value bs) mod 256 = unat b"
    and "(unat b + 256 * le_value bs) div 256 = le_value bs"
    by simp_all
  with Cons.IH show ?case by simp
qed

section \<open>Unsigned integers\<close>

text \<open>\<open>sizeof\<close> of an unsigned integer type, its object representation, and its value.\<close>

definition word_size :: "'a::len itself \<Rightarrow> nat" where
  "word_size t = LENGTH('a) div 8"

definition word_bytes :: "'a::len word \<Rightarrow> u8 list" where
  "word_bytes w = le_bytes (LENGTH('a) div 8) (unat w)"

definition word_of_bytes :: "u8 list \<Rightarrow> 'a::len word" where
  "word_of_bytes bs = of_nat (le_value bs)"

lemma length_word_bytes [simp]: "length (word_bytes (w :: 'a::len word)) = LENGTH('a) div 8"
  by (simp add: word_bytes_def)

lemma word_of_bytes_word_bytes:
  assumes "8 dvd LENGTH('a::len)"
  shows "word_of_bytes (word_bytes (w :: 'a word)) = w"
proof -
  have "(256 :: nat) ^ (LENGTH('a) div 8) = 2 ^ (8 * (LENGTH('a) div 8))"
    by (simp add: power_mult)
  then have "(256 :: nat) ^ (LENGTH('a) div 8) = 2 ^ LENGTH('a)"
    using assms by simp
  then have "unat w < 256 ^ (LENGTH('a) div 8)"
    using unsigned_less [of w, where ?'a = nat] by simp
  then show ?thesis
    by (simp add: word_bytes_def word_of_bytes_def le_value_le_bytes)
qed

section \<open>The contract of a fixed-size layout\<close>

locale byte_codec =
  fixes layout :: "'a \<Rightarrow> u8 list"
    and size_of :: nat
    and unlayout :: "u8 list \<Rightarrow> 'a"
  assumes layout_length: "length (layout x) = size_of"
    and unlayout_layout: "unlayout (layout x) = x"
begin

lemma layout_inj: "layout x = layout y \<longleftrightarrow> x = y"
  by (metis unlayout_layout)

lemma unlayout_prefix: "unlayout (take size_of (layout x @ rest)) = x"
  by (simp add: layout_length unlayout_layout)

lemma drop_layout: "drop size_of (layout x @ rest) = rest"
  by (simp add: layout_length)

lemma layout_append_inj: "layout x @ xs = layout y @ ys \<longleftrightarrow> x = y \<and> xs = ys"
  by (metis drop_layout unlayout_prefix)

lemma length_concat_layout: "length (concat (map layout xs)) = size_of * length xs"
  by (induction xs) (simp_all add: layout_length)

lemma concat_layout_inj: "length xs = length ys \<Longrightarrow>
    concat (map layout xs) = concat (map layout ys) \<longleftrightarrow> xs = ys"
  by (induction xs ys rule: list_induct2) (simp_all add: layout_append_inj)

end

interpretation u8_layout: byte_codec "word_bytes :: u8 \<Rightarrow> u8 list" 1 word_of_bytes
  by unfold_locales (simp_all add: word_of_bytes_word_bytes)

interpretation u16_layout: byte_codec "word_bytes :: u16 \<Rightarrow> u8 list" 2 word_of_bytes
  by unfold_locales (simp_all add: word_of_bytes_word_bytes)

interpretation u32_layout: byte_codec "word_bytes :: u32 \<Rightarrow> u8 list" 4 word_of_bytes
  by unfold_locales (simp_all add: word_of_bytes_word_bytes)

interpretation u64_layout: byte_codec "word_bytes :: u64 \<Rightarrow> u8 list" 8 word_of_bytes
  by unfold_locales (simp_all add: word_of_bytes_word_bytes)

end
