(* ===== verification/Packet.thy ===== *)
theory Packet
  imports Bytes
begin

text \<open>
  The packet component (\<open>infrastructure/packet\<close>): constants, flags, header layout, the growable
  \<open>PacketBuffer\<close>, the borrowed \<open>PacketView\<close>, and the bounds-checked \<open>PacketWriter\<close> and
  \<open>PacketReader\<close>. Offsets and sizes are 64-bit words, as \<open>std::size_t\<close> is, so that the sums the
  code computes wrap where the code's would.
\<close>

section \<open>PacketConstants and PacketTypes\<close>

definition kPacketMagic :: u32 where
  "kPacketMagic = 0x4D4D4F31"

definition kDefaultPacketCapacity :: usize where
  "kDefaultPacketCapacity = 4096"

definition kMaxPacketSize :: usize where
  "kMaxPacketSize = 64 * 1024"

definition kProtocolVersion :: u16 where
  "kProtocolVersion = 1"

type_synonym PacketId = u16
type_synonym PacketSize = u32
type_synonym PacketVersion = u16

lemma unat_kMaxPacketSize [simp]: "unat kMaxPacketSize = 65536"
  by (simp add: kMaxPacketSize_def)

section \<open>PacketFlags\<close>

text \<open>The scoped enum is its underlying 16-bit integer: any combination of bits is a value of it.\<close>

type_synonym PacketFlags = u16

definition Flag_None :: PacketFlags where "Flag_None = 0"
definition Flag_Compressed :: PacketFlags where "Flag_Compressed = push_bit 0 1"
definition Flag_Encrypted :: PacketFlags where "Flag_Encrypted = push_bit 1 1"
definition Flag_Reliable :: PacketFlags where "Flag_Reliable = push_bit 2 1"

definition flags_or :: "PacketFlags \<Rightarrow> PacketFlags \<Rightarrow> PacketFlags" where
  "flags_or lhs rhs = lhs OR rhs"

definition flags_and :: "PacketFlags \<Rightarrow> PacketFlags \<Rightarrow> PacketFlags" where
  "flags_and lhs rhs = lhs AND rhs"

definition HasFlag :: "PacketFlags \<Rightarrow> PacketFlags \<Rightarrow> bool" where
  "HasFlag flags target = (flags_and flags target \<noteq> Flag_None)"

lemma HasFlag_or: "HasFlag (flags_or a b) t \<longleftrightarrow> HasFlag a t \<or> HasFlag b t"
proof -
  have "(a OR b) AND t = (a AND t) OR (b AND t)"
    by (simp add: bit.conj_disj_distrib2)
  then show ?thesis
    by (simp add: HasFlag_def flags_or_def flags_and_def Flag_None_def or_eq_0_iff)
qed

section \<open>PacketHeader\<close>

record packet_header =
  ph_magic :: u32
  ph_version :: PacketVersion
  ph_packetId :: PacketId
  ph_flags :: PacketFlags
  ph_payloadSize :: PacketSize
  ph_reserved :: u16

text \<open>The packed struct: its fields in order, with no padding.\<close>

definition PacketHeader_bytes :: "packet_header \<Rightarrow> u8 list" where
  "PacketHeader_bytes h =
     word_bytes (ph_magic h) @ word_bytes (ph_version h) @ word_bytes (ph_packetId h)
     @ word_bytes (ph_flags h) @ word_bytes (ph_payloadSize h) @ word_bytes (ph_reserved h)"

definition PacketHeader_of_bytes :: "u8 list \<Rightarrow> packet_header" where
  "PacketHeader_of_bytes bs =
     \<lparr>ph_magic = word_of_bytes (take 4 bs),
      ph_version = word_of_bytes (take 2 (drop 4 bs)),
      ph_packetId = word_of_bytes (take 2 (drop 6 bs)),
      ph_flags = word_of_bytes (take 2 (drop 8 bs)),
      ph_payloadSize = word_of_bytes (take 4 (drop 10 bs)),
      ph_reserved = word_of_bytes (take 2 (drop 14 bs))\<rparr>"

interpretation header_layout: byte_codec PacketHeader_bytes 16 PacketHeader_of_bytes
  by unfold_locales
    (simp_all add: PacketHeader_bytes_def PacketHeader_of_bytes_def word_of_bytes_word_bytes)

section \<open>PacketBuffer\<close>

text \<open>
  The vector's bytes and its capacity. The standard lets \<open>resize\<close> and \<open>reserve\<close> allocate more than
  asked for; the model keeps the least capacity the standard allows.
\<close>

record packet_buffer =
  pb_bytes :: "u8 list"
  pb_capacity :: nat

definition IsValidCapacity :: "usize \<Rightarrow> bool" where
  "IsValidCapacity n = (n \<le> kMaxPacketSize)"

definition PacketBuffer_new :: "usize \<Rightarrow> packet_buffer result" where
  "PacketBuffer_new capacity =
     (if \<not> IsValidCapacity capacity then Inl Length_error
      else Inr \<lparr>pb_bytes = [], pb_capacity = unat capacity\<rparr>)"

definition PacketBuffer_Size :: "packet_buffer \<Rightarrow> usize" where
  "PacketBuffer_Size b = of_nat (length (pb_bytes b))"

definition PacketBuffer_Capacity :: "packet_buffer \<Rightarrow> usize" where
  "PacketBuffer_Capacity b = of_nat (pb_capacity b)"

definition PacketBuffer_Empty :: "packet_buffer \<Rightarrow> bool" where
  "PacketBuffer_Empty b = (pb_bytes b = [])"

definition PacketBuffer_Resize :: "packet_buffer \<Rightarrow> usize \<Rightarrow> packet_buffer result" where
  "PacketBuffer_Resize b n =
     (if \<not> IsValidCapacity n then Inl Length_error
      else Inr (b\<lparr>pb_bytes := vec_resize 0 (pb_bytes b) (unat n),
                  pb_capacity := max (pb_capacity b) (unat n)\<rparr>))"

definition PacketBuffer_Reserve :: "packet_buffer \<Rightarrow> usize \<Rightarrow> packet_buffer result" where
  "PacketBuffer_Reserve b capacity =
     (if \<not> IsValidCapacity capacity then Inl Length_error
      else Inr (b\<lparr>pb_capacity := max (pb_capacity b) (unat capacity)\<rparr>))"

definition PacketBuffer_Clear :: "packet_buffer \<Rightarrow> packet_buffer" where
  "PacketBuffer_Clear b = b\<lparr>pb_bytes := []\<rparr>"

text \<open>The invariant of a buffer: no more bytes than its capacity, no more capacity than the limit.\<close>

definition buffer_ok :: "packet_buffer \<Rightarrow> bool" where
  "buffer_ok b \<longleftrightarrow> length (pb_bytes b) \<le> pb_capacity b \<and> pb_capacity b \<le> 65536"

lemma IsValidCapacity_unat: "IsValidCapacity s \<longleftrightarrow> unat s \<le> 65536"
  by (simp add: IsValidCapacity_def word_le_nat_alt)

lemma PacketBuffer_new_ok: "PacketBuffer_new c = Inr b \<Longrightarrow> buffer_ok b"
  by (auto simp: PacketBuffer_new_def buffer_ok_def IsValidCapacity_unat split: if_splits)

lemma PacketBuffer_Resize_ok: "buffer_ok b \<Longrightarrow> PacketBuffer_Resize b n = Inr b' \<Longrightarrow> buffer_ok b'"
  by (auto simp: PacketBuffer_Resize_def buffer_ok_def IsValidCapacity_unat split: if_splits)

lemma PacketBuffer_Reserve_ok: "buffer_ok b \<Longrightarrow> PacketBuffer_Reserve b n = Inr b' \<Longrightarrow> buffer_ok b'"
  by (auto simp: PacketBuffer_Reserve_def buffer_ok_def IsValidCapacity_unat split: if_splits)

lemma PacketBuffer_Clear_ok: "buffer_ok b \<Longrightarrow> buffer_ok (PacketBuffer_Clear b)"
  by (simp add: PacketBuffer_Clear_def buffer_ok_def)

lemma unat_PacketBuffer_Size: "buffer_ok b \<Longrightarrow> unat (PacketBuffer_Size b) = length (pb_bytes b)"
  unfolding PacketBuffer_Size_def by (rule unat_of_nat64) (simp add: buffer_ok_def)

section \<open>PacketView\<close>

text \<open>
  A borrowed pointer and a size. The pointer is \<open>None\<close> for \<open>nullptr\<close>, or the bytes reachable from
  it on; adding an offset to it drops that many of them.
\<close>

record packet_view =
  pv_data :: "u8 list option"
  pv_size :: usize

definition PacketView_new :: "u8 list option \<Rightarrow> usize \<Rightarrow> packet_view" where
  "PacketView_new d n = \<lparr>pv_data = d, pv_size = n\<rparr>"

definition PacketView_Empty :: "packet_view \<Rightarrow> bool" where
  "PacketView_Empty v = (pv_size v = 0)"

definition PacketView_SubView :: "packet_view \<Rightarrow> usize \<Rightarrow> usize \<Rightarrow> packet_view" where
  "PacketView_SubView v offset n =
     (if offset > pv_size v then PacketView_new None 0
      else let remaining = pv_size v - offset in
        if n > remaining then PacketView_new None 0
        else PacketView_new (map_option (drop (unat offset)) (pv_data v)) n)"

text \<open>A view is valid when its size is covered by the memory behind its pointer.\<close>

definition view_ok :: "packet_view \<Rightarrow> bool" where
  "view_ok v \<longleftrightarrow>
     (case pv_data v of None \<Rightarrow> pv_size v = 0 | Some region \<Rightarrow> unat (pv_size v) \<le> length region)"

text \<open>The bytes a view shows.\<close>

definition view_bytes :: "packet_view \<Rightarrow> u8 list" where
  "view_bytes v = (case pv_data v of None \<Rightarrow> [] | Some region \<Rightarrow> take (unat (pv_size v)) region)"

lemma length_view_bytes: "view_ok v \<Longrightarrow> length (view_bytes v) = unat (pv_size v)"
  by (auto simp: view_ok_def view_bytes_def split: option.splits)

lemma SubView_in_range:
  assumes "unat offset + unat n \<le> unat (pv_size v)"
  shows "PacketView_SubView v offset n =
    PacketView_new (map_option (drop (unat offset)) (pv_data v)) n"
proof -
  have "offset \<le> pv_size v" using assms by (simp add: word_le_nat_alt)
  moreover from this have "n \<le> pv_size v - offset"
    using assms by (simp add: word_le_nat_alt unat_sub)
  ultimately show ?thesis
    by (simp add: PacketView_SubView_def not_less [symmetric])
qed

lemma SubView_out_of_range:
  assumes "unat (pv_size v) < unat offset + unat n"
  shows "PacketView_SubView v offset n = PacketView_new None 0"
proof (cases "offset \<le> pv_size v")
  case True
  then have "pv_size v - offset < n"
    using assms by (simp add: word_less_nat_alt word_le_nat_alt unat_sub)
  then show ?thesis by (simp add: PacketView_SubView_def)
next
  case False
  then show ?thesis by (simp add: PacketView_SubView_def not_le)
qed

end
