(* ===== verification/Packet_IO.thy ===== *)
theory Packet_IO
  imports Packet
begin

text \<open>
  \<open>PacketWriter\<close> and \<open>PacketReader\<close>. Both keep a \<open>std::size_t\<close> offset; the writer owns a reference
  to the buffer it fills, so its state holds that buffer. A raw pointer argument is \<open>None\<close> for
  \<open>nullptr\<close> or the bytes behind it, and comes with the size the caller states, which need not be
  the size of the region: reading past the region is undefined behaviour.

  The locales \<open>byte_sink\<close> and \<open>byte_source\<close> are the contracts the serialization layer relies on.
\<close>

section \<open>PacketWriter\<close>

record packet_writer =
  pw_buffer :: packet_buffer
  pw_offset :: usize

definition PacketWriter_new :: "packet_buffer \<Rightarrow> packet_writer" where
  "PacketWriter_new b = \<lparr>pw_buffer = b, pw_offset = 0\<rparr>"

definition PacketWriter_grow :: "packet_writer \<Rightarrow> usize \<Rightarrow> packet_writer result" where
  "PacketWriter_grow w requiredSize =
     (if requiredSize > PacketBuffer_Size (pw_buffer w)
      then and_then (PacketBuffer_Resize (pw_buffer w) requiredSize)
             (\<lambda>b. Inr (w\<lparr>pw_buffer := b\<rparr>))
      else Inr w)"

definition PacketWriter_copy :: "packet_writer \<Rightarrow> u8 list \<Rightarrow> usize \<Rightarrow> packet_writer result" where
  "PacketWriter_copy w src n =
     and_then (mem_read src 0 (unat n)) (\<lambda>bs.
       and_then (mem_write (pb_bytes (pw_buffer w)) (unat (pw_offset w)) bs) (\<lambda>bytes.
         Inr (w\<lparr>pw_buffer := (pw_buffer w)\<lparr>pb_bytes := bytes\<rparr>\<rparr>)))"

definition PacketWriter_WriteBytes ::
    "packet_writer \<Rightarrow> u8 list option \<Rightarrow> usize \<Rightarrow> (bool \<times> packet_writer) result" where
  "PacketWriter_WriteBytes w data n =
     (if n = 0 then Inr (True, w)
      else case data of
        None \<Rightarrow> Inr (False, w)
      | Some src \<Rightarrow>
          (let requiredSize = pw_offset w + n in
           if requiredSize > kMaxPacketSize then Inr (False, w)
           else and_then (PacketWriter_grow w requiredSize) (\<lambda>w1.
                  and_then (PacketWriter_copy w1 src n) (\<lambda>w2.
                    Inr (True, w2\<lparr>pw_offset := pw_offset w2 + n\<rparr>)))))"

text \<open>The template \<open>Write<T>\<close>: the object representation of the value, \<open>sizeof(T)\<close> bytes.\<close>

definition PacketWriter_Write :: "packet_writer \<Rightarrow> u8 list \<Rightarrow> (bool \<times> packet_writer) result" where
  "PacketWriter_Write w object = PacketWriter_WriteBytes w (Some object) (of_nat (length object))"

definition PacketWriter_WriteString :: "packet_writer \<Rightarrow> u8 list \<Rightarrow> (bool \<times> packet_writer) result" where
  "PacketWriter_WriteString w str =
     (let len = of_nat (length str) :: u32; originalOffset = pw_offset w in
      and_then (PacketWriter_Write w (word_bytes len)) (\<lambda>(ok, w1).
        if \<not> ok then Inr (False, w1)
        else and_then (PacketWriter_WriteBytes w1 (Some str) (of_nat (length str))) (\<lambda>(ok', w2).
          if \<not> ok' then Inr (False, w2\<lparr>pw_offset := originalOffset\<rparr>)
          else Inr (True, w2))))"

definition PacketWriter_WriteSpan ::
    "packet_writer \<Rightarrow> u8 list option \<Rightarrow> usize \<Rightarrow> (bool \<times> packet_writer) result" where
  "PacketWriter_WriteSpan w data n = PacketWriter_WriteBytes w data n"

definition PacketWriter_GetOffset :: "packet_writer \<Rightarrow> usize" where
  "PacketWriter_GetOffset w = pw_offset w"

definition PacketWriter_Reset :: "packet_writer \<Rightarrow> packet_writer" where
  "PacketWriter_Reset w = w\<lparr>pw_offset := 0\<rparr>"

text \<open>The invariant: a valid buffer and an offset inside it. What has been written is its prefix.\<close>

definition writer_ok :: "packet_writer \<Rightarrow> bool" where
  "writer_ok w \<longleftrightarrow> buffer_ok (pw_buffer w) \<and> unat (pw_offset w) \<le> length (pb_bytes (pw_buffer w))"

definition written :: "packet_writer \<Rightarrow> u8 list" where
  "written w = take (unat (pw_offset w)) (pb_bytes (pw_buffer w))"

lemma length_written: "writer_ok w \<Longrightarrow> length (written w) = unat (pw_offset w)"
  by (simp add: writer_ok_def written_def)

lemma writer_ok_offset_le: "writer_ok w \<Longrightarrow> unat (pw_offset w) \<le> 65536"
  by (auto simp: writer_ok_def buffer_ok_def)

lemma PacketWriter_new_ok: "buffer_ok b \<Longrightarrow> writer_ok (PacketWriter_new b)"
  by (simp add: PacketWriter_new_def writer_ok_def)

lemma written_new [simp]: "written (PacketWriter_new b) = []"
  by (simp add: written_def PacketWriter_new_def)

lemma PacketWriter_Reset_ok: "writer_ok w \<Longrightarrow> writer_ok (PacketWriter_Reset w)"
  by (simp add: PacketWriter_Reset_def writer_ok_def)

text \<open>A region no larger than \<open>PTRDIFF_MAX\<close>, as every C++ object is, cannot wrap the sum.\<close>

lemma requiredSize_nowrap:
  assumes "writer_ok w" and "unat n < 2 ^ 63"
  shows "unat (pw_offset w + n) = unat (pw_offset w) + unat n"
  using writer_ok_offset_le [OF assms(1)] assms(2) by (simp add: unat_add_nowrap)

lemma PacketWriter_grow_fits:
  assumes w: "writer_ok w" and r: "unat r \<le> 65536" "unat (pw_offset w) \<le> unat r"
  obtains w' where "PacketWriter_grow w r = Inr w'" and "writer_ok w'"
    and "pw_offset w' = pw_offset w"
    and "length (pb_bytes (pw_buffer w')) = max (length (pb_bytes (pw_buffer w))) (unat r)"
    and "written w' = written w"
proof (cases "r > PacketBuffer_Size (pw_buffer w)")
  case True
  then have gt: "length (pb_bytes (pw_buffer w)) < unat r"
    using w unat_PacketBuffer_Size [of "pw_buffer w"]
    by (simp add: word_less_nat_alt writer_ok_def)
  let ?b = "(pw_buffer w)\<lparr>pb_bytes := vec_resize 0 (pb_bytes (pw_buffer w)) (unat r),
                  pb_capacity := max (pb_capacity (pw_buffer w)) (unat r)\<rparr>"
  have "PacketWriter_grow w r = Inr (w\<lparr>pw_buffer := ?b\<rparr>)"
    using True r by (simp add: PacketWriter_grow_def PacketBuffer_Resize_def IsValidCapacity_unat)
  moreover have "writer_ok (w\<lparr>pw_buffer := ?b\<rparr>)"
    using w r by (auto simp: writer_ok_def buffer_ok_def)
  moreover have "written (w\<lparr>pw_buffer := ?b\<rparr>) = written w"
    using w r gt by (simp add: written_def writer_ok_def take_vec_resize)
  ultimately show ?thesis using gt that by simp
next
  case False
  then have "unat r \<le> length (pb_bytes (pw_buffer w))"
    using w unat_PacketBuffer_Size [of "pw_buffer w"]
    by (simp add: word_less_nat_alt writer_ok_def)
  then show ?thesis using False w that by (simp add: PacketWriter_grow_def)
qed


lemma PacketWriter_copy_fits:
  assumes w: "writer_ok w" and src: "unat n \<le> length src"
    and room: "unat (pw_offset w) + unat n \<le> length (pb_bytes (pw_buffer w))"
  shows "PacketWriter_copy w src n = Inr (w\<lparr>pw_buffer := (pw_buffer w)\<lparr>pb_bytes :=
    written w @ take (unat n) src @ drop (unat (pw_offset w) + unat n) (pb_bytes (pw_buffer w))\<rparr>\<rparr>)"
  using assms
  by (simp add: PacketWriter_copy_def mem_read_ok mem_write_ok written_def min_def)

text \<open>
  The functional behaviour of a write that fits: the bytes are appended to what was written, the
  rest of the buffer is untouched, and the invariant holds again.
\<close>

lemma WriteBytes_fits:
  assumes w: "writer_ok w" and src: "unat n \<le> length src"
    and fits: "unat (pw_offset w) + unat n \<le> 65536"
  obtains w' where "PacketWriter_WriteBytes w (Some src) n = Inr (True, w')" and "writer_ok w'"
    and "written w' = written w @ take (unat n) src"
    and "drop (unat (pw_offset w) + unat n) (pb_bytes (pw_buffer w'))
         = drop (unat (pw_offset w) + unat n) (pb_bytes (pw_buffer w))"
proof (cases "n = 0")
  case True
  with w that show ?thesis by (simp add: PacketWriter_WriteBytes_def)
next
  case False
  let ?r = "pw_offset w + n"
  have r: "unat ?r = unat (pw_offset w) + unat n"
    using w fits by (simp add: requiredSize_nowrap)
  obtain w1 where g: "PacketWriter_grow w ?r = Inr w1" and w1: "writer_ok w1"
      "pw_offset w1 = pw_offset w" "written w1 = written w"
    and len1: "length (pb_bytes (pw_buffer w1)) = max (length (pb_bytes (pw_buffer w))) (unat ?r)"
    using PacketWriter_grow_fits [OF w, of ?r] r fits by auto
  have tail: "drop (unat ?r) (pb_bytes (pw_buffer w1)) = drop (unat ?r) (pb_bytes (pw_buffer w))"
    using g r by (auto simp: PacketWriter_grow_def PacketBuffer_Resize_def and_then_Inr_iff
        vec_resize_def word_less_nat_alt unat_PacketBuffer_Size w[unfolded writer_ok_def]
        split: if_splits)
  let ?bytes = "written w @ take (unat n) src @ drop (unat ?r) (pb_bytes (pw_buffer w1))"
  let ?w' = "w1\<lparr>pw_buffer := (pw_buffer w1)\<lparr>pb_bytes := ?bytes\<rparr>, pw_offset := ?r\<rparr>"
  have "PacketWriter_copy w1 src n = Inr (w1\<lparr>pw_buffer := (pw_buffer w1)\<lparr>pb_bytes := ?bytes\<rparr>\<rparr>)"
    using PacketWriter_copy_fits [OF w1(1) src] w1 len1 r by simp
  moreover have "?r \<le> kMaxPacketSize"
    using r fits by (simp add: word_le_nat_alt)
  ultimately have 1: "PacketWriter_WriteBytes w (Some src) n = Inr (True, ?w')"
    using False g w1 by (simp add: PacketWriter_WriteBytes_def Let_def)
  have lw: "length (written w) = unat (pw_offset w)"
    using w by (rule length_written)
  have "length ?bytes = length (pb_bytes (pw_buffer w1))"
    using lw src len1 r by simp
  then have 2: "writer_ok ?w'"
    using w1(1) r lw src len1 by (simp add: writer_ok_def buffer_ok_def)
  have 3: "written ?w' = written w @ take (unat n) src"
    using lw src r by (simp add: written_def)
  have 4: "drop (unat ?r) (pb_bytes (pw_buffer ?w')) = drop (unat ?r) (pb_bytes (pw_buffer w))"
    using lw src r tail by simp
  show ?thesis using that [OF 1 2 3] 4 r by simp
qed

lemma WriteBytes_full:
  assumes w: "writer_ok w" and n: "unat n < 2 ^ 63" and full: "65536 < unat (pw_offset w) + unat n"
  shows "PacketWriter_WriteBytes w data n = Inr (False, w)"
proof -
  have "n \<noteq> 0" using full writer_ok_offset_le [OF w] by auto
  moreover have "kMaxPacketSize < pw_offset w + n"
    using full requiredSize_nowrap [OF w n] by (simp add: word_less_nat_alt)
  ultimately show ?thesis
    by (cases data) (simp_all add: PacketWriter_WriteBytes_def Let_def)
qed

lemma WriteBytes_zero [simp]: "PacketWriter_WriteBytes w data 0 = Inr (True, w)"
  by (simp add: PacketWriter_WriteBytes_def)

lemma WriteBytes_null: "n \<noteq> 0 \<Longrightarrow> PacketWriter_WriteBytes w None n = Inr (False, w)"
  by (simp add: PacketWriter_WriteBytes_def)

section \<open>PacketReader\<close>

record packet_reader =
  pr_view :: packet_view
  pr_offset :: usize

definition PacketReader_new :: "packet_view \<Rightarrow> packet_reader" where
  "PacketReader_new v = \<lparr>pr_view = v, pr_offset = 0\<rparr>"

definition PacketReader_GetRemainingBytes :: "packet_reader \<Rightarrow> usize" where
  "PacketReader_GetRemainingBytes r = pv_size (pr_view r) - pr_offset r"

definition PacketReader_GetOffset :: "packet_reader \<Rightarrow> usize" where
  "PacketReader_GetOffset r = pr_offset r"

text \<open>\<open>n\<close> bytes at the reader's offset in the memory behind the view.\<close>

definition PacketReader_peek :: "packet_reader \<Rightarrow> nat \<Rightarrow> u8 list result" where
  "PacketReader_peek r n =
     (case pv_data (pr_view r) of
        None \<Rightarrow> Inl Undefined
      | Some region \<Rightarrow> mem_read region (unat (pr_offset r)) n)"

definition PacketReader_ReadBytes ::
    "packet_reader \<Rightarrow> u8 list option \<Rightarrow> usize \<Rightarrow> (bool \<times> u8 list option \<times> packet_reader) result" where
  "PacketReader_ReadBytes r dst n =
     (case dst of
        None \<Rightarrow> Inr (False, None, r)
      | Some d \<Rightarrow>
          if n = 0 then Inr (False, dst, r)
          else if n > PacketReader_GetRemainingBytes r then Inr (False, dst, r)
          else and_then (PacketReader_peek r (unat n)) (\<lambda>bs.
                 and_then (mem_write d 0 bs) (\<lambda>d'.
                   Inr (True, Some d', r\<lparr>pr_offset := pr_offset r + n\<rparr>))))"

text \<open>The template \<open>Read<T>\<close> overwrites the object representation of the caller's value.\<close>

definition PacketReader_Read ::
    "packet_reader \<Rightarrow> u8 list \<Rightarrow> (bool \<times> u8 list \<times> packet_reader) result" where
  "PacketReader_Read r object =
     and_then (PacketReader_ReadBytes r (Some object) (of_nat (length object)))
       (\<lambda>(ok, d, r'). Inr (ok, (case d of None \<Rightarrow> object | Some bs \<Rightarrow> bs), r'))"

definition PacketReader_ReadString ::
    "packet_reader \<Rightarrow> u8 list \<Rightarrow> (bool \<times> u8 list \<times> packet_reader) result" where
  "PacketReader_ReadString r str =
     (let originalOffset = pr_offset r in
      and_then (PacketReader_Read r (word_bytes (0 :: u32))) (\<lambda>(ok, object, r1).
        let len = (word_of_bytes object :: u32) in
        if \<not> ok then Inr (False, str, r1)
        else if (ucast len :: usize) > PacketReader_GetRemainingBytes r1
          then Inr (False, str, r1\<lparr>pr_offset := originalOffset\<rparr>)
        else and_then (PacketReader_peek r1 (unat len)) (\<lambda>bs.
               Inr (True, bs, r1\<lparr>pr_offset := pr_offset r1 + ucast len\<rparr>))))"

text \<open>The invariant: a valid view and an offset inside it. What is left is the view's suffix.\<close>

definition reader_ok :: "packet_reader \<Rightarrow> bool" where
  "reader_ok r \<longleftrightarrow> view_ok (pr_view r) \<and> pr_offset r \<le> pv_size (pr_view r)"

definition unread :: "packet_reader \<Rightarrow> u8 list" where
  "unread r = drop (unat (pr_offset r)) (view_bytes (pr_view r))"

lemma PacketReader_new_ok: "view_ok v \<Longrightarrow> reader_ok (PacketReader_new v)"
  by (simp add: PacketReader_new_def reader_ok_def)

lemma unread_new [simp]: "unread (PacketReader_new v) = view_bytes v"
  by (simp add: unread_def PacketReader_new_def)

lemma unat_GetRemainingBytes:
  "reader_ok r \<Longrightarrow> unat (PacketReader_GetRemainingBytes r) = length (unread r)"
  by (simp add: reader_ok_def PacketReader_GetRemainingBytes_def unread_def length_view_bytes unat_sub)

lemma peek_ok:
  assumes r: "reader_ok r" and n: "n \<le> length (unread r)"
    and nonnull: "0 < n \<or> pv_data (pr_view r) \<noteq> None"
  shows "PacketReader_peek r n = Inr (take n (unread r))"
proof -
  have len: "length (view_bytes (pr_view r)) = unat (pv_size (pr_view r))"
    using r by (simp add: reader_ok_def length_view_bytes)
  show ?thesis
  proof (cases "pv_data (pr_view r)")
    case None
    then have "unread r = []" using r by (simp add: unread_def view_bytes_def)
    with n nonnull None show ?thesis by simp
  next
    case (Some region)
    have sz: "unat (pv_size (pr_view r)) \<le> length region"
      using r Some by (simp add: reader_ok_def view_ok_def)
    have off: "unat (pr_offset r) + n \<le> unat (pv_size (pr_view r))"
      using n len r by (simp add: unread_def reader_ok_def word_le_nat_alt) linarith
    with sz Some show ?thesis
      by (simp add: PacketReader_peek_def mem_read_ok unread_def view_bytes_def take_drop min_def)
  qed
qed

lemma advance_ok:
  assumes r: "reader_ok r" and n: "unat n \<le> length (unread r)"
  shows "reader_ok (r\<lparr>pr_offset := pr_offset r + n\<rparr>)"
    and "unread (r\<lparr>pr_offset := pr_offset r + n\<rparr>) = drop (unat n) (unread r)"
proof -
  have "unat (pr_offset r) \<le> unat (pv_size (pr_view r))"
    using r by (simp add: reader_ok_def word_le_nat_alt)
  moreover have "unat (pr_offset r) + unat n \<le> unat (pv_size (pr_view r))"
    using n r calculation by (simp add: unread_def reader_ok_def length_view_bytes)
  ultimately have "unat (pr_offset r + n) = unat (pr_offset r) + unat n"
    using unat_lt64 [of "pv_size (pr_view r)"] by (intro unat_add_nowrap) simp
  with r \<open>unat (pr_offset r) + unat n \<le> unat (pv_size (pr_view r))\<close>
  show "reader_ok (r\<lparr>pr_offset := pr_offset r + n\<rparr>)"
    and "unread (r\<lparr>pr_offset := pr_offset r + n\<rparr>) = drop (unat n) (unread r)"
    by (simp_all add: reader_ok_def word_le_nat_alt unread_def add.commute)
qed

lemma advance_offset_le:
  assumes r: "reader_ok r" and n: "unat n \<le> length (unread r)"
  shows "pr_offset r \<le> pr_offset r + n"
proof -
  have "length (unread r) = unat (pv_size (pr_view r)) - unat (pr_offset r)"
    using r by (simp add: unread_def reader_ok_def length_view_bytes)
  then have "unat (pr_offset r) + unat n < 2 ^ 64"
    using n r unat_lt64 [of "pv_size (pr_view r)"] by (simp add: reader_ok_def word_le_nat_alt) linarith
  then show ?thesis by (simp add: word_le_nat_alt unat_add_nowrap)
qed

lemma ReadBytes_fits:
  assumes r: "reader_ok r" and n: "n \<noteq> 0" "unat n \<le> length (unread r)" and d: "unat n \<le> length d"
  shows "PacketReader_ReadBytes r (Some d) n =
    Inr (True, Some (take (unat n) (unread r) @ drop (unat n) d), r\<lparr>pr_offset := pr_offset r + n\<rparr>)"
proof -
  have "0 < unat n" using n(1) by (simp add: unat_gt_0)
  then have "PacketReader_peek r (unat n) = Inr (take (unat n) (unread r))"
    using r n by (simp add: peek_ok)
  moreover have "\<not> PacketReader_GetRemainingBytes r < n"
    using n unat_GetRemainingBytes [OF r] by (simp add: word_less_nat_alt)
  ultimately show ?thesis
    using n d by (simp add: PacketReader_ReadBytes_def mem_write_ok min_def)
qed

lemma ReadBytes_short:
  assumes r: "reader_ok r" and n: "length (unread r) < unat n"
  shows "PacketReader_ReadBytes r d n = Inr (False, d, r)"
proof -
  have "PacketReader_GetRemainingBytes r < n"
    using n unat_GetRemainingBytes [OF r] by (simp add: word_less_nat_alt)
  then show ?thesis
    by (cases d) (simp_all add: PacketReader_ReadBytes_def)
qed

lemma Read_fits:
  assumes r: "reader_ok r" and n: "object \<noteq> []" "length object \<le> length (unread r)"
    "length object < 2 ^ 64"
  shows "PacketReader_Read r object =
    Inr (True, take (length object) (unread r), r\<lparr>pr_offset := pr_offset r + of_nat (length object)\<rparr>)"
proof -
  have u: "unat (of_nat (length object) :: usize) = length object"
    using n(3) by (rule unat_of_nat64)
  then have "(of_nat (length object) :: usize) \<noteq> 0"
    using n(1) by auto
  from ReadBytes_fits [OF r this, of object] n u show ?thesis
    by (simp add: PacketReader_Read_def)
qed

lemma Read_short:
  assumes r: "reader_ok r" and n: "length (unread r) < length object" "length object < 2 ^ 64"
  shows "PacketReader_Read r object = Inr (False, object, r)"
  using ReadBytes_short [OF r, of "of_nat (length object)" "Some object"] n unat_of_nat64 [OF n(2)]
  by (simp add: PacketReader_Read_def)


lemma unread_nonnull: "unread r \<noteq> [] \<Longrightarrow> pv_data (pr_view r) \<noteq> None"
  by (auto simp: unread_def view_bytes_def split: option.splits)

lemma PacketReader_ReadBytes_view:
  "PacketReader_ReadBytes r d n = Inr (ok, d', r') \<Longrightarrow> pr_view r' = pr_view r"
  by (auto simp: PacketReader_ReadBytes_def and_then_Inr_iff split: option.splits if_splits)

lemma PacketReader_ReadString_view:
  "PacketReader_ReadString r str = Inr (ok, str', r') \<Longrightarrow> pr_view r' = pr_view r"
  by (auto simp: PacketReader_ReadString_def PacketReader_Read_def Let_def and_then_Inr_iff
      dest!: PacketReader_ReadBytes_view split: if_splits)

text \<open>Reading a length-prefixed string: the four branches of \<open>ReadString\<close>.\<close>

lemma Read_length_fits:
  assumes r: "reader_ok r" and n: "4 \<le> length (unread r)"
  shows "PacketReader_Read r (word_bytes (0 :: u32)) =
    Inr (True, take 4 (unread r), r\<lparr>pr_offset := pr_offset r + 4\<rparr>)"
proof -
  have "(word_bytes (0 :: u32)) \<noteq> []"
    by (metis length_word_bytes list.size(3) length_0_conv u32_layout.layout_length zero_neq_numeral)
  then show ?thesis
    using Read_fits [OF r, of "word_bytes (0 :: u32)"] n by simp
qed

lemma ReadString_no_length:
  assumes "reader_ok r" and "length (unread r) < 4"
  shows "PacketReader_ReadString r str = Inr (False, str, r)"
  using Read_short [OF assms(1), of "word_bytes (0 :: u32)"] assms(2)
  by (simp add: PacketReader_ReadString_def)

lemma ReadString_short:
  assumes r: "reader_ok r" and n: "4 \<le> length (unread r)"
    and short: "length (unread r) < 4 + unat (word_of_bytes (take 4 (unread r)) :: u32)"
  shows "PacketReader_ReadString r str = Inr (False, str, r)"
proof -
  let ?r1 = "r\<lparr>pr_offset := pr_offset r + 4\<rparr>"
  let ?len = "word_of_bytes (take 4 (unread r)) :: u32"
  have r1: "reader_ok ?r1" "unread ?r1 = drop 4 (unread r)"
    using advance_ok [OF r, of 4] n by simp_all
  have "PacketReader_GetRemainingBytes ?r1 < ucast ?len"
    using unat_GetRemainingBytes [OF r1(1)] r1(2) short n
    by (simp add: word_less_nat_alt unat_ucast_32_64)
  then show ?thesis
    using Read_length_fits [OF r n] by (simp add: PacketReader_ReadString_def Let_def)
qed

lemma ReadString_fits:
  assumes r: "reader_ok r" and n: "4 \<le> length (unread r)"
    and len: "len = (word_of_bytes (take 4 (unread r)) :: u32)"
    and fits: "4 + unat len \<le> length (unread r)"
  obtains r' where "PacketReader_ReadString r str = Inr (True, take (unat len) (drop 4 (unread r)), r')"
    and "reader_ok r'" and "unread r' = drop (4 + unat len) (unread r)"
proof -
  let ?r1 = "r\<lparr>pr_offset := pr_offset r + 4\<rparr>"
  have r1: "reader_ok ?r1" "unread ?r1 = drop 4 (unread r)"
    using advance_ok [OF r, of 4] n by simp_all
  have u: "unat (ucast len :: usize) = unat len"
    by (simp add: unat_ucast_32_64)
  have "\<not> PacketReader_GetRemainingBytes ?r1 < ucast len"
    using unat_GetRemainingBytes [OF r1(1)] r1(2) fits u by (simp add: word_less_nat_alt)
  moreover have "PacketReader_peek ?r1 (unat len) = Inr (take (unat len) (unread ?r1))"
    using peek_ok [OF r1(1), of "unat len"] fits r1(2) unread_nonnull [of r] n by fastforce
  ultimately have 1: "PacketReader_ReadString r str = Inr (True, take (unat len) (drop 4 (unread r)),
      ?r1\<lparr>pr_offset := pr_offset ?r1 + ucast len\<rparr>)"
    using Read_length_fits [OF r n] r1(2) len
    by (simp add: PacketReader_ReadString_def Let_def)
  from advance_ok [OF r1(1), of "ucast len"] fits r1(2) u
  have "reader_ok (?r1\<lparr>pr_offset := pr_offset ?r1 + ucast len\<rparr>)"
    and "unread (?r1\<lparr>pr_offset := pr_offset ?r1 + ucast len\<rparr>) = drop (4 + unat len) (unread r)"
    by (simp_all add: add.commute)
  with 1 show ?thesis using that by blast
qed


section \<open>The contracts of a byte sink and a byte source\<close>

text \<open>
  What a writer promises its clients: it appends what fits into its room, and refuses the rest
  without a trace. The clients write a prefix and then a payload.
\<close>

locale byte_sink =
  fixes put :: "'w \<Rightarrow> u8 list \<Rightarrow> (bool \<times> 'w) result"
    and sent :: "'w \<Rightarrow> u8 list"
    and sink_ok :: "'w \<Rightarrow> bool"
    and room :: nat
  assumes put_fits: "sink_ok w \<Longrightarrow> length (sent w) + length bs \<le> room \<Longrightarrow>
      \<exists>w'. put w bs = Inr (True, w') \<and> sink_ok w' \<and> sent w' = sent w @ bs"
    and put_full: "sink_ok w \<Longrightarrow> room < length (sent w) + length bs \<Longrightarrow> length bs < 2 ^ 63 \<Longrightarrow>
      put w bs = Inr (False, w)"
begin

lemma put_prefixed:
  assumes "sink_ok w" and "length (sent w) + length pre + length bs \<le> room"
  obtains w1 w2 where "put w pre = Inr (True, w1)" and "put w1 bs = Inr (True, w2)"
    and "sink_ok w2" and "sent w2 = sent w @ pre @ bs"
proof -
  obtain w1 where w1: "put w pre = Inr (True, w1)" "sink_ok w1" "sent w1 = sent w @ pre"
    using put_fits [of w pre] assms by auto
  moreover obtain w2 where "put w1 bs = Inr (True, w2)" "sink_ok w2" "sent w2 = sent w1 @ bs"
    using put_fits [of w1 bs] assms w1 by auto
  ultimately show ?thesis using that by simp
qed

lemma put_prefix_only:
  assumes "sink_ok w" and "length (sent w) + length pre \<le> room"
    and "room < length (sent w) + length pre + length bs" and "length bs < 2 ^ 63"
  obtains w1 where "put w pre = Inr (True, w1)" and "put w1 bs = Inr (False, w1)"
    and "sink_ok w1" and "sent w1 = sent w @ pre"
proof -
  obtain w1 where w1: "put w pre = Inr (True, w1)" "sink_ok w1" "sent w1 = sent w @ pre"
    using put_fits [of w pre] assms by auto
  moreover have "put w1 bs = Inr (False, w1)"
    using put_full [of w1 bs] assms w1 by simp
  ultimately show ?thesis using that by simp
qed

end

text \<open>
  What a reader promises: the bytes in order, and a failure without a trace when too few are left.
\<close>

locale byte_source =
  fixes get :: "'r \<Rightarrow> nat \<Rightarrow> (bool \<times> u8 list \<times> 'r) result"
    and remaining :: "'r \<Rightarrow> u8 list"
    and source_ok :: "'r \<Rightarrow> bool"
  assumes get_fits: "source_ok r \<Longrightarrow> 0 < n \<Longrightarrow> n < 2 ^ 64 \<Longrightarrow> n \<le> length (remaining r) \<Longrightarrow>
      \<exists>r'. get r n = Inr (True, take n (remaining r), r') \<and> source_ok r'
        \<and> remaining r' = drop n (remaining r)"
    and get_short: "source_ok r \<Longrightarrow> n < 2 ^ 64 \<Longrightarrow> length (remaining r) < n \<Longrightarrow>
      \<exists>d. get r n = Inr (False, d, r)"
begin

lemma get_front:
  assumes "source_ok r" and "remaining r = bs @ rest" and "bs \<noteq> []" and "length bs < 2 ^ 64"
  obtains r' where "get r (length bs) = Inr (True, bs, r')" and "source_ok r'" and "remaining r' = rest"
  using get_fits [of r "length bs"] assms that by auto

lemma get_prefixed:
  assumes "source_ok r" and "remaining r = pre @ bs @ rest"
    and "pre \<noteq> []" and "bs \<noteq> []" and "length pre < 2 ^ 64" and "length bs < 2 ^ 64"
  obtains r1 r2 where "get r (length pre) = Inr (True, pre, r1)"
    and "get r1 (length bs) = Inr (True, bs, r2)" and "source_ok r2" and "remaining r2 = rest"
proof -
  obtain r1 where r1: "get r (length pre) = Inr (True, pre, r1)" "source_ok r1" "remaining r1 = bs @ rest"
    using get_front [OF assms(1,2,3,5)] by blast
  obtain r2 where "get r1 (length bs) = Inr (True, bs, r2)" "source_ok r2" "remaining r2 = rest"
    using get_front [OF r1(2,3) assms(4,6)] by blast
  with r1(1) show ?thesis using that by blast
qed

end

definition writer_put :: "packet_writer \<Rightarrow> u8 list \<Rightarrow> (bool \<times> packet_writer) result" where
  "writer_put w bs = PacketWriter_WriteBytes w (Some bs) (of_nat (length bs))"

definition reader_get :: "packet_reader \<Rightarrow> nat \<Rightarrow> (bool \<times> u8 list \<times> packet_reader) result" where
  "reader_get r n = PacketReader_Read r (replicate n 0)"

interpretation pw: byte_sink writer_put written writer_ok 65536
proof
  fix w and bs :: "u8 list"
  assume w: "writer_ok w" and fits: "length (written w) + length bs \<le> 65536"
  then have u: "unat (of_nat (length bs) :: usize) = length bs"
    by (simp add: unat_of_nat64)
  obtain w' where "PacketWriter_WriteBytes w (Some bs) (of_nat (length bs)) = Inr (True, w')"
      "writer_ok w'" "written w' = written w @ bs"
    using WriteBytes_fits [OF w, of "of_nat (length bs)" bs] fits u length_written [OF w] by auto
  then show "\<exists>w'. writer_put w bs = Inr (True, w') \<and> writer_ok w' \<and> written w' = written w @ bs"
    by (simp add: writer_put_def)
next
  fix w and bs :: "u8 list"
  assume w: "writer_ok w" and full: "65536 < length (written w) + length bs" and "length bs < 2 ^ 63"
  then have "unat (of_nat (length bs) :: usize) = length bs"
    by (simp add: unat_of_nat64)
  then show "writer_put w bs = Inr (False, w)"
    using WriteBytes_full [OF w, of "of_nat (length bs)"] full length_written [OF w] \<open>length bs < 2 ^ 63\<close>
    by (simp add: writer_put_def)
qed

interpretation pr: byte_source reader_get unread reader_ok
proof
  fix r n
  assume r: "reader_ok r" and n: "0 < n" "n < 2 ^ 64" "n \<le> length (unread r)"
  have "unat (of_nat n :: usize) = n"
    using n(2) by (rule unat_of_nat64)
  with Read_fits [OF r, of "replicate n 0"] advance_ok [OF r, of "of_nat n"] n
  show "\<exists>r'. reader_get r n = Inr (True, take n (unread r), r') \<and> reader_ok r' \<and> unread r' = drop n (unread r)"
    by (simp add: reader_get_def)
next
  fix r n
  assume "reader_ok r" and "n < 2 ^ 64" and "length (unread r) < n"
  then show "\<exists>d. reader_get r n = Inr (False, d, r)"
    by (simp add: reader_get_def Read_short)
qed

section \<open>Strings through the writer\<close>

lemma PacketWriter_Write_put: "PacketWriter_Write w object = writer_put w object"
  by (simp add: PacketWriter_Write_def writer_put_def)

lemma WriteString_put:
  "PacketWriter_WriteString w str =
     and_then (writer_put w (word_bytes (of_nat (length str) :: u32))) (\<lambda>(ok, w1).
        if \<not> ok then Inr (False, w1)
        else and_then (writer_put w1 str) (\<lambda>(ok', w2).
          if \<not> ok' then Inr (False, w2\<lparr>pw_offset := pw_offset w\<rparr>) else Inr (True, w2)))"
  unfolding PacketWriter_WriteString_def PacketWriter_Write_put writer_put_def Let_def ..

lemma WriteString_fits:
  assumes "writer_ok w" and "length (written w) + 4 + length str \<le> 65536"
  obtains w' where "PacketWriter_WriteString w str = Inr (True, w')" and "writer_ok w'"
    and "written w' = written w @ word_bytes (of_nat (length str) :: u32) @ str"
proof -
  obtain w1 w2 where "writer_put w (word_bytes (of_nat (length str) :: u32)) = Inr (True, w1)"
      "writer_put w1 str = Inr (True, w2)" "writer_ok w2"
      "written w2 = written w @ word_bytes (of_nat (length str) :: u32) @ str"
    using pw.put_prefixed [of w "word_bytes (of_nat (length str) :: u32)" str] assms by auto
  then show ?thesis using that by (simp add: WriteString_put)
qed

text \<open>
  A string whose payload does not fit is rolled back: the offset, and so the bytes written, are
  what they were. (The buffer keeps the four bytes it may have grown by.)
\<close>

lemma WriteString_overflow:
  assumes w: "writer_ok w" and "65536 < length (written w) + 4 + length str" and "length str < 2 ^ 63"
  obtains w' where "PacketWriter_WriteString w str = Inr (False, w')" and "writer_ok w'"
    and "written w' = written w" and "pw_offset w' = pw_offset w"
proof (cases "length (written w) + 4 \<le> 65536")
  case True
  let ?pre = "word_bytes (of_nat (length str) :: u32)"
  obtain w1 where w1: "writer_put w ?pre = Inr (True, w1)" "writer_put w1 str = Inr (False, w1)"
      "writer_ok w1" "written w1 = written w @ ?pre"
    using pw.put_prefix_only [of w ?pre str] assms True by auto
  let ?w' = "w1\<lparr>pw_offset := pw_offset w\<rparr>"
  have "unat (pw_offset w) \<le> unat (pw_offset w1)"
    using length_written [OF w] length_written [OF w1(3)] w1(4) by simp
  moreover from this have "written ?w' = take (unat (pw_offset w)) (written w1)"
    by (simp add: written_def min_def)
  ultimately have "writer_ok ?w'" and "written ?w' = written w"
    using w1(3,4) length_written [OF w] by (simp_all add: writer_ok_def)
  then show ?thesis using that w1 by (simp add: WriteString_put)
next
  case False
  then have "writer_put w (word_bytes (of_nat (length str) :: u32)) = Inr (False, w)"
    using pw.put_full [OF w] by simp
  then show ?thesis using that w by (simp add: WriteString_put)
qed


section \<open>Properties\<close>

text \<open>\<open>PacketWriter::WriteBytes\<close> on a valid writer and a source region of the stated size never
  reaches undefined behaviour and never throws. If the bytes fit under \<open>kMaxPacketSize\<close> they are
  appended to what was written and every later byte of the buffer is unchanged; if they do not,
  the call returns false and the writer is exactly what it was.\<close>

theorem WriteBytes_spec:
  assumes "writer_ok w" and "unat n \<le> length src" and "length src < 2 ^ 63"
  shows "if unat (pw_offset w) + unat n \<le> 65536
    then \<exists>w'. PacketWriter_WriteBytes w (Some src) n = Inr (True, w') \<and> writer_ok w'
      \<and> written w' = written w @ take (unat n) src
      \<and> drop (unat (pw_offset w) + unat n) (pb_bytes (pw_buffer w'))
        = drop (unat (pw_offset w) + unat n) (pb_bytes (pw_buffer w))
    else PacketWriter_WriteBytes w (Some src) n = Inr (False, w)"
proof (cases "unat (pw_offset w) + unat n \<le> 65536")
  case True
  then show ?thesis using WriteBytes_fits [OF assms(1,2)] by auto
next
  case False
  then show ?thesis using WriteBytes_full [OF assms(1)] assms(2,3) by simp
qed

theorem WriteBytes_spec_witness:
  "let w = \<lparr>pw_buffer = \<lparr>pb_bytes = [7, 8], pb_capacity = 16\<rparr>, pw_offset = 1\<rparr> in
   \<exists>w'. PacketWriter_WriteBytes w (Some [1, 2, 3]) 2 = Inr (True, w') \<and> writer_ok w'
     \<and> written w' = [7, 1, 2]"
  using WriteBytes_spec [of "\<lparr>pw_buffer = \<lparr>pb_bytes = [7, 8], pb_capacity = 16\<rparr>, pw_offset = 1\<rparr>"
      2 "[1, 2, 3]"]
  by (auto simp: writer_ok_def buffer_ok_def written_def)

text \<open>C31. A reader over a valid view never reads outside it: \<open>ReadBytes\<close> into a destination of the
  stated size and \<open>ReadString\<close>, on whatever bytes the peer sent, always return (no undefined
  behaviour, no exception), keep the offset inside the view and do not move the view. A failed
  \<open>ReadString\<close> leaves the reader where it was and the caller's string unchanged.\<close>

theorem reader_never_out_of_bounds:
  assumes "reader_ok r" and "unat n \<le> length d"
  shows "(\<exists>ok d' r'. PacketReader_ReadBytes r (Some d) n = Inr (ok, d', r') \<and> reader_ok r'
            \<and> pr_view r' = pr_view r \<and> pr_offset r \<le> pr_offset r')
    \<and> (\<exists>ok str' r'. PacketReader_ReadString r str = Inr (ok, str', r') \<and> reader_ok r'
            \<and> pr_view r' = pr_view r \<and> (\<not> ok \<longrightarrow> r' = r \<and> str' = str))"
proof
  show "\<exists>ok d' r'. PacketReader_ReadBytes r (Some d) n = Inr (ok, d', r') \<and> reader_ok r'
            \<and> pr_view r' = pr_view r \<and> pr_offset r \<le> pr_offset r'"
  proof (cases "n \<noteq> 0 \<and> unat n \<le> length (unread r)")
    case True
    with assms have "PacketReader_ReadBytes r (Some d) n = Inr (True, Some (take (unat n) (unread r) @
        drop (unat n) d), r\<lparr>pr_offset := pr_offset r + n\<rparr>)"
      by (intro ReadBytes_fits) auto
    with advance_ok(1) [OF assms(1), of n] advance_offset_le [OF assms(1), of n] True
    show ?thesis by auto
  next
    case False
    with assms(1) ReadBytes_short [OF assms(1), of n "Some d"] show ?thesis
      by (cases "n = 0") (auto simp: PacketReader_ReadBytes_def)
  qed
next
  let ?len = "word_of_bytes (take 4 (unread r)) :: u32"
  consider "length (unread r) < 4" | "4 \<le> length (unread r)" "length (unread r) < 4 + unat ?len"
    | "4 \<le> length (unread r)" "4 + unat ?len \<le> length (unread r)" by linarith
  then show "\<exists>ok str' r'. PacketReader_ReadString r str = Inr (ok, str', r') \<and> reader_ok r'
            \<and> pr_view r' = pr_view r \<and> (\<not> ok \<longrightarrow> r' = r \<and> str' = str)"
  proof cases
    case 1
    with assms(1) ReadString_no_length show ?thesis by auto
  next
    case 2
    with assms(1) ReadString_short show ?thesis by auto
  next
    case 3
    with ReadString_fits [OF assms(1) _ refl, of str] show ?thesis
      by (metis PacketReader_ReadString_view)
  qed
qed

theorem reader_never_out_of_bounds_witness:
  "let r = \<lparr>pr_view = \<lparr>pv_data = Some [9, 0, 0, 0, 65], pv_size = 5\<rparr>, pr_offset = 0\<rparr> in
   \<exists>ok str' r'. PacketReader_ReadString r [] = Inr (ok, str', r') \<and> reader_ok r'"
  using reader_never_out_of_bounds
    [of "\<lparr>pr_view = \<lparr>pv_data = Some [9, 0, 0, 0, 65], pv_size = 5\<rparr>, pr_offset = 0\<rparr>" 0 "[]" "[]"]
  by (auto simp: reader_ok_def view_ok_def)

end
