(* ===== verification/Serialization.thy ===== *)
theory Serialization
  imports Packet_IO
begin

text \<open>
  The serialization component (\<open>infrastructure/serialization\<close>): \<open>BinaryWriter\<close> and
  \<open>BinaryReader\<close> hold a reference to a packet writer or reader, which is their whole state;
  \<open>PrimitiveSerializer\<close> moves object representations, \<open>StringSerializer\<close> a 32-bit length followed
  by the characters. Strings are lists of bytes.
\<close>

section \<open>BinaryWriter and BinaryReader\<close>

definition MaxStringLength :: u32 where
  "MaxStringLength = 1024 * 1024"

lemma unat_MaxStringLength [simp]: "unat MaxStringLength = 1048576"
  by (simp add: MaxStringLength_def)

definition BinaryWriter_WriteBytes ::
    "packet_writer \<Rightarrow> u8 list option \<Rightarrow> usize \<Rightarrow> (bool \<times> packet_writer) result" where
  "BinaryWriter_WriteBytes w data n =
     (if n = 0 then Inr (True, w)
      else if data = None then Inr (False, w)
      else PacketWriter_WriteBytes w data n)"

definition PrimitiveSerializer_Serialize :: "packet_writer \<Rightarrow> u8 list \<Rightarrow> (bool \<times> packet_writer) result" where
  "PrimitiveSerializer_Serialize w object =
     BinaryWriter_WriteBytes w (Some object) (of_nat (length object))"

definition BinaryWriter_Write :: "packet_writer \<Rightarrow> u8 list \<Rightarrow> (bool \<times> packet_writer) result" where
  "BinaryWriter_Write w object = PrimitiveSerializer_Serialize w object"

definition BinaryReader_ReadBytes ::
    "packet_reader \<Rightarrow> u8 list option \<Rightarrow> usize \<Rightarrow> (bool \<times> u8 list option \<times> packet_reader) result" where
  "BinaryReader_ReadBytes r dest n =
     (if n = 0 then Inr (True, dest, r)
      else if dest = None then Inr (False, dest, r)
      else PacketReader_ReadBytes r dest n)"

definition PrimitiveSerializer_Deserialize ::
    "packet_reader \<Rightarrow> u8 list \<Rightarrow> (bool \<times> u8 list \<times> packet_reader) result" where
  "PrimitiveSerializer_Deserialize r object =
     and_then (BinaryReader_ReadBytes r (Some object) (of_nat (length object)))
       (\<lambda>(ok, d, r'). Inr (ok, (case d of None \<Rightarrow> object | Some bs \<Rightarrow> bs), r'))"

definition BinaryReader_Read :: "packet_reader \<Rightarrow> u8 list \<Rightarrow> (bool \<times> u8 list \<times> packet_reader) result" where
  "BinaryReader_Read r object = PrimitiveSerializer_Deserialize r object"

section \<open>StringSerializer\<close>

definition StringSerializer_Serialize :: "packet_writer \<Rightarrow> u8 list \<Rightarrow> (bool \<times> packet_writer) result" where
  "StringSerializer_Serialize w str =
     (if (of_nat (length str) :: usize) > ucast MaxStringLength then Inr (False, w)
      else let len = (of_nat (length str) :: u32) in
        and_then (BinaryWriter_Write w (word_bytes len)) (\<lambda>(ok, w1).
          if \<not> ok then Inr (False, w1)
          else if len = 0 then Inr (True, w1)
          else BinaryWriter_WriteBytes w1 (Some str) (ucast len)))"

definition StringSerializer_Deserialize ::
    "packet_reader \<Rightarrow> u8 list \<Rightarrow> (bool \<times> u8 list \<times> packet_reader) result" where
  "StringSerializer_Deserialize r str =
     and_then (BinaryReader_Read r (word_bytes (0 :: u32))) (\<lambda>(ok, object, r1).
       let len = (word_of_bytes object :: u32) in
       if \<not> ok then Inr (False, str, r1)
       else if len > MaxStringLength then Inr (False, str, r1)
       else if len = 0 then Inr (True, [], r1)
       else and_then (BinaryReader_ReadBytes r1 (Some (vec_resize 0 str (unat len))) (ucast len))
         (\<lambda>(ok', d, r2).
           if \<not> ok' then Inr (False, [], r2)
           else Inr (True, (case d of None \<Rightarrow> [] | Some bs \<Rightarrow> bs), r2)))"

definition BinaryWriter_WriteString :: "packet_writer \<Rightarrow> u8 list \<Rightarrow> (bool \<times> packet_writer) result" where
  "BinaryWriter_WriteString w str = StringSerializer_Serialize w str"

definition BinaryReader_ReadString ::
    "packet_reader \<Rightarrow> u8 list \<Rightarrow> (bool \<times> u8 list \<times> packet_reader) result" where
  "BinaryReader_ReadString r str = StringSerializer_Deserialize r str"

section \<open>The serializers as sink and source\<close>

lemma BinaryWriter_Write_put: "BinaryWriter_Write w object = writer_put w object"
  by (simp add: BinaryWriter_Write_def PrimitiveSerializer_Serialize_def BinaryWriter_WriteBytes_def
      writer_put_def PacketWriter_WriteBytes_def)

interpretation bw: byte_sink BinaryWriter_Write written writer_ok 65536
  unfolding BinaryWriter_Write_put [abs_def] by (rule pw.byte_sink_axioms)

definition binary_get :: "packet_reader \<Rightarrow> nat \<Rightarrow> (bool \<times> u8 list \<times> packet_reader) result" where
  "binary_get r n = BinaryReader_Read r (replicate n 0)"

lemma BinaryReader_Read_eq:
  "object \<noteq> [] \<Longrightarrow> length object < 2 ^ 64 \<Longrightarrow> BinaryReader_Read r object = PacketReader_Read r object"
  using unat_of_nat64 [of "length object"]
  by (auto simp: BinaryReader_Read_def PrimitiveSerializer_Deserialize_def
      BinaryReader_ReadBytes_def PacketReader_Read_def)

interpretation br: byte_source binary_get unread reader_ok
proof
  fix r n
  assume "reader_ok r" "0 < n" "n < (2 :: nat) ^ 64" "n \<le> length (unread r)"
  moreover from this have "binary_get r n = reader_get r n"
    by (simp add: binary_get_def reader_get_def BinaryReader_Read_eq)
  ultimately show "\<exists>r'. binary_get r n = Inr (True, take n (unread r), r') \<and> reader_ok r'
      \<and> unread r' = drop n (unread r)"
    using pr.get_fits by simp
next
  fix r n
  assume "reader_ok r" "n < (2 :: nat) ^ 64" "length (unread r) < n"
  moreover from this have "binary_get r n = reader_get r n"
    by (simp add: binary_get_def reader_get_def BinaryReader_Read_eq)
  ultimately show "\<exists>d. binary_get r n = Inr (False, d, r)"
    using pr.get_short by simp
qed

lemma unat_length_u32: "length str \<le> 1048576 \<Longrightarrow> unat (of_nat (length str) :: u32) = length str"
  by (rule unat_of_nat32) simp

lemma Serialize_put:
  assumes "length str \<le> 1048576"
  shows "StringSerializer_Serialize w str =
    and_then (BinaryWriter_Write w (word_bytes (of_nat (length str) :: u32))) (\<lambda>(ok, w1).
      if \<not> ok then Inr (False, w1) else if str = [] then Inr (True, w1)
      else BinaryWriter_Write w1 str)"
proof -
  have "(of_nat (length str) :: u32) = 0 \<longleftrightarrow> str = []"
    using assms of_nat_eq_0_small [of "length str", where 'a = 32] by simp
  moreover have "(ucast (of_nat (length str) :: u32) :: usize) = of_nat (length str)"
    using assms by (intro ucast_of_nat_32_64) simp
  moreover have "\<not> (ucast MaxStringLength :: usize) < of_nat (length str)"
    using assms by (simp only: word_less_nat_alt unat_ucast_32_64 unat_MaxStringLength) (simp add: unat_of_nat64)
  ultimately show ?thesis
    unfolding StringSerializer_Serialize_def Let_def
    by (simp add: BinaryWriter_Write_def PrimitiveSerializer_Serialize_def cong: if_cong)
qed

lemma Serialize_too_long:
  assumes "1048576 < length str" and "length str < 2 ^ 64"
  shows "StringSerializer_Serialize w str = Inr (False, w)"
proof -
  have "(ucast MaxStringLength :: usize) < of_nat (length str)"
    using assms by (simp only: word_less_nat_alt unat_ucast_32_64 unat_MaxStringLength unat_of_nat64)
  then show ?thesis by (simp add: StringSerializer_Serialize_def)
qed

lemma Serialize_fits:
  assumes "writer_ok w" and "length (written w) + 4 + length str \<le> 65536"
  obtains w' where "StringSerializer_Serialize w str = Inr (True, w')" and "writer_ok w'"
    and "written w' = written w @ word_bytes (of_nat (length str) :: u32) @ str"
proof -
  obtain w1 w2 where "BinaryWriter_Write w (word_bytes (of_nat (length str) :: u32)) = Inr (True, w1)"
      "BinaryWriter_Write w1 str = Inr (True, w2)" "writer_ok w2"
      "written w2 = written w @ word_bytes (of_nat (length str) :: u32) @ str"
    using bw.put_prefixed [of w "word_bytes (of_nat (length str) :: u32)" str] assms by auto
  moreover from this have "str = [] \<Longrightarrow> w1 = w2"
    by (simp add: BinaryWriter_Write_put writer_put_def)
  ultimately show ?thesis
    using that [of w2] assms by (cases "str = []") (simp_all add: Serialize_put)
qed

text \<open>Unlike \<open>PacketWriter::WriteString\<close>, a payload that does not fit leaves its length prefix behind.\<close>

lemma Serialize_overflow:
  assumes "writer_ok w" and "length (written w) + 4 \<le> 65536"
    and "65536 < length (written w) + 4 + length str" and "length str \<le> 1048576"
  obtains w' where "StringSerializer_Serialize w str = Inr (False, w')" and "writer_ok w'"
    and "written w' = written w @ word_bytes (of_nat (length str) :: u32)"
proof -
  obtain w1 where "BinaryWriter_Write w (word_bytes (of_nat (length str) :: u32)) = Inr (True, w1)"
      "BinaryWriter_Write w1 str = Inr (False, w1)" "writer_ok w1"
      "written w1 = written w @ word_bytes (of_nat (length str) :: u32)"
    using bw.put_prefix_only [of w "word_bytes (of_nat (length str) :: u32)" str] assms by auto
  moreover have "str \<noteq> []" using assms(2,3) by auto
  ultimately show ?thesis using that assms(4) by (simp add: Serialize_put)
qed


section \<open>Deserialising\<close>

lemma binary_get_Read:
  "reader_ok r \<Longrightarrow> object \<noteq> [] \<Longrightarrow> length object < 2 ^ 64 \<Longrightarrow> length object \<le> length (unread r) \<Longrightarrow>
   BinaryReader_Read r object = binary_get r (length object)"
  by (simp add: binary_get_def BinaryReader_Read_eq Read_fits)

lemma word_bytes_nonempty [simp]: "8 \<le> LENGTH('a::len) \<Longrightarrow> word_bytes (w :: 'a word) \<noteq> []"
  by (metis length_word_bytes list.size(3) div_greater_zero_iff less_numeral_extra(3) zero_less_numeral)

lemma Deserialize_no_length:
  assumes "reader_ok r" and "length (unread r) < 4"
  shows "StringSerializer_Deserialize r str = Inr (False, str, r)"
  using Read_short [OF assms(1), of "word_bytes (0 :: u32)"] assms(2)
  by (simp add: StringSerializer_Deserialize_def BinaryReader_Read_eq)

lemma Deserialize_length:
  assumes r: "reader_ok r" and n: "4 \<le> length (unread r)"
    and len: "len = (word_of_bytes (take 4 (unread r)) :: u32)"
  shows "StringSerializer_Deserialize r str =
    (let r1 = r\<lparr>pr_offset := pr_offset r + 4\<rparr> in
       if len > MaxStringLength then Inr (False, str, r1)
       else if len = 0 then Inr (True, [], r1)
       else and_then (PacketReader_ReadBytes r1 (Some (vec_resize 0 str (unat len))) (ucast len))
         (\<lambda>(ok', d, r2).
           if \<not> ok' then Inr (False, [], r2)
           else Inr (True, (case d of None \<Rightarrow> [] | Some bs \<Rightarrow> bs), r2)))"
proof -
  have "(ucast len :: usize) = 0 \<longleftrightarrow> len = 0"
    by (metis unat_ucast_32_64 unsigned_eq_0_iff)
  then show ?thesis
    unfolding StringSerializer_Deserialize_def Let_def len
    by (simp add: BinaryReader_Read_eq Read_length_fits [OF r n] BinaryReader_ReadBytes_def cong: if_cong)
qed

lemma Deserialize_fits:
  assumes r: "reader_ok r" and un: "unread r = word_bytes (of_nat (length bs) :: u32) @ bs @ rest"
    and len: "length bs \<le> 1048576"
  obtains r' where "StringSerializer_Deserialize r str = Inr (True, bs, r')" and "reader_ok r'"
    and "unread r' = rest"
proof -
  let ?len = "of_nat (length bs) :: u32"
  let ?r1 = "r\<lparr>pr_offset := pr_offset r + 4\<rparr>"
  have l: "?len = word_of_bytes (take 4 (unread r))"
    using un by (simp add: word_of_bytes_word_bytes)
  have ul: "unat ?len = length bs" using len by (rule unat_length_u32)
  have nz: "?len = 0 \<longleftrightarrow> bs = []"
    using len of_nat_eq_0_small [of "length bs", where 'a = 32] by simp
  have r1: "reader_ok ?r1" "unread ?r1 = bs @ rest"
    using advance_ok [OF r, of 4] un by simp_all
  have small: "\<not> MaxStringLength < ?len"
    using ul len by (simp only: word_less_nat_alt unat_MaxStringLength)
  show ?thesis
  proof (cases "bs = []")
    case True
    then show ?thesis
      using that [of ?r1] Deserialize_length [OF r _ l, of str] un nz small r1 by simp
  next
    case False
    have u: "unat (ucast ?len :: usize) = length bs"
      using ul by (simp only: unat_ucast_32_64)
    have ne: "(ucast ?len :: usize) \<noteq> 0"
      using u False by (metis length_0_conv unsigned_0)
    have "PacketReader_ReadBytes ?r1 (Some (vec_resize 0 str (unat ?len))) (ucast ?len)
        = Inr (True, Some bs, ?r1\<lparr>pr_offset := pr_offset ?r1 + ucast ?len\<rparr>)"
      using ReadBytes_fits [OF r1(1) ne, of "vec_resize 0 str (unat ?len)"] u ul r1(2) by simp
    moreover have "reader_ok (?r1\<lparr>pr_offset := pr_offset ?r1 + ucast ?len\<rparr>)"
      and "unread (?r1\<lparr>pr_offset := pr_offset ?r1 + ucast ?len\<rparr>) = rest"
      using advance_ok [OF r1(1), of "ucast ?len"] u r1(2) by simp_all
    ultimately show ?thesis
      using that Deserialize_length [OF r _ l, of str] un nz False small by simp
  qed
qed

section \<open>Messages\<close>

text \<open>
  A message is a sequence of typed fields; a caller writes it with one \<open>Write\<close> or
  \<open>WriteString\<close> per field and reads it with the matching calls into values that are overwritten.
\<close>

datatype field = U8 u8 | U16 u16 | U32 u32 | U64 u64 | Str "u8 list"

fun field_bytes :: "field \<Rightarrow> u8 list" where
  "field_bytes (U8 v) = word_bytes v"
| "field_bytes (U16 v) = word_bytes v"
| "field_bytes (U32 v) = word_bytes v"
| "field_bytes (U64 v) = word_bytes v"
| "field_bytes (Str s) = word_bytes (of_nat (length s) :: u32) @ s"

fun write_field :: "packet_writer \<Rightarrow> field \<Rightarrow> (bool \<times> packet_writer) result" where
  "write_field w (U8 v) = BinaryWriter_Write w (word_bytes v)"
| "write_field w (U16 v) = BinaryWriter_Write w (word_bytes v)"
| "write_field w (U32 v) = BinaryWriter_Write w (word_bytes v)"
| "write_field w (U64 v) = BinaryWriter_Write w (word_bytes v)"
| "write_field w (Str s) = BinaryWriter_WriteString w s"

fun read_field :: "packet_reader \<Rightarrow> field \<Rightarrow> (bool \<times> field \<times> packet_reader) result" where
  "read_field r (U8 v) = and_then (BinaryReader_Read r (word_bytes v)) (\<lambda>(ok, bs, r'). Inr (ok, U8 (word_of_bytes bs), r'))"
| "read_field r (U16 v) = and_then (BinaryReader_Read r (word_bytes v)) (\<lambda>(ok, bs, r'). Inr (ok, U16 (word_of_bytes bs), r'))"
| "read_field r (U32 v) = and_then (BinaryReader_Read r (word_bytes v)) (\<lambda>(ok, bs, r'). Inr (ok, U32 (word_of_bytes bs), r'))"
| "read_field r (U64 v) = and_then (BinaryReader_Read r (word_bytes v)) (\<lambda>(ok, bs, r'). Inr (ok, U64 (word_of_bytes bs), r'))"
| "read_field r (Str s) = and_then (BinaryReader_ReadString r s) (\<lambda>(ok, bs, r'). Inr (ok, Str bs, r'))"

fun write_message :: "packet_writer \<Rightarrow> field list \<Rightarrow> (bool \<times> packet_writer) result" where
  "write_message w [] = Inr (True, w)"
| "write_message w (f # fs) =
     and_then (write_field w f) (\<lambda>(ok, w'). if ok then write_message w' fs else Inr (False, w'))"

fun read_message :: "packet_reader \<Rightarrow> field list \<Rightarrow> (bool \<times> field list \<times> packet_reader) result" where
  "read_message r [] = Inr (True, [], r)"
| "read_message r (f # fs) =
     and_then (read_field r f) (\<lambda>(ok, f', r').
       if ok then and_then (read_message r' fs) (\<lambda>(ok', fs', r''). Inr (ok', f' # fs', r''))
       else Inr (False, f' # fs, r'))"

text \<open>The fields the reader starts from have the kinds of the message and arbitrary values.\<close>

fun same_kind :: "field \<Rightarrow> field \<Rightarrow> bool" where
  "same_kind (U8 _) (U8 _) = True"
| "same_kind (U16 _) (U16 _) = True"
| "same_kind (U32 _) (U32 _) = True"
| "same_kind (U64 _) (U64 _) = True"
| "same_kind (Str _) (Str _) = True"
| "same_kind _ _ = False"

lemma write_field_fits:
  assumes "writer_ok w" and "length (written w) + length (field_bytes f) \<le> 65536"
  obtains w' where "write_field w f = Inr (True, w')" and "writer_ok w'"
    and "written w' = written w @ field_bytes f"
proof (cases f)
  case (Str s)
  then show ?thesis
    using that Serialize_fits [of w s] assms by (auto simp: BinaryWriter_WriteString_def)
qed (use that bw.put_fits [of w "field_bytes f"] assms in auto)

lemma write_message_fits:
  assumes "writer_ok w" and "length (written w) + length (concat (map field_bytes fs)) \<le> 65536"
  shows "\<exists>w'. write_message w fs = Inr (True, w') \<and> writer_ok w'
    \<and> written w' = written w @ concat (map field_bytes fs)"
  using assms
proof (induction fs arbitrary: w)
  case Nil
  then show ?case by simp
next
  case (Cons f fs)
  then obtain w1 where "write_field w f = Inr (True, w1)" "writer_ok w1"
      "written w1 = written w @ field_bytes f"
    using write_field_fits [of w f] by auto
  then show ?case using Cons.IH [of w1] Cons.prems by auto
qed

lemma read_word_front:
  fixes v v0 :: "'a::len word"
  assumes r: "reader_ok r" and un: "unread r = word_bytes v @ rest"
    and sz: "8 \<le> LENGTH('a)" "LENGTH('a) \<le> 64" "8 dvd LENGTH('a)"
  shows "\<exists>r'. BinaryReader_Read r (word_bytes v0) = Inr (True, word_bytes v, r')
    \<and> reader_ok r' \<and> unread r' = rest"
proof -
  have "LENGTH('a) div 8 < 2 ^ 64" using sz(2) by simp
  moreover obtain r' where "binary_get r (LENGTH('a) div 8) = Inr (True, word_bytes v, r')"
      "reader_ok r'" "unread r' = rest"
    using br.get_front [OF r un] sz calculation by auto
  ultimately show ?thesis
    using binary_get_Read [OF r, of "word_bytes v0"] un sz by simp
qed

lemma read_field_front:
  assumes "reader_ok r" and "unread r = field_bytes f @ rest" and "same_kind f0 f"
    and "length (field_bytes f) \<le> 65536"
  obtains r' where "read_field r f0 = Inr (True, f, r')" and "reader_ok r'" and "unread r' = rest"
proof (cases f)
  case (Str s)
  with assms obtain s0 where "f0 = Str s0" by (cases f0) auto
  obtain r' where "StringSerializer_Deserialize r s0 = Inr (True, s, r')" "reader_ok r'" "unread r' = rest"
    using Deserialize_fits [of r s rest s0] assms Str by auto
  with Str \<open>f0 = Str s0\<close> that show ?thesis by (simp add: BinaryReader_ReadString_def)
next
  case (U8 v)
  with assms obtain v0 where "f0 = U8 v0" by (cases f0) auto
  with U8 assms that read_word_front [of r v rest v0] show ?thesis by (auto simp: word_of_bytes_word_bytes)
next
  case (U16 v)
  with assms obtain v0 where "f0 = U16 v0" by (cases f0) auto
  with U16 assms that read_word_front [of r v rest v0] show ?thesis by (auto simp: word_of_bytes_word_bytes)
next
  case (U32 v)
  with assms obtain v0 where "f0 = U32 v0" by (cases f0) auto
  with U32 assms that read_word_front [of r v rest v0] show ?thesis by (auto simp: word_of_bytes_word_bytes)
next
  case (U64 v)
  with assms obtain v0 where "f0 = U64 v0" by (cases f0) auto
  with U64 assms that read_word_front [of r v rest v0] show ?thesis by (auto simp: word_of_bytes_word_bytes)
qed

lemma read_message_front:
  assumes "reader_ok r" and "unread r = concat (map field_bytes fs) @ rest"
    and "list_all2 same_kind fs0 fs" and "length (concat (map field_bytes fs)) \<le> 65536"
  shows "\<exists>r'. read_message r fs0 = Inr (True, fs, r') \<and> reader_ok r' \<and> unread r' = rest"
  using assms(3,1,2,4)
proof (induction fs0 fs arbitrary: r rule: list_all2_induct)
  case Nil
  then show ?case by simp
next
  case (Cons f0 fs0 f fs)
  then obtain r1 where "read_field r f0 = Inr (True, f, r1)" "reader_ok r1"
      "unread r1 = concat (map field_bytes fs) @ rest"
    using read_field_front [of r f "concat (map field_bytes fs) @ rest" f0] by auto
  then show ?case using Cons.IH [of r1] Cons.prems by auto
qed


section \<open>Properties\<close>

text \<open>C16. Round trip: any message of integers and strings whose encoding fits in one packet is
  accepted by a \<open>BinaryWriter\<close> over a fresh packet writer, and a \<open>BinaryReader\<close> over the bytes
  written, called with the same field types in the same order, returns exactly the message's values
  and leaves no byte unread.\<close>

theorem message_roundtrip:
  assumes "buffer_ok b" and "length (concat (map field_bytes fs)) \<le> 65536"
    and "list_all2 same_kind fs0 fs"
  shows "\<exists>w r. write_message (PacketWriter_new b) fs = Inr (True, w)
    \<and> read_message (PacketReader_new
         (PacketView_new (Some (pb_bytes (pw_buffer w))) (PacketWriter_GetOffset w))) fs0
       = Inr (True, fs, r)
    \<and> PacketReader_GetRemainingBytes r = 0"
proof -
  obtain w where w: "write_message (PacketWriter_new b) fs = Inr (True, w)" "writer_ok w"
      "written w = concat (map field_bytes fs)"
    using write_message_fits [OF PacketWriter_new_ok [OF assms(1)], of fs] assms(2) by auto
  let ?v = "PacketView_new (Some (pb_bytes (pw_buffer w))) (PacketWriter_GetOffset w)"
  have "view_ok ?v" and "view_bytes ?v = concat (map field_bytes fs) @ []"
    using w(2,3) by (simp_all add: view_ok_def view_bytes_def PacketView_new_def
        PacketWriter_GetOffset_def writer_ok_def written_def)
  then obtain r where "read_message (PacketReader_new ?v) fs0 = Inr (True, fs, r)"
      "reader_ok r" "unread r = []"
    using read_message_front [of "PacketReader_new ?v" fs "[]" fs0] assms(2,3)
    by (auto simp: PacketReader_new_ok)
  moreover from this have "PacketReader_GetRemainingBytes r = 0"
    using unat_GetRemainingBytes [of r] by (simp add: unsigned_eq_0_iff)
  ultimately show ?thesis using w(1) by blast
qed

theorem message_roundtrip_witness:
  "\<exists>w r. write_message (PacketWriter_new \<lparr>pb_bytes = [], pb_capacity = 4096\<rparr>)
       [U16 513, Str [77, 77, 79], U64 9] = Inr (True, w)
    \<and> read_message (PacketReader_new
         (PacketView_new (Some (pb_bytes (pw_buffer w))) (PacketWriter_GetOffset w)))
         [U16 0, Str [], U64 0] = Inr (True, [U16 513, Str [77, 77, 79], U64 9], r)
    \<and> PacketReader_GetRemainingBytes r = 0"
  by (rule message_roundtrip) (simp_all add: buffer_ok_def)

text \<open>What a string that does not fit leaves behind. \<open>PacketWriter::WriteString\<close> rolls its
  offset back, so nothing has been written; \<open>StringSerializer::Serialize\<close> on the same writer and
  string also returns false, but the four bytes of the length prefix stay written.\<close>

theorem string_overflow_rollback:
  assumes "writer_ok w" and "length (written w) + 4 \<le> 65536"
    and "65536 < length (written w) + 4 + length str" and "length str \<le> 1048576"
  shows "(\<exists>w'. PacketWriter_WriteString w str = Inr (False, w') \<and> writer_ok w' \<and> written w' = written w)
    \<and> (\<exists>w'. StringSerializer_Serialize w str = Inr (False, w') \<and> writer_ok w'
          \<and> written w' = written w @ word_bytes (of_nat (length str) :: u32))"
proof
  have "length str < 2 ^ 63" using assms(4) by simp
  then show "\<exists>w'. PacketWriter_WriteString w str = Inr (False, w') \<and> writer_ok w' \<and> written w' = written w"
    using WriteString_overflow [OF assms(1,3)] by blast
  show "\<exists>w'. StringSerializer_Serialize w str = Inr (False, w') \<and> writer_ok w'
          \<and> written w' = written w @ word_bytes (of_nat (length str) :: u32)"
    using Serialize_overflow [OF assms] by blast
qed

theorem string_overflow_rollback_witness:
  "let w = PacketWriter_new \<lparr>pb_bytes = [], pb_capacity = 4096\<rparr>; str = replicate 65536 (0 :: u8) in
   (\<exists>w'. PacketWriter_WriteString w str = Inr (False, w') \<and> writer_ok w' \<and> written w' = [])
   \<and> (\<exists>w'. StringSerializer_Serialize w str = Inr (False, w') \<and> writer_ok w'
        \<and> written w' = word_bytes (of_nat (length str) :: u32))"
proof -
  have w: "writer_ok (PacketWriter_new \<lparr>pb_bytes = [], pb_capacity = 4096\<rparr>)"
    by (rule PacketWriter_new_ok) (simp add: buffer_ok_def)
  show ?thesis
    using string_overflow_rollback [OF w, of "replicate 65536 0"] by (simp only: Let_def) simp
qed

text \<open>\<open>StringSerializer::Deserialize\<close> on hostile input is safe but not transactional: it never
  reaches undefined behaviour, and a length above \<open>MaxStringLength\<close> or a truncated payload is refused,
  yet the four bytes of the length prefix have been consumed (and in the second case the caller's
  string has been emptied).\<close>

theorem Deserialize_refused:
  assumes r: "reader_ok r" and n: "4 \<le> length (unread r)"
    and bad: "1048576 < unat (word_of_bytes (take 4 (unread r)) :: u32)
      \<or> length (unread r) < 4 + unat (word_of_bytes (take 4 (unread r)) :: u32)"
  shows "\<exists>str' r'. StringSerializer_Deserialize r str = Inr (False, str', r') \<and> reader_ok r'
    \<and> pr_offset r' = pr_offset r + 4
    \<and> str' = (if 1048576 < unat (word_of_bytes (take 4 (unread r)) :: u32) then str else [])"
proof -
  let ?len = "word_of_bytes (take 4 (unread r)) :: u32"
  let ?r1 = "r\<lparr>pr_offset := pr_offset r + 4\<rparr>"
  have r1: "reader_ok ?r1" "unread ?r1 = drop 4 (unread r)"
    using advance_ok [OF r, of 4] n by simp_all
  note D = Deserialize_length [OF r n refl, of str]
  have big: "MaxStringLength < ?len \<longleftrightarrow> 1048576 < unat ?len"
    by (simp only: word_less_nat_alt unat_MaxStringLength)
  show ?thesis
  proof (cases "1048576 < unat ?len")
    case True
    with D big r1 show ?thesis by simp
  next
    case False
    with bad have short: "length (unread ?r1) < unat (ucast ?len :: usize)"
      using r1(2) n by (simp only: unat_ucast_32_64) simp
    then have "PacketReader_ReadBytes ?r1 (Some (vec_resize 0 str (unat ?len))) (ucast ?len)
        = Inr (False, Some (vec_resize 0 str (unat ?len)), ?r1)"
      by (rule ReadBytes_short [OF r1(1)])
    moreover have "?len \<noteq> 0"
      using short by (metis unat_ucast_32_64 unsigned_0 not_less_zero)
    ultimately show ?thesis using D False big r1(1) by simp
  qed
qed

theorem Deserialize_refused_witness:
  "\<exists>str' r'. StringSerializer_Deserialize
      \<lparr>pr_view = \<lparr>pv_data = Some [9, 0, 0, 0, 65], pv_size = 5\<rparr>, pr_offset = 0\<rparr> [1] = Inr (False, str', r')
    \<and> pr_offset r' = 4 \<and> str' = []"
  using Deserialize_refused
    [of "\<lparr>pr_view = \<lparr>pv_data = Some [9, 0, 0, 0, 65], pv_size = 5\<rparr>, pr_offset = 0\<rparr>" "[1]"]
  by (auto simp: reader_ok_def view_ok_def unread_def view_bytes_def word_of_bytes_def)

end
