(* ===== verification/Net_Codec.thy ===== *)
theory Net_Codec
  imports Bytes
begin

text \<open>
  \<open>PacketCodec\<close> of the network component: the 6-byte \<open>PacketFrame\<close>, \<open>Encode\<close>, \<open>Decode\<close>, and the
  loop by which the read handler of \<open>NetServer\<close> takes packets out of a connection's receive buffer.
  The main result is stream reassembly: however TCP cuts the stream into chunks, the packets come
  out exactly as they were encoded.
\<close>

section \<open>Frames and packets\<close>

type_synonym ConnectionId = u64
type_synonym byte_buffer = "u8 list"

definition InvalidConnectionId :: ConnectionId where
  "InvalidConnectionId = 0"

record received_packet =
  rp_connectionId :: ConnectionId
  rp_packetId :: u16
  rp_payload :: byte_buffer

definition ReceivedPacket_new :: received_packet where
  "ReceivedPacket_new = \<lparr>rp_connectionId = InvalidConnectionId, rp_packetId = 0, rp_payload = []\<rparr>"

record packet_frame =
  pf_payloadLength :: u32
  pf_packetId :: u16

definition PacketFrame_bytes :: "packet_frame \<Rightarrow> u8 list" where
  "PacketFrame_bytes f = word_bytes (pf_payloadLength f) @ word_bytes (pf_packetId f)"

definition PacketFrame_of_bytes :: "u8 list \<Rightarrow> packet_frame" where
  "PacketFrame_of_bytes bs =
     \<lparr>pf_payloadLength = word_of_bytes (take 4 bs), pf_packetId = word_of_bytes (take 2 (drop 4 bs))\<rparr>"

interpretation frame_layout: byte_codec PacketFrame_bytes 6 PacketFrame_of_bytes
  by unfold_locales
    (simp_all add: PacketFrame_bytes_def PacketFrame_of_bytes_def word_of_bytes_word_bytes)

section \<open>Encode and Decode\<close>

definition kHeaderSize :: u32 where
  "kHeaderSize = 6"

definition codec_kMaxPacketSize :: u32 where
  "codec_kMaxPacketSize = 64 * 1024"

definition Encode :: "u16 \<Rightarrow> byte_buffer \<Rightarrow> byte_buffer result" where
  "Encode packetId payload =
     (let frame = \<lparr>pf_payloadLength = of_nat (length payload), pf_packetId = packetId\<rparr>;
          output = vec_resize 0 [] (unat kHeaderSize + length payload) in
      and_then (mem_write output 0 (PacketFrame_bytes frame)) (\<lambda>output1.
        if payload \<noteq> [] then mem_write output1 (unat kHeaderSize) payload else Inr output1))"

definition Decode :: "byte_buffer \<Rightarrow> received_packet \<Rightarrow> (bool \<times> byte_buffer \<times> received_packet) result" where
  "Decode receiveBuffer outPacket =
     (if length receiveBuffer < unat kHeaderSize then Inr (False, receiveBuffer, outPacket)
      else and_then (mem_read receiveBuffer 0 (unat kHeaderSize)) (\<lambda>header.
        let frame = PacketFrame_of_bytes header in
        if pf_payloadLength frame > codec_kMaxPacketSize then Inr (False, [], outPacket)
        else let totalPacketSize = (ucast (kHeaderSize + pf_payloadLength frame) :: usize) in
          if length receiveBuffer < unat totalPacketSize then Inr (False, receiveBuffer, outPacket)
          else and_then
            (if pf_payloadLength frame > 0
             then mem_read receiveBuffer (unat kHeaderSize) (unat (pf_payloadLength frame))
             else Inr []) (\<lambda>payload.
              Inr (True, drop (unat totalPacketSize) receiveBuffer,
                outPacket\<lparr>rp_packetId := pf_packetId frame, rp_payload := payload\<rparr>))))"

lemma unat_kHeaderSize [simp]: "unat kHeaderSize = 6"
  by (simp add: kHeaderSize_def)

lemma unat_codec_kMaxPacketSize [simp]: "unat codec_kMaxPacketSize = 65536"
  by (simp add: codec_kMaxPacketSize_def)

definition packet_bytes :: "u16 \<Rightarrow> byte_buffer \<Rightarrow> u8 list" where
  "packet_bytes packetId payload =
     PacketFrame_bytes \<lparr>pf_payloadLength = of_nat (length payload), pf_packetId = packetId\<rparr> @ payload"

lemma length_packet_bytes [simp]: "length (packet_bytes i p) = 6 + length p"
  by (simp add: packet_bytes_def frame_layout.layout_length)

lemma Encode_eq: "Encode packetId payload = Inr (packet_bytes packetId payload)"
  by (simp add: Encode_def Let_def mem_write_def frame_layout.layout_length packet_bytes_def
      vec_resize_def)

text \<open>The four outcomes of \<open>Decode\<close>, in terms of the announced payload length.\<close>

definition announced :: "byte_buffer \<Rightarrow> nat" where
  "announced buf = unat (pf_payloadLength (PacketFrame_of_bytes (take 6 buf)))"

lemma total_size:
  "announced buf \<le> 65536 \<Longrightarrow>
   unat (ucast (kHeaderSize + pf_payloadLength (PacketFrame_of_bytes (take 6 buf))) :: usize) = 6 + announced buf"
  unfolding unat_ucast_32_64 announced_def by (simp add: unat_add_nowrap)

lemma Decode_short_header: "length buf < 6 \<Longrightarrow> Decode buf out = Inr (False, buf, out)"
  by (simp add: Decode_def)

lemma Decode_oversize:
  assumes "6 \<le> length buf" and "65536 < announced buf"
  shows "Decode buf out = Inr (False, [], out)"
proof -
  have "codec_kMaxPacketSize < pf_payloadLength (PacketFrame_of_bytes (take 6 buf))"
    using assms(2) by (simp only: word_less_nat_alt unat_codec_kMaxPacketSize announced_def)
  with assms(1) show ?thesis by (simp add: Decode_def mem_read_ok Let_def)
qed

lemma Decode_cases:
  assumes "6 \<le> length buf" and "announced buf \<le> 65536"
  shows "Decode buf out =
    (if length buf < 6 + announced buf then Inr (False, buf, out)
     else Inr (True, drop (6 + announced buf) buf,
       out\<lparr>rp_packetId := pf_packetId (PacketFrame_of_bytes (take 6 buf)),
           rp_payload := take (announced buf) (drop 6 buf)\<rparr>))"
proof -
  let ?len = "pf_payloadLength (PacketFrame_of_bytes (take 6 buf))"
  have "\<not> codec_kMaxPacketSize < ?len"
    using assms(2) by (simp only: word_less_nat_alt unat_codec_kMaxPacketSize announced_def)
  moreover have "0 < ?len \<longleftrightarrow> announced buf \<noteq> 0"
    by (simp add: announced_def word_less_nat_alt)
  moreover note total_size [OF assms(2)]
  ultimately show ?thesis
    using assms(1) by (simp add: Decode_def mem_read_ok Let_def) (simp add: announced_def mem_read_ok)
qed

lemma Decode_shrinks: "Decode buf out = Inr (True, buf', p) \<Longrightarrow> length buf' < length buf"
  using Decode_short_header [of buf out] Decode_oversize [of buf out] Decode_cases [of buf out]
  by (cases "length buf < 6"; cases "announced buf \<le> 65536") (auto split: if_splits)

lemma Decode_total: "\<exists>ok buf' p. Decode buf out = Inr (ok, buf', p)"
  using Decode_short_header [of buf out] Decode_oversize [of buf out] Decode_cases [of buf out]
  by (cases "length buf < 6"; cases "announced buf \<le> 65536") (auto split: if_splits)

section \<open>The loop of the read handler\<close>

text \<open>
  \<open>StartReadLoop\<close>'s handler: decode into a fresh packet until \<open>Decode\<close> fails, and stamp each
  packet with the connection's id.
\<close>

function decode_loop :: "ConnectionId \<Rightarrow> byte_buffer \<Rightarrow> (byte_buffer \<times> received_packet list) result" where
  "decode_loop cid buf =
     (case Decode buf ReceivedPacket_new of
        Inl e \<Rightarrow> Inl e
      | Inr (ok, buf', p) \<Rightarrow>
          if \<not> ok then Inr (buf', [])
          else and_then (decode_loop cid buf') (\<lambda>(rest, ps).
                 Inr (rest, p\<lparr>rp_connectionId := cid\<rparr> # ps)))"
  by pat_completeness auto
termination
  by (relation "measure (\<lambda>(cid, buf). length buf)") (auto dest: Decode_shrinks)

declare decode_loop.simps [simp del]

text \<open>A chunk from the socket is appended to the receive buffer, then the loop runs.\<close>

definition receive_chunk ::
    "ConnectionId \<Rightarrow> byte_buffer \<Rightarrow> u8 list \<Rightarrow> (byte_buffer \<times> received_packet list) result" where
  "receive_chunk cid buf chunk = decode_loop cid (buf @ chunk)"

fun receive_chunks ::
    "ConnectionId \<Rightarrow> byte_buffer \<Rightarrow> u8 list list \<Rightarrow> (byte_buffer \<times> received_packet list) result" where
  "receive_chunks cid buf [] = Inr (buf, [])"
| "receive_chunks cid buf (c # cs) =
     and_then (receive_chunk cid buf c) (\<lambda>(buf', ps).
       and_then (receive_chunks cid buf' cs) (\<lambda>(buf'', ps'). Inr (buf'', ps @ ps')))"

section \<open>Reassembly\<close>

definition received :: "ConnectionId \<Rightarrow> u16 \<times> byte_buffer \<Rightarrow> received_packet" where
  "received cid ip = \<lparr>rp_connectionId = cid, rp_packetId = fst ip, rp_payload = snd ip\<rparr>"

definition stream :: "(u16 \<times> byte_buffer) list \<Rightarrow> u8 list" where
  "stream ps = concat (map (\<lambda>(i, p). packet_bytes i p) ps)"

definition deliverable :: "(u16 \<times> byte_buffer) list \<Rightarrow> bool" where
  "deliverable ps \<longleftrightarrow> (\<forall>(i, p) \<in> set ps. length p \<le> 65536)"

lemma stream_simps [simp]:
  "stream [] = []"
  "stream ((i, p) # ps) = packet_bytes i p @ stream ps"
  by (simp_all add: stream_def)

lemma deliverable_simps [simp]:
  "deliverable []"
  "deliverable ((i, p) # ps) \<longleftrightarrow> length p \<le> 65536 \<and> deliverable ps"
  by (simp_all add: deliverable_def)

lemma frame_of_prefix:
  assumes "6 \<le> length buf" and "buf @ rest = packet_bytes i p @ post"
  shows "PacketFrame_of_bytes (take 6 buf) = \<lparr>pf_payloadLength = of_nat (length p), pf_packetId = i\<rparr>"
proof -
  have "take 6 buf = take 6 (buf @ rest)" using assms(1) by simp
  also have "\<dots> = take 6 (PacketFrame_bytes \<lparr>pf_payloadLength = of_nat (length p), pf_packetId = i\<rparr> @ p @ post)"
    using assms(2) by (simp add: packet_bytes_def)
  finally show ?thesis by (simp only: frame_layout.unlayout_prefix)
qed

lemma announced_prefix:
  assumes "6 \<le> length buf" and "buf @ rest = packet_bytes i p @ post" and "length p \<le> 65536"
  shows "announced buf = length p"
  using frame_of_prefix [OF assms(1,2)] assms(3) by (simp add: announced_def unat_of_nat32)

lemma Decode_packet:
  assumes "length p \<le> 65536"
  shows "Decode (packet_bytes i p @ rest) out =
    Inr (True, rest, out\<lparr>rp_packetId := i, rp_payload := p\<rparr>)"
proof -
  let ?buf = "packet_bytes i p @ rest"
  have a: "announced ?buf = length p"
    by (rule announced_prefix [where rest = "[]" and post = rest]) (use assms in auto)
  have f: "PacketFrame_of_bytes (take 6 ?buf) = \<lparr>pf_payloadLength = of_nat (length p), pf_packetId = i\<rparr>"
    by (rule frame_of_prefix [where rest = "[]" and post = rest]) auto
  have "drop 6 ?buf = p @ rest"
    by (simp add: packet_bytes_def frame_layout.layout_length)
  with a f Decode_cases [of ?buf out] assms show ?thesis by simp
qed

lemma decode_loop_packet:
  assumes "length p \<le> 65536"
  shows "decode_loop cid (packet_bytes i p @ rest) =
    and_then (decode_loop cid rest) (\<lambda>(b, ps). Inr (b, received cid (i, p) # ps))"
  by (subst decode_loop.simps) (simp add: Decode_packet [OF assms] received_def ReceivedPacket_new_def)

lemma decode_loop_partial:
  assumes "buf @ rest = packet_bytes i p @ post" and "length buf < 6 + length p" and "length p \<le> 65536"
  shows "decode_loop cid buf = Inr (buf, [])"
proof -
  have "Decode buf ReceivedPacket_new = Inr (False, buf, ReceivedPacket_new)"
  proof (cases "length buf < 6")
    case True
    then show ?thesis by (rule Decode_short_header)
  next
    case False
    then have "announced buf = length p"
      using announced_prefix [OF _ assms(1,3)] by simp
    with False assms show ?thesis by (simp add: Decode_cases)
  qed
  then show ?thesis by (subst decode_loop.simps) simp
qed

lemma decode_loop_empty: "decode_loop cid [] = Inr ([], [])"
  by (subst decode_loop.simps) (simp add: Decode_short_header)

text \<open>What stays in the buffer between chunks: less than the next packet of the stream.\<close>

fun incomplete :: "byte_buffer \<Rightarrow> (u16 \<times> byte_buffer) list \<Rightarrow> bool" where
  "incomplete buf [] = (buf = [])"
| "incomplete buf ((i, p) # ps) = (length buf < 6 + length p)"

lemma decode_loop_stream:
  assumes "buf @ rest = stream ps" and "deliverable ps"
  shows "\<exists>k partial. decode_loop cid buf = Inr (partial, map (received cid) (take k ps))
    \<and> partial @ rest = stream (drop k ps) \<and> incomplete partial (drop k ps)"
  using assms
proof (induction ps arbitrary: buf)
  case Nil
  then show ?case by (auto simp: decode_loop_empty)
next
  case (Cons ip ps)
  obtain i p where ip: "ip = (i, p)" by (cases ip)
  show ?case
  proof (cases "length buf < 6 + length p")
    case True
    then have "decode_loop cid buf = Inr (buf, [])"
      using decode_loop_partial [of buf rest i p "stream ps"] Cons.prems ip by simp
    with True Cons.prems ip show ?thesis
      by (intro exI [of _ 0] exI [of _ buf]) simp
  next
    case False
    then have "take (6 + length p) buf = take (6 + length p) (buf @ rest)" by simp
    then have "take (6 + length p) buf = packet_bytes i p"
      using Cons.prems(1) ip by simp
    then obtain buf' where buf: "buf = packet_bytes i p @ buf'" "buf' @ rest = stream ps"
      using Cons.prems(1) ip append_take_drop_id [of "6 + length p" buf]
      by (metis append.assoc same_append_eq stream_simps(2))
    obtain k partial where IH: "decode_loop cid buf' = Inr (partial, map (received cid) (take k ps))"
        "partial @ rest = stream (drop k ps)" "incomplete partial (drop k ps)"
      using Cons.IH [OF buf(2)] Cons.prems(2) ip by auto
    show ?thesis
      using IH buf(1) Cons.prems(2) ip
      by (intro exI [of _ "Suc k"] exI [of _ partial]) (simp add: decode_loop_packet)
  qed
qed

lemma receive_chunks_stream:
  assumes "buf @ concat cs = stream ps" and "incomplete buf ps" and "deliverable ps"
  shows "receive_chunks cid buf cs = Inr ([], map (received cid) ps)"
  using assms
proof (induction cs arbitrary: buf ps)
  case Nil
  then show ?case by (cases "(buf, ps)" rule: incomplete.cases) (auto simp: stream_def)
next
  case (Cons c cs)
  obtain k partial where k: "decode_loop cid (buf @ c) = Inr (partial, map (received cid) (take k ps))"
      "partial @ concat cs = stream (drop k ps)" "incomplete partial (drop k ps)"
    using decode_loop_stream [of "buf @ c" "concat cs" ps cid] Cons.prems by auto
  have "deliverable (drop k ps)"
    using Cons.prems(3) by (auto simp: deliverable_def dest: in_set_dropD)
  with Cons.IH [OF k(2,3)]
  have "receive_chunks cid partial cs = Inr ([], map (received cid) (drop k ps))" by simp
  then show ?case
    using k(1) by (simp add: receive_chunk_def flip: map_append)
qed

lemma incomplete_nil: "incomplete [] ps"
  by (cases ps) auto

lemma receive_chunks_append:
  "receive_chunks i buf cs = Inr (buf1, ps) \<Longrightarrow> receive_chunks i buf1 ds = Inr (buf2, qs) \<Longrightarrow>
   receive_chunks i buf (cs @ ds) = Inr (buf2, ps @ qs)"
proof (induction cs arbitrary: buf ps)
  case (Cons x cs)
  then obtain b ps1 ps2 where "receive_chunk i buf x = Inr (b, ps1)" "receive_chunks i b cs = Inr (buf1, ps2)" "ps = ps1 @ ps2"
    by (auto simp: and_then_Inr_iff)
  then show ?case using Cons.IH [of b ps2] Cons.prems(2) by simp
qed simp

text \<open>A stream that has come in up to \<open>rest\<close>.\<close>

lemma receive_chunks_prefix:
  assumes "buf @ concat cs @ rest = stream ps" and "incomplete buf ps" and "deliverable ps"
  shows "\<exists>k partial. receive_chunks i buf cs = Inr (partial, map (received i) (take k ps)) \<and>
    partial @ rest = stream (drop k ps) \<and> incomplete partial (drop k ps)"
  using assms
proof (induction cs arbitrary: buf ps)
  case Nil
  then show ?case by (intro exI [of _ 0] exI [of _ buf]) simp
next
  case (Cons c cs)
  obtain k partial where k: "decode_loop i (buf @ c) = Inr (partial, map (received i) (take k ps))"
    "partial @ concat cs @ rest = stream (drop k ps)" "incomplete partial (drop k ps)"
    using decode_loop_stream [of "buf @ c" "concat cs @ rest" ps i] Cons.prems(1,3) by auto
  have "deliverable (drop k ps)" using Cons.prems(3) by (auto simp: deliverable_def dest: in_set_dropD)
  from Cons.IH [OF k(2,3) this] obtain m partial' where m: "receive_chunks i partial cs = Inr (partial', map (received i) (take m (drop k ps)))"
    "partial' @ rest = stream (drop m (drop k ps))" "incomplete partial' (drop m (drop k ps))"
    by blast
  have "take (k + m) ps = take k ps @ take m (drop k ps)" by (rule take_add)
  then show ?case
    using k(1) m by (intro exI [of _ "k + m"] exI [of _ partial']) (simp add: receive_chunk_def add.commute)
qed

lemma incomplete_all: "incomplete buf ps \<Longrightarrow> buf = stream ps \<Longrightarrow> ps = []"
  by (cases "(buf, ps)" rule: incomplete.cases) auto

lemma Decode_at_most: "Decode buf out = Inr (ok, buf', p) \<Longrightarrow> length buf' + (if ok then 1 else 0) \<le> length buf"
  using Decode_short_header [of buf out] Decode_oversize [of buf out] Decode_cases [of buf out]
  by (cases "length buf < 6"; cases "announced buf \<le> 65536") (auto split: if_splits)

lemma decode_loop_at_most: "decode_loop cid buf = Inr (buf', ps) \<Longrightarrow> length buf' + length ps \<le> length buf"
proof (induction cid buf arbitrary: buf' ps rule: decode_loop.induct)
  case (1 cid buf)
  obtain ok b p where d: "Decode buf ReceivedPacket_new = Inr (ok, b, p)" using Decode_total by blast
  have b: "length b + (if ok then 1 else 0) \<le> length buf" by (rule Decode_at_most [OF d])
  show ?case
  proof (cases ok)
    case True
    then obtain ps' where ps': "decode_loop cid b = Inr (buf', ps')" "length ps = Suc (length ps')"
      using 1(2) d by (subst (asm) decode_loop.simps) (auto simp: and_then_Inr_iff)
    then show ?thesis using 1(1) [OF d refl refl _ ps'(1)] True b by simp
  next
    case False
    have "decode_loop cid buf = Inr (b, [])" using False d by (subst decode_loop.simps) simp
    then show ?thesis using 1(2) b by simp
  qed
qed

lemma receive_chunks_at_most:
  "receive_chunks i buf cs = Inr (buf', ps) \<Longrightarrow> length buf' + length ps \<le> length buf + length (concat cs)"
proof (induction cs arbitrary: buf ps)
  case (Cons x cs)
  then obtain b ps1 ps2 where "decode_loop i (buf @ x) = Inr (b, ps1)" "receive_chunks i b cs = Inr (buf', ps2)" "ps = ps1 @ ps2"
    by (auto simp: and_then_Inr_iff receive_chunk_def)
  then show ?case using Cons.IH [of b ps2] decode_loop_at_most [of i "buf @ x" b ps1] by simp
qed simp

section \<open>Properties\<close>

text \<open>C4. Stream reassembly: encode any packets with payloads of at most 64 KiB, concatenate the
  frames, and cut the byte stream into chunks in any way at all. Feeding the chunks to the read
  handler of connection \<open>cid\<close>, starting with an empty receive buffer, yields exactly those packets
  in order, each with its id and payload and stamped with \<open>cid\<close>, and leaves the buffer empty.\<close>

theorem stream_reassembly:
  assumes "concat chunks = stream ps" and "deliverable ps"
  shows "receive_chunks cid [] chunks = Inr ([], map (received cid) ps)"
proof (rule receive_chunks_stream)
  show "[] @ concat chunks = stream ps" using assms(1) by simp
  show "incomplete [] ps" by (cases ps rule: list.exhaust) auto
qed (rule assms(2))

theorem stream_reassembly_witness:
  "receive_chunks 7 [] [[2, 0, 0], [0, 5, 0, 65], [66, 0, 0, 0, 0, 6], [0]]
   = Inr ([], [received 7 (5, [65, 66]), received 7 (6, [])])"
proof -
  have "concat [[2, 0, 0], [0, 5, 0, 65], [66, 0, 0, 0, 0, 6], [0]] = stream [(5, [65, 66]), (6, [])]"
    by code_simp
  from stream_reassembly [OF this, of 7] show ?thesis by simp
qed

text \<open>The decoder's guard against oversized packets: if the header announces a payload of post
  than 64 KiB then nothing is delivered and the whole receive buffer is discarded, including any
  complete packets behind the offending header. A packet that \<open>Encode\<close> produced from such a payload
  is therefore never delivered, although \<open>Encode\<close> itself does not refuse it.\<close>

theorem oversize_discards:
  assumes "65536 < length p" and "length p < 2 ^ 32"
  shows "Encode i p = Inr (packet_bytes i p)
    \<and> receive_chunk cid [] (packet_bytes i p @ rest) = Inr ([], [])"
proof -
  let ?buf = "packet_bytes i p @ rest"
  have "PacketFrame_of_bytes (take 6 ?buf) = \<lparr>pf_payloadLength = of_nat (length p), pf_packetId = i\<rparr>"
    by (rule frame_of_prefix [where rest = "[]" and post = rest]) auto
  then have "announced ?buf = length p"
    using assms(2) by (simp add: announced_def unat_of_nat32)
  then have "Decode ?buf ReceivedPacket_new = Inr (False, [], ReceivedPacket_new)"
    using assms(1) by (intro Decode_oversize) auto
  then have "decode_loop cid ?buf = Inr ([], [])"
    by (subst decode_loop.simps) simp
  then show ?thesis by (simp add: Encode_eq receive_chunk_def)
qed

theorem oversize_discards_witness:
  "receive_chunk 1 [] (packet_bytes 3 (replicate 65537 0) @ packet_bytes 4 [1]) = Inr ([], [])"
  using oversize_discards [of "replicate 65537 0" 3 1 "packet_bytes 4 [1]"] by simp

end
