(* ===== verification/Ring_Queue.thy ===== *)
theory Ring_Queue
  imports Prelude
begin

text \<open>
  The lock-free queues (\<open>infrastructure/lockfree_queue\<close>), one call at a time. \<open>MPMCQueue\<close> and
  \<open>MPSCQueue\<close> are rings of slots that carry a 64-bit sequence number; a position is a 64-bit
  counter that wraps around, and every comparison of the code is on the wrapped difference. Here
  each call runs without interference (the interleaved executions are in theory Ring_Concurrent):
  the calls refine a bounded FIFO queue, also where the counters wrap.
\<close>

section \<open>Slots and rings\<close>

type_synonym QueueSequence = u64

record 'a queue_slot =
  qs_sequence :: QueueSequence
  qs_storage :: 'a

text \<open>
  Both classes hold the slot array and two counters: \<open>m_head\<close> and \<open>m_tail\<close> of the MPMC queue,
  \<open>m_dequeuePos\<close> and \<open>m_enqueuePos\<close> of the MPSC queue. \<open>Capacity\<close> is the length of the array.
\<close>

record 'a ring =
  rg_slots :: "'a queue_slot list"
  rg_head :: QueueSequence
  rg_tail :: QueueSequence

definition slot_index :: "nat \<Rightarrow> QueueSequence \<Rightarrow> nat" where
  "slot_index capacity pos = unat (pos AND (of_nat capacity - 1))"

definition seq_diff :: "QueueSequence \<Rightarrow> QueueSequence \<Rightarrow> int" where
  "seq_diff a b = sint (a - b)"

definition ring_new :: "nat \<Rightarrow> 'a \<Rightarrow> 'a ring" where
  "ring_new capacity dflt =
     \<lparr>rg_slots = map (\<lambda>i. \<lparr>qs_sequence = of_nat i, qs_storage = dflt\<rparr>) [0..<capacity],
      rg_head = 0, rg_tail = 0\<rparr>"

definition ring_slot :: "'a ring \<Rightarrow> QueueSequence \<Rightarrow> 'a queue_slot" where
  "ring_slot q pos = rg_slots q ! slot_index (length (rg_slots q)) pos"

definition ring_set :: "'a ring \<Rightarrow> QueueSequence \<Rightarrow> 'a queue_slot \<Rightarrow> 'a ring" where
  "ring_set q pos s = q\<lparr>rg_slots := (rg_slots q)[slot_index (length (rg_slots q)) pos := s]\<rparr>"

section \<open>MPMCQueue\<close>

text \<open>
  The loops of \<open>Enqueue\<close> and \<open>Dequeue\<close>. Without interference the compare-and-swap succeeds when the
  counter still is \<open>pos\<close>; when it fails it loads the counter into \<open>pos\<close>. A call that spins for
  ever is \<open>None\<close>.
\<close>

partial_function (option) MPMC_Enqueue_loop :: "'a ring \<Rightarrow> 'a \<Rightarrow> QueueSequence \<Rightarrow> (bool \<times> 'a ring) option" where
  "MPMC_Enqueue_loop q item pos =
     (let slot = ring_slot q pos; diff = seq_diff (qs_sequence slot) pos in
      if diff = 0 then
        (if rg_tail q = pos
         then Some (True, (ring_set q pos \<lparr>qs_sequence = pos + 1, qs_storage = item\<rparr>)\<lparr>rg_tail := pos + 1\<rparr>)
         else MPMC_Enqueue_loop q item (rg_tail q))
      else if diff < 0 then Some (False, q)
      else MPMC_Enqueue_loop q item (rg_tail q))"

definition MPMC_Enqueue :: "'a ring \<Rightarrow> 'a \<Rightarrow> (bool \<times> 'a ring) option" where
  "MPMC_Enqueue q item = MPMC_Enqueue_loop q item (rg_tail q)"

partial_function (option) MPMC_Dequeue_loop :: "'a ring \<Rightarrow> 'a \<Rightarrow> QueueSequence \<Rightarrow> (bool \<times> 'a \<times> 'a ring) option" where
  "MPMC_Dequeue_loop q out pos =
     (let slot = ring_slot q pos; diff = seq_diff (qs_sequence slot) (pos + 1) in
      if diff = 0 then
        (if rg_head q = pos
         then Some (True, qs_storage slot,
                (ring_set q pos (slot\<lparr>qs_sequence := pos + of_nat (length (rg_slots q))\<rparr>))\<lparr>rg_head := pos + 1\<rparr>)
         else MPMC_Dequeue_loop q out (rg_head q))
      else if diff < 0 then Some (False, out, q)
      else MPMC_Dequeue_loop q out (rg_head q))"

definition MPMC_Dequeue :: "'a ring \<Rightarrow> 'a \<Rightarrow> (bool \<times> 'a \<times> 'a ring) option" where
  "MPMC_Dequeue q out = MPMC_Dequeue_loop q out (rg_head q)"

definition MPMC_ApproxSize :: "'a ring \<Rightarrow> usize" where
  "MPMC_ApproxSize q = (if rg_tail q \<ge> rg_head q then rg_tail q - rg_head q else 0)"

definition MPMC_Empty :: "'a ring \<Rightarrow> bool" where
  "MPMC_Empty q = (MPMC_ApproxSize q = 0)"

section \<open>MPSCQueue\<close>

partial_function (option) MPSC_Enqueue_loop :: "'a ring \<Rightarrow> 'a \<Rightarrow> QueueSequence \<Rightarrow> (bool \<times> 'a ring) option" where
  "MPSC_Enqueue_loop q item pos =
     (let slot = ring_slot q pos; diff = seq_diff (qs_sequence slot) pos in
      if diff = 0 then
        (if rg_tail q = pos
         then Some (True, (ring_set q pos \<lparr>qs_sequence = pos + 1, qs_storage = item\<rparr>)\<lparr>rg_tail := pos + 1\<rparr>)
         else MPSC_Enqueue_loop q item (rg_tail q))
      else if diff < 0 then Some (False, q)
      else MPSC_Enqueue_loop q item (rg_tail q))"

definition MPSC_Enqueue :: "'a ring \<Rightarrow> 'a \<Rightarrow> (bool \<times> 'a ring) option" where
  "MPSC_Enqueue q item = MPSC_Enqueue_loop q item (rg_tail q)"

definition MPSC_Dequeue :: "'a ring \<Rightarrow> 'a \<Rightarrow> bool \<times> 'a \<times> 'a ring" where
  "MPSC_Dequeue q out =
     (let deqPos = rg_head q; slot = ring_slot q deqPos;
          diff = seq_diff (qs_sequence slot) (deqPos + 1) in
      if diff = 0
      then (True, qs_storage slot,
             (ring_set q deqPos (slot\<lparr>qs_sequence := deqPos + of_nat (length (rg_slots q))\<rparr>))\<lparr>rg_head := deqPos + 1\<rparr>)
      else (False, out, q))"

definition MPSC_ApproxSize :: "'a ring \<Rightarrow> usize" where
  "MPSC_ApproxSize q = rg_tail q - rg_head q"

definition MPSC_Empty :: "'a ring \<Rightarrow> bool" where
  "MPSC_Empty q = (MPSC_ApproxSize q = 0)"

section \<open>Positions\<close>

text \<open>
  A capacity the classes accept: a power of two, at least 2 (their \<open>static_assert\<close>s), and small
  enough for an array of 64-byte-aligned slots to exist in a 64-bit address space.
\<close>

definition capacity_ok :: "nat \<Rightarrow> bool" where
  "capacity_ok c \<longleftrightarrow> (\<exists>k. 1 \<le> k \<and> k \<le> 57 \<and> c = 2 ^ k)"

lemma capacity_bounds:
  assumes "capacity_ok c"
  shows "2 \<le> c" and "c \<le> 2 ^ 57" and "0 < c"
proof -
  obtain k where k: "1 \<le> k" "k \<le> 57" "c = 2 ^ k"
    using assms by (auto simp: capacity_ok_def)
  show "2 \<le> c" using k power_increasing [of 1 k "2 :: nat"] by simp
  show "c \<le> 2 ^ 57" using k power_increasing [of k 57 "2 :: nat"] by simp
  show "0 < c" using k by simp
qed

lemma slot_index_mod:
  assumes "capacity_ok c"
  shows "slot_index c pos = unat pos mod c"
proof -
  obtain k where k: "k \<le> 57" "c = 2 ^ k"
    using assms by (auto simp: capacity_ok_def)
  then show ?thesis by (simp add: slot_index_def and_mask_mod)
qed

lemma capacity_dvd: "capacity_ok c \<Longrightarrow> c dvd 2 ^ 64"
proof -
  assume "capacity_ok c"
  then obtain k where "k \<le> 57" "c = 2 ^ k" by (auto simp: capacity_ok_def)
  then show ?thesis using le_imp_power_dvd [of k 64 "2 :: nat"] by simp
qed

lemma slot_index_add:
  assumes "capacity_ok c"
  shows "slot_index c (pos + of_nat j) = (unat pos + j) mod c"
proof -
  have "unat (pos + of_nat j) = (unat pos + unat (of_nat j :: u64)) mod 2 ^ 64"
    by (simp add: unat_word_ariths)
  also have "\<dots> = (unat pos + j) mod 2 ^ 64"
    by (simp add: unat_of_nat take_bit_eq_mod mod_add_right_eq)
  finally show ?thesis
    using assms capacity_dvd [OF assms] by (simp add: slot_index_mod mod_mod_cancel)
qed

lemma slot_index_bound: "capacity_ok c \<Longrightarrow> slot_index c pos < c"
  using capacity_bounds(3) by (simp add: slot_index_mod)

lemma mod_add_inj_le:
  assumes "(a + i) mod c = (a + j) mod (c :: nat)" and "i \<le> j" and "j < c"
  shows "i = j"
proof -
  have "c dvd (a + j) - (a + i)"
    using assms(1,2) mod_eq_dvd_iff_nat [of "a + i" "a + j" c] by simp
  then have "c dvd j - i" by simp
  with assms(2,3) show ?thesis
    using dvd_imp_le [of c "j - i"] by (cases "i = j") auto
qed

lemma mod_add_inj:
  assumes "(a + i) mod c = (a + j) mod (c :: nat)" and "i < c" and "j < c"
  shows "i = j"
  using mod_add_inj_le [of a i c j] mod_add_inj_le [of a j c i] assms by (cases "i \<le> j") auto


section \<open>The invariant between calls, and the queue's contents\<close>

abbreviation ring_capacity :: "'a ring \<Rightarrow> nat" where
  "ring_capacity q \<equiv> length (rg_slots q)"

definition ring_len :: "'a ring \<Rightarrow> nat" where
  "ring_len q = unat (rg_tail q - rg_head q)"

text \<open>
  The slot of position \<open>p\<close> carries \<open>p\<close> when it is free for \<open>p\<close> and \<open>p + 1\<close> when it holds the item
  of \<open>p\<close>. The positions from \<open>rg_head\<close> on, one lap long, name every slot once.
\<close>

definition ring_ok :: "'a ring \<Rightarrow> bool" where
  "ring_ok q \<longleftrightarrow> capacity_ok (ring_capacity q) \<and> ring_len q \<le> ring_capacity q \<and>
     (\<forall>j < ring_capacity q. qs_sequence (ring_slot q (rg_head q + of_nat j)) =
        (if j < ring_len q then rg_head q + of_nat j + 1 else rg_head q + of_nat j))"

definition ring_contents :: "'a ring \<Rightarrow> 'a list" where
  "ring_contents q = map (\<lambda>j. qs_storage (ring_slot q (rg_head q + of_nat j))) [0..<ring_len q]"

lemma length_ring_contents [simp]: "length (ring_contents q) = ring_len q"
  by (simp add: ring_contents_def)

lemma ring_contents_Nil: "ring_contents q = [] \<longleftrightarrow> ring_len q = 0"
  by (simp add: ring_contents_def)

lemma ring_ok_len: "ring_ok q \<Longrightarrow> ring_len q \<le> ring_capacity q"
  by (simp add: ring_ok_def)

lemma rg_tail_eq: "rg_tail q = rg_head q + of_nat (ring_len q)"
  by (simp add: ring_len_def)

lemma ring_new_ok:
  assumes "capacity_ok c"
  shows "ring_ok (ring_new c d)" and "ring_contents (ring_new c d) = []"
proof -
  have "j < c \<Longrightarrow> slot_index c (of_nat j) = j" for j
    using slot_index_add [OF assms, of 0 j] by simp
  then show "ring_ok (ring_new c d)"
    using assms by (simp add: ring_ok_def ring_new_def ring_len_def ring_slot_def)
  show "ring_contents (ring_new c d) = []"
    by (simp add: ring_contents_def ring_new_def ring_len_def)
qed

lemma ring_slot_lap:
  assumes "capacity_ok (ring_capacity q)"
  shows "ring_slot q (pos + of_nat (ring_capacity q)) = ring_slot q pos"
  using slot_index_add [OF assms, of pos "ring_capacity q"] slot_index_mod [OF assms, of pos]
  by (simp add: ring_slot_def)

lemma ring_slot_set:
  assumes "capacity_ok (ring_capacity q)" and "i < ring_capacity q" and "j < ring_capacity q"
  shows "ring_slot (ring_set q (pos + of_nat i) s) (pos + of_nat j)
    = (if i = j then s else ring_slot q (pos + of_nat j))"
proof -
  have "slot_index (ring_capacity q) (pos + of_nat i) = slot_index (ring_capacity q) (pos + of_nat j)
      \<longleftrightarrow> i = j"
    using assms mod_add_inj [of "unat pos" i "ring_capacity q" j] by (auto simp: slot_index_add)
  then show ?thesis
    using slot_index_bound [OF assms(1)] by (simp add: ring_slot_def ring_set_def nth_list_update)
qed

lemma ring_set_simps [simp]:
  "ring_capacity (ring_set q pos s) = ring_capacity q"
  "rg_head (ring_set q pos s) = rg_head q"
  "rg_tail (ring_set q pos s) = rg_tail q"
  by (simp_all add: ring_set_def)

lemma ring_slot_counters [simp]:
  "ring_slot (q\<lparr>rg_head := h\<rparr>) pos = ring_slot q pos"
  "ring_slot (q\<lparr>rg_tail := t\<rparr>) pos = ring_slot q pos"
  by (simp_all add: ring_slot_def)

lemma seq_diff_same [simp]: "seq_diff a a = 0"
  by (simp add: seq_diff_def)

lemma seq_diff_behind:
  assumes "0 < n" and "n \<le> 2 ^ 57"
  shows "seq_diff a (a + of_nat n) < 0"
proof -
  have "a - (a + of_nat n) = (of_int (- int n) :: u64)" by simp
  then show ?thesis
    using assms sint_of_int_small [of "- int n"] by (simp add: seq_diff_def)
qed

text \<open>The effect of a successful call on the ring: one push at the tail, one pop at the head.\<close>

definition ring_push :: "'a ring \<Rightarrow> 'a \<Rightarrow> 'a ring" where
  "ring_push q x = (ring_set q (rg_tail q) \<lparr>qs_sequence = rg_tail q + 1, qs_storage = x\<rparr>)\<lparr>rg_tail := rg_tail q + 1\<rparr>"

definition ring_pop :: "'a ring \<Rightarrow> 'a ring" where
  "ring_pop q = (ring_set q (rg_head q) ((ring_slot q (rg_head q))\<lparr>qs_sequence :=
     rg_head q + of_nat (ring_capacity q)\<rparr>))\<lparr>rg_head := rg_head q + 1\<rparr>"

lemma ring_push_ok:
  assumes q: "ring_ok q" and room: "ring_len q < ring_capacity q"
  shows "ring_ok (ring_push q x)" and "ring_contents (ring_push q x) = ring_contents q @ [x]"
    and "ring_capacity (ring_push q x) = ring_capacity q"
proof -
  have c: "capacity_ok (ring_capacity q)" using q by (simp add: ring_ok_def)
  have l: "ring_len (ring_push q x) = Suc (ring_len q)"
  proof -
    have "rg_tail q + 1 - rg_head q = of_nat (Suc (ring_len q))"
      by (simp add: rg_tail_eq)
    moreover have "ring_len (ring_push q x) = unat (rg_tail q + 1 - rg_head q)"
      by (simp add: ring_len_def ring_push_def)
    ultimately show ?thesis
      using room capacity_bounds(2) [OF c] unat_of_nat64 [of "Suc (ring_len q)"]
      by (simp del: of_nat_Suc)
  qed
  have slot: "j < ring_capacity q \<Longrightarrow> ring_slot (ring_push q x) (rg_head q + of_nat j) =
      (if ring_len q = j then \<lparr>qs_sequence = rg_tail q + 1, qs_storage = x\<rparr>
       else ring_slot q (rg_head q + of_nat j))" for j
    using ring_slot_set [OF c room, of j "rg_head q"] by (simp add: ring_push_def rg_tail_eq)
  show cap: "ring_capacity (ring_push q x) = ring_capacity q" by (simp add: ring_push_def)
  have h: "rg_head (ring_push q x) = rg_head q" by (simp add: ring_push_def)
  show "ring_ok (ring_push q x)"
    using q room slot l unfolding ring_ok_def cap h by (auto simp: rg_tail_eq less_Suc_eq)
  show "ring_contents (ring_push q x) = ring_contents q @ [x]"
    using room slot unfolding ring_contents_def l h by simp
qed

lemma ring_pop_ok:
  assumes q: "ring_ok q" and ne: "0 < ring_len q"
  shows "ring_ok (ring_pop q)"
    and "ring_contents q = qs_storage (ring_slot q (rg_head q)) # ring_contents (ring_pop q)"
    and "ring_capacity (ring_pop q) = ring_capacity q"
proof -
  have c: "capacity_ok (ring_capacity q)" and len: "ring_len q \<le> ring_capacity q"
    using q by (simp_all add: ring_ok_def)
  note b = capacity_bounds [OF c]
  have lc: "(of_nat (ring_capacity q) :: u64) = 1 + of_nat (ring_capacity q - 1)"
    by (metis b(3) Suc_pred' of_nat_Suc)
  show cap: "ring_capacity (ring_pop q) = ring_capacity q" by (simp add: ring_pop_def)
  have h: "rg_head (ring_pop q) = rg_head q + 1" by (simp add: ring_pop_def)
  have l: "ring_len (ring_pop q) = ring_len q - 1"
  proof -
    have "rg_tail q - (rg_head q + 1) = of_nat (ring_len q - 1)"
      using ne by (simp add: rg_tail_eq of_nat_diff)
    moreover have "ring_len (ring_pop q) = unat (rg_tail q - (rg_head q + 1))"
      by (simp add: ring_len_def ring_pop_def)
    ultimately show ?thesis
      using len b(2) unat_of_nat64 [of "ring_len q - 1"] by simp
  qed
  have slot: "Suc j < ring_capacity q \<Longrightarrow>
      ring_slot (ring_pop q) (rg_head (ring_pop q) + of_nat j) = ring_slot q (rg_head q + of_nat (Suc j))" for j
    using ring_slot_set [OF c, of 0 "Suc j" "rg_head q"] b(3) h by (simp add: ring_pop_def ac_simps)
  have last: "ring_slot (ring_pop q) (rg_head (ring_pop q) + of_nat (ring_capacity q - 1)) =
      (ring_slot q (rg_head q))\<lparr>qs_sequence := rg_head q + of_nat (ring_capacity q)\<rparr>"
  proof -
    have "rg_head (ring_pop q) + of_nat (ring_capacity q - 1) = rg_head q + of_nat (ring_capacity (ring_pop q))"
      using h cap lc by simp
    then have "ring_slot (ring_pop q) (rg_head (ring_pop q) + of_nat (ring_capacity q - 1))
        = ring_slot (ring_pop q) (rg_head q)"
      using ring_slot_lap [of "ring_pop q" "rg_head q"] c cap by simp
    moreover have "ring_slot (ring_pop q) (rg_head q) =
        (ring_slot q (rg_head q))\<lparr>qs_sequence := rg_head q + of_nat (ring_capacity q)\<rparr>"
      using ring_slot_set [OF c, of 0 0 "rg_head q"] b(3) by (simp add: ring_pop_def)
    ultimately show ?thesis by (rule trans)
  qed
  show "ring_ok (ring_pop q)"
    unfolding ring_ok_def cap l
  proof (intro conjI allI impI)
    fix j assume j: "j < ring_capacity q"
    show "qs_sequence (ring_slot (ring_pop q) (rg_head (ring_pop q) + of_nat j)) =
        (if j < ring_len q - 1 then rg_head (ring_pop q) + of_nat j + 1 else rg_head (ring_pop q) + of_nat j)"
    proof (cases "Suc j < ring_capacity q")
      case True
      then show ?thesis
        using q h unfolding slot [OF True] by (auto simp: ring_ok_def ac_simps)
    next
      case False
      then have j': "j = ring_capacity q - 1" using j by simp
      then have nl: "\<not> j < ring_len q - 1" using len ne by simp
      have e: "rg_head q + of_nat (ring_capacity q) = rg_head (ring_pop q) + of_nat j"
        unfolding j' h lc by simp
      have "qs_sequence (ring_slot (ring_pop q) (rg_head (ring_pop q) + of_nat j)) =
          rg_head q + of_nat (ring_capacity q)"
        unfolding j' last by simp
      then show ?thesis by (simp only: nl if_False e)
    qed
  qed (use c len in auto)
  have "[0..<ring_len q] = 0 # map Suc [0..<ring_len q - 1]"
    using ne upt_conv_Cons [OF ne] map_Suc_upt [of 0 "ring_len q - 1"] by simp
  then show "ring_contents q = qs_storage (ring_slot q (rg_head q)) # ring_contents (ring_pop q)"
    using slot len unfolding ring_contents_def l by simp
qed

section \<open>The calls\<close>

lemma ring_tail_slot:
  assumes "ring_ok q"
  shows "ring_len q < ring_capacity q \<Longrightarrow> qs_sequence (ring_slot q (rg_tail q)) = rg_tail q"
    and "ring_len q = ring_capacity q \<Longrightarrow> seq_diff (qs_sequence (ring_slot q (rg_tail q))) (rg_tail q) < 0"
proof -
  show "ring_len q < ring_capacity q \<Longrightarrow> qs_sequence (ring_slot q (rg_tail q)) = rg_tail q"
    using assms by (simp add: ring_ok_def rg_tail_eq)
  assume full: "ring_len q = ring_capacity q"
  have c: "capacity_ok (ring_capacity q)" using assms by (simp add: ring_ok_def)
  note b = capacity_bounds [OF c]
  have "qs_sequence (ring_slot q (rg_tail q)) = rg_head q + 1"
    using assms ring_slot_lap [OF c, of "rg_head q"] full b(3) by (auto simp: ring_ok_def rg_tail_eq)
  moreover have "rg_tail q = (rg_head q + 1) + of_nat (ring_capacity q - 1)"
    using b(1) full by (simp add: rg_tail_eq of_nat_diff)
  ultimately show "seq_diff (qs_sequence (ring_slot q (rg_tail q))) (rg_tail q) < 0"
    using b seq_diff_behind [of "ring_capacity q - 1" "rg_head q + 1"] by simp
qed

lemma ring_head_slot:
  assumes "ring_ok q"
  shows "0 < ring_len q \<Longrightarrow> qs_sequence (ring_slot q (rg_head q)) = rg_head q + 1"
    and "ring_len q = 0 \<Longrightarrow> seq_diff (qs_sequence (ring_slot q (rg_head q))) (rg_head q + 1) < 0"
proof -
  have b: "0 < ring_capacity q"
    by (rule capacity_bounds(3)) (use assms in \<open>simp add: ring_ok_def\<close>)
  then show "0 < ring_len q \<Longrightarrow> qs_sequence (ring_slot q (rg_head q)) = rg_head q + 1"
    using assms by (auto simp: ring_ok_def dest!: spec [of _ 0])
  assume "ring_len q = 0"
  then have "qs_sequence (ring_slot q (rg_head q)) = rg_head q"
    using assms b by (auto simp: ring_ok_def dest!: spec [of _ 0])
  then show "seq_diff (qs_sequence (ring_slot q (rg_head q))) (rg_head q + 1) < 0"
    using seq_diff_behind [of 1 "rg_head q"] by simp
qed

lemma MPMC_Enqueue_eq:
  assumes "ring_ok q"
  shows "MPMC_Enqueue q x =
    (if ring_len q < ring_capacity q then Some (True, ring_push q x) else Some (False, q))"
proof (cases "ring_len q < ring_capacity q")
  case True
  then show ?thesis
    using ring_tail_slot(1) [OF assms]
    by (simp add: MPMC_Enqueue_def MPMC_Enqueue_loop.simps ring_push_def Let_def)
next
  case False
  then have "ring_len q = ring_capacity q" using assms by (simp add: ring_ok_def)
  then show ?thesis
    using ring_tail_slot(2) [OF assms] False
    by (simp add: MPMC_Enqueue_def MPMC_Enqueue_loop.simps Let_def)
qed

lemma MPMC_Dequeue_eq:
  assumes "ring_ok q"
  shows "MPMC_Dequeue q out =
    (if 0 < ring_len q then Some (True, qs_storage (ring_slot q (rg_head q)), ring_pop q)
     else Some (False, out, q))"
proof (cases "0 < ring_len q")
  case True
  then show ?thesis
    using ring_head_slot(1) [OF assms]
    by (simp add: MPMC_Dequeue_def MPMC_Dequeue_loop.simps ring_pop_def Let_def)
next
  case False
  then show ?thesis
    using ring_head_slot(2) [OF assms]
    by (simp add: MPMC_Dequeue_def MPMC_Dequeue_loop.simps Let_def)
qed

lemma MPSC_Enqueue_eq:
  assumes "ring_ok q"
  shows "MPSC_Enqueue q x =
    (if ring_len q < ring_capacity q then Some (True, ring_push q x) else Some (False, q))"
proof (cases "ring_len q < ring_capacity q")
  case True
  then show ?thesis
    using ring_tail_slot(1) [OF assms]
    by (simp add: MPSC_Enqueue_def MPSC_Enqueue_loop.simps ring_push_def Let_def)
next
  case False
  then have "ring_len q = ring_capacity q" using assms by (simp add: ring_ok_def)
  then show ?thesis
    using ring_tail_slot(2) [OF assms] False
    by (simp add: MPSC_Enqueue_def MPSC_Enqueue_loop.simps Let_def)
qed

lemma MPSC_Dequeue_eq:
  assumes "ring_ok q"
  shows "MPSC_Dequeue q out =
    (if 0 < ring_len q then (True, qs_storage (ring_slot q (rg_head q)), ring_pop q)
     else (False, out, q))"
proof (cases "0 < ring_len q")
  case True
  then show ?thesis
    using ring_head_slot(1) [OF assms] by (simp add: MPSC_Dequeue_def ring_pop_def Let_def)
next
  case False
  then show ?thesis
    using ring_head_slot(2) [OF assms] by (simp add: MPSC_Dequeue_def Let_def)
qed


section \<open>The contract of a bounded FIFO queue\<close>

text \<open>
  The interface the clients of the queues use: \<open>Enqueue\<close> reports whether the item went in,
  \<open>Dequeue\<close> whether one came out, and writes it over the caller's variable. \<open>None\<close> is a call that
  does not return; the contract says there is none.
\<close>

datatype 'a queue_op = Enqueue_op 'a | Dequeue_op 'a

datatype 'a queue_reply = Enqueue_reply bool | Dequeue_reply bool 'a

fun run_queue ::
    "('q \<Rightarrow> 'a \<Rightarrow> (bool \<times> 'q) option) \<Rightarrow> ('q \<Rightarrow> 'a \<Rightarrow> (bool \<times> 'a \<times> 'q) option) \<Rightarrow>
     'q \<Rightarrow> 'a queue_op list \<Rightarrow> ('a queue_reply list \<times> 'q) option" where
  "run_queue enq deq q [] = Some ([], q)"
| "run_queue enq deq q (Enqueue_op x # ops) =
     Option.bind (enq q x) (\<lambda>(ok, q').
       map_option (\<lambda>(rs, q''). (Enqueue_reply ok # rs, q'')) (run_queue enq deq q' ops))"
| "run_queue enq deq q (Dequeue_op out # ops) =
     Option.bind (deq q out) (\<lambda>(ok, x, q').
       map_option (\<lambda>(rs, q''). (Dequeue_reply ok x # rs, q'')) (run_queue enq deq q' ops))"

text \<open>The specification: a list of at most \<open>capacity\<close> items.\<close>

definition spec_enqueue :: "nat \<Rightarrow> 'a list \<Rightarrow> 'a \<Rightarrow> (bool \<times> 'a list) option" where
  "spec_enqueue capacity xs x =
     (if length xs < capacity then Some (True, xs @ [x]) else Some (False, xs))"

fun spec_dequeue :: "'a list \<Rightarrow> 'a \<Rightarrow> (bool \<times> 'a \<times> 'a list) option" where
  "spec_dequeue [] out = Some (False, out, [])"
| "spec_dequeue (x # xs) out = Some (True, x, xs)"

locale bounded_fifo =
  fixes enqueue :: "'q \<Rightarrow> 'a \<Rightarrow> (bool \<times> 'q) option"
    and dequeue :: "'q \<Rightarrow> 'a \<Rightarrow> (bool \<times> 'a \<times> 'q) option"
    and items :: "'q \<Rightarrow> 'a list"
    and queue_ok :: "'q \<Rightarrow> bool"
    and capacity :: "'q \<Rightarrow> nat"
  assumes enqueue_room: "queue_ok q \<Longrightarrow> length (items q) < capacity q \<Longrightarrow>
      \<exists>q'. enqueue q x = Some (True, q') \<and> queue_ok q' \<and> capacity q' = capacity q
        \<and> items q' = items q @ [x]"
    and enqueue_full: "queue_ok q \<Longrightarrow> \<not> length (items q) < capacity q \<Longrightarrow> enqueue q x = Some (False, q)"
    and dequeue_item: "queue_ok q \<Longrightarrow> items q = y # ys \<Longrightarrow>
      \<exists>q'. dequeue q out = Some (True, y, q') \<and> queue_ok q' \<and> capacity q' = capacity q \<and> items q' = ys"
    and dequeue_empty: "queue_ok q \<Longrightarrow> items q = [] \<Longrightarrow> dequeue q out = Some (False, out, q)"
    and items_bound: "queue_ok q \<Longrightarrow> length (items q) \<le> capacity q"
begin

text \<open>Every sequence of calls returns, with the replies of the specification.\<close>

lemma run_queue_spec:
  assumes "queue_ok q"
  shows "\<exists>rs q'. run_queue enqueue dequeue q ops = Some (rs, q') \<and> queue_ok q' \<and> capacity q' = capacity q
    \<and> run_queue (spec_enqueue (capacity q)) spec_dequeue (items q) ops = Some (rs, items q')"
  using assms
proof (induction ops arbitrary: q)
  case Nil
  then show ?case by simp
next
  case (Cons oper ops)
  show ?case
  proof (cases oper)
    case (Enqueue_op x)
    show ?thesis
    proof (cases "length (items q) < capacity q")
      case True
      then obtain q' where q': "enqueue q x = Some (True, q')" "queue_ok q'" "capacity q' = capacity q"
          "items q' = items q @ [x]"
        using enqueue_room [OF Cons.prems] by blast
      with Cons.IH [OF q'(2)] Enqueue_op True show ?thesis by (auto simp: spec_enqueue_def)
    next
      case False
      with Cons.IH [OF Cons.prems] Enqueue_op enqueue_full [OF Cons.prems False] show ?thesis
        by (auto simp: spec_enqueue_def)
    qed
  next
    case (Dequeue_op out)
    show ?thesis
    proof (cases "items q")
      case Nil
      with Cons.IH [OF Cons.prems] Dequeue_op dequeue_empty [OF Cons.prems Nil] show ?thesis by auto
    next
      case (Cons y ys)
      then obtain q' where q': "dequeue q out = Some (True, y, q')" "queue_ok q'" "capacity q' = capacity q"
          "items q' = ys"
        using dequeue_item [OF \<open>queue_ok q\<close> Cons] by blast
      with \<open>\<And>q. queue_ok q \<Longrightarrow> _ q\<close> [OF q'(2)] Dequeue_op Cons show ?thesis by auto
    qed
  qed
qed

text \<open>Draining: repeated \<open>Dequeue\<close> calls hand out the items in order and end with an empty queue.\<close>

lemma drain_step:
  "queue_ok q \<Longrightarrow> items q \<noteq> [] \<Longrightarrow>
   \<exists>q'. dequeue q out = Some (True, hd (items q), q') \<and> queue_ok q' \<and> items q' = tl (items q)"
  using dequeue_item [of q "hd (items q)" "tl (items q)" out] by auto

end

interpretation mpmc: bounded_fifo MPMC_Enqueue MPMC_Dequeue ring_contents ring_ok ring_capacity
proof
  fix q :: "'a ring" and y out :: 'a and ys
  assume q: "ring_ok q" and c: "ring_contents q = y # ys"
  then have "0 < ring_len q" by (metis length_ring_contents length_greater_0_conv list.discI)
  with q c ring_pop_ok [OF q] show "\<exists>q'. MPMC_Dequeue q out = Some (True, y, q') \<and> ring_ok q'
      \<and> ring_capacity q' = ring_capacity q \<and> ring_contents q' = ys"
    by (auto simp: MPMC_Dequeue_eq)
qed (simp_all add: MPMC_Enqueue_eq MPMC_Dequeue_eq ring_push_ok ring_contents_Nil ring_ok_len)

text \<open>The single consumer's \<open>Dequeue\<close> has no loop; it is lifted to the interface.\<close>

interpretation mpsc: bounded_fifo MPSC_Enqueue "\<lambda>q out. Some (MPSC_Dequeue q out)" ring_contents ring_ok ring_capacity
proof
  fix q :: "'a ring" and y out :: 'a and ys
  assume q: "ring_ok q" and c: "ring_contents q = y # ys"
  then have "0 < ring_len q" by (metis length_ring_contents length_greater_0_conv list.discI)
  with q c ring_pop_ok [OF q] show "\<exists>q'. Some (MPSC_Dequeue q out) = Some (True, y, q') \<and> ring_ok q'
      \<and> ring_capacity q' = ring_capacity q \<and> ring_contents q' = ys"
    by (auto simp: MPSC_Dequeue_eq)
qed (simp_all add: MPSC_Enqueue_eq MPSC_Dequeue_eq ring_push_ok ring_contents_Nil ring_ok_len)


section \<open>Properties\<close>

text \<open>C5. \<open>MPMCQueue\<close> refines a bounded FIFO queue: from any consistent ring, wherever its 64-bit
  counters stand (they may wrap around during the run), every sequence of \<open>Enqueue\<close> and \<open>Dequeue\<close>
  calls terminates and gives the replies a list of at most \<open>Capacity\<close> items gives: \<open>Enqueue\<close> is
  refused exactly when the queue is full, \<open>Dequeue\<close> exactly when it is empty, and items come out in
  the order they went in.\<close>

theorem mpmc_refines_fifo:
  assumes "ring_ok q"
  shows "\<exists>rs q'. run_queue MPMC_Enqueue MPMC_Dequeue q ops = Some (rs, q') \<and> ring_ok q'
    \<and> run_queue (spec_enqueue (ring_capacity q)) spec_dequeue (ring_contents q) ops
      = Some (rs, ring_contents q')"
  using mpmc.run_queue_spec [OF assms] by blast

definition wrapping_ring :: "nat ring" where
  "wrapping_ring = \<lparr>rg_slots = [\<lparr>qs_sequence = 0, qs_storage = 0\<rparr>, \<lparr>qs_sequence = -1, qs_storage = 0\<rparr>],
     rg_head = -1, rg_tail = -1\<rparr>"

lemma wrapping_ring_ok: "ring_ok wrapping_ring" "ring_contents wrapping_ring = []"
    "ring_capacity wrapping_ring = 2"
proof -
  have c: "capacity_ok 2"
    unfolding capacity_ok_def by (intro exI [of _ 1]) simp
  have i: "slot_index 2 (-1) = 1" "slot_index 2 0 = 0"
    by (code_simp, code_simp)
  then show "ring_ok wrapping_ring"
    using c by (auto simp: ring_ok_def wrapping_ring_def ring_len_def ring_slot_def numeral_2_eq_2 less_Suc_eq)
qed (simp_all add: wrapping_ring_def ring_contents_def ring_len_def)

theorem mpmc_refines_fifo_witness:
  "\<exists>q'. run_queue MPMC_Enqueue MPMC_Dequeue wrapping_ring
     [Enqueue_op 4, Enqueue_op 5, Enqueue_op 6, Dequeue_op 0, Dequeue_op 0, Dequeue_op 9]
   = Some ([Enqueue_reply True, Enqueue_reply True, Enqueue_reply False,
       Dequeue_reply True 4, Dequeue_reply True 5, Dequeue_reply False 9], q')"
  using mpmc_refines_fifo [OF wrapping_ring_ok(1),
      of "[Enqueue_op 4, Enqueue_op 5, Enqueue_op 6, Dequeue_op 0, Dequeue_op 0, Dequeue_op 9]"]
  by (auto simp: wrapping_ring_ok spec_enqueue_def)

text \<open>The same refinement for \<open>MPSCQueue\<close>, whose single consumer pops without a
  compare-and-swap loop.\<close>

theorem mpsc_refines_fifo:
  assumes "ring_ok q"
  shows "\<exists>rs q'. run_queue MPSC_Enqueue (\<lambda>q out. Some (MPSC_Dequeue q out)) q ops = Some (rs, q') \<and> ring_ok q'
    \<and> run_queue (spec_enqueue (ring_capacity q)) spec_dequeue (ring_contents q) ops
      = Some (rs, ring_contents q')"
  using mpsc.run_queue_spec [OF assms] by blast

theorem mpsc_refines_fifo_witness:
  "\<exists>q'. run_queue MPSC_Enqueue (\<lambda>q out. Some (MPSC_Dequeue q out)) wrapping_ring
     [Enqueue_op 4, Dequeue_op 0, Dequeue_op 9, Enqueue_op 5]
   = Some ([Enqueue_reply True, Dequeue_reply True 4, Dequeue_reply False 9, Enqueue_reply True], q')"
  using mpsc_refines_fifo [OF wrapping_ring_ok(1), of "[Enqueue_op 4, Dequeue_op 0, Dequeue_op 9, Enqueue_op 5]"]
  by (auto simp: wrapping_ring_ok spec_enqueue_def)

end
