(* ===== verification/Memory_Pool.thy ===== *)
theory Memory_Pool
  imports Prelude
begin

text \<open>
  The fixed-block memory pool (\<open>infrastructure/memory_pool\<close>). A pointer is a 64-bit address, \<open>0\<close>
  for \<open>nullptr\<close>; the pool's storage is one region whose base address the allocator chose
  (\<open>storage\<close>, an argument of the constructor here). The free list is a stack of block indices and
  \<open>m_allocated\<close> marks the blocks handed out. The locale \<open>memory_pool\<close> is the contract of
  \<open>IMemoryPool\<close>.
\<close>

section \<open>MemoryBlock\<close>

type_synonym address = u64

record memory_block =
  mb_data :: address
  mb_size :: usize

definition nullptr :: address where
  "nullptr = 0"

definition MemoryBlock_empty :: memory_block where
  "MemoryBlock_empty = \<lparr>mb_data = nullptr, mb_size = 0\<rparr>"

definition MemoryBlock_IsValid :: "memory_block \<Rightarrow> bool" where
  "MemoryBlock_IsValid b = (mb_data b \<noteq> nullptr)"

definition MemoryBlock_Reset :: "memory_block \<Rightarrow> memory_block" where
  "MemoryBlock_Reset b = b\<lparr>mb_data := nullptr, mb_size := 0\<rparr>"

section \<open>FixedBlockPool\<close>

text \<open>
  \<open>fp_storage\<close> is the base address. \<open>std::vector\<close> subscripts past the end are undefined behaviour;
  address arithmetic is on 64 bits.
\<close>

record fixed_block_pool =
  fp_storage :: address
  fp_freeList :: "usize list"
  fp_allocated :: "u8 list"
  fp_blockSize :: usize
  fp_blockCount :: usize

fun initial_free_list :: "usize \<Rightarrow> nat \<Rightarrow> usize list" where
  "initial_free_list count 0 = []"
| "initial_free_list count (Suc i) = initial_free_list count i @ [count - 1 - of_nat i]"

definition FixedBlockPool_new :: "address \<Rightarrow> usize \<Rightarrow> usize \<Rightarrow> fixed_block_pool result" where
  "FixedBlockPool_new storage blockSize blockCount =
     (if blockSize = 0 then Inl Invalid_argument
      else if blockCount = 0 then Inl Invalid_argument
      else Inr \<lparr>fp_storage = storage,
                fp_freeList = initial_free_list blockCount (unat blockCount),
                fp_allocated = replicate (unat blockCount) 0,
                fp_blockSize = blockSize, fp_blockCount = blockCount\<rparr>)"

text \<open>The bytes the constructor asks the allocator for; the product is taken on 64 bits.\<close>

definition FixedBlockPool_totalSize :: "usize \<Rightarrow> usize \<Rightarrow> usize" where
  "FixedBlockPool_totalSize blockSize blockCount = blockSize * blockCount"

definition Pool_Allocate :: "fixed_block_pool \<Rightarrow> (memory_block \<times> fixed_block_pool) result" where
  "Pool_Allocate p =
     (if fp_freeList p = [] then Inr (MemoryBlock_empty, p)
      else let index = last (fp_freeList p) in
        and_then (array_set (fp_allocated p) (unat index) 1) (\<lambda>allocated.
          Inr (\<lparr>mb_data = fp_storage p + index * fp_blockSize p, mb_size = fp_blockSize p\<rparr>,
               p\<lparr>fp_freeList := butlast (fp_freeList p), fp_allocated := allocated\<rparr>)))"

definition Pool_Owns :: "fixed_block_pool \<Rightarrow> memory_block \<Rightarrow> bool" where
  "Pool_Owns p b =
     (if \<not> MemoryBlock_IsValid b then False
      else let begin_ptr = fp_storage p; end_ptr = begin_ptr + fp_blockSize p * fp_blockCount p in
        mb_data b \<ge> begin_ptr \<and> mb_data b < end_ptr \<and> mb_size b = fp_blockSize p)"

definition Pool_Deallocate :: "fixed_block_pool \<Rightarrow> memory_block \<Rightarrow> (bool \<times> fixed_block_pool) result" where
  "Pool_Deallocate p b =
     (if \<not> Pool_Owns p b then Inr (False, p)
      else let offset = mb_data b - fp_storage p in
        if offset mod fp_blockSize p \<noteq> 0 then Inr (False, p)
        else let index = offset div fp_blockSize p in
          and_then (array_get (fp_allocated p) (unat index)) (\<lambda>mark.
            if mark = 0 then Inr (False, p)
            else and_then (array_set (fp_allocated p) (unat index) 0) (\<lambda>allocated.
              Inr (True, p\<lparr>fp_allocated := allocated, fp_freeList := fp_freeList p @ [index]\<rparr>))))"

definition Pool_BlockSize :: "fixed_block_pool \<Rightarrow> usize" where
  "Pool_BlockSize p = fp_blockSize p"

definition Pool_Capacity :: "fixed_block_pool \<Rightarrow> usize" where
  "Pool_Capacity p = fp_blockCount p"

definition Pool_AvailableBlocks :: "fixed_block_pool \<Rightarrow> usize" where
  "Pool_AvailableBlocks p = of_nat (length (fp_freeList p))"


section \<open>The invariant and the live blocks\<close>

text \<open>
  The storage is a region of \<open>blockSize * blockCount\<close> bytes, computed without wrap-around, that
  ends below the top of the address space; the free list holds every unmarked index once.
\<close>

definition pool_region_ok :: "fixed_block_pool \<Rightarrow> bool" where
  "pool_region_ok p \<longleftrightarrow> fp_storage p \<noteq> nullptr \<and> fp_blockSize p \<noteq> 0 \<and>
     unat (fp_storage p) + unat (fp_blockSize p) * unat (fp_blockCount p) < 2 ^ 64"

definition pool_ok :: "fixed_block_pool \<Rightarrow> bool" where
  "pool_ok p \<longleftrightarrow> pool_region_ok p \<and>
     length (fp_allocated p) = unat (fp_blockCount p) \<and>
     distinct (fp_freeList p) \<and>
     (\<forall>i \<in> set (fp_freeList p). unat i < unat (fp_blockCount p)) \<and>
     (\<forall>i < unat (fp_blockCount p). fp_allocated p ! i = 0 \<longleftrightarrow> of_nat i \<in> set (fp_freeList p))"

definition block_at :: "fixed_block_pool \<Rightarrow> nat \<Rightarrow> memory_block" where
  "block_at p i = \<lparr>mb_data = fp_storage p + of_nat i * fp_blockSize p, mb_size = fp_blockSize p\<rparr>"

definition live_blocks :: "fixed_block_pool \<Rightarrow> memory_block set" where
  "live_blocks p = {block_at p i | i. i < unat (fp_blockCount p) \<and> fp_allocated p ! i \<noteq> 0}"

lemma nat_interval_step:
  fixes a c n :: nat
  assumes "n < c"
  shows "(c - Suc n \<le> a \<and> a < c) \<longleftrightarrow> a = c - Suc n \<or> (c - n \<le> a \<and> a < c)"
  using assms by arith

lemma set_initial_free_list:
  "n \<le> unat c \<Longrightarrow> set (initial_free_list c n) = {i. unat c - n \<le> unat i \<and> unat i < unat c}"
proof (induction n)
  case 0
  show ?case by auto
next
  case (Suc n)
  have n: "n < 2 ^ 64" using Suc.prems unat_lt64 [of c] by simp
  have "(1 :: u64) \<le> c" using Suc.prems by (simp add: word_le_nat_alt)
  then have c1: "unat (c - 1) = unat c - 1" by (simp add: unat_sub)
  then have "of_nat n \<le> c - 1" using Suc.prems n by (simp add: word_le_nat_alt unat_of_nat64)
  then have u: "unat (c - 1 - of_nat n) = unat c - Suc n"
    using c1 n by (simp add: unat_sub unat_of_nat64)
  have e: "unat i = unat c - Suc n \<longleftrightarrow> i = c - 1 - of_nat n" for i
    unfolding word_unat_eq_iff u ..
  have "(unat c - Suc n \<le> unat i \<and> unat i < unat c)
      \<longleftrightarrow> i = c - 1 - of_nat n \<or> (unat c - n \<le> unat i \<and> unat i < unat c)" for i
    unfolding e [symmetric] using Suc.prems by (intro nat_interval_step) simp
  then have "{i. unat c - Suc n \<le> unat i \<and> unat i < unat c}
      = {i. unat c - n \<le> unat i \<and> unat i < unat c} \<union> {c - 1 - of_nat n}"
    by blast
  moreover have "set (initial_free_list c n) = {i. unat c - n \<le> unat i \<and> unat i < unat c}"
    using Suc by (simp only: Suc_leD)
  ultimately show ?case
    by (simp only: initial_free_list.simps set_append list.set)
qed

lemma distinct_initial_free_list: "n \<le> unat c \<Longrightarrow> distinct (initial_free_list c n)"
proof (induction n)
  case 0
  show ?case by simp
next
  case (Suc n)
  have n: "n < 2 ^ 64" using Suc.prems unat_lt64 [of c] by simp
  have "(1 :: u64) \<le> c" using Suc.prems by (simp add: word_le_nat_alt)
  then have c1: "unat (c - 1) = unat c - 1" by (simp add: unat_sub)
  then have "of_nat n \<le> c - 1" using Suc.prems n by (simp add: word_le_nat_alt unat_of_nat64)
  then have u: "unat (c - 1 - of_nat n) = unat c - Suc n"
    using c1 n by (simp add: unat_sub unat_of_nat64)
  show ?case
    using Suc u set_initial_free_list [of n c] by auto
qed

lemma length_initial_free_list [simp]: "length (initial_free_list c n) = n"
  by (induction n) auto

lemma FixedBlockPool_new_ok:
  assumes "FixedBlockPool_new s bs bc = Inr p" and "s \<noteq> nullptr"
    and "unat s + unat bs * unat bc < 2 ^ 64"
  shows "pool_ok p" and "live_blocks p = {}" and "length (fp_freeList p) = unat bc"
proof -
  have p: "p = \<lparr>fp_storage = s, fp_freeList = initial_free_list bc (unat bc),
      fp_allocated = replicate (unat bc) 0, fp_blockSize = bs, fp_blockCount = bc\<rparr>"
    and "bs \<noteq> 0"
    using assms(1) by (auto simp: FixedBlockPool_new_def split: if_splits)
  then show "pool_ok p"
    using assms(2,3) set_initial_free_list [of "unat bc" bc] distinct_initial_free_list [of "unat bc" bc]
      unat_lt64 [of bc]
    by (auto simp: pool_ok_def pool_region_ok_def unat_of_nat64)
  show "live_blocks p = {}" and "length (fp_freeList p) = unat bc"
    using p by (auto simp: live_blocks_def)
qed

lemma unat_block_at:
  assumes "pool_region_ok p" and "i < unat (fp_blockCount p)"
  shows "unat (mb_data (block_at p i)) = unat (fp_storage p) + i * unat (fp_blockSize p)"
    and "i * unat (fp_blockSize p) + unat (fp_blockSize p)
      \<le> unat (fp_blockSize p) * unat (fp_blockCount p)"
proof -
  have "Suc i * unat (fp_blockSize p) \<le> unat (fp_blockCount p) * unat (fp_blockSize p)"
    using assms(2) by (intro mult_le_mono1) simp
  then show le: "i * unat (fp_blockSize p) + unat (fp_blockSize p)
      \<le> unat (fp_blockSize p) * unat (fp_blockCount p)"
    by (simp add: mult.commute add.commute)
  have i: "unat (of_nat i :: u64) = i"
    using assms(2) unat_lt64 [of "fp_blockCount p"] by (simp add: unat_of_nat64)
  have small: "unat (fp_storage p) + i * unat (fp_blockSize p) < 2 ^ 64"
    using le assms(1) by (simp add: pool_region_ok_def)
  then have "unat (of_nat i * fp_blockSize p) = i * unat (fp_blockSize p)"
    using i by (simp add: unat_word_ariths)
  then show "unat (mb_data (block_at p i)) = unat (fp_storage p) + i * unat (fp_blockSize p)"
    using small by (simp add: block_at_def unat_add_nowrap)
qed

lemma block_at_inj:
  assumes "pool_region_ok p" and "i < unat (fp_blockCount p)" and "j < unat (fp_blockCount p)"
  shows "block_at p i = block_at p j \<longleftrightarrow> i = j"
proof
  assume "block_at p i = block_at p j"
  then have eq: "i * unat (fp_blockSize p) = j * unat (fp_blockSize p)"
    using unat_block_at(1) [OF assms(1,2)] unat_block_at(1) [OF assms(1,3)]
    by (simp only: add_left_cancel)
  have "0 < unat (fp_blockSize p)"
    using assms(1) by (simp add: pool_region_ok_def unat_gt_0)
  then show "i = j" using eq by (metis mult_cancel2 less_numeral_extra(3))
qed simp

lemma block_at_valid:
  assumes "pool_region_ok p" and "i < unat (fp_blockCount p)"
  shows "MemoryBlock_IsValid (block_at p i)"
proof -
  have "unat (fp_storage p) \<noteq> 0"
    using assms(1) by (simp add: pool_region_ok_def nullptr_def unsigned_eq_0_iff)
  then have "unat (mb_data (block_at p i)) \<noteq> 0"
    using unat_block_at(1) [OF assms] by simp
  then show ?thesis by (auto simp: MemoryBlock_IsValid_def nullptr_def)
qed

text \<open>Which blocks \<open>Deallocate\<close> recognises: the guard chain of the code, as an index.\<close>

lemma unat_pool_end:
  assumes "pool_region_ok p"
  shows "unat (fp_storage p + fp_blockSize p * fp_blockCount p)
    = unat (fp_storage p) + unat (fp_blockSize p) * unat (fp_blockCount p)"
proof -
  have "unat (fp_blockSize p * fp_blockCount p) = unat (fp_blockSize p) * unat (fp_blockCount p)"
    using assms by (simp add: pool_region_ok_def unat_word_ariths)
  then show ?thesis
    using assms by (simp add: pool_region_ok_def unat_add_nowrap)
qed

lemma Owns_block_at:
  assumes "pool_region_ok p" and "i < unat (fp_blockCount p)"
  shows "Pool_Owns p (block_at p i)"
    and "(mb_data (block_at p i) - fp_storage p) mod fp_blockSize p = 0"
    and "unat ((mb_data (block_at p i) - fp_storage p) div fp_blockSize p) = i"
proof -
  note u = unat_block_at [OF assms]
  have bs: "0 < unat (fp_blockSize p)"
    using assms(1) by (simp add: pool_region_ok_def unat_gt_0)
  have "unat (mb_data (block_at p i)) < unat (fp_storage p + fp_blockSize p * fp_blockCount p)"
    using u bs unat_pool_end [OF assms(1)] by linarith
  moreover have "unat (fp_storage p) \<le> unat (mb_data (block_at p i))"
    using u by simp
  moreover have "mb_size (block_at p i) = fp_blockSize p"
    by (simp add: block_at_def)
  ultimately show "Pool_Owns p (block_at p i)"
    using block_at_valid [OF assms]
    by (simp only: Pool_Owns_def Let_def word_le_nat_alt word_less_nat_alt) simp
  have "fp_storage p \<le> mb_data (block_at p i)"
    using u by (simp add: word_le_nat_alt)
  then have d: "unat (mb_data (block_at p i) - fp_storage p) = i * unat (fp_blockSize p)"
    using u by (simp add: unat_sub)
  have "unat ((mb_data (block_at p i) - fp_storage p) mod fp_blockSize p) = 0"
    by (simp add: unat_mod_distrib d)
  then show "(mb_data (block_at p i) - fp_storage p) mod fp_blockSize p = 0"
    by (simp add: unsigned_eq_0_iff)
  show "unat ((mb_data (block_at p i) - fp_storage p) div fp_blockSize p) = i"
    using bs by (simp add: unat_div_distrib d)
qed

lemma Owns_aligned_block_at:
  assumes p: "pool_region_ok p" and owns: "Pool_Owns p b"
    and aligned: "(mb_data b - fp_storage p) mod fp_blockSize p = 0"
  shows "unat ((mb_data b - fp_storage p) div fp_blockSize p) < unat (fp_blockCount p)"
    and "b = block_at p (unat ((mb_data b - fp_storage p) div fp_blockSize p))"
proof -
  let ?off = "mb_data b - fp_storage p"
  have bs: "0 < unat (fp_blockSize p)"
    using p by (simp add: pool_region_ok_def unat_gt_0)
  have le: "fp_storage p \<le> mb_data b"
    and lt: "unat (mb_data b) < unat (fp_storage p) + unat (fp_blockSize p) * unat (fp_blockCount p)"
    and sz: "mb_size b = fp_blockSize p"
    using owns unat_pool_end [OF p]
    by (auto simp: Pool_Owns_def Let_def word_less_nat_alt split: if_splits)
  have off: "unat ?off < unat (fp_blockSize p) * unat (fp_blockCount p)"
    using le lt by (simp add: unat_sub word_le_nat_alt)
  then show i: "unat (?off div fp_blockSize p) < unat (fp_blockCount p)"
    using bs by (simp add: unat_div_distrib less_mult_imp_div_less mult.commute)
  have "?off = (?off div fp_blockSize p) * fp_blockSize p"
    using aligned by (metis div_mult_mod_eq add.right_neutral)
  then show "b = block_at p (unat (?off div fp_blockSize p))"
    using sz by (simp add: block_at_def)
qed

section \<open>What each operation does to the live blocks\<close>

definition live_indices :: "fixed_block_pool \<Rightarrow> nat set" where
  "live_indices p = {i. i < unat (fp_blockCount p) \<and> fp_allocated p ! i \<noteq> 0}"

lemma inj_on_unat: "inj_on unat (A :: usize set)"
  by (simp add: inj_on_def word_unat_eq_iff)

lemma live_blocks_image: "live_blocks p = block_at p ` live_indices p"
  by (auto simp: live_blocks_def live_indices_def)

lemma finite_live_indices [simp]: "finite (live_indices p)"
  by (simp add: live_indices_def)

lemma block_at_live_iff:
  "pool_region_ok p \<Longrightarrow> i < unat (fp_blockCount p)
    \<Longrightarrow> block_at p i \<in> live_blocks p \<longleftrightarrow> fp_allocated p ! i \<noteq> 0"
  by (auto simp: live_blocks_def block_at_inj)

lemma card_live_blocks:
  assumes ok: "pool_ok p"
  shows "finite (live_blocks p)"
    and "card (live_blocks p) + length (fp_freeList p) = unat (fp_blockCount p)"
proof -
  let ?n = "unat (fp_blockCount p)" and ?F = "unat ` set (fp_freeList p)"
  show "finite (live_blocks p)" by (simp add: live_blocks_image)
  have "inj_on (block_at p) (live_indices p)"
    using ok block_at_inj [of p] by (auto simp: inj_on_def pool_ok_def live_indices_def)
  then have "card (live_blocks p) = card (live_indices p)"
    by (simp add: live_blocks_image card_image)
  moreover have "card ?F = length (fp_freeList p)"
    using ok card_image [of unat "set (fp_freeList p)"] inj_on_unat
    by (simp only: pool_ok_def distinct_card)
  moreover have "of_nat i \<in> set (fp_freeList p) \<longleftrightarrow> i \<in> ?F" if "i < ?n" for i
    using that unat_lt64 [of "fp_blockCount p"] by (force simp: unat_of_nat64 image_iff)
  then have "live_indices p \<union> ?F = {..<?n}" "live_indices p \<inter> ?F = {}"
    using ok by (auto simp: pool_ok_def live_indices_def)
  then have "card (live_indices p) + card ?F = ?n"
    using card_Un_disjoint [of "live_indices p" ?F] by simp
  ultimately show "card (live_blocks p) + length (fp_freeList p) = ?n" by simp
qed

lemma Pool_Allocate_empty: "fp_freeList p = [] \<Longrightarrow> Pool_Allocate p = Inr (MemoryBlock_empty, p)"
  by (simp add: Pool_Allocate_def)

lemma live_blocks_cong:
  assumes "fp_storage p' = fp_storage p" and "fp_blockSize p' = fp_blockSize p"
    and "fp_blockCount p' = fp_blockCount p"
  shows "live_blocks p' = block_at p ` live_indices p'"
  using assms by (simp add: live_blocks_image block_at_def fun_eq_iff)

lemma Pool_Allocate_some:
  assumes ok: "pool_ok p" and free: "fp_freeList p \<noteq> []"
  shows "\<exists>p'. Pool_Allocate p = Inr (block_at p (unat (last (fp_freeList p))), p') \<and> pool_ok p'
    \<and> fp_storage p' = fp_storage p \<and> fp_blockSize p' = fp_blockSize p
    \<and> fp_blockCount p' = fp_blockCount p
    \<and> block_at p (unat (last (fp_freeList p))) \<notin> live_blocks p
    \<and> live_blocks p' = insert (block_at p (unat (last (fp_freeList p)))) (live_blocks p)"
proof -
  obtain fs k where fl: "fp_freeList p = fs @ [k]" using free by (metis rev_exhaust)
  have lb: "last (fp_freeList p) = k" "butlast (fp_freeList p) = fs"
    and sd: "set (fp_freeList p) = insert k (set fs)"
    using fl by simp_all
  have region: "pool_region_ok p" and len: "length (fp_allocated p) = unat (fp_blockCount p)"
    and dist: "distinct (fs @ [k])"
    and bnd: "\<forall>i \<in> insert k (set fs). unat i < unat (fp_blockCount p)"
    and mark: "\<forall>i < unat (fp_blockCount p). fp_allocated p ! i = 0 \<longleftrightarrow> of_nat i \<in> insert k (set fs)"
    using ok unfolding pool_ok_def sd fl by simp_all
  have k: "unat k < unat (fp_blockCount p)" and knot: "k \<notin> set fs" and rest: "distinct fs"
    using bnd dist by simp_all
  let ?p' = "p\<lparr>fp_freeList := fs, fp_allocated := (fp_allocated p)[unat k := 1]\<rparr>"
  have ofk: "of_nat i = k \<longleftrightarrow> i = unat k" if "i < unat (fp_blockCount p)" for i
    using that unat_lt64 [of "fp_blockCount p"] by (auto simp: unat_of_nat64)
  have alloc: "Pool_Allocate p = Inr (block_at p (unat k), ?p')"
    using free k len by (simp add: Pool_Allocate_def Let_def array_set_def lb block_at_def)
  have ok': "pool_ok ?p'"
    using region len rest mark ofk knot k bnd
    by (auto simp: pool_ok_def pool_region_ok_def nth_list_update)
  have "fp_allocated p ! unat k = 0" using mark k by simp
  then have notlive: "block_at p (unat k) \<notin> live_blocks p"
    using block_at_live_iff [OF region k] by simp
  have "live_indices ?p' = insert (unat k) (live_indices p)"
    using len k by (auto simp: live_indices_def nth_list_update)
  then have "live_blocks ?p' = insert (block_at p (unat k)) (live_blocks p)"
    using live_blocks_cong [of ?p' p] by (simp add: live_blocks_image)
  with alloc ok' notlive show ?thesis unfolding lb by (intro exI [of _ ?p']) simp
qed

lemma Pool_Deallocate_live:
  assumes ok: "pool_ok p" and live: "b \<in> live_blocks p"
  shows "\<exists>p'. Pool_Deallocate p b = Inr (True, p') \<and> pool_ok p'
    \<and> fp_storage p' = fp_storage p \<and> fp_blockSize p' = fp_blockSize p
    \<and> fp_blockCount p' = fp_blockCount p \<and> live_blocks p' = live_blocks p - {b}"
proof -
  obtain i where b: "b = block_at p i" and i: "i < unat (fp_blockCount p)"
    and m: "fp_allocated p ! i \<noteq> 0"
    using live by (auto simp: live_blocks_def)
  have region: "pool_region_ok p" and len: "length (fp_allocated p) = unat (fp_blockCount p)"
    using ok by (auto simp: pool_ok_def)
  let ?k = "(mb_data b - fp_storage p) div fp_blockSize p"
  let ?p' = "p\<lparr>fp_allocated := (fp_allocated p)[i := 0], fp_freeList := fp_freeList p @ [?k]\<rparr>"
  note own = Owns_block_at [OF region i, folded b]
  have "i < 2 ^ 64" using i unat_lt64 [of "fp_blockCount p"] by simp
  then have k: "?k = of_nat i"
    using own(3) by (simp only: word_unat_eq_iff unat_of_nat64)
  have "of_nat i \<notin> set (fp_freeList p)" using ok i m by (simp add: pool_ok_def)
  moreover have ofi: "of_nat j = (of_nat i :: u64) \<longleftrightarrow> j = i" if "j < unat (fp_blockCount p)" for j
    using that i unat_lt64 [of "fp_blockCount p"] by (intro of_nat_eq64) simp_all
  moreover have "unat (of_nat i :: u64) < unat (fp_blockCount p)"
    using i unat_lt64 [of "fp_blockCount p"] by (simp add: unat_of_nat64)
  ultimately have "pool_ok ?p'"
    using ok i m len unfolding k by (auto simp: pool_ok_def pool_region_ok_def nth_list_update)
  moreover have "Pool_Deallocate p b = Inr (True, ?p')"
    using own i m len by (simp add: Pool_Deallocate_def Let_def array_get_def array_set_def)
  moreover have "live_indices ?p' = live_indices p - {i}"
    using len i by (auto simp: live_indices_def nth_list_update)
  then have "live_blocks ?p' = live_blocks p - {b}"
    using live_blocks_cong [of ?p' p] block_at_inj [OF region _ i]
    by (auto simp: live_blocks_image b live_indices_def)
  ultimately show ?thesis by (intro exI [of _ ?p']) simp
qed

lemma Pool_Deallocate_not_live:
  assumes ok: "pool_ok p" and dead: "b \<notin> live_blocks p"
  shows "Pool_Deallocate p b = Inr (False, p)"
proof (cases "Pool_Owns p b \<and> (mb_data b - fp_storage p) mod fp_blockSize p = 0")
  case True
  have region: "pool_region_ok p" and len: "length (fp_allocated p) = unat (fp_blockCount p)"
    using ok by (auto simp: pool_ok_def)
  note at = Owns_aligned_block_at [OF region True [THEN conjunct1] True [THEN conjunct2]]
  have "fp_allocated p ! unat ((mb_data b - fp_storage p) div fp_blockSize p) = 0"
    using dead at block_at_live_iff [OF region at(1)] by simp
  then show ?thesis using True at(1) len by (simp add: Pool_Deallocate_def Let_def array_get_def)
qed (auto simp: Pool_Deallocate_def Let_def)

section \<open>The contract of IMemoryPool\<close>

locale memory_pool =
  fixes alloc :: "'s \<Rightarrow> (memory_block \<times> 's) result"
    and dealloc :: "'s \<Rightarrow> memory_block \<Rightarrow> (bool \<times> 's) result"
    and inv :: "'s \<Rightarrow> bool"
    and live :: "'s \<Rightarrow> memory_block set"
    and available :: "'s \<Rightarrow> nat"
  assumes live_finite: "inv s \<Longrightarrow> finite (live s)"
    and alloc_none: "inv s \<Longrightarrow> available s = 0 \<Longrightarrow> alloc s = Inr (MemoryBlock_empty, s)"
    and alloc_some: "inv s \<Longrightarrow> available s \<noteq> 0 \<Longrightarrow>
      \<exists>b s'. alloc s = Inr (b, s') \<and> inv s' \<and> MemoryBlock_IsValid b \<and> b \<notin> live s
        \<and> live s' = insert b (live s) \<and> Suc (available s') = available s"
    and dealloc_live: "inv s \<Longrightarrow> b \<in> live s \<Longrightarrow>
      \<exists>s'. dealloc s b = Inr (True, s') \<and> inv s' \<and> live s' = live s - {b}
        \<and> available s' = Suc (available s)"
    and dealloc_dead: "inv s \<Longrightarrow> b \<notin> live s \<Longrightarrow> dealloc s b = Inr (False, s)"

text \<open>A client is a sequence of calls; a block passed to \<open>Deallocate\<close> may be any value.\<close>

datatype pool_call = Allocate_call | Deallocate_call memory_block

datatype pool_reply = Allocate_reply memory_block | Deallocate_reply bool

fun run_pool :: "('s \<Rightarrow> (memory_block \<times> 's) result) \<Rightarrow> ('s \<Rightarrow> memory_block \<Rightarrow> (bool \<times> 's) result)
    \<Rightarrow> 's \<Rightarrow> pool_call list \<Rightarrow> (pool_reply list \<times> 's) result" where
  "run_pool alloc dealloc s [] = Inr ([], s)"
| "run_pool alloc dealloc s (Allocate_call # cs) =
     and_then (alloc s) (\<lambda>(b, s1). and_then (run_pool alloc dealloc s1 cs) (\<lambda>(rs, s2).
       Inr (Allocate_reply b # rs, s2)))"
| "run_pool alloc dealloc s (Deallocate_call b # cs) =
     and_then (dealloc s b) (\<lambda>(r, s1). and_then (run_pool alloc dealloc s1 cs) (\<lambda>(rs, s2).
       Inr (Deallocate_reply r # rs, s2)))"

text \<open>
  What the client may believe, from the calls and their replies alone: the set it holds, and
  whether each reply is one it can rely on.
\<close>

fun held :: "memory_block set \<Rightarrow> pool_call list \<Rightarrow> pool_reply list \<Rightarrow> memory_block set" where
  "held H (Allocate_call # cs) (Allocate_reply b # rs) =
     held (if MemoryBlock_IsValid b then insert b H else H) cs rs"
| "held H (Deallocate_call b # cs) (Deallocate_reply r # rs) = held (H - {b}) cs rs"
| "held H _ _ = H"

fun replies_sound :: "nat \<Rightarrow> memory_block set \<Rightarrow> pool_call list \<Rightarrow> pool_reply list \<Rightarrow> bool" where
  "replies_sound cap H (Allocate_call # cs) (Allocate_reply b # rs) =
     (if card H < cap
      then MemoryBlock_IsValid b \<and> b \<notin> H \<and> replies_sound cap (insert b H) cs rs
      else b = MemoryBlock_empty \<and> replies_sound cap H cs rs)"
| "replies_sound cap H (Deallocate_call b # cs) (Deallocate_reply r # rs) =
     ((r \<longleftrightarrow> b \<in> H) \<and> replies_sound cap (H - {b}) cs rs)"
| "replies_sound cap H cs rs = (cs = [] \<and> rs = [])"

lemma MemoryBlock_empty_invalid [simp]: "\<not> MemoryBlock_IsValid MemoryBlock_empty"
  by (simp add: MemoryBlock_IsValid_def MemoryBlock_empty_def)

context memory_pool
begin

lemma double_free:
  assumes "inv s" and "dealloc s b = Inr (True, s')"
  shows "b \<in> live s" and "dealloc s' b = Inr (False, s')"
proof -
  show live: "b \<in> live s" using assms dealloc_dead [of s b] by auto
  then show "dealloc s' b = Inr (False, s')"
    using assms dealloc_live [of s b] dealloc_dead [of s' b] by auto
qed

lemma run_sound:
  assumes "inv s" and "card (live s) + available s = cap"
  shows "\<exists>rs s'. run_pool alloc dealloc s cs = Inr (rs, s') \<and> inv s'
    \<and> replies_sound cap (live s) cs rs \<and> live s' = held (live s) cs rs
    \<and> card (live s') + available s' = cap"
  using assms
proof (induction cs arbitrary: s)
  case Nil
  then show ?case by simp
next
  case (Cons c cs)
  note fin = live_finite [OF Cons.prems(1)]
  show ?case
  proof (cases c)
    case c: Allocate_call
    show ?thesis
    proof (cases "available s = 0")
      case True
      then show ?thesis
        using Cons.IH [OF Cons.prems] alloc_none [OF Cons.prems(1)] Cons.prems(2) c by auto
    next
      case False
      then obtain b s1 where "alloc s = Inr (b, s1)" "inv s1" "MemoryBlock_IsValid b" "b \<notin> live s"
        "live s1 = insert b (live s)" "Suc (available s1) = available s"
        using alloc_some [OF Cons.prems(1)] by auto
      then show ?thesis
        using Cons.IH [of s1] Cons.prems(2) fin False c by fastforce
    qed
  next
    case c: (Deallocate_call b)
    show ?thesis
    proof (cases "b \<in> live s")
      case True
      then obtain s1 where s1: "dealloc s b = Inr (True, s1)" "inv s1" "live s1 = live s - {b}"
        "available s1 = Suc (available s)"
        using dealloc_live [OF Cons.prems(1)] by auto
      then have "card (live s1) + available s1 = cap"
        using True fin Cons.prems(2) card_Suc_Diff1 [OF fin True] by simp
      then show ?thesis using Cons.IH [of s1] s1 True c by auto
    next
      case False
      then have "live s - {b} = live s" by blast
      then show ?thesis
        using Cons.IH [OF Cons.prems] dealloc_dead [OF Cons.prems(1)] False c by auto
    qed
  qed
qed

end

interpretation fixed_pool: memory_pool Pool_Allocate Pool_Deallocate pool_ok live_blocks
  "\<lambda>p. length (fp_freeList p)"
proof unfold_locales
  fix p assume ok: "pool_ok p"
  show "finite (live_blocks p)" by (rule card_live_blocks(1) [OF ok])
  show "Pool_Allocate p = Inr (MemoryBlock_empty, p)" if "length (fp_freeList p) = 0"
    using that by (simp add: Pool_Allocate_empty)
  show "\<exists>b p'. Pool_Allocate p = Inr (b, p') \<and> pool_ok p' \<and> MemoryBlock_IsValid b \<and> b \<notin> live_blocks p
      \<and> live_blocks p' = insert b (live_blocks p) \<and> Suc (length (fp_freeList p')) = length (fp_freeList p)"
    if ne: "length (fp_freeList p) \<noteq> 0"
  proof -
    let ?k = "last (fp_freeList p)"
    have "?k \<in> set (fp_freeList p)" using ne by (intro last_in_set) auto
    then have "MemoryBlock_IsValid (block_at p (unat ?k))"
      using ok by (intro block_at_valid) (simp_all add: pool_ok_def)
    moreover obtain p' where p': "Pool_Allocate p = Inr (block_at p (unat ?k), p')" "pool_ok p'"
      "fp_blockCount p' = fp_blockCount p" "block_at p (unat ?k) \<notin> live_blocks p"
      "live_blocks p' = insert (block_at p (unat ?k)) (live_blocks p)"
      using Pool_Allocate_some [OF ok] ne by auto
    moreover have "card (live_blocks p') = Suc (card (live_blocks p))"
      using p' card_live_blocks(1) [OF ok] by simp
    ultimately show ?thesis
      using card_live_blocks(2) [OF ok] card_live_blocks(2) [OF p'(2)] by auto
  qed
  fix b
  show "Pool_Deallocate p b = Inr (False, p)" if "b \<notin> live_blocks p"
    by (rule Pool_Deallocate_not_live [OF ok that])
  show "\<exists>p'. Pool_Deallocate p b = Inr (True, p') \<and> pool_ok p' \<and> live_blocks p' = live_blocks p - {b}
      \<and> length (fp_freeList p') = Suc (length (fp_freeList p))" if live: "b \<in> live_blocks p"
  proof -
    obtain p' where p': "Pool_Deallocate p b = Inr (True, p')" "pool_ok p'"
      "fp_blockCount p' = fp_blockCount p" "live_blocks p' = live_blocks p - {b}"
      using Pool_Deallocate_live [OF ok live] by auto
    moreover have "Suc (card (live_blocks p')) = card (live_blocks p)"
      using p' card_Suc_Diff1 [OF card_live_blocks(1) [OF ok] live] by simp
    ultimately show ?thesis
      using card_live_blocks(2) [OF ok] card_live_blocks(2) [OF p'(2)] by auto
  qed
qed

section \<open>Properties\<close>

text \<open>C10. A pool built by the constructor over a region of the address space answers every
  sequence of \<open>Allocate\<close> and \<open>Deallocate\<close> calls without touching \<open>m_allocated\<close> out of range: an
  allocation succeeds exactly while fewer than \<open>Capacity\<close> blocks are out and then gives a block that
  is not, a deallocation succeeds exactly for a block that is out (so a double free, a foreign or a
  misaligned block is refused), and \<open>AvailableBlocks\<close> counts the rest.\<close>

theorem pool_serves_every_client:
  assumes "FixedBlockPool_new s bs bc = Inr p" and "s \<noteq> nullptr"
    and "unat s + unat bs * unat bc < 2 ^ 64"
  shows "\<exists>rs p'. run_pool Pool_Allocate Pool_Deallocate p calls = Inr (rs, p')
    \<and> replies_sound (unat (Pool_Capacity p)) {} calls rs
    \<and> live_blocks p' = held {} calls rs
    \<and> card (live_blocks p') + unat (Pool_AvailableBlocks p') = unat (Pool_Capacity p)"
proof -
  note new = FixedBlockPool_new_ok [OF assms]
  have cap: "unat (Pool_Capacity p) = unat bc"
    using assms(1) by (auto simp: FixedBlockPool_new_def Pool_Capacity_def split: if_splits)
  obtain rs p' where "run_pool Pool_Allocate Pool_Deallocate p calls = Inr (rs, p')" "pool_ok p'"
    "replies_sound (unat bc) {} calls rs" "live_blocks p' = held {} calls rs"
    and sum: "card (live_blocks p') + length (fp_freeList p') = unat bc"
    using fixed_pool.run_sound [OF new(1), of "unat bc" calls] new by auto
  moreover have "unat (Pool_AvailableBlocks p') = length (fp_freeList p')"
    using sum unat_lt64 [of bc] by (simp add: Pool_AvailableBlocks_def unat_of_nat64)
  ultimately show ?thesis using cap by (intro exI [of _ rs] exI [of _ p']) simp
qed

definition small_pool :: fixed_block_pool where
  "small_pool = \<lparr>fp_storage = 4096, fp_freeList = [1, 0], fp_allocated = [0, 0],
     fp_blockSize = 16, fp_blockCount = 2\<rparr>"

lemma small_pool_new: "FixedBlockPool_new 4096 16 2 = Inr small_pool"
  by code_simp

theorem pool_serves_every_client_witness:
  "\<exists>rs p'. run_pool Pool_Allocate Pool_Deallocate small_pool
       [Allocate_call, Deallocate_call \<lparr>mb_data = 4096, mb_size = 16\<rparr>,
        Deallocate_call \<lparr>mb_data = 4096, mb_size = 16\<rparr>] = Inr (rs, p')
    \<and> replies_sound 2 {} [Allocate_call, Deallocate_call \<lparr>mb_data = 4096, mb_size = 16\<rparr>,
        Deallocate_call \<lparr>mb_data = 4096, mb_size = 16\<rparr>] rs"
  using pool_serves_every_client [OF small_pool_new]
  by (force simp: nullptr_def small_pool_def Pool_Capacity_def)

text \<open>Two blocks that are out at the same time never overlap, and each lies inside the pool's
  storage, \<open>BlockSize\<close> bytes long.\<close>

theorem live_blocks_disjoint:
  assumes "pool_ok p" and "b \<in> live_blocks p" and "c \<in> live_blocks p" and "b \<noteq> c"
  shows "{unat (mb_data b) ..< unat (mb_data b) + unat (mb_size b)}
      \<inter> {unat (mb_data c) ..< unat (mb_data c) + unat (mb_size c)} = {}
    \<and> mb_size b = Pool_BlockSize p \<and> unat (fp_storage p) \<le> unat (mb_data b)
    \<and> unat (mb_data b) + unat (mb_size b)
      \<le> unat (fp_storage p) + unat (Pool_BlockSize p) * unat (Pool_Capacity p)"
proof -
  obtain i j where b: "b = block_at p i" "i < unat (fp_blockCount p)"
    and c: "c = block_at p j" "j < unat (fp_blockCount p)" and ij: "i \<noteq> j"
    using assms by (auto simp: live_blocks_def)
  have region: "pool_region_ok p" using assms(1) by (simp add: pool_ok_def)
  have sz [simp]: "mb_size b = fp_blockSize p" "mb_size c = fp_blockSize p"
    using b(1) c(1) by (simp_all add: block_at_def)
  have u: "unat (mb_data b) = unat (fp_storage p) + i * unat (fp_blockSize p)"
    "unat (mb_data c) = unat (fp_storage p) + j * unat (fp_blockSize p)"
    using unat_block_at(1) [OF region b(2)] unat_block_at(1) [OF region c(2)] b(1) c(1) by simp_all
  have step: "x * n + n \<le> y * n" if "x < y" for x y n :: nat
    using mult_le_mono1 [of "Suc x" y n] that by simp
  have "{unat (mb_data b) ..< unat (mb_data b) + unat (mb_size b)}
      \<inter> {unat (mb_data c) ..< unat (mb_data c) + unat (mb_size c)} = {}"
    using step [of i j "unat (fp_blockSize p)"] step [of j i "unat (fp_blockSize p)"] ij u
    by (cases "i < j") auto
  moreover have "mb_size b = Pool_BlockSize p" by (simp add: Pool_BlockSize_def)
  moreover have "unat (fp_storage p) \<le> unat (mb_data b)" using u by simp
  moreover have "unat (mb_data b) + unat (mb_size b)
      \<le> unat (fp_storage p) + unat (Pool_BlockSize p) * unat (Pool_Capacity p)"
    using unat_block_at(2) [OF region b(2)] u by (simp add: Pool_BlockSize_def Pool_Capacity_def)
  ultimately show ?thesis by (intro conjI)
qed

definition busy_pool :: fixed_block_pool where
  "busy_pool = small_pool\<lparr>fp_freeList := [], fp_allocated := [1, 1]\<rparr>"

theorem live_blocks_disjoint_witness: "{4096 ..< 4112::nat} \<inter> {4112 ..< 4128} = {}"
proof -
  have "pool_ok busy_pool"
    by (auto simp: pool_ok_def pool_region_ok_def busy_pool_def small_pool_def nullptr_def
        less_2_cases_iff)
  moreover have "block_at busy_pool 0 \<in> live_blocks busy_pool" "block_at busy_pool 1 \<in> live_blocks busy_pool"
    by (auto simp: live_blocks_def busy_pool_def small_pool_def intro: exI [of _ 0] exI [of _ 1])
  ultimately show ?thesis
    using live_blocks_disjoint [of busy_pool "block_at busy_pool 0" "block_at busy_pool 1"]
    by (simp add: block_at_def busy_pool_def small_pool_def)
qed

text \<open>
  Without the region hypothesis the contract fails: \<open>blockSize * blockCount\<close> wraps, the allocator is
  asked for no bytes at all, and the pool still hands out blocks \<open>2^63\<close> bytes apart.
\<close>

lemma wrapped_total_size:
  "FixedBlockPool_totalSize (2 ^ 63) 2 = 0"
  "case FixedBlockPool_new 4096 (2 ^ 63) 2 of Inl _ \<Rightarrow> False | Inr p \<Rightarrow>
    (case Pool_Allocate p of Inl _ \<Rightarrow> False | Inr (a, p1) \<Rightarrow>
      (case Pool_Allocate p1 of Inl _ \<Rightarrow> False | Inr (b, p2) \<Rightarrow>
        MemoryBlock_IsValid a \<and> MemoryBlock_IsValid b \<and> mb_data b - mb_data a = 2 ^ 63
        \<and> \<not> Pool_Owns p2 a \<and> \<not> Pool_Owns p2 b))"
  by (code_simp, code_simp)

end
