(* ===== verification/Timer_Queue.thy ===== *)
theory Timer_Queue
  imports Prelude "HOL-Library.Multiset"
begin

text \<open>
  The timer queue (\<open>infrastructure/timer\<close>). Time points are signed nanosecond counts and leaving
  the 64-bit range is undefined behaviour; each call that reads \<open>IClock\<close> takes the reading as an
  argument. What a callback does to the queue is a parameter \<open>script\<close>: the calls it makes, as a
  function of the queue it finds. \<open>std::priority_queue\<close> is a sorted list, and the locale
  \<open>min_queue\<close> states what the code relies on of it.
\<close>

section \<open>Tasks\<close>

type_synonym TimerId = u64
type_synonym TimerSequence = u64
type_synonym time_point = int
type_synonym duration = int

definition InvalidTimerId :: TimerId where
  "InvalidTimerId = 0"

datatype TimerState = Created | Scheduled | Cancelled | Executing | Completed

record 'cb timer_task =
  tt_id :: TimerId
  tt_deadline :: time_point
  tt_sequence :: TimerSequence
  tt_callback :: "'cb option"
  tt_state :: TimerState

definition TimerTask_gt :: "'cb timer_task \<Rightarrow> 'cb timer_task \<Rightarrow> bool" where
  "TimerTask_gt a b =
     (if tt_deadline a \<noteq> tt_deadline b then tt_deadline a > tt_deadline b
      else tt_sequence a > tt_sequence b)"

section \<open>std::priority_queue\<close>

fun pq_push :: "'cb timer_task \<Rightarrow> 'cb timer_task list \<Rightarrow> 'cb timer_task list" where
  "pq_push t [] = [t]"
| "pq_push t (x # xs) = (if TimerTask_gt x t then t # x # xs else x # pq_push t xs)"

definition pq_sorted :: "'cb timer_task list \<Rightarrow> bool" where
  "pq_sorted = sorted_wrt (\<lambda>a b. \<not> TimerTask_gt a b)"

locale min_queue =
  fixes push :: "'e \<Rightarrow> 'q \<Rightarrow> 'q"
    and top :: "'q \<Rightarrow> 'e"
    and pop :: "'q \<Rightarrow> 'q"
    and elems :: "'q \<Rightarrow> 'e multiset"
    and valid :: "'q \<Rightarrow> bool"
    and gt :: "'e \<Rightarrow> 'e \<Rightarrow> bool"
  assumes push_valid: "valid q \<Longrightarrow> valid (push x q)"
    and push_elems: "elems (push x q) = add_mset x (elems q)"
    and pop_valid: "valid q \<Longrightarrow> elems q \<noteq> {#} \<Longrightarrow> valid (pop q)"
    and top_pop: "elems q \<noteq> {#} \<Longrightarrow> elems q = add_mset (top q) (elems (pop q))"
    and top_least: "valid q \<Longrightarrow> e \<in># elems q \<Longrightarrow> \<not> gt (top q) e"
begin

lemma top_in: "elems q \<noteq> {#} \<Longrightarrow> top q \<in># elems q"
  using top_pop [of q] by simp

lemma pop_subset: "elems q \<noteq> {#} \<Longrightarrow> e \<in># elems (pop q) \<Longrightarrow> e \<in># elems q"
  using top_pop [of q] by simp

lemma pop_size: "elems q \<noteq> {#} \<Longrightarrow> size (elems q) = Suc (size (elems (pop q)))"
  using top_pop [of q] by simp

end

lemma set_pq_push [simp]: "set (pq_push t xs) = insert t (set xs)"
  by (induction xs) auto

lemma length_pq_push [simp]: "length (pq_push t xs) = Suc (length xs)"
  by (induction xs) auto

lemma mset_pq_push: "mset (pq_push t xs) = add_mset t (mset xs)"
  by (induction xs) auto

lemma TimerTask_gt_irrefl [simp]: "\<not> TimerTask_gt a a"
  by (simp add: TimerTask_gt_def)

lemma TimerTask_gt_asym: "TimerTask_gt a b \<Longrightarrow> \<not> TimerTask_gt b a"
  by (auto simp: TimerTask_gt_def split: if_splits)

lemma TimerTask_not_gt_trans:
  "\<not> TimerTask_gt a b \<Longrightarrow> \<not> TimerTask_gt b c \<Longrightarrow> \<not> TimerTask_gt a c"
  by (auto simp: TimerTask_gt_def split: if_splits)

lemma pq_sorted_Cons:
  "pq_sorted (x # xs) \<longleftrightarrow> (\<forall>y \<in> set xs. \<not> TimerTask_gt x y) \<and> pq_sorted xs"
  by (simp add: pq_sorted_def)

lemma pq_sorted_push: "pq_sorted xs \<Longrightarrow> pq_sorted (pq_push t xs)"
proof (induction xs)
  case Nil
  show ?case by (simp add: pq_sorted_def)
next
  case (Cons x xs)
  then show ?case
    using TimerTask_gt_asym [of x t] TimerTask_not_gt_trans [of t x] by (auto simp: pq_sorted_Cons)
qed

interpretation tasks: min_queue pq_push hd tl mset pq_sorted TimerTask_gt
proof unfold_locales
  fix q :: "'a timer_task list" and x e
  show "pq_sorted q \<Longrightarrow> pq_sorted (pq_push x q)" by (rule pq_sorted_push)
  show "mset (pq_push x q) = add_mset x (mset q)" by (rule mset_pq_push)
  show "pq_sorted q \<Longrightarrow> mset q \<noteq> {#} \<Longrightarrow> pq_sorted (tl q)"
    by (cases q) (auto simp: pq_sorted_Cons)
  show "mset q \<noteq> {#} \<Longrightarrow> mset q = add_mset (hd q) (mset (tl q))" by (cases q) auto
  show "pq_sorted q \<Longrightarrow> e \<in># mset q \<Longrightarrow> \<not> TimerTask_gt (hd q) e"
    by (cases q) (auto simp: pq_sorted_Cons)
qed

section \<open>TimerQueue\<close>

record 'cb timer_queue =
  tq_tasks :: "'cb timer_task list"
  tq_cancelledTimers :: "TimerId set"
  tq_nextId :: TimerId
  tq_nextSequence :: TimerSequence

definition TimerQueue_new :: "'cb timer_queue" where
  "TimerQueue_new = \<lparr>tq_tasks = [], tq_cancelledTimers = {}, tq_nextId = 1, tq_nextSequence = 0\<rparr>"

text \<open>\<open>m_clock.Now() + delay\<close>: milliseconds become nanoseconds, both steps on 64 bits.\<close>

definition in_int64 :: "int \<Rightarrow> bool" where
  "in_int64 x \<longleftrightarrow> - (2 ^ 63) \<le> x \<and> x < 2 ^ 63"

definition deadline_of :: "time_point \<Rightarrow> duration \<Rightarrow> time_point result" where
  "deadline_of clock_now delay =
     (if in_int64 (delay * 1000000) \<and> in_int64 (clock_now + delay * 1000000)
      then Inr (clock_now + delay * 1000000) else Inl Undefined)"

definition Schedule :: "time_point \<Rightarrow> duration \<Rightarrow> 'cb option \<Rightarrow> 'cb timer_queue
    \<Rightarrow> (TimerId \<times> 'cb timer_queue) result" where
  "Schedule clock_now delay callback q =
     (if callback = None then Inr (InvalidTimerId, q)
      else let timerId = tq_nextId q; q1 = q\<lparr>tq_nextId := timerId + 1\<rparr> in
        and_then (deadline_of clock_now delay) (\<lambda>deadline.
          let task = \<lparr>tt_id = timerId, tt_deadline = deadline, tt_sequence = tq_nextSequence q1,
                      tt_callback = callback, tt_state = Scheduled\<rparr>;
              q2 = q1\<lparr>tq_nextSequence := tq_nextSequence q1 + 1\<rparr>
          in Inr (timerId, q2\<lparr>tq_tasks := pq_push task (tq_tasks q2)\<rparr>)))"

definition Cancel :: "TimerId \<Rightarrow> 'cb timer_queue \<Rightarrow> bool \<times> 'cb timer_queue" where
  "Cancel timerId q =
     (timerId \<notin> tq_cancelledTimers q,
      q\<lparr>tq_cancelledTimers := insert timerId (tq_cancelledTimers q)\<rparr>)"

definition TimerQueue_Size :: "'cb timer_queue \<Rightarrow> usize" where
  "TimerQueue_Size q = of_nat (length (tq_tasks q))"

definition IsCancelled :: "TimerId \<Rightarrow> 'cb timer_queue \<Rightarrow> bool" where
  "IsCancelled timerId q \<longleftrightarrow> timerId \<in> tq_cancelledTimers q"

subsection \<open>Dispatch\<close>

text \<open>
  A callback is client code. Its calls run against the queue while it executes; an event list
  records the timers added, the calls of \<open>Cancel\<close>, the tasks executed, and the expired tasks not
  executed because they were cancelled.
\<close>

datatype 'cb timer_call = Schedule_call time_point duration "'cb option" | Cancel_call TimerId

datatype 'cb timer_event = Added TimerId | Revoked TimerId | Ran "'cb timer_task" | Skipped TimerId

type_synonym 'cb script = "'cb \<Rightarrow> 'cb timer_queue \<Rightarrow> 'cb timer_call list"

fun run_call :: "'cb timer_call \<Rightarrow> 'cb timer_queue \<Rightarrow> ('cb timer_event list \<times> 'cb timer_queue) result" where
  "run_call (Schedule_call clock_now delay callback) q =
     and_then (Schedule clock_now delay callback q) (\<lambda>(timerId, q').
       Inr (if callback = None then [] else [Added timerId], q'))"
| "run_call (Cancel_call timerId) q = Inr ([Revoked timerId], snd (Cancel timerId q))"

fun run_calls :: "'cb timer_call list \<Rightarrow> 'cb timer_queue \<Rightarrow> ('cb timer_event list \<times> 'cb timer_queue) result" where
  "run_calls [] q = Inr ([], q)"
| "run_calls (c # cs) q =
     and_then (run_call c q) (\<lambda>(es, q1). and_then (run_calls cs q1) (\<lambda>(es', q2). Inr (es @ es', q2)))"

definition pop_expired :: "time_point \<Rightarrow> 'cb timer_queue \<Rightarrow> ('cb timer_task \<times> 'cb timer_queue) option" where
  "pop_expired now q =
     (if tq_tasks q = [] then None
      else if tt_deadline (hd (tq_tasks q)) > now then None
      else Some (hd (tq_tasks q), q\<lparr>tq_tasks := tl (tq_tasks q)\<rparr>))"

definition execute :: "'cb script \<Rightarrow> 'cb timer_task \<Rightarrow> 'cb timer_queue
    \<Rightarrow> ('cb timer_event list \<times> 'cb timer_queue) result" where
  "execute script task q =
     (if tt_id task \<in> tq_cancelledTimers q
      then Inr ([Skipped (tt_id task)], q\<lparr>tq_cancelledTimers := tq_cancelledTimers q - {tt_id task}\<rparr>)
      else case tt_callback task of
          None \<Rightarrow> Inr ([], q)
        | Some callback \<Rightarrow>
            and_then (run_calls (script callback q) q) (\<lambda>(es, q').
              Inr (Ran (task\<lparr>tt_state := Executing\<rparr>) # es, q')))"

partial_function (option) DispatchExpired :: "'cb script \<Rightarrow> time_point \<Rightarrow> 'cb timer_queue
    \<Rightarrow> ('cb timer_event list \<times> 'cb timer_queue) result option" where
  "DispatchExpired script now q =
     (case pop_expired now q of
        None \<Rightarrow> Some (Inr ([], q))
      | Some (task, q1) \<Rightarrow>
          (case execute script task q1 of
             Inl e \<Rightarrow> Some (Inl e)
           | Inr (es, q2) \<Rightarrow>
               Option.bind (DispatchExpired script now q2) (\<lambda>r.
                 Some (and_then r (\<lambda>(es', q3). Inr (es @ es', q3))))))"

definition Tick :: "'cb script \<Rightarrow> time_point \<Rightarrow> 'cb timer_queue
    \<Rightarrow> ('cb timer_event list \<times> 'cb timer_queue) result option" where
  "Tick script now q = DispatchExpired script now q"

text \<open>The owner of the queue: calls from outside and ticks.\<close>

datatype 'cb timer_op = Call_op "'cb timer_call" | Tick_op time_point

fun run_timers :: "'cb script \<Rightarrow> 'cb timer_op list \<Rightarrow> 'cb timer_queue
    \<Rightarrow> ('cb timer_event list \<times> 'cb timer_queue) result option" where
  "run_timers script [] q = Some (Inr ([], q))"
| "run_timers script (op # ops) q =
     Option.bind (case op of Call_op c \<Rightarrow> Some (run_call c q) | Tick_op now \<Rightarrow> Tick script now q) (\<lambda>r.
       case r of
         Inl e \<Rightarrow> Some (Inl e)
       | Inr (es, q1) \<Rightarrow>
           Option.bind (run_timers script ops q1) (\<lambda>r'.
             Some (and_then r' (\<lambda>(es', q2). Inr (es @ es', q2)))))"

section \<open>Reasoning over the events of a run\<close>

fun ran :: "'cb timer_event list \<Rightarrow> 'cb timer_task list" where
  "ran [] = []"
| "ran (Ran t # es) = t # ran es"
| "ran (_ # es) = ran es"

fun adds :: "'cb timer_event list \<Rightarrow> nat" where
  "adds [] = 0"
| "adds (Added i # es) = Suc (adds es)"
| "adds (_ # es) = adds es"

text \<open>The expired timers in the order in which they were taken, executed or not, and the set of
  cancelled identifiers after the events, when it was \<open>C\<close> before them.\<close>

fun handled :: "'cb timer_event list \<Rightarrow> TimerId list" where
  "handled [] = []"
| "handled (Ran t # es) = tt_id t # handled es"
| "handled (Skipped i # es) = i # handled es"
| "handled (_ # es) = handled es"

fun revocations :: "TimerId set \<Rightarrow> 'cb timer_event list \<Rightarrow> TimerId set" where
  "revocations C [] = C"
| "revocations C (Revoked i # es) = revocations (insert i C) es"
| "revocations C (Skipped i # es) = revocations (C - {i}) es"
| "revocations C (_ # es) = revocations C es"

fun obeys :: "TimerId set \<Rightarrow> 'cb timer_event list \<Rightarrow> bool" where
  "obeys C [] \<longleftrightarrow> True"
| "obeys C (Added i # es) \<longleftrightarrow> obeys C es"
| "obeys C (Revoked i # es) \<longleftrightarrow> obeys (insert i C) es"
| "obeys C (Ran t # es) \<longleftrightarrow> tt_id t \<notin> C \<and> obeys C es"
| "obeys C (Skipped i # es) \<longleftrightarrow> i \<in> C \<and> obeys (C - {i}) es"

lemma ran_append [simp]: "ran (es @ es') = ran es @ ran es'"
  by (induction es rule: ran.induct) auto

lemma adds_append [simp]: "adds (es @ es') = adds es + adds es'"
  by (induction es rule: adds.induct) auto

lemma handled_append [simp]: "handled (es @ es') = handled es @ handled es'"
  by (induction es rule: handled.induct) auto

lemma revocations_append [simp]: "revocations C (es @ es') = revocations (revocations C es) es'"
  by (induction C es rule: revocations.induct) auto

lemma obeys_append [simp]: "obeys C (es @ es') \<longleftrightarrow> obeys C es \<and> obeys (revocations C es) es'"
  by (induction C es rule: obeys.induct) auto

lemma Skipped_handled: "Skipped i \<in> set es \<Longrightarrow> i \<in> set (handled es)"
  by (induction es rule: handled.induct) auto

text \<open>Without calls of \<open>Cancel\<close> a timer is skipped exactly when it was cancelled at the start.\<close>

lemma obeys_no_cancel:
  "obeys C es \<Longrightarrow> \<forall>i. Revoked i \<notin> set es \<Longrightarrow> distinct (handled es) \<Longrightarrow>
     revocations C es = C - set (handled es) \<and> (\<forall>i \<in> set (handled es). Skipped i \<in> set es \<longleftrightarrow> i \<in> C)"
proof (induction C es rule: obeys.induct)
  case (5 C i es)
  have "Skipped i \<notin> set es" using 5 by (auto dest: Skipped_handled)
  then show ?case using 5 by auto
qed (auto dest: Skipped_handled)

lemma Dispatch_cases:
  "Tick script now q = (case pop_expired now q of
        None \<Rightarrow> Some (Inr ([], q))
      | Some (task, q1) \<Rightarrow>
          (case execute script task q1 of
             Inl e \<Rightarrow> Some (Inl e)
           | Inr (es, q2) \<Rightarrow>
               Option.bind (Tick script now q2) (\<lambda>r.
                 Some (and_then r (\<lambda>(es', q3). Inr (es @ es', q3))))))"
  unfolding Tick_def by (subst DispatchExpired.simps) rule

text \<open>Partial correctness of a tick: a relation closed under its steps holds of every result.\<close>

lemma Tick_induct:
  assumes run: "Tick script now q = Some (Inr (es, q'))"
    and stop: "\<And>q. pop_expired now q = None \<Longrightarrow> R q [] q"
    and step: "\<And>q t q1 es q2 es' q'. pop_expired now q = Some (t, q1) \<Longrightarrow>
      execute script t q1 = Inr (es, q2) \<Longrightarrow> R q2 es' q' \<Longrightarrow> R q (es @ es') q'"
  shows "R q es q'"
proof -
  have "s = script \<longrightarrow> n = now \<longrightarrow> (\<forall>es q'. r = Inr (es, q') \<longrightarrow> R q es q')"
    if "DispatchExpired s n q = Some r" for s n q r
    using that
  proof (rule DispatchExpired.raw_induct
      [rotated, where P = "\<lambda>s n q r. s = script \<longrightarrow> n = now \<longrightarrow> (\<forall>es q'. r = Inr (es, q') \<longrightarrow> R q es q')"])
    fix D :: "'a script \<Rightarrow> time_point \<Rightarrow> 'a timer_queue \<Rightarrow> ('a timer_event list \<times> 'a timer_queue) result option"
      and s n q r
    assume IH: "\<And>s n q r. D s n q = Some r \<Longrightarrow>
        s = script \<longrightarrow> n = now \<longrightarrow> (\<forall>es q'. r = Inr (es, q') \<longrightarrow> R q es q')"
      and eq: "(case pop_expired n q of None \<Rightarrow> Some (Inr ([], q))
        | Some (task, q1) \<Rightarrow> (case execute s task q1 of Inl e \<Rightarrow> Some (Inl e)
          | Inr (es, q2) \<Rightarrow> Option.bind (D s n q2) (\<lambda>r.
              Some (and_then r (\<lambda>(es', q3). Inr (es @ es', q3)))))) = Some r"
    have "R q es q'" if "D script now q = Some (Inr (es, q'))" for q es q'
      using IH [OF that] by simp
    note D = this
    show "s = script \<longrightarrow> n = now \<longrightarrow> (\<forall>es q'. r = Inr (es, q') \<longrightarrow> R q es q')"
      using eq by (auto simp: bind_eq_Some_conv and_then_Inr_iff dest!: D intro: stop
          split: option.splits sum.splits) (rule step)
  qed
  then show ?thesis using run by (simp add: Tick_def)
qed

text \<open>
  The contract every observer of the queue relies on: a relation between a queue, the events, and
  the queue after them that holds of each elementary step holds of every run.
\<close>

locale timer_relation =
  fixes R :: "'cb timer_queue \<Rightarrow> 'cb timer_event list \<Rightarrow> 'cb timer_queue \<Rightarrow> bool"
  assumes none: "R q [] q"
    and compose: "R q es q1 \<Longrightarrow> R q1 es' q2 \<Longrightarrow> R q (es @ es') q2"
    and schedule: "Schedule clock_now delay (Some cb) q = Inr (i, q') \<Longrightarrow> R q [Added i] q'"
    and cancel: "R q [Revoked i] (snd (Cancel i q))"
    and skip: "pop_expired now q = Some (t, q1) \<Longrightarrow> tt_id t \<in> tq_cancelledTimers q1 \<Longrightarrow>
      R q [Skipped (tt_id t)] (q1\<lparr>tq_cancelledTimers := tq_cancelledTimers q1 - {tt_id t}\<rparr>)"
    and ignore: "pop_expired now q = Some (t, q1) \<Longrightarrow> tt_id t \<notin> tq_cancelledTimers q1 \<Longrightarrow>
      tt_callback t = None \<Longrightarrow> R q [] q1"
    and fire: "pop_expired now q = Some (t, q1) \<Longrightarrow> tt_id t \<notin> tq_cancelledTimers q1 \<Longrightarrow>
      tt_callback t = Some cb \<Longrightarrow> R q [Ran (t\<lparr>tt_state := Executing\<rparr>)] q1"
begin

lemma run_call: "Timer_Queue.run_call c q = Inr (es, q') \<Longrightarrow> R q es q'"
  by (cases c)
    (auto simp: and_then_Inr_iff Schedule_def intro: none cancel schedule split: if_splits)

lemma run_calls: "Timer_Queue.run_calls cs q = Inr (es, q') \<Longrightarrow> R q es q'"
proof (induction cs arbitrary: q es)
  case Nil
  then show ?case by (simp add: none)
next
  case (Cons c cs)
  then show ?case by (auto simp: and_then_Inr_iff dest!: run_call intro: compose)
qed

lemma execute:
  assumes "pop_expired now q = Some (t, q1)" and "Timer_Queue.execute script t q1 = Inr (es, q2)"
  shows "R q es q2"
  using assms compose [OF fire [OF assms(1)] run_calls]
  by (auto simp: execute_def and_then_Inr_iff intro: skip ignore split: if_splits option.splits)

lemma Tick:
  assumes "Timer_Queue.Tick script now q = Some (Inr (es, q'))"
  shows "R q es q'"
  using assms by (rule Tick_induct) (blast intro: none compose execute)+

lemma run_timers:
  "Timer_Queue.run_timers script ops q = Some (Inr (es, q')) \<Longrightarrow> R q es q'"
proof (induction ops arbitrary: q es)
  case Nil
  then show ?case by (simp add: none)
next
  case (Cons op ops)
  obtain r where r: "(case op of Call_op c \<Rightarrow> Some (Timer_Queue.run_call c q)
      | Tick_op now \<Rightarrow> Timer_Queue.Tick script now q) = Some r"
    using Cons.prems by (auto simp: bind_eq_Some_conv)
  then obtain es1 q1 es2 where r1: "r = Inr (es1, q1)" and "es = es1 @ es2"
    "Timer_Queue.run_timers script ops q1 = Some (Inr (es2, q'))"
    using Cons.prems by (cases r) (auto simp: bind_eq_Some_conv and_then_Inr_iff)
  moreover have "R q es1 q1"
    using r r1 by (auto dest: run_call Tick split: timer_op.splits)
  ultimately show ?case using Cons.IH by (auto intro: compose)
qed

end

section \<open>The invariant\<close>

definition pending_ids :: "'cb timer_queue \<Rightarrow> TimerId set" where
  "pending_ids q = tt_id ` set (tq_tasks q)"

definition tq_ok :: "'cb timer_queue \<Rightarrow> bool" where
  "tq_ok q \<longleftrightarrow> pq_sorted (tq_tasks q) \<and> distinct (map tt_id (tq_tasks q)) \<and>
     (\<forall>t \<in> set (tq_tasks q). tt_id t < tq_nextId q \<and> tt_callback t \<noteq> None \<and> tt_state t = Scheduled)"

text \<open>No counter wraps: fewer than \<open>2^64\<close> timers are ever created.\<close>

definition fits :: "'cb timer_queue \<Rightarrow> 'cb timer_event list \<Rightarrow> bool" where
  "fits q es \<longleftrightarrow> unat (tq_nextId q) + adds es < 2 ^ 64"

text \<open>An identifier that was issued and is no longer pending, or pending and cancelled.\<close>

definition dead :: "TimerId \<Rightarrow> 'cb timer_queue \<Rightarrow> bool" where
  "dead i q \<longleftrightarrow> i < tq_nextId q \<and> (i \<in> pending_ids q \<longrightarrow> i \<in> tq_cancelledTimers q)"

definition timer_step :: "'cb timer_queue \<Rightarrow> 'cb timer_event list \<Rightarrow> 'cb timer_queue \<Rightarrow> bool" where
  "timer_step q es q' \<longleftrightarrow> (tq_ok q \<and> fits q es \<longrightarrow>
     tq_ok q' \<and> unat (tq_nextId q') = unat (tq_nextId q) + adds es \<and>
     distinct (map tt_id (ran es)) \<and>
     (\<forall>t \<in> set (ran es). dead (tt_id t) q') \<and>
     (\<forall>i. dead i q \<longrightarrow> dead i q' \<and> i \<notin> tt_id ` set (ran es)))"

lemma tq_ok_new: "tq_ok TimerQueue_new"
  by (simp add: tq_ok_def TimerQueue_new_def pq_sorted_def)

lemma pop_expired_SomeD:
  "pop_expired now q = Some (t, q1) \<Longrightarrow>
     tq_tasks q = t # tq_tasks q1 \<and> tt_deadline t \<le> now \<and> tq_nextId q1 = tq_nextId q
     \<and> tq_cancelledTimers q1 = tq_cancelledTimers q"
  by (cases "tq_tasks q") (auto simp: pop_expired_def split: if_splits)

lemma timer_step_pop:
  assumes "pop_expired now q = Some (t, q1)"
    and "tq_tasks q2 = tq_tasks q1" "tq_nextId q2 = tq_nextId q1"
    and "tq_cancelledTimers q1 - {tt_id t} \<subseteq> tq_cancelledTimers q2"
    and "ran es = [] \<or> ran es = [t\<lparr>tt_state := Executing\<rparr>] \<and> tt_id t \<notin> tq_cancelledTimers q1"
    and "adds es = 0"
  shows "timer_step q es q2"
proof -
  note pop = pop_expired_SomeD [OF assms(1)]
  have "tq_ok q2" "tt_id t < tq_nextId q2" "tt_id t \<notin> pending_ids q2" if "tq_ok q"
    using that pop assms(2,3) by (auto simp: tq_ok_def pq_sorted_Cons pending_ids_def)
  moreover have "dead i q2" if "dead i q" "i \<noteq> tt_id t" for i
    using that pop assms(2-4) by (auto simp: dead_def pending_ids_def)
  moreover have "dead (tt_id t) q2 \<and> (dead (tt_id t) q \<longrightarrow> tt_id t \<in> tq_cancelledTimers q1)" if "tq_ok q"
    using calculation that pop by (auto simp: dead_def pending_ids_def)
  ultimately show ?thesis
    using pop assms(3,5,6) unfolding timer_step_def by auto
qed

lemma timer_step_schedule:
  assumes "Schedule clock_now delay (Some cb) q = Inr (i, q')"
  shows "timer_step q [Added i] q'"
proof -
  obtain d where i: "i = tq_nextId q"
    and q': "tq_tasks q' = pq_push \<lparr>tt_id = i, tt_deadline = d, tt_sequence = tq_nextSequence q,
        tt_callback = Some cb, tt_state = Scheduled\<rparr> (tq_tasks q)" "tq_nextId q' = i + 1"
      "tq_cancelledTimers q' = tq_cancelledTimers q"
    using assms by (auto simp: Schedule_def Let_def and_then_Inr_iff)
  define t where "t = \<lparr>tt_id = i, tt_deadline = d, tt_sequence = tq_nextSequence q,
        tt_callback = Some cb, tt_state = Scheduled\<rparr>"
  then have t: "tt_id t = i" "tt_callback t \<noteq> None" "tt_state t = Scheduled"
    and q'_tasks: "tq_tasks q' = pq_push t (tq_tasks q)"
    using q' by simp_all
  have "tq_ok q' \<and> unat (tq_nextId q') = Suc (unat (tq_nextId q)) \<and> (\<forall>j. dead j q \<longrightarrow> dead j q')"
    if ok: "tq_ok q" and fit: "Suc (unat (tq_nextId q)) < 2 ^ 64"
  proof -
    have nxt: "unat (tq_nextId q') = Suc (unat i)"
      using fit i q' by (simp add: unat_add_nowrap)
    then have less: "j < tq_nextId q' \<longleftrightarrow> j \<le> i" for j
      by (simp add: word_less_nat_alt word_le_nat_alt less_Suc_eq_le)
    have new: "i \<notin> pending_ids q" using ok i by (auto simp: tq_ok_def pending_ids_def)
    have "distinct (map tt_id (tq_tasks q'))"
    proof -
      have "mset (map tt_id (tq_tasks q')) = mset (map tt_id (t # tq_tasks q))"
        using q'_tasks by (simp add: mset_pq_push)
      then show ?thesis
        using new ok t mset_eq_imp_distinct_iff [of "map tt_id (tq_tasks q')" "map tt_id (t # tq_tasks q)"]
        by (simp add: pending_ids_def tq_ok_def)
    qed
    then have "tq_ok q'"
      using ok q'_tasks t i less by (auto simp: tq_ok_def pq_sorted_push intro: less_imp_le)
    moreover have "dead j q'" if "dead j q" for j
      using that q'(3) q'_tasks less i t by (auto simp: dead_def pending_ids_def intro: less_imp_le)
    ultimately show ?thesis using nxt i by blast
  qed
  then show ?thesis by (auto simp: timer_step_def fits_def)
qed

interpretation timer_step: timer_relation timer_step
proof unfold_locales
  fix q q1 q2 :: "'a timer_queue" and es es'
  show "timer_step q [] q" by (simp add: timer_step_def)
  show "timer_step q (es @ es') q2" if a: "timer_step q es q1" and b: "timer_step q1 es' q2"
  proof -
    have "fits q (es @ es') \<Longrightarrow> fits q es"
      "fits q (es @ es') \<Longrightarrow> unat (tq_nextId q1) = unat (tq_nextId q) + adds es \<Longrightarrow> fits q1 es'"
      by (auto simp: fits_def)
    then show ?thesis using a b unfolding timer_step_def by (auto simp: image_iff)
  qed
qed (auto intro: timer_step_schedule timer_step_pop,
     auto simp: timer_step_def tq_ok_def Cancel_def dead_def pending_ids_def)

text \<open>Whether an expired task runs is decided by the cancellations recorded when its turn comes.\<close>

definition cancel_step :: "'cb timer_queue \<Rightarrow> 'cb timer_event list \<Rightarrow> 'cb timer_queue \<Rightarrow> bool" where
  "cancel_step q es q' \<longleftrightarrow> obeys (tq_cancelledTimers q) es
     \<and> tq_cancelledTimers q' = revocations (tq_cancelledTimers q) es"

interpretation cancel_step: timer_relation cancel_step
proof unfold_locales
  fix clock_now delay cb i and q q' :: "'a timer_queue"
  show "Schedule clock_now delay (Some cb) q = Inr (i, q') \<Longrightarrow> cancel_step q [Added i] q'"
    by (auto simp: cancel_step_def Schedule_def Let_def and_then_Inr_iff)
qed (auto simp: cancel_step_def Cancel_def dest!: pop_expired_SomeD)

section \<open>Termination and exact dispatch\<close>

text \<open>
  \<open>defers now c\<close>: the call adds no timer that is already due at \<open>now\<close> (and its deadline is in range).
\<close>

definition expired :: "time_point \<Rightarrow> 'cb timer_queue \<Rightarrow> 'cb timer_task list" where
  "expired now q = filter (\<lambda>t. tt_deadline t \<le> now) (tq_tasks q)"

fun defers :: "time_point \<Rightarrow> 'cb timer_call \<Rightarrow> bool" where
  "defers now (Schedule_call clock_now delay cb) \<longleftrightarrow>
     (case deadline_of clock_now delay of Inl _ \<Rightarrow> False | Inr d \<Rightarrow> now < d)"
| "defers now (Cancel_call i) \<longleftrightarrow> True"

lemma filter_pq_push_later:
  "now < tt_deadline t \<Longrightarrow>
     filter (\<lambda>t. tt_deadline t \<le> now) (pq_push t xs) = filter (\<lambda>t. tt_deadline t \<le> now) xs"
  by (induction xs) auto

lemma run_call_defers:
  assumes "defers now c" and "pq_sorted (tq_tasks q)"
  shows "\<exists>es q'. run_call c q = Inr (es, q') \<and> pq_sorted (tq_tasks q') \<and> expired now q' = expired now q
    \<and> ran es = [] \<and> handled es = []"
  using assms
  by (cases c)
    (auto simp: Schedule_def Cancel_def Let_def expired_def filter_pq_push_later pq_sorted_push split: sum.splits)

lemma run_calls_defers:
  "\<forall>c \<in> set cs. defers now c \<Longrightarrow> pq_sorted (tq_tasks q) \<Longrightarrow>
   \<exists>es q'. run_calls cs q = Inr (es, q') \<and> pq_sorted (tq_tasks q') \<and> expired now q' = expired now q
    \<and> ran es = [] \<and> handled es = []"
proof (induction cs arbitrary: q)
  case Nil
  then show ?case by simp
next
  case (Cons c cs)
  obtain es q1 where "run_call c q = Inr (es, q1)" "pq_sorted (tq_tasks q1)" "expired now q1 = expired now q"
    "ran es = []" "handled es = []"
    using run_call_defers [of now c q] Cons.prems by auto
  with Cons.IH [of q1] Cons.prems show ?case by auto
qed

lemma pq_sorted_deadlines: "pq_sorted (t # ts) \<Longrightarrow> u \<in> set ts \<Longrightarrow> tt_deadline t \<le> tt_deadline u"
  by (auto simp: pq_sorted_Cons TimerTask_gt_def split: if_splits)

lemma pop_expired_None:
  "pq_sorted (tq_tasks q) \<Longrightarrow> pop_expired now q = None \<longleftrightarrow> expired now q = []"
  by (cases "tq_tasks q")
    (auto simp: pop_expired_def expired_def filter_empty_conv dest: pq_sorted_deadlines)

lemma pop_expired_Some:
  assumes "pq_sorted (tq_tasks q)" and "expired now q = t # ts"
  shows "\<exists>q1. pop_expired now q = Some (t, q1) \<and> pq_sorted (tq_tasks q1) \<and> expired now q1 = ts
    \<and> tq_cancelledTimers q1 = tq_cancelledTimers q"
proof -
  obtain u us where u: "tq_tasks q = u # us"
    using assms(2) by (cases "tq_tasks q") (auto simp: expired_def)
  have "tt_deadline u \<le> now"
  proof (rule ccontr)
    assume late: "\<not> tt_deadline u \<le> now"
    have "t \<in> set (expired now q)" using assms(2) by simp
    then have "t \<in> set us \<and> tt_deadline t \<le> now" using late u by (auto simp: expired_def)
    then show False using pq_sorted_deadlines [of u us t] assms(1) late u by simp
  qed
  then show ?thesis
    using assms u by (auto simp: expired_def pop_expired_def pq_sorted_Cons)
qed

lemma execute_defers:
  assumes "\<forall>c \<in> set (script cb q). defers now c" and "tt_callback t = Some cb" and "pq_sorted (tq_tasks q)"
  shows "\<exists>es q'. execute script t q = Inr (es, q') \<and> pq_sorted (tq_tasks q') \<and> expired now q' = expired now q
    \<and> handled es = [tt_id t]
    \<and> ran es = (if Skipped (tt_id t) \<in> set es then [] else [t\<lparr>tt_state := Executing\<rparr>])"
proof (cases "tt_id t \<in> tq_cancelledTimers q")
  case True
  then show ?thesis using assms(2,3) by (simp add: execute_def expired_def)
next
  case False
  obtain es q' where "run_calls (script cb q) q = Inr (es, q')" "pq_sorted (tq_tasks q')"
    "expired now q' = expired now q" "ran es = []" "handled es = []"
    using run_calls_defers [OF assms(1,3)] by auto
  then show ?thesis
    using False assms(2) Skipped_handled [of _ es] by (auto simp: execute_def)
qed

lemma Tick_exact:
  assumes "\<forall>cb q. \<forall>c \<in> set (script cb q). defers now c"
    and "pq_sorted (tq_tasks q)" and "\<forall>t \<in> set (expired now q). tt_callback t \<noteq> None"
    and "distinct (map tt_id (expired now q))"
  shows "\<exists>es q'. Tick script now q = Some (Inr (es, q')) \<and> expired now q' = []
    \<and> handled es = map tt_id (expired now q)
    \<and> ran es = map (tt_state_update (\<lambda>_. Executing))
        (filter (\<lambda>t. Skipped (tt_id t) \<notin> set es) (expired now q))"
  using assms(2-)
proof (induction "expired now q" arbitrary: q)
  case Nil
  then show ?case using pop_expired_None [of q now] by (subst Dispatch_cases) simp
next
  case (Cons t ts)
  have ts: "expired now q = t # ts" using Cons.hyps(2) by simp
  obtain q1 where q1: "pop_expired now q = Some (t, q1)" "pq_sorted (tq_tasks q1)" "expired now q1 = ts"
    using pop_expired_Some [OF Cons.prems(1) ts] by auto
  obtain cb where cb: "tt_callback t = Some cb"
    using Cons.prems(2) ts by (metis list.set_intros(1) option.exhaust)
  obtain es q2 where q2: "execute script t q1 = Inr (es, q2)" "pq_sorted (tq_tasks q2)" "expired now q2 = ts"
    "handled es = [tt_id t]"
    "ran es = (if Skipped (tt_id t) \<in> set es then [] else [t\<lparr>tt_state := Executing\<rparr>])"
    using execute_defers [of script cb q1 now t] assms(1) cb q1 by auto
  obtain es' q3 where q3: "Tick script now q2 = Some (Inr (es', q3))" "expired now q3 = []"
    "handled es' = map tt_id ts"
    "ran es' = map (tt_state_update (\<lambda>_. Executing)) (filter (\<lambda>u. Skipped (tt_id u) \<notin> set es') ts)"
    using Cons.hyps(1) [of q2] Cons.prems ts q2(2,3) by auto
  have "Skipped (tt_id t) \<notin> set es'" "\<forall>u \<in> set ts. Skipped (tt_id u) \<notin> set es"
    using Cons.prems(3) ts q2(4) q3(3) by (auto 0 3 dest!: Skipped_handled simp: image_iff)
  then have "filter (\<lambda>u. Skipped (tt_id u) \<notin> set (es @ es')) (t # ts)
      = (if Skipped (tt_id t) \<in> set es then [] else [t]) @ filter (\<lambda>u. Skipped (tt_id u) \<notin> set es') ts"
    by (auto intro: filter_cong)
  then show ?case
    using q1 q2 q3 ts by (subst Dispatch_cases) auto
qed

section \<open>First in, first out among equal deadlines\<close>














section \<open>Properties\<close>

lemma pq_sorted_expired: "pq_sorted (tq_tasks q) \<Longrightarrow> pq_sorted (filter P (expired now q))"
  by (simp add: pq_sorted_def expired_def sorted_wrt_filter)

lemma tq_ok_expired:
  assumes "tq_ok q"
  shows "\<forall>t \<in> set (expired now q). tt_callback t \<noteq> None" "distinct (map tt_id (expired now q))"
  using assms by (auto simp: tq_ok_def expired_def distinct_map_filter)

text \<open>C19. When no callback adds a timer that is already due (callbacks may add later timers and
  cancel any timer, due ones included), \<open>Tick\<close> returns, takes every due timer exactly once, by
  deadline and then by insertion, and leaves no due timer. A timer taken runs if at that moment it
  was not cancelled, neither before the tick nor by a callback that ran earlier in it; otherwise it
  is skipped and its cancellation forgotten. In particular, when no callback cancels, exactly the
  timers not cancelled before the tick run.\<close>

theorem tick_dispatches_due_timers:
  assumes "tq_ok q" and "\<forall>cb q. \<forall>c \<in> set (script cb q). defers now c"
  shows "\<exists>es q'. Tick script now q = Some (Inr (es, q')) \<and> expired now q' = []
    \<and> handled es = map tt_id (expired now q) \<and> pq_sorted (expired now q) \<and> distinct (handled es)
    \<and> ran es = map (tt_state_update (\<lambda>_. Executing))
        (filter (\<lambda>t. Skipped (tt_id t) \<notin> set es) (expired now q))
    \<and> (\<forall>es1 t es2. es = es1 @ Ran t # es2 \<longrightarrow> tt_id t \<notin> revocations (tq_cancelledTimers q) es1)
    \<and> (\<forall>es1 i es2. es = es1 @ Skipped i # es2 \<longrightarrow> i \<in> revocations (tq_cancelledTimers q) es1)
    \<and> tq_cancelledTimers q' = revocations (tq_cancelledTimers q) es
    \<and> ((\<forall>i. Revoked i \<notin> set es) \<longrightarrow>
        ran es = map (tt_state_update (\<lambda>_. Executing))
          (filter (\<lambda>t. \<not> IsCancelled (tt_id t) q) (expired now q))
        \<and> tq_cancelledTimers q' = tq_cancelledTimers q - tt_id ` set (expired now q))"
proof -
  note due = tq_ok_expired [OF assms(1)]
  obtain es q' where run: "Tick script now q = Some (Inr (es, q'))" "expired now q' = []"
      "handled es = map tt_id (expired now q)"
    and ran: "ran es = map (tt_state_update (\<lambda>_. Executing))
        (filter (\<lambda>t. Skipped (tt_id t) \<notin> set es) (expired now q))"
    using Tick_exact [OF assms(2) _ due] assms(1) by (auto simp: tq_ok_def)
  have obeys: "obeys (tq_cancelledTimers q) es" "tq_cancelledTimers q' = revocations (tq_cancelledTimers q) es"
    using cancel_step.Tick [OF run(1)] by (auto simp: cancel_step_def)
  have quiet: "ran es = map (tt_state_update (\<lambda>_. Executing))
        (filter (\<lambda>t. \<not> IsCancelled (tt_id t) q) (expired now q))
      \<and> tq_cancelledTimers q' = tq_cancelledTimers q - tt_id ` set (expired now q)"
    if "\<forall>i. Revoked i \<notin> set es"
  proof -
    have "filter (\<lambda>t. Skipped (tt_id t) \<notin> set es) (expired now q)
        = filter (\<lambda>t. \<not> IsCancelled (tt_id t) q) (expired now q)"
      using obeys_no_cancel [OF obeys(1) that] run(3) due(2)
      by (intro filter_cong) (auto simp: IsCancelled_def)
    then show ?thesis
      using obeys_no_cancel [OF obeys(1) that] run(3) due(2) ran obeys(2) by simp
  qed
  show ?thesis
    using run ran obeys quiet due(2) pq_sorted_expired [of q "\<lambda>_. True" now] assms(1)
    by (intro exI [of _ es] exI [of _ q'] conjI) (auto simp: tq_ok_def)
qed

definition two_timers :: "nat timer_queue" where
  "two_timers = \<lparr>tq_tasks = [\<lparr>tt_id = 2, tt_deadline = 5, tt_sequence = 1, tt_callback = Some 20, tt_state = Scheduled\<rparr>,
       \<lparr>tt_id = 1, tt_deadline = 7, tt_sequence = 0, tt_callback = Some 10, tt_state = Scheduled\<rparr>],
     tq_cancelledTimers = {}, tq_nextId = 3, tq_nextSequence = 2\<rparr>"

lemma two_timers_ok: "tq_ok two_timers"
  by (auto simp: tq_ok_def two_timers_def pq_sorted_def TimerTask_gt_def)

text \<open>A callback that reschedules itself a millisecond after the tick at time 8 and cancels timer 1,
  which is due as well: timer 2 runs, timer 1 is skipped.\<close>

definition periodic :: "nat script" where
  "periodic = (\<lambda>cb q. [Schedule_call 8 1 (Some cb), Cancel_call 1])"

lemma periodic_defers: "\<forall>cb q. \<forall>c \<in> set (periodic cb q). defers 8 c"
  by (simp add: periodic_def deadline_of_def in_int64_def)

theorem tick_dispatches_due_timers_witness:
  "\<exists>es q'. Tick periodic 8 two_timers = Some (Inr (es, q')) \<and> handled es = [2, 1]
    \<and> tq_cancelledTimers q' = revocations {} es"
  using tick_dispatches_due_timers [OF two_timers_ok periodic_defers]
  by (elim exE conjE, intro exI conjI) (assumption | simp add: two_timers_def expired_def)+



text \<open>Over every client of a new queue that creates fewer than \<open>2^64 - 1\<close> timers, re-entrant
  callbacks included: no timer runs twice, and a timer cancelled after it was issued never runs
  afterwards.\<close>

theorem timers_run_once_and_not_after_cancel:
  assumes "run_timers script ops TimerQueue_new = Some (Inr (es, q))"
    and "i < tq_nextId q"
    and "run_timers script (Call_op (Cancel_call i) # ops') q = Some (Inr (es', q'))"
    and "adds es + adds es' < 2 ^ 64 - 1"
  shows "distinct (map tt_id (ran es)) \<and> distinct (map tt_id (ran es')) \<and> tq_ok q'
    \<and> i \<notin> tt_id ` set (ran es')"
proof -
  obtain q1 es1 where q1: "q1 = snd (Cancel i q)" and es': "es' = Revoked i # es1"
    and rest: "run_timers script ops' q1 = Some (Inr (es1, q'))"
    using assms(3) by (auto simp: bind_eq_Some_conv and_then_Inr_iff)
  have first: "timer_step TimerQueue_new es q" by (rule timer_step.run_timers [OF assms(1)])
  have third: "timer_step q1 es1 q'" by (rule timer_step.run_timers [OF rest])
  have q: "tq_ok q" "unat (tq_nextId q) = Suc (adds es)" "distinct (map tt_id (ran es))"
    using first assms(4) tq_ok_new by (auto simp: timer_step_def fits_def TimerQueue_new_def)
  then have "tq_ok q1" "fits q1 es1" "dead i q1" and fit: "fits q es'"
    using assms(2,4) q1 es' by (auto simp: tq_ok_def fits_def Cancel_def dead_def)
  with third have "i \<notin> tt_id ` set (ran es1)" "distinct (map tt_id (ran es1))" "tq_ok q'"
    unfolding timer_step_def by blast+
  with q es' show ?thesis by simp
qed

theorem timers_run_once_and_not_after_cancel_witness:
  "\<exists>es q es' q'. run_timers (\<lambda>_ _. []) [Call_op (Schedule_call 0 1 (Some (5::nat)))] TimerQueue_new = Some (Inr (es, q))
     \<and> run_timers (\<lambda>_ _. []) (Call_op (Cancel_call 1) # []) q = Some (Inr (es', q')) \<and> 1 \<notin> tt_id ` set (ran es')"
proof -
  obtain es q where run: "run_timers (\<lambda>_ _. []) [Call_op (Schedule_call 0 1 (Some (5::nat)))] TimerQueue_new
      = Some (Inr (es, q))" and i: "1 < tq_nextId q" and es: "adds es = 1"
    by (simp add: Schedule_def deadline_of_def in_int64_def Let_def TimerQueue_new_def)
  obtain es' q' where run': "run_timers (\<lambda>_ _. []) (Call_op (Cancel_call 1) # []) q = Some (Inr (es', q'))"
    and es': "adds es' = 0"
    by simp
  show ?thesis
    using run run' timers_run_once_and_not_after_cancel [OF run i run'] es es' by auto
qed

text \<open>A tick returns, with at most as many callbacks run as timers were due, as soon as no
  callback adds a timer that is already due; cancelling from callbacks is unrestricted.\<close>

theorem tick_terminates:
  assumes "tq_ok q" and "\<forall>cb q. \<forall>c \<in> set (script cb q). defers now c"
  shows "\<exists>es q'. Tick script now q = Some (Inr (es, q')) \<and> expired now q' = []
    \<and> length (ran es) \<le> length (expired now q)"
  using Tick_exact [OF assms(2) _ tq_ok_expired [OF assms(1)]] assms(1)
  by (auto simp: tq_ok_def intro: order_trans)

theorem tick_terminates_witness:
  "\<exists>es q'. Tick (\<lambda>_ _. [Cancel_call 1]) 8 two_timers = Some (Inr (es, q')) \<and> length (ran es) \<le> 2"
proof -
  have "length (expired 8 two_timers) = 2" by (simp add: expired_def two_timers_def)
  then show ?thesis
    using tick_terminates [OF two_timers_ok, of "\<lambda>_ _. [Cancel_call 1]" 8] by auto
qed

text \<open>\<open>Cancel\<close> reports success for an identifier that was never issued, and the timer that later
  gets this identifier is dropped without running.\<close>

theorem early_cancel_drops_timer:
  assumes "tq_tasks q = []" and "tq_nextId q \<notin> tq_cancelledTimers q"
    and "deadline_of clock_now delay = Inr d" and "d \<le> now"
  shows "fst (Cancel (tq_nextId q) q)
    \<and> run_timers script [Call_op (Cancel_call (tq_nextId q)),
         Call_op (Schedule_call clock_now delay (Some cb)), Tick_op now] q
       = Some (Inr ([Revoked (tq_nextId q), Added (tq_nextId q), Skipped (tq_nextId q)],
           q\<lparr>tq_nextId := tq_nextId q + 1, tq_nextSequence := tq_nextSequence q + 1\<rparr>))"
proof -
  have none: "Tick script now q' = Some (Inr ([], q'))" if "tq_tasks q' = []" for q'
    using that by (subst Dispatch_cases) (simp add: pop_expired_def)
  let ?t = "\<lparr>tt_id = tq_nextId q, tt_deadline = d, tt_sequence = tq_nextSequence q,
      tt_callback = Some cb, tt_state = Scheduled\<rparr>"
  let ?q2 = "\<lparr>tq_tasks = [?t], tq_cancelledTimers = insert (tq_nextId q) (tq_cancelledTimers q),
      tq_nextId = tq_nextId q + 1, tq_nextSequence = tq_nextSequence q + 1, \<dots> = timer_queue.more q\<rparr>"
  have "Tick script now ?q2
      = Some (Inr ([Skipped (tq_nextId q)],
          q\<lparr>tq_nextId := tq_nextId q + 1, tq_nextSequence := tq_nextSequence q + 1\<rparr>))"
    using assms none by (subst Dispatch_cases) (simp add: pop_expired_def execute_def)
  moreover have "run_call (Schedule_call clock_now delay (Some cb)) (snd (Cancel (tq_nextId q) q))
      = Inr ([Added (tq_nextId q)], ?q2)"
    using assms(1,3) by (simp add: Schedule_def Cancel_def Let_def)
  ultimately show ?thesis
    using assms(2) by (simp add: Cancel_def)
qed

theorem early_cancel_drops_timer_witness:
  "run_timers (\<lambda>_ _. []) [Call_op (Cancel_call 1), Call_op (Schedule_call 0 1 (Some (9::nat))), Tick_op 1000000]
     TimerQueue_new
   = Some (Inr ([Revoked 1, Added 1, Skipped 1], \<lparr>tq_tasks = [], tq_cancelledTimers = {}, tq_nextId = 2, tq_nextSequence = 1\<rparr>))"
  using early_cancel_drops_timer [of "TimerQueue_new :: nat timer_queue" 0 1 1000000 1000000 "\<lambda>_ _. []" 9]
  by (simp add: TimerQueue_new_def deadline_of_def in_int64_def)

end
