(* ===== verification/Timer_Races.thy ===== *)
theory Timer_Races
  imports Timer_Queue
begin

text \<open>
  The timer queue with its threads interleaved (\<open>infrastructure/timer/TimerQueue.cpp\<close>). \<open>Schedule\<close> takes
  an identifier and a sequence number from atomic counters and reads the clock before it locks, so other
  threads come in between; \<open>Cancel\<close> locks once; \<open>DispatchExpired\<close> locks once to take the earliest task and
  once more to look for its cancellation, and runs the callback with no lock held. Each section under
  \<open>mutex_\<close> is one step. A thread is a stack of calls, because callbacks call the queue. No timer runs twice,
  early, or after a \<open>Cancel\<close> that came before the second section.
\<close>

section \<open>Threads\<close>

text \<open>
  \<open>Schedule\<close> at its accesses, \<open>Cancel\<close> at its section, \<open>DispatchExpired\<close> at its two sections, at the
  callback and inside it. \<open>Overflowed\<close>: the deadline left the range of the clock's representation, which is
  undefined behaviour.
\<close>

datatype 'cb timer_pc =
    Take_id duration 'cb
  | Read_clock TimerId duration 'cb
  | Overflowed TimerId
  | Take_sequence TimerId time_point 'cb
  | Push "'cb timer_task"
  | Insert_cancelled TimerId
  | Pop_top time_point
  | Check_cancelled time_point "'cb timer_task"
  | Call_back time_point "'cb timer_task"
  | In_callback time_point

text \<open>\<open>tr_issued\<close> counts the identifiers taken, \<open>tr_ran\<close> and \<open>tr_dropped\<close> hold the tasks taken from the
  queue and run (with the time of the tick), or not run, \<open>tr_cancels\<close> the arguments of \<open>Cancel\<close>.\<close>

record 'cb timer_race =
  tr_queue :: "'cb timer_queue"
  tr_threads :: "'cb timer_pc list list"
  tr_issued :: nat
  tr_ran :: "('cb timer_task \<times> time_point) list"
  tr_dropped :: "TimerId list"
  tr_cancels :: "TimerId list"

definition timer_race_new :: "nat \<Rightarrow> 'cb timer_race" where
  "timer_race_new n = \<lparr>tr_queue = TimerQueue_new, tr_threads = replicate n [], tr_issued = 0, tr_ran = [], tr_dropped = [], tr_cancels = []\<rparr>"

definition tr_goto :: "nat \<Rightarrow> 'cb timer_pc list \<Rightarrow> 'cb timer_race \<Rightarrow> 'cb timer_race" where
  "tr_goto t stack s = s\<lparr>tr_threads := (tr_threads s)[t := stack]\<rparr>"

definition timer_thread_step :: "time_point \<Rightarrow> nat \<Rightarrow> 'cb timer_race \<Rightarrow> 'cb timer_race option" where
  "timer_thread_step clock_now t s =
     (if t \<ge> length (tr_threads s) then None
      else let q = tr_queue s in
        case tr_threads s ! t of
          [] \<Rightarrow> None
        | pc # rest \<Rightarrow>
            (case pc of
               Take_id delay cb \<Rightarrow>
                 Some (tr_goto t (Read_clock (tq_nextId q) delay cb # rest)
                   (s\<lparr>tr_queue := q\<lparr>tq_nextId := tq_nextId q + 1\<rparr>, tr_issued := Suc (tr_issued s)\<rparr>))
             | Read_clock i delay cb \<Rightarrow>
                 Some (case deadline_of clock_now delay of
                     Inl e \<Rightarrow> tr_goto t (Overflowed i # rest) s
                   | Inr deadline \<Rightarrow> tr_goto t (Take_sequence i deadline cb # rest) s)
             | Overflowed i \<Rightarrow> None
             | Take_sequence i deadline cb \<Rightarrow>
                 Some (tr_goto t (Push \<lparr>tt_id = i, tt_deadline = deadline, tt_sequence = tq_nextSequence q,
                     tt_callback = Some cb, tt_state = Scheduled\<rparr> # rest)
                   (s\<lparr>tr_queue := q\<lparr>tq_nextSequence := tq_nextSequence q + 1\<rparr>\<rparr>))
             | Push task \<Rightarrow> Some (tr_goto t rest (s\<lparr>tr_queue := q\<lparr>tq_tasks := pq_push task (tq_tasks q)\<rparr>\<rparr>))
             | Insert_cancelled i \<Rightarrow>
                 Some (tr_goto t rest (s\<lparr>tr_queue := snd (Timer_Queue.Cancel i q), tr_cancels := tr_cancels s @ [i]\<rparr>))
             | Pop_top now \<Rightarrow>
                 Some (case pop_expired now q of
                     None \<Rightarrow> tr_goto t rest s
                   | Some (task, q') \<Rightarrow> tr_goto t (Check_cancelled now task # rest) (s\<lparr>tr_queue := q'\<rparr>))
             | Check_cancelled now task \<Rightarrow>
                 Some (if tt_id task \<in> tq_cancelledTimers q
                   then tr_goto t (Pop_top now # rest)
                     (s\<lparr>tr_queue := q\<lparr>tq_cancelledTimers := tq_cancelledTimers q - {tt_id task}\<rparr>,
                        tr_dropped := tr_dropped s @ [tt_id task]\<rparr>)
                   else tr_goto t (Call_back now task # rest) s)
             | Call_back now task \<Rightarrow>
                 Some (case tt_callback task of
                     None \<Rightarrow> tr_goto t (Pop_top now # rest) (s\<lparr>tr_dropped := tr_dropped s @ [tt_id task]\<rparr>)
                   | Some cb \<Rightarrow> tr_goto t (In_callback now # rest) (s\<lparr>tr_ran := tr_ran s @ [(task\<lparr>tt_state := Executing\<rparr>, now)]\<rparr>))
             | In_callback now \<Rightarrow> None))"

text \<open>The calls a client or a callback makes; \<open>Schedule\<close> without a callback returns at once.\<close>

datatype 'cb timer_request = Schedule_request duration "'cb option" | Cancel_request TimerId | Tick_request time_point

fun begin_request :: "'cb timer_request \<Rightarrow> 'cb timer_pc list" where
  "begin_request (Schedule_request delay None) = []"
| "begin_request (Schedule_request delay (Some cb)) = [Take_id delay cb]"
| "begin_request (Cancel_request i) = [Insert_cancelled i]"
| "begin_request (Tick_request now) = [Pop_top now]"

fun may_request :: "'cb timer_pc list \<Rightarrow> bool" where
  "may_request [] = True"
| "may_request (pc # rest) = (case pc of In_callback now \<Rightarrow> True | _ \<Rightarrow> False)"

definition request_step :: "'cb timer_request \<Rightarrow> nat \<Rightarrow> 'cb timer_race \<Rightarrow> 'cb timer_race option" where
  "request_step r t s =
     (if t < length (tr_threads s) \<and> may_request (tr_threads s ! t)
      then Some (tr_goto t (begin_request r @ tr_threads s ! t) s) else None)"

definition callback_return :: "nat \<Rightarrow> 'cb timer_race \<Rightarrow> 'cb timer_race option" where
  "callback_return t s =
     (if t \<ge> length (tr_threads s) then None
      else case tr_threads s ! t of In_callback now # rest \<Rightarrow> Some (tr_goto t (Pop_top now # rest) s) | _ \<Rightarrow> None)"

inductive timer_race_step :: "'cb timer_race \<Rightarrow> 'cb timer_race \<Rightarrow> bool" where
  own: "timer_thread_step clock_now t s = Some s' \<Longrightarrow> timer_race_step s s'"
| request: "request_step r t s = Some s' \<Longrightarrow> timer_race_step s s'"
| callback: "callback_return t s = Some s' \<Longrightarrow> timer_race_step s s'"

inductive timer_race_reachable :: "nat \<Rightarrow> 'cb timer_race \<Rightarrow> bool" for n :: nat where
  start: "timer_race_reachable n (timer_race_new n)"
| step: "timer_race_reachable n s \<Longrightarrow> timer_race_step s s' \<Longrightarrow> timer_race_reachable n s'"

section \<open>Where each timer is\<close>

text \<open>The identifiers a call holds: before the timer's cancellation was looked for, and after.\<close>

fun waiting_id :: "'cb timer_pc \<Rightarrow> TimerId multiset" where
  "waiting_id (Read_clock i delay cb) = {#i#}"
| "waiting_id (Overflowed i) = {#i#}"
| "waiting_id (Take_sequence i deadline cb) = {#i#}"
| "waiting_id (Push task) = {#tt_id task#}"
| "waiting_id (Check_cancelled now task) = {#tt_id task#}"
| "waiting_id pc = {#}"

fun calling_id :: "'cb timer_pc \<Rightarrow> TimerId multiset" where
  "calling_id (Call_back now task) = {#tt_id task#}"
| "calling_id pc = {#}"

definition of_stack :: "('cb timer_pc \<Rightarrow> TimerId multiset) \<Rightarrow> 'cb timer_pc list \<Rightarrow> TimerId multiset" where
  "of_stack f stack = sum_list (map f stack)"

definition of_threads :: "('cb timer_pc \<Rightarrow> TimerId multiset) \<Rightarrow> 'cb timer_race \<Rightarrow> TimerId multiset" where
  "of_threads f s = sum_list (map (of_stack f) (tr_threads s))"

definition waiting :: "'cb timer_race \<Rightarrow> TimerId multiset" where
  "waiting s = of_threads waiting_id s + mset (map tt_id (tq_tasks (tr_queue s)))"

definition ran_ids :: "'cb timer_race \<Rightarrow> TimerId list" where
  "ran_ids s = map (\<lambda>(task, now). tt_id task) (tr_ran s)"

definition accounts :: "'cb timer_race \<Rightarrow> TimerId multiset" where
  "accounts s = waiting s + of_threads calling_id s + mset (ran_ids s) + mset (tr_dropped s)"

definition issued_ids :: "nat \<Rightarrow> TimerId list" where
  "issued_ids k = map of_nat [1 ..< Suc k]"

text \<open>The tasks of a call that is dispatching are due.\<close>

fun due :: "'cb timer_pc \<Rightarrow> bool" where
  "due (Check_cancelled now task) \<longleftrightarrow> tt_deadline task \<le> now"
| "due (Call_back now task) \<longleftrightarrow> tt_deadline task \<le> now"
| "due pc \<longleftrightarrow> True"

definition timers_ok :: "'cb timer_race \<Rightarrow> bool" where
  "timers_ok s \<longleftrightarrow> accounts s = mset (issued_ids (tr_issued s)) \<and> tq_nextId (tr_queue s) = of_nat (Suc (tr_issued s)) \<and>
     pq_sorted (tq_tasks (tr_queue s)) \<and> (\<forall>stack \<in> set (tr_threads s). \<forall>pc \<in> set stack. due pc) \<and>
     (\<forall>(task, now) \<in> set (tr_ran s). tt_deadline task \<le> now)"

lemma of_stack_simps [simp]: "of_stack f [] = {#}" "of_stack f (pc # stack) = f pc + of_stack f stack"
  "of_stack f (st @ st') = of_stack f st + of_stack f st'"
  by (simp_all add: of_stack_def)

lemma issued_ids_Suc: "issued_ids (Suc k) = issued_ids k @ [of_nat (Suc k)]"
  by (simp add: issued_ids_def)

lemma tr_goto_simps [simp]:
  "tr_queue (tr_goto t stack s) = tr_queue s" "tr_issued (tr_goto t stack s) = tr_issued s"
  "tr_ran (tr_goto t stack s) = tr_ran s" "tr_dropped (tr_goto t stack s) = tr_dropped s"
  "tr_cancels (tr_goto t stack s) = tr_cancels s"
  "tr_threads (tr_goto t stack s) = (tr_threads s)[t := stack]"
  by (simp_all add: tr_goto_def)

lemma of_threads_goto:
  assumes "t < length (tr_threads s)" and "tr_threads s' = (tr_threads s)[t := stack]"
  shows "of_threads f s' + of_stack f (tr_threads s ! t) = of_threads f s + of_stack f stack"
  using sum_list_update_plus [OF assms(1), of "of_stack f" stack] by (simp add: of_threads_def assms(2))

text \<open>A step of thread \<open>t\<close>, from what it does to the identifiers.\<close>

lemma timers_ok_goto:
  assumes ok: "timers_ok s" and t: "t < length (tr_threads s)" and s': "tr_threads s' = (tr_threads s)[t := stack]"
    and moved: "of_stack waiting_id stack + of_stack calling_id stack + mset (map tt_id (tq_tasks (tr_queue s')))
        + mset (ran_ids s') + mset (tr_dropped s') + mset (issued_ids (tr_issued s))
      = of_stack waiting_id (tr_threads s ! t) + of_stack calling_id (tr_threads s ! t)
        + mset (map tt_id (tq_tasks (tr_queue s))) + mset (ran_ids s) + mset (tr_dropped s) + mset (issued_ids (tr_issued s'))"
    and "tq_nextId (tr_queue s') = of_nat (Suc (tr_issued s'))" and "pq_sorted (tq_tasks (tr_queue s'))"
    and "\<forall>pc \<in> set stack. due pc" and "\<forall>(task, now) \<in> set (tr_ran s'). tt_deadline task \<le> now"
  shows "timers_ok s'"
proof -
  let ?w = "of_stack waiting_id (tr_threads s ! t)" and ?c = "of_stack calling_id (tr_threads s ! t)"
  note upd = of_threads_goto [OF t s']
  have "accounts s' + ?w + ?c + mset (issued_ids (tr_issued s))
      = (of_threads waiting_id s' + ?w) + (of_threads calling_id s' + ?c) + mset (map tt_id (tq_tasks (tr_queue s')))
        + mset (ran_ids s') + mset (tr_dropped s') + mset (issued_ids (tr_issued s))"
    by (simp add: accounts_def waiting_def ac_simps)
  also have "\<dots> = of_threads waiting_id s + of_threads calling_id s + (of_stack waiting_id stack + of_stack calling_id stack
        + mset (map tt_id (tq_tasks (tr_queue s'))) + mset (ran_ids s') + mset (tr_dropped s') + mset (issued_ids (tr_issued s)))"
    unfolding upd by (simp only: ac_simps)
  also have "\<dots> = accounts s + ?w + ?c + mset (issued_ids (tr_issued s'))"
    unfolding moved by (simp add: accounts_def waiting_def ac_simps)
  also have "\<dots> = mset (issued_ids (tr_issued s')) + ?w + ?c + mset (issued_ids (tr_issued s))"
    using ok by (simp add: timers_ok_def ac_simps)
  finally have "accounts s' = mset (issued_ids (tr_issued s'))" by simp
  moreover have "\<forall>st \<in> set (tr_threads s'). \<forall>pc \<in> set st. due pc"
    using ok assms(7) set_update_subset_insert [of "tr_threads s" t stack] unfolding s' timers_ok_def by blast
  ultimately show ?thesis using assms(5,6,8) by (simp add: timers_ok_def)
qed

lemma timer_thread_step_ok:
  assumes ok: "timers_ok s" and step: "timer_thread_step clock_now t s = Some s'"
  shows "timers_ok s'"
proof -
  have t: "t < length (tr_threads s)" "\<not> length (tr_threads s) \<le> t"
    using step by (auto simp: timer_thread_step_def split: if_splits)
  obtain pc rest where st: "tr_threads s ! t = pc # rest"
    using step t by (auto simp: timer_thread_step_def Let_def split: list.splits)
  have inv: "tq_nextId (tr_queue s) = of_nat (Suc (tr_issued s))" "pq_sorted (tq_tasks (tr_queue s))"
    "\<forall>(task, now) \<in> set (tr_ran s). tt_deadline task \<le> now"
    using ok by (simp_all add: timers_ok_def)
  have "\<forall>pc \<in> set (tr_threads s ! t). due pc" using ok t by (auto simp: timers_ok_def)
  then have due: "due pc" "\<forall>pc \<in> set rest. due pc" by (simp_all add: st)
  note step = step [unfolded timer_thread_step_def] st t(2)
  have go: "timers_ok s1" if "tr_threads s1 = (tr_threads s)[t := stack]"
      "of_stack waiting_id stack + of_stack calling_id stack + mset (map tt_id (tq_tasks (tr_queue s1)))
        + mset (ran_ids s1) + mset (tr_dropped s1) + mset (issued_ids (tr_issued s))
      = of_stack waiting_id (pc # rest) + of_stack calling_id (pc # rest)
        + mset (map tt_id (tq_tasks (tr_queue s))) + mset (ran_ids s) + mset (tr_dropped s) + mset (issued_ids (tr_issued s1))"
      "tq_nextId (tr_queue s1) = of_nat (Suc (tr_issued s1))" "pq_sorted (tq_tasks (tr_queue s1))"
      "\<forall>pc \<in> set stack. due pc" "\<forall>(task, now) \<in> set (tr_ran s1). tt_deadline task \<le> now" for stack s1
    by (rule timers_ok_goto [OF ok t(1) that(1)]) (use that(2-6) st in simp_all)
  show ?thesis
  proof (cases pc)
    case (Take_id delay cb)
    then show ?thesis
      using step inv due
      by (auto simp: Let_def ran_ids_def issued_ids_Suc intro!: go [where stack = "Read_clock (of_nat (Suc (tr_issued s))) delay cb # rest"])
  next
    case (Read_clock i delay cb)
    show ?thesis
    proof (cases "deadline_of clock_now delay")
      case (Inl e)
      then show ?thesis
        using step inv due Read_clock by (auto simp: Let_def ran_ids_def intro!: go [where stack = "Overflowed i # rest"])
    next
      case (Inr d)
      then show ?thesis
        using step inv due Read_clock by (auto simp: Let_def ran_ids_def intro!: go [where stack = "Take_sequence i d cb # rest"])
    qed
  next
    case (Push task)
    then show ?thesis
      using step inv due
      by (auto simp: Let_def ran_ids_def mset_pq_push pq_sorted_push intro!: go [where stack = rest])
  next
    case (Insert_cancelled i)
    then show ?thesis
      using step inv due by (auto simp: Let_def ran_ids_def Timer_Queue.Cancel_def intro!: go [where stack = rest])
  next
    case (Pop_top now)
    show ?thesis
    proof (cases "pop_expired now (tr_queue s)")
      case None
      then show ?thesis using step inv due Pop_top by (auto simp: Let_def ran_ids_def intro!: go [where stack = rest])
    next
      case (Some r)
      then obtain task ts where ts: "tq_tasks (tr_queue s) = task # ts" "tt_deadline task \<le> now"
        "r = (task, tr_queue s\<lparr>tq_tasks := ts\<rparr>)"
        by (cases "tq_tasks (tr_queue s)") (auto simp: pop_expired_def split: if_splits)
      then show ?thesis
        using step inv due Pop_top Some
        by (auto simp: Let_def ran_ids_def pq_sorted_Cons intro!: go [where stack = "Check_cancelled now task # rest"])
    qed
  next
    case (Check_cancelled now task)
    show ?thesis
    proof (cases "tt_id task \<in> tq_cancelledTimers (tr_queue s)")
      case True
      then show ?thesis
        using step inv due Check_cancelled by (auto simp: Let_def ran_ids_def intro!: go [where stack = "Pop_top now # rest"])
    next
      case False
      then show ?thesis
        using step inv due Check_cancelled by (auto simp: Let_def ran_ids_def intro!: go [where stack = "Call_back now task # rest"])
    qed
  next
    case (Call_back now task)
    let ?stack = "(if tt_callback task = None then Pop_top now else In_callback now) # rest"
    show ?thesis
      using step inv due Call_back
      by (cases "tt_callback task") (auto simp: Let_def ran_ids_def intro!: go [where stack = ?stack])
  qed (use step inv due in \<open>auto simp: Let_def ran_ids_def intro!: go\<close>)
qed

lemma timer_race_step_ok:
  assumes "timer_race_step s s'" and "timers_ok s"
  shows "timers_ok s'"
  using assms
proof (induction rule: timer_race_step.induct)
  case (own clock_now t s s')
  then show ?case using timer_thread_step_ok by blast
next
  case (request r t s s')
  then have t: "t < length (tr_threads s)" and s': "s' = tr_goto t (begin_request r @ tr_threads s ! t) s"
    by (auto simp: request_step_def split: if_splits)
  have "of_stack waiting_id (begin_request r) = {#}" "of_stack calling_id (begin_request r) = {#}" "\<forall>pc \<in> set (begin_request r). due pc"
    by (cases r rule: begin_request.cases; simp)+
  moreover have "\<forall>pc \<in> set (tr_threads s ! t). due pc" using request.prems t by (auto simp: timers_ok_def)
  ultimately show ?case
    using request.prems unfolding s'
    by (intro timers_ok_goto [OF request.prems t, where stack = "begin_request r @ tr_threads s ! t"])
      (auto simp: timers_ok_def ran_ids_def)
next
  case (callback t s s')
  then obtain now rest where t: "t < length (tr_threads s)" "tr_threads s ! t = In_callback now # rest"
    and s': "s' = tr_goto t (Pop_top now # rest) s"
    by (auto simp: callback_return_def split: if_splits list.splits timer_pc.splits)
  have "\<forall>pc \<in> set (tr_threads s ! t). due pc" using callback.prems nth_mem [OF t(1)] unfolding timers_ok_def by blast
  then have "\<forall>pc \<in> set rest. due pc" by (simp add: t(2))
  then show ?case
    using callback.prems t unfolding s'
    by (intro timers_ok_goto [OF callback.prems t(1), where stack = "Pop_top now # rest"]) (auto simp: timers_ok_def ran_ids_def)
qed

lemma timer_race_reachable_ok: "timer_race_reachable n s \<Longrightarrow> timers_ok s"
proof (induction rule: timer_race_reachable.induct)
  case start
  have "sum_list (replicate n {#}) = {#}" by (induction n) simp_all
  then show ?case
    by (simp add: timers_ok_def timer_race_new_def TimerQueue_new_def accounts_def waiting_def of_threads_def ran_ids_def issued_ids_def
        pq_sorted_def)
next
  case (step s s')
  then show ?case using timer_race_step_ok by blast
qed

lemma distinct_issued:
  assumes "k < 2 ^ 64 - 1"
  shows "distinct (issued_ids k)" and "0 \<notin> set (issued_ids k)"
proof -
  have "inj_on (of_nat :: nat \<Rightarrow> TimerId) {1 ..< Suc k}"
    using assms by (intro inj_onI) (auto simp: of_nat_eq64)
  then show "distinct (issued_ids k)" unfolding issued_ids_def distinct_map set_upt by simp
  show "0 \<notin> set (issued_ids k)"
    using assms of_nat_eq64 [of _ 0] by (auto simp: issued_ids_def)
qed

section \<open>A cancelled timer that still waits is dropped\<close>

definition doomed :: "TimerId \<Rightarrow> 'cb timer_race \<Rightarrow> bool" where
  "doomed i s \<longleftrightarrow> i \<in> set (tr_dropped s) \<or> (i \<in> tq_cancelledTimers (tr_queue s) \<and> i \<in># waiting s)"

lemma in_of_threads: "i \<in># of_threads f s \<longleftrightarrow> (\<exists>u < length (tr_threads s). i \<in># of_stack f (tr_threads s ! u))"
proof -
  have "i \<in># sum_list (map (of_stack f) stacks) \<longleftrightarrow> (\<exists>stack \<in> set stacks. i \<in># of_stack f stack)" for stacks
    by (induction stacks) auto
  then show ?thesis unfolding of_threads_def by (metis in_set_conv_nth)
qed

lemma doomed_goto:
  assumes "doomed i s" and t: "t < length (tr_threads s)" and s': "tr_threads s' = (tr_threads s)[t := stack]"
    and dropped: "set (tr_dropped s) \<subseteq> set (tr_dropped s')"
    and cancelled: "i \<in> tq_cancelledTimers (tr_queue s) \<Longrightarrow> i \<in> tq_cancelledTimers (tr_queue s') \<or> i \<in> set (tr_dropped s')"
    and moved: "i \<in> tq_cancelledTimers (tr_queue s) \<Longrightarrow>
      i \<in># of_stack waiting_id (tr_threads s ! t) + mset (map tt_id (tq_tasks (tr_queue s))) \<Longrightarrow>
      i \<in># of_stack waiting_id stack + mset (map tt_id (tq_tasks (tr_queue s'))) \<or> i \<in> set (tr_dropped s')"
  shows "doomed i s'"
proof (cases "i \<in> set (tr_dropped s')")
  case False
  then have i: "i \<in> tq_cancelledTimers (tr_queue s)" "i \<in># waiting s" "i \<in> tq_cancelledTimers (tr_queue s')"
    using assms(1) dropped cancelled by (auto simp: doomed_def)
  have new: "i \<in># of_threads waiting_id s'" if "i \<in># of_stack waiting_id stack"
    unfolding in_of_threads s' using t that by (intro exI [of _ t]) simp
  have "i \<in># waiting s'"
  proof (cases "i \<in># of_stack waiting_id (tr_threads s ! t) + mset (map tt_id (tq_tasks (tr_queue s)))")
    case True
    then show ?thesis using moved [OF i(1)] False new by (auto simp: waiting_def)
  next
    case out: False
    then obtain u where "u < length (tr_threads s)" "i \<in># of_stack waiting_id (tr_threads s ! u)" "u \<noteq> t"
      using i(2) by (auto simp: waiting_def in_of_threads)
    then have "i \<in># of_threads waiting_id s'" unfolding in_of_threads s' by (intro exI [of _ u]) simp
    then show ?thesis by (simp add: waiting_def)
  qed
  then show ?thesis using i(3) by (simp add: doomed_def)
qed (simp add: doomed_def)

lemma timer_thread_step_doomed:
  assumes doom: "doomed i s" and step: "timer_thread_step clock_now t s = Some s'"
  shows "doomed i s'"
proof -
  have t: "t < length (tr_threads s)" "\<not> length (tr_threads s) \<le> t"
    using step by (auto simp: timer_thread_step_def split: if_splits)
  obtain pc rest where st: "tr_threads s ! t = pc # rest"
    using step t by (auto simp: timer_thread_step_def Let_def split: list.splits)
  note step = step [unfolded timer_thread_step_def] st t(2)
  note go = doomed_goto [OF doom t(1), unfolded st]
  show ?thesis
  proof (cases pc)
    case (Pop_top now)
    show ?thesis
    proof (cases "pop_expired now (tr_queue s)")
      case None
      then show ?thesis using step Pop_top by (auto simp: Let_def intro!: go [where stack = rest])
    next
      case (Some r)
      then obtain task ts where "tq_tasks (tr_queue s) = task # ts" "r = (task, tr_queue s\<lparr>tq_tasks := ts\<rparr>)"
        by (cases "tq_tasks (tr_queue s)") (auto simp: pop_expired_def split: if_splits)
      then show ?thesis
        using step Pop_top Some by (auto simp: Let_def intro!: go [where stack = "Check_cancelled now task # rest"])
    qed
  next
    case (Read_clock j delay cb)
    show ?thesis
    proof (cases "deadline_of clock_now delay")
      case (Inl e)
      then show ?thesis using step Read_clock by (auto simp: Let_def intro!: go [where stack = "Overflowed j # rest"])
    next
      case (Inr d)
      then show ?thesis using step Read_clock by (auto simp: Let_def intro!: go [where stack = "Take_sequence j d cb # rest"])
    qed
  next
    case (Check_cancelled now task)
    show ?thesis
    proof (cases "tt_id task \<in> tq_cancelledTimers (tr_queue s)")
      case True
      then show ?thesis
        using step Check_cancelled by (auto simp: Let_def intro!: go [where stack = "Pop_top now # rest"])
    next
      case False
      then show ?thesis
        using step Check_cancelled by (auto simp: Let_def intro!: go [where stack = "Call_back now task # rest"])
    qed
  next
    case (Call_back now task)
    then show ?thesis
      using step by (cases "tt_callback task") (auto simp: Let_def intro!: go)
  qed (use step in \<open>auto simp: Let_def Timer_Queue.Cancel_def intro!: go\<close>)
qed

lemma timer_race_step_doomed:
  assumes "timer_race_step s s'" and "doomed i s"
  shows "doomed i s'"
  using assms
proof (induction rule: timer_race_step.induct)
  case (own clock_now t s s')
  then show ?case using timer_thread_step_doomed by blast
next
  case (request r t s s')
  then have "t < length (tr_threads s)" "s' = tr_goto t (begin_request r @ tr_threads s ! t) s"
    by (auto simp: request_step_def split: if_splits)
  then show ?case using request.prems by (intro doomed_goto [of i s t s' "begin_request r @ tr_threads s ! t"]) auto
next
  case (callback t s s')
  then obtain now rest where "t < length (tr_threads s)" "tr_threads s ! t = In_callback now # rest" "s' = tr_goto t (Pop_top now # rest) s"
    by (auto simp: callback_return_def split: if_splits list.splits timer_pc.splits)
  then show ?case using callback.prems by (intro doomed_goto [of i s t s' "Pop_top now # rest"]) auto
qed

section \<open>Only cancelled timers are dropped\<close>

fun has_callback :: "'cb timer_pc \<Rightarrow> bool" where
  "has_callback (Push task) \<longleftrightarrow> tt_callback task \<noteq> None"
| "has_callback (Check_cancelled now task) \<longleftrightarrow> tt_callback task \<noteq> None"
| "has_callback (Call_back now task) \<longleftrightarrow> tt_callback task \<noteq> None"
| "has_callback pc \<longleftrightarrow> True"

definition drops_ok :: "'cb timer_race \<Rightarrow> bool" where
  "drops_ok s \<longleftrightarrow> tq_cancelledTimers (tr_queue s) \<subseteq> set (tr_cancels s) \<and> set (tr_dropped s) \<subseteq> set (tr_cancels s) \<and>
     (\<forall>task \<in> set (tq_tasks (tr_queue s)). tt_callback task \<noteq> None) \<and> (\<forall>stack \<in> set (tr_threads s). \<forall>pc \<in> set stack. has_callback pc)"

lemma drops_ok_goto:
  assumes "drops_ok s" and "tr_threads s' = (tr_threads s)[t := stack]" and "\<forall>pc \<in> set stack. has_callback pc"
    and "tq_cancelledTimers (tr_queue s') \<subseteq> set (tr_cancels s')" and "set (tr_dropped s') \<subseteq> set (tr_cancels s')"
    and "\<forall>task \<in> set (tq_tasks (tr_queue s')). tt_callback task \<noteq> None"
  shows "drops_ok s'"
proof -
  have "\<forall>st \<in> set (tr_threads s'). \<forall>pc \<in> set st. has_callback pc"
    using assms(1,3) set_update_subset_insert [of "tr_threads s" t stack] unfolding assms(2) drops_ok_def by blast
  then show ?thesis using assms(4-6) by (simp add: drops_ok_def)
qed

lemma timer_thread_step_drops:
  assumes ok: "drops_ok s" and step: "timer_thread_step clock_now t s = Some s'"
  shows "drops_ok s'"
proof -
  have t: "t < length (tr_threads s)" "\<not> length (tr_threads s) \<le> t"
    using step by (auto simp: timer_thread_step_def split: if_splits)
  obtain pc rest where st: "tr_threads s ! t = pc # rest"
    using step t by (auto simp: timer_thread_step_def Let_def split: list.splits)
  have "\<forall>pc \<in> set (tr_threads s ! t). has_callback pc" using ok nth_mem [OF t(1)] unfolding drops_ok_def by blast
  then have cb: "has_callback pc" "\<forall>pc \<in> set rest. has_callback pc" by (simp_all add: st)
  have inv: "tq_cancelledTimers (tr_queue s) \<subseteq> set (tr_cancels s)" "set (tr_dropped s) \<subseteq> set (tr_cancels s)"
    "\<forall>task \<in> set (tq_tasks (tr_queue s)). tt_callback task \<noteq> None"
    using ok by (simp_all add: drops_ok_def)
  note step = step [unfolded timer_thread_step_def] st t(2)
  note go = drops_ok_goto [OF ok, of _ t]
  show ?thesis
  proof (cases pc)
    case (Pop_top now)
    then show ?thesis
      using step cb inv by (cases "tq_tasks (tr_queue s)") (auto simp: Let_def pop_expired_def split: if_splits intro!: go)
  next
    case (Check_cancelled now task)
    then show ?thesis using step cb inv by (auto simp: Let_def split: if_splits intro!: go)
  qed (use step cb inv in \<open>auto simp: Let_def Timer_Queue.Cancel_def split: sum.splits intro!: go\<close>)
qed

lemma timer_race_reachable_drops: "timer_race_reachable n s \<Longrightarrow> drops_ok s"
proof (induction rule: timer_race_reachable.induct)
  case start
  show ?case by (simp add: drops_ok_def timer_race_new_def TimerQueue_new_def)
next
  case (step s s')
  from step.hyps(2) show ?case
  proof cases
    case (own clock_now t)
    then show ?thesis using timer_thread_step_drops step.IH by blast
  next
    case (request r t)
    then have t: "t < length (tr_threads s)" "s' = tr_goto t (begin_request r @ tr_threads s ! t) s"
      by (auto simp: request_step_def split: if_splits)
    moreover have "\<forall>pc \<in> set (begin_request r). has_callback pc" by (cases r rule: begin_request.cases) simp_all
    ultimately show ?thesis
      using step.IH nth_mem [OF t(1)]
      by (intro drops_ok_goto [of s s' t "begin_request r @ tr_threads s ! t"]) (auto simp: drops_ok_def)
  next
    case (callback t)
    then obtain now rest where t: "t < length (tr_threads s)" "tr_threads s ! t = In_callback now # rest"
      "s' = tr_goto t (Pop_top now # rest) s"
      by (auto simp: callback_return_def split: if_splits list.splits timer_pc.splits)
    have "\<forall>pc \<in> set (tr_threads s ! t). has_callback pc" using step.IH nth_mem [OF t(1)] unfolding drops_ok_def by blast
    then show ?thesis
      using step.IH t by (intro drops_ok_goto [of s s' t "Pop_top now # rest"]) (auto simp: drops_ok_def)
  qed
qed

lemma distinct_parts:
  assumes "mset ys = A + mset xs" and "distinct ys"
  shows "distinct xs" and "\<And>x. x \<in># A \<Longrightarrow> x \<notin> set xs"
proof -
  obtain zs where zs: "mset zs = A" using ex_mset by blast
  then have "distinct (zs @ xs)" using assms mset_eq_imp_distinct_iff [of ys "zs @ xs"] by simp
  then show "distinct xs" "\<And>x. x \<in># A \<Longrightarrow> x \<notin> set xs" unfolding zs [symmetric] by auto
qed

lemma accounts_split:
  assumes "timers_ok s"
  shows "mset (issued_ids (tr_issued s)) = (waiting s + mset (tr_dropped s) + of_threads calling_id s) + mset (ran_ids s)"
proof -
  have "mset (issued_ids (tr_issued s)) = accounts s" using assms by (simp add: timers_ok_def)
  then show ?thesis by (simp add: accounts_def ac_simps)
qed

section \<open>Properties\<close>

text \<open>C17. Whatever the interleaving of threads that schedule, cancel and tick, callbacks that call the queue included: no
  timer runs twice and none before its deadline, and every identifier handed out belongs to exactly one
  timer, which still waits, is being called, has run, or was dropped because someone cancelled it:
  none is lost and none appears twice (fewer than \<open>2^64 - 1\<close> timers).\<close>

theorem concurrent_timers_run_once:
  assumes "timer_race_reachable n s" and "tr_issued s < 2 ^ 64 - 1"
  shows "distinct (ran_ids s) \<and> (\<forall>(task, now) \<in> set (tr_ran s). tt_deadline task \<le> now) \<and>
    mset (issued_ids (tr_issued s)) = waiting s + of_threads calling_id s + mset (ran_ids s) + mset (tr_dropped s) \<and>
    distinct (issued_ids (tr_issued s)) \<and> InvalidTimerId \<notin> set (issued_ids (tr_issued s)) \<and> set (tr_dropped s) \<subseteq> set (tr_cancels s)"
proof -
  have ok: "timers_ok s" by (rule timer_race_reachable_ok [OF assms(1)])
  then have all: "accounts s = mset (issued_ids (tr_issued s))" by (simp add: timers_ok_def)
  moreover have "distinct (ran_ids s)" by (rule distinct_parts(1) [OF accounts_split [OF ok] distinct_issued(1) [OF assms(2)]])
  ultimately show ?thesis
    using ok distinct_issued [OF assms(2)] timer_race_reachable_drops [OF assms(1)]
    by (simp add: timers_ok_def accounts_def drops_ok_def InvalidTimerId_def)
qed

text \<open>C18. A timer that is cancelled while it waits (not yet scheduled completely, in the queue, or taken out but not
  yet looked up among the cancelled ones) never runs, whatever the threads do afterwards.\<close>

theorem cancelled_timers_stay_silent:
  assumes "timer_race_reachable n s0" and "i \<in> tq_cancelledTimers (tr_queue s0)" and "i \<in># waiting s0"
    and "timer_race_step\<^sup>*\<^sup>* s0 s" and "tr_issued s < 2 ^ 64 - 1"
  shows "i \<notin> set (ran_ids s)"
proof -
  have "timer_race_reachable n s" using assms(4,1) by induction (auto intro: timer_race_reachable.step)
  then have "timers_ok s" by (rule timer_race_reachable_ok)
  note silent = distinct_parts(2) [OF accounts_split [OF this] distinct_issued(1) [OF assms(5)]]
  have "doomed i s" using assms(4,2,3)
    by induction (auto simp: doomed_def [of i s0] intro: timer_race_step_doomed)
  then show ?thesis using silent [of i] by (auto simp: doomed_def)
qed

section \<open>Witnesses\<close>

datatype 'cb timer_race_event = Step nat time_point | Request nat "'cb timer_request" | Return nat

fun timer_event_step :: "'cb timer_race_event \<Rightarrow> 'cb timer_race \<Rightarrow> 'cb timer_race option" where
  "timer_event_step (Step t clock_now) s = timer_thread_step clock_now t s"
| "timer_event_step (Request t r) s = request_step r t s"
| "timer_event_step (Return t) s = callback_return t s"

fun run_timer_events :: "'cb timer_race_event list \<Rightarrow> 'cb timer_race \<Rightarrow> 'cb timer_race option" where
  "run_timer_events [] s = Some s"
| "run_timer_events (e # es) s = Option.bind (timer_event_step e s) (run_timer_events es)"

lemma run_timer_events_steps: "run_timer_events es s = Some s' \<Longrightarrow> timer_race_step\<^sup>*\<^sup>* s s'"
proof (induction es arbitrary: s)
  case (Cons e es)
  then obtain s1 where s1: "timer_event_step e s = Some s1" "run_timer_events es s1 = Some s'"
    by (auto split: bind_splits)
  have "timer_race_step s s1" using s1(1) by (cases e) (auto intro: timer_race_step.intros)
  then show ?case using Cons.IH s1(2) by (meson converse_rtranclp_into_rtranclp)
qed simp

lemma timer_steps_reachable: "timer_race_step\<^sup>*\<^sup>* s s' \<Longrightarrow> timer_race_reachable n s \<Longrightarrow> timer_race_reachable n s'"
  by (induction rule: rtranclp_induct) (auto intro: timer_race_reachable.step)

text \<open>One thread schedules a timer of one millisecond, another ticks and takes it out; the first cancels it
  before, or after, the second looks for its cancellation.\<close>

definition schedule_and_pop :: "nat timer_race_event list" where
  "schedule_and_pop = [Request 0 (Schedule_request 1 (Some 7)), Step 0 0, Step 0 0, Step 0 0, Step 0 0,
     Request 1 (Tick_request 5000000), Step 1 0]"

definition cancel_now :: "nat timer_race_event list" where
  "cancel_now = [Request 0 (Cancel_request 1), Step 0 0]"

lemma cancel_in_time:
  "case run_timer_events (schedule_and_pop @ cancel_now) (timer_race_new 2) of None \<Rightarrow> False
   | Some s0 \<Rightarrow> tq_cancelledTimers (tr_queue s0) = {1} \<and> (1 \<in># waiting s0) \<and>
       (case run_timer_events [Step 1 0, Step 1 0] s0 of None \<Rightarrow> False
        | Some s \<Rightarrow> tr_issued s = 1 \<and> tr_threads s = [[], []] \<and> tr_dropped s = [1])"
  by code_simp

lemma cancel_too_late:
  "case run_timer_events (schedule_and_pop @ Step 1 0 # cancel_now @ [Step 1 0]) (timer_race_new 2) of None \<Rightarrow> False
   | Some s \<Rightarrow> tr_issued s = 1 \<and> tr_threads s = [[], [In_callback 5000000]] \<and> ran_ids s = [1] \<and> tr_cancels s = [1]"
  by code_simp

theorem concurrent_timers_run_once_witness:
  "\<exists>s :: nat timer_race. timer_race_reachable 2 s \<and> tr_cancels s = [1] \<and> ran_ids s = [1] \<and> waiting s = {#} \<and> tr_dropped s = []"
proof -
  obtain s where s: "run_timer_events (schedule_and_pop @ Step 1 0 # cancel_now @ [Step 1 0]) (timer_race_new 2) = Some s"
    "tr_issued s = 1" "ran_ids s = [1]" "tr_cancels s = [1]"
    using cancel_too_late by (auto split: option.splits)
  have r: "timer_race_reachable 2 s"
    by (rule timer_steps_reachable [OF run_timer_events_steps [OF s(1)] timer_race_reachable.start])
  have "tr_issued s < 2 ^ 64 - 1" using s(2) by simp
  from concurrent_timers_run_once [OF r this]
  have "mset (issued_ids 1) = waiting s + of_threads calling_id s + {#1#} + mset (tr_dropped s)"
    unfolding s(2,3) by simp
  moreover have "mset (issued_ids 1) = {#1#}" by (simp add: issued_ids_def)
  ultimately have "waiting s = {#} \<and> tr_dropped s = []"
    by (metis (no_types, lifting) add.commute add.left_commute add_cancel_left_right mset_zero_iff union_eq_empty)
  then show ?thesis using r s by blast
qed

theorem cancelled_timers_stay_silent_witness:
  "\<exists>s :: nat timer_race. timer_race_reachable 2 s \<and> tr_threads s = [[], []] \<and> tr_dropped s = [1] \<and> 1 \<notin> set (ran_ids s)"
proof -
  obtain s0 s where s0: "run_timer_events (schedule_and_pop @ cancel_now) (timer_race_new 2) = Some s0"
      "tq_cancelledTimers (tr_queue s0) = {1}" "1 \<in># waiting s0"
    and s: "run_timer_events [Step 1 0, Step 1 0] s0 = Some s" "tr_issued s = 1" "tr_threads s = [[], []]" "tr_dropped s = [1]"
    using cancel_in_time by (auto split: option.splits)
  have r: "timer_race_reachable 2 s0"
    by (rule timer_steps_reachable [OF run_timer_events_steps [OF s0(1)] timer_race_reachable.start])
  have "tr_issued s < 2 ^ 64 - 1" "1 \<in> tq_cancelledTimers (tr_queue s0)" using s(2) s0(2) by simp_all
  then have "1 \<notin> set (ran_ids s)"
    using cancelled_timers_stay_silent [OF r _ s0(3) run_timer_events_steps [OF s(1)]] by blast
  then show ?thesis using timer_steps_reachable [OF run_timer_events_steps [OF s(1)] r] s(3,4) by blast
qed

end
