(* ===== verification/Event_Bus.thy ===== *)
theory Event_Bus
  imports Prelude "HOL-Library.Sublist"
begin

text \<open>
  The event bus (\<open>infrastructure/EventBus\<close>). A \<open>HandlerEntry\<close> is shared by the handler lists and
  the snapshots, so entries live in a store and the lists hold their addresses; \<open>make_shared\<close>
  appends to the store. What a handler does to the bus is a parameter \<open>script\<close>, the list of calls it
  makes; nested publishing is bounded by a depth argument, \<open>None\<close> meaning that it was exceeded.
  Event_Bus_Contract states the contract of \<open>IEventBus\<close> over an abstract bus. Calls take turns here; Event_Bus_Races
  interleaves the threads and shows that the calls that change the bus are atomic.
\<close>

section \<open>Types\<close>

type_synonym EventTypeId = u32

record subscription_token =
  st_id :: u64
  st_type :: EventTypeId

definition Token_empty :: subscription_token where
  "Token_empty = \<lparr>st_id = 0, st_type = 0\<rparr>"

definition Token_Valid :: "subscription_token \<Rightarrow> bool" where
  "Token_Valid t \<longleftrightarrow> st_id t \<noteq> 0"

definition Token_Reset :: "subscription_token \<Rightarrow> subscription_token" where
  "Token_Reset t = t\<lparr>st_id := 0, st_type := 0\<rparr>"

text \<open>\<open>GetEventTypeId\<close>: a function-local static per event type, filled from one counter.\<close>

record type_ids =
  ti_counter :: EventTypeId
  ti_known :: "string \<rightharpoonup> EventTypeId"

definition GenerateNextTypeId :: "type_ids \<Rightarrow> EventTypeId \<times> type_ids" where
  "GenerateNextTypeId s = (ti_counter s, s\<lparr>ti_counter := ti_counter s + 1\<rparr>)"

definition GetEventTypeId :: "string \<Rightarrow> type_ids \<Rightarrow> EventTypeId \<times> type_ids" where
  "GetEventTypeId tname s =
     (case ti_known s tname of
        Some i \<Rightarrow> (i, s)
      | None \<Rightarrow> let (i, s1) = GenerateNextTypeId s in (i, s1\<lparr>ti_known := (ti_known s1)(tname \<mapsto> i)\<rparr>))"

type_synonym handler_ptr = nat

record 'h handler_entry =
  he_id :: u64
  he_fn :: 'h
  he_active :: bool

record 'h event_bus =
  eb_store :: "'h handler_entry list"
  eb_handlers :: "EventTypeId \<rightharpoonup> handler_ptr list"
  eb_snapshots :: "EventTypeId \<rightharpoonup> handler_ptr list"
  eb_nextId :: u64

definition EventBus_new :: "'h event_bus" where
  "EventBus_new = \<lparr>eb_store = [], eb_handlers = Map.empty, eb_snapshots = Map.empty, eb_nextId = 1\<rparr>"

definition active :: "'h event_bus \<Rightarrow> handler_ptr \<Rightarrow> bool" where
  "active b p = he_active (eb_store b ! p)"

section \<open>Operations\<close>

definition RebuildSnapshot :: "EventTypeId \<Rightarrow> 'h event_bus \<Rightarrow> 'h event_bus" where
  "RebuildSnapshot ty b =
     (case eb_handlers b ty of
        None \<Rightarrow> b
      | Some hs \<Rightarrow> b\<lparr>eb_snapshots := (eb_snapshots b)(ty \<mapsto> filter (active b) hs)\<rparr>)"

definition SubscribeInternal :: "EventTypeId \<Rightarrow> 'h \<Rightarrow> 'h event_bus \<Rightarrow> subscription_token \<times> 'h event_bus" where
  "SubscribeInternal ty handler b =
     (let i = eb_nextId b;
          entry = length (eb_store b);
          b1 = b\<lparr>eb_nextId := i + 1,
                 eb_store := eb_store b @ [\<lparr>he_id = i, he_fn = handler, he_active = True\<rparr>]\<rparr>;
          hs = (case eb_handlers b1 ty of None \<Rightarrow> [] | Some hs \<Rightarrow> hs);
          b2 = b1\<lparr>eb_handlers := (eb_handlers b1)(ty \<mapsto> hs @ [entry])\<rparr>
      in (\<lparr>st_id = i, st_type = ty\<rparr>, RebuildSnapshot ty b2))"

fun deactivate :: "u64 \<Rightarrow> handler_ptr list \<Rightarrow> 'h handler_entry list \<Rightarrow> 'h handler_entry list" where
  "deactivate i [] store = store"
| "deactivate i (p # ps) store =
     (if he_id (store ! p) = i then store[p := (store ! p)\<lparr>he_active := False\<rparr>]
      else deactivate i ps store)"

definition Unsubscribe :: "subscription_token \<Rightarrow> 'h event_bus \<Rightarrow> 'h event_bus" where
  "Unsubscribe token b =
     (if \<not> Token_Valid token then b
      else case eb_handlers b (st_type token) of
          None \<Rightarrow> b
        | Some hs \<Rightarrow> RebuildSnapshot (st_type token)
            (b\<lparr>eb_store := deactivate (st_id token) hs (eb_store b)\<rparr>))"

definition EventBus_Clear :: "'h event_bus \<Rightarrow> 'h event_bus" where
  "EventBus_Clear b = b\<lparr>eb_handlers := Map.empty, eb_snapshots := Map.empty, eb_nextId := 1\<rparr>"

text \<open>The calls of a handler (or of any client), and the log of the handlers invoked.\<close>

datatype ('h, 'e) bus_call =
    Subscribe_call EventTypeId 'h
  | Unsubscribe_call subscription_token
  | Publish_call EventTypeId 'e
  | Clear_call

record ('h, 'e) invocation =
  iv_entry :: handler_ptr
  iv_id :: u64
  iv_fn :: 'h
  iv_event :: 'e

type_synonym ('h, 'e) bus_script = "'h \<Rightarrow> 'e \<Rightarrow> 'h event_bus \<Rightarrow> ('h, 'e) bus_call list"

type_synonym ('h, 'e) bus_run = "('h event_bus \<Rightarrow> (('h, 'e) invocation list \<times> 'h event_bus) option)"

fun run_bus_calls :: "(EventTypeId \<Rightarrow> 'e \<Rightarrow> ('h, 'e) bus_run) \<Rightarrow> ('h, 'e) bus_call list \<Rightarrow> ('h, 'e) bus_run" where
  "run_bus_calls publish [] b = Some ([], b)"
| "run_bus_calls publish (c # cs) b =
     Option.bind
       (case c of
          Subscribe_call ty h \<Rightarrow> Some ([], snd (SubscribeInternal ty h b))
        | Unsubscribe_call token \<Rightarrow> Some ([], Unsubscribe token b)
        | Publish_call ty e \<Rightarrow> publish ty e b
        | Clear_call \<Rightarrow> Some ([], EventBus_Clear b))
       (\<lambda>(log, b1). Option.bind (run_bus_calls publish cs b1) (\<lambda>(log', b2). Some (log @ log', b2)))"

text \<open>The loop of \<open>PublishInternal\<close> over the snapshot it took.\<close>

fun publish_loop :: "('h \<Rightarrow> ('h, 'e) bus_run) \<Rightarrow> 'e \<Rightarrow> handler_ptr list \<Rightarrow> ('h, 'e) bus_run" where
  "publish_loop call e [] b = Some ([], b)"
| "publish_loop call e (p # ps) b =
     (if \<not> active b p then publish_loop call e ps b
      else let handler = eb_store b ! p in
        Option.bind (call (he_fn handler) b) (\<lambda>(log, b1).
          Option.bind (publish_loop call e ps b1) (\<lambda>(log', b2).
            Some (\<lparr>iv_entry = p, iv_id = he_id handler, iv_fn = he_fn handler, iv_event = e\<rparr>
                    # log @ log', b2))))"

fun PublishInternal :: "nat \<Rightarrow> ('h, 'e) bus_script \<Rightarrow> EventTypeId \<Rightarrow> 'e \<Rightarrow> ('h, 'e) bus_run" where
  "PublishInternal 0 script ty e b = None"
| "PublishInternal (Suc depth) script ty e b =
     (case eb_snapshots b ty of
        None \<Rightarrow> Some ([], b)
      | Some snapshot \<Rightarrow>
          publish_loop (\<lambda>h b. run_bus_calls (PublishInternal depth script) (script h e b) b) e snapshot b)"

section \<open>The invariant\<close>

text \<open>
  Handler lists hold valid addresses, each in one place, with identifiers below the counter and
  distinct within a type; each snapshot is the active part of its handler list.
\<close>

definition handler_list :: "'h event_bus \<Rightarrow> EventTypeId \<Rightarrow> handler_ptr list" where
  "handler_list b ty = (case eb_handlers b ty of None \<Rightarrow> [] | Some hs \<Rightarrow> hs)"

definition list_ok :: "'h event_bus \<Rightarrow> handler_ptr list \<Rightarrow> bool" where
  "list_ok b hs \<longleftrightarrow> distinct (map (\<lambda>p. he_id (eb_store b ! p)) hs) \<and>
     (\<forall>p \<in> set hs. p < length (eb_store b) \<and> he_id (eb_store b ! p) \<noteq> 0 \<and> he_id (eb_store b ! p) < eb_nextId b)"

definition eb_ok :: "'h event_bus \<Rightarrow> bool" where
  "eb_ok b \<longleftrightarrow> eb_nextId b \<noteq> 0 \<and> (\<forall>ty. list_ok b (handler_list b ty)) \<and>
     (\<forall>ty. eb_snapshots b ty = map_option (filter (active b)) (eb_handlers b ty)) \<and>
     (\<forall>ty ty'. ty \<noteq> ty' \<longrightarrow> set (handler_list b ty) \<inter> set (handler_list b ty') = {})"

lemma active_update [simp]:
  "active (b\<lparr>eb_snapshots := s\<rparr>) = active b"
  "active (b\<lparr>eb_handlers := m\<rparr>) = active b"
  "active (b\<lparr>eb_nextId := n\<rparr>) = active b"
  by (simp_all add: active_def fun_eq_iff)

text \<open>The abstract bus: per type, the live subscriptions in registration order.\<close>

type_synonym 'h subscriptions = "EventTypeId \<Rightarrow> (u64 \<times> 'h) list"

definition live_of :: "'h event_bus \<Rightarrow> 'h subscriptions" where
  "live_of b ty = map (\<lambda>p. (he_id (eb_store b ! p), he_fn (eb_store b ! p))) (filter (active b) (handler_list b ty))"

definition spec_subscribe :: "u64 \<Rightarrow> EventTypeId \<Rightarrow> 'h \<Rightarrow> 'h subscriptions \<Rightarrow> 'h subscriptions" where
  "spec_subscribe i ty h s = s(ty := s ty @ [(i, h)])"

definition spec_unsubscribe :: "subscription_token \<Rightarrow> 'h subscriptions \<Rightarrow> 'h subscriptions" where
  "spec_unsubscribe t s = s(st_type t := filter (\<lambda>(i, h). i \<noteq> st_id t) (s (st_type t)))"

lemma eb_ok_new: "eb_ok EventBus_new" "live_of EventBus_new = (\<lambda>_. [])"
  by (simp_all add: eb_ok_def list_ok_def EventBus_new_def live_of_def handler_list_def fun_eq_iff)

lemma Clear_ok: "eb_ok (EventBus_Clear b)" "live_of (EventBus_Clear b) = (\<lambda>_. [])"
  "eb_nextId (EventBus_Clear b) = 1"
  by (simp_all add: eb_ok_def list_ok_def EventBus_Clear_def live_of_def handler_list_def fun_eq_iff)

lemma Subscribe_ok:
  assumes ok: "eb_ok b" and room: "Suc (unat (eb_nextId b)) < 2 ^ 64"
  shows "eb_ok (snd (SubscribeInternal ty h b))"
    and "live_of (snd (SubscribeInternal ty h b)) = spec_subscribe (eb_nextId b) ty h (live_of b)"
    and "fst (SubscribeInternal ty h b) = \<lparr>st_id = eb_nextId b, st_type = ty\<rparr>"
    and "eb_nextId (snd (SubscribeInternal ty h b)) = eb_nextId b + 1"
proof -
  let ?b = "snd (SubscribeInternal ty h b)" and ?n = "length (eb_store b)"
  have store: "eb_store ?b = eb_store b @ [\<lparr>he_id = eb_nextId b, he_fn = h, he_active = True\<rparr>]"
    and handlers: "eb_handlers ?b = (eb_handlers b)(ty \<mapsto> handler_list b ty @ [?n])"
    and snaps: "eb_snapshots ?b = (eb_snapshots b)(ty \<mapsto> filter (active ?b) (handler_list b ty @ [?n]))"
    and nxt: "eb_nextId ?b = eb_nextId b + 1"
    by (simp_all add: SubscribeInternal_def RebuildSnapshot_def Let_def handler_list_def)
  have hl: "handler_list ?b ty' = (if ty' = ty then handler_list b ty @ [?n] else handler_list b ty')" for ty'
    by (simp add: handler_list_def handlers)
  have up: "unat (eb_nextId b + 1) = Suc (unat (eb_nextId b))"
    using room by (simp add: unat_add_nowrap)
  then have less: "i < eb_nextId b + 1 \<longleftrightarrow> i \<le> eb_nextId b" and nz: "eb_nextId b + 1 \<noteq> 0" for i
    by (auto simp: word_less_nat_alt word_le_nat_alt less_Suc_eq_le dest: arg_cong [of _ _ unat])
  have list: "p < ?n" "he_id (eb_store b ! p) < eb_nextId b" "he_id (eb_store b ! p) \<noteq> 0"
    if "p \<in> set (handler_list b ty')" for p ty'
    using ok that by (auto simp: eb_ok_def list_ok_def)
  have act: "active ?b p = active b p" if "p < ?n" for p
    using that by (simp add: active_def store nth_append)
  have entry: "he_id (eb_store ?b ! p) = he_id (eb_store b ! p)" "he_fn (eb_store ?b ! p) = he_fn (eb_store b ! p)"
    if "p < ?n" for p
    using that by (simp_all add: store nth_append)
  have same: "filter (active ?b) (handler_list b ty') = filter (active b) (handler_list b ty')" for ty'
    using list(1) act by (intro filter_cong) auto
  show "live_of ?b = spec_subscribe (eb_nextId b) ty h (live_of b)"
  proof
    fix ty'
    have "map (\<lambda>p. (he_id (eb_store ?b ! p), he_fn (eb_store ?b ! p))) (filter (active b) (handler_list b ty')) = live_of b ty'"
      using list(1) entry unfolding live_of_def by (intro map_cong) auto
    then show "live_of ?b ty' = spec_subscribe (eb_nextId b) ty h (live_of b) ty'"
      using same [of ty'] by (auto simp: live_of_def [of ?b] hl spec_subscribe_def active_def [of ?b ?n] store)
  qed
  have ids: "map (\<lambda>p. he_id (eb_store ?b ! p)) (handler_list b ty') = map (\<lambda>p. he_id (eb_store b ! p)) (handler_list b ty')" for ty'
    using list(1) entry by (intro map_cong) auto
  have new: "he_id (eb_store ?b ! ?n) = eb_nextId b" "eb_nextId b \<noteq> 0"
    using ok by (simp_all add: store eb_ok_def)
  have dist: "distinct (map (\<lambda>p. he_id (eb_store ?b ! p)) (handler_list b ty'))" for ty'
    unfolding ids using ok by (simp add: eb_ok_def list_ok_def)
  have bnd: "p < length (eb_store ?b) \<and> he_id (eb_store ?b ! p) \<noteq> 0 \<and> he_id (eb_store ?b ! p) < eb_nextId ?b"
    if "p \<in> set (handler_list b ty') \<or> p = ?n" for p ty'
  proof (cases "p = ?n")
    case True
    then show ?thesis using new less [of "eb_nextId b"] by (simp add: nxt store)
  next
    case False
    then have p: "p \<in> set (handler_list b ty')" using that by blast
    then have "p < length (eb_store ?b)" using list(1) [OF p] by (simp add: store)
    moreover have "he_id (eb_store b ! p) < eb_nextId b + 1"
      unfolding less using list(2) [OF p] by (rule less_imp_le)
    ultimately show ?thesis using list(3) [OF p] entry(1) [OF list(1) [OF p]] nxt by simp
  qed
  have fresh: "he_id (eb_store ?b ! p) \<noteq> eb_nextId b" if "p \<in> set (handler_list b ty')" for p ty'
    using list [OF that] entry(1) [of p] by auto
  have "list_ok ?b (handler_list ?b ty')" for ty'
  proof -
    have "\<forall>p \<in> set (handler_list ?b ty'). p \<in> set (handler_list b ty') \<or> p = ?n"
      by (auto simp: hl)
    moreover have "distinct (map (\<lambda>p. he_id (eb_store ?b ! p)) (handler_list ?b ty'))"
    proof -
      have "he_id (eb_store ?b ! ?n) \<notin> (\<lambda>p. he_id (eb_store ?b ! p)) ` set (handler_list b ty)"
        unfolding new(1) by (rule notI, erule imageE, drule fresh) simp
      then show ?thesis using dist [of ty'] dist [of ty] by (simp add: hl)
    qed
    ultimately show ?thesis unfolding list_ok_def using bnd by blast
  qed
  moreover have "eb_snapshots ?b ty' = map_option (filter (active ?b)) (eb_handlers ?b ty')" for ty'
  proof (cases "ty' = ty")
    case False
    then have "eb_snapshots ?b ty' = map_option (filter (active b)) (eb_handlers b ty')"
      using ok by (simp add: snaps eb_ok_def)
    then show ?thesis
      using same [of ty'] False by (auto simp: handlers handler_list_def split: option.splits)
  qed (simp add: snaps handlers)
  moreover have "set (handler_list ?b t1) \<inter> set (handler_list ?b t2) = {}" if "t1 \<noteq> t2" for t1 t2
  proof -
    have "?n \<notin> set (handler_list b ty')" for ty' using list(1) by blast
    moreover have "set (handler_list b t1) \<inter> set (handler_list b t2) = {}"
      using ok that by (simp add: eb_ok_def)
    ultimately show ?thesis using that by (auto simp: hl)
  qed
  ultimately show "eb_ok ?b" by (simp add: eb_ok_def nxt nz)
  show "eb_nextId ?b = eb_nextId b + 1" by (rule nxt)
  show "fst (SubscribeInternal ty h b) = \<lparr>st_id = eb_nextId b, st_type = ty\<rparr>"
    by (simp add: SubscribeInternal_def Let_def)
qed

lemma deactivate_length [simp]: "length (deactivate i hs store) = length store"
  by (induction i hs store rule: deactivate.induct) auto

lemma update_keeps: "(\<And>x. f (g x) = f x) \<Longrightarrow> f (store[q := g (store ! q)] ! p) = f (store ! p)"
  by (cases "q < length store"; cases "p = q") (auto simp: list_update_beyond)

lemma deactivate_keeps:
  "he_id (deactivate i hs store ! p) = he_id (store ! p)"
  "he_fn (deactivate i hs store ! p) = he_fn (store ! p)"
  by (induction i hs store rule: deactivate.induct) (auto simp: update_keeps)

lemma deactivate_other: "p \<notin> set hs \<Longrightarrow> deactivate i hs store ! p = store ! p"
  by (induction i hs store rule: deactivate.induct) auto

lemma deactivate_active:
  assumes "distinct (map (\<lambda>p. he_id (store ! p)) hs)" and "p \<in> set hs" and "\<forall>p \<in> set hs. p < length store"
  shows "he_active (deactivate i hs store ! p) \<longleftrightarrow> he_active (store ! p) \<and> he_id (store ! p) \<noteq> i"
  using assms
proof (induction i hs store rule: deactivate.induct)
  case (2 i q ps store)
  then show ?case
    by (cases "p = q") (auto simp: deactivate_other image_iff)
qed simp

lemma Unsubscribe_ok:
  assumes ok: "eb_ok b"
  shows "eb_ok (Unsubscribe token b)"
    and "live_of (Unsubscribe token b) = spec_unsubscribe token (live_of b)"
    and "eb_nextId (Unsubscribe token b) = eb_nextId b"
proof -
  let ?ty = "st_type token" and ?i = "st_id token" and ?b = "Unsubscribe token b"
  have none: "spec_unsubscribe token (live_of b) = live_of b" if "handler_list b ?ty = []"
    using that by (auto simp: spec_unsubscribe_def live_of_def fun_eq_iff)
  have zero: "spec_unsubscribe token (live_of b) = live_of b" if "?i = 0"
  proof -
    have "filter (\<lambda>(i, h). i \<noteq> 0) (live_of b ?ty) = live_of b ?ty"
      using ok by (auto simp: live_of_def eb_ok_def list_ok_def filter_id_conv)
    then show ?thesis using that by (simp add: spec_unsubscribe_def)
  qed
  have "eb_ok ?b \<and> live_of ?b = spec_unsubscribe token (live_of b) \<and> eb_nextId ?b = eb_nextId b"
  proof (cases "Token_Valid token \<and> eb_handlers b ?ty \<noteq> None")
    case False
    then show ?thesis
      using ok none zero by (auto simp: Unsubscribe_def Token_Valid_def handler_list_def split: option.splits)
  next
    case True
    then obtain hs where hs: "eb_handlers b ?ty = Some hs" by auto
    let ?store = "deactivate ?i hs (eb_store b)"
    have b': "?b = b\<lparr>eb_store := ?store, eb_snapshots := (eb_snapshots b)(?ty \<mapsto>
        filter (active (b\<lparr>eb_store := ?store\<rparr>)) hs)\<rparr>"
      using True hs by (simp add: Unsubscribe_def RebuildSnapshot_def)
    have hl: "handler_list ?b = handler_list b" by (simp add: b' handler_list_def fun_eq_iff)
    have hsl: "handler_list b ?ty = hs" using hs by (simp add: handler_list_def)
    have store: "eb_store ?b = ?store" and act: "active ?b = active (b\<lparr>eb_store := ?store\<rparr>)"
      by (simp_all add: b' active_def fun_eq_iff)
    have nxt: "eb_nextId ?b = eb_nextId b" by (simp add: b')
    have lok: "list_ok b hs" using ok hsl by (auto simp: eb_ok_def)
    have act_in: "active ?b p \<longleftrightarrow> active b p \<and> he_id (eb_store b ! p) \<noteq> ?i" if "p \<in> set hs" for p
      using deactivate_active [of "eb_store b" hs p ?i] lok that by (auto simp: active_def store list_ok_def)
    have act_out: "active ?b p \<longleftrightarrow> active b p" if "p \<in> set (handler_list b ty)" "ty \<noteq> ?ty" for p ty
    proof -
      have "p \<notin> set hs" using ok that hsl by (fastforce simp: eb_ok_def)
      then show ?thesis by (simp add: active_def store deactivate_other)
    qed
    have "list_ok ?b (handler_list ?b ty)" for ty
      using ok unfolding hl list_ok_def store deactivate_keeps deactivate_length nxt
      by (simp add: eb_ok_def list_ok_def)
    moreover have out: "filter (active ?b) (handler_list b ty) = filter (active b) (handler_list b ty)"
      if "ty \<noteq> ?ty" for ty
      using act_out [OF _ that] by (intro filter_cong) auto
    have "eb_snapshots ?b ty = map_option (filter (active ?b)) (eb_handlers ?b ty)" for ty
    proof (cases "ty = ?ty")
      case False
      then have "eb_snapshots ?b ty = map_option (filter (active b)) (eb_handlers b ty)"
        using ok by (simp add: b' eb_ok_def)
      then show ?thesis
        using out [OF False] by (cases "eb_handlers b ty") (auto simp: b' handler_list_def)
    qed (simp add: b' hs act [unfolded b'])
    ultimately have "eb_ok ?b"
      using ok by (simp only: eb_ok_def hl nxt) simp
    moreover have "live_of ?b ty = spec_unsubscribe token (live_of b) ty" for ty
    proof (cases "ty = ?ty")
      case True
      have "filter (active ?b) hs = filter (\<lambda>p. he_id (eb_store b ! p) \<noteq> ?i) (filter (active b) hs)"
        using act_in by (auto simp: filter_filter intro: filter_cong)
      then show ?thesis
        using True hsl by (simp add: live_of_def hl spec_unsubscribe_def store deactivate_keeps filter_map o_def)
    next
      case False
      then show ?thesis
        using out [OF False] by (simp add: live_of_def hl spec_unsubscribe_def store deactivate_keeps)
    qed
    ultimately show ?thesis by (auto simp: b')
  qed
  then show "eb_ok ?b" "live_of ?b = spec_unsubscribe token (live_of b)" "eb_nextId ?b = eb_nextId b" by auto
qed

section \<open>Dispatch\<close>

text \<open>
  Entries never come back: an entry that is inactive stays so, whatever calls are made, and is not
  invoked.
\<close>

definition entry_dead :: "handler_ptr \<Rightarrow> 'h event_bus \<Rightarrow> bool" where
  "entry_dead p b \<longleftrightarrow> p < length (eb_store b) \<and> \<not> active b p"

lemma Rebuild_store [simp]: "eb_store (RebuildSnapshot ty b) = eb_store b"
  by (simp add: RebuildSnapshot_def split: option.splits)

lemma entry_dead_Subscribe: "entry_dead p b \<Longrightarrow> entry_dead p (snd (SubscribeInternal ty h b))"
  by (auto simp: entry_dead_def active_def SubscribeInternal_def Let_def nth_append)

lemma deactivate_dead: "\<not> he_active (store ! p) \<Longrightarrow> \<not> he_active (deactivate i hs store ! p)"
proof (induction i hs store rule: deactivate.induct)
  case (2 i q ps store)
  then show ?case
    by (cases "p = q"; cases "q < length store") (auto simp: list_update_beyond)
qed simp

lemma entry_dead_Unsubscribe: "entry_dead p b \<Longrightarrow> entry_dead p (Unsubscribe token b)"
  by (auto simp: entry_dead_def active_def Unsubscribe_def deactivate_dead split: option.splits)

lemma entry_dead_Clear: "entry_dead p b \<Longrightarrow> entry_dead p (EventBus_Clear b)"
  by (simp add: entry_dead_def active_def EventBus_Clear_def)

definition spares :: "handler_ptr \<Rightarrow> ('h, 'e) bus_run \<Rightarrow> bool" where
  "spares p run \<longleftrightarrow> (\<forall>b log b'. run b = Some (log, b') \<longrightarrow> entry_dead p b \<longrightarrow>
     entry_dead p b' \<and> p \<notin> iv_entry ` set log)"

lemma spares_calls:
  assumes "\<And>ty e. spares p (publish ty e)"
  shows "spares p (run_bus_calls publish cs)"
proof (induction cs)
  case Nil
  show ?case by (simp add: spares_def)
next
  case (Cons c cs)
  have "spares p (\<lambda>b. case c of
          Subscribe_call ty h \<Rightarrow> Some ([], snd (SubscribeInternal ty h b))
        | Unsubscribe_call token \<Rightarrow> Some ([], Unsubscribe token b)
        | Publish_call ty e \<Rightarrow> publish ty e b
        | Clear_call \<Rightarrow> Some ([], EventBus_Clear b))"
    using assms by (cases c) (auto simp: spares_def entry_dead_Subscribe entry_dead_Unsubscribe entry_dead_Clear)
  with Cons.IH show ?case
    unfolding spares_def by (fastforce simp: bind_eq_Some_conv)
qed

lemma spares_loop:
  assumes "\<And>h. spares p (call h)"
  shows "spares p (publish_loop call e ps)"
proof (induction ps)
  case Nil
  show ?case by (simp add: spares_def)
next
  case (Cons q ps)
  with assms show ?case
    unfolding spares_def by (fastforce simp: bind_eq_Some_conv Let_def entry_dead_def split: if_splits)
qed

lemma spares_Publish: "spares p (PublishInternal d script ty e)"
proof (induction d arbitrary: ty e)
  case 0
  show ?case by (simp add: spares_def)
next
  case (Suc d)
  have "spares p (\<lambda>b. run_bus_calls (PublishInternal d script) (script h e b) b)" for h
    using spares_calls [of p "PublishInternal d script"] Suc.IH unfolding spares_def by blast
  then have "spares p (publish_loop (\<lambda>h b. run_bus_calls (PublishInternal d script) (script h e b) b) e ps)" for ps
    by (rule spares_loop)
  then show ?case unfolding spares_def by (auto split: option.splits)
qed

section \<open>Properties\<close>

text \<open>A subscription that was removed is never invoked again, even by a dispatch that is already
  running over a snapshot holding it and whatever the handlers of that dispatch call.\<close>

theorem unsubscribed_never_invoked:
  assumes "eb_ok b" and "p \<in> set (handler_list b (st_type token))"
    and "he_id (eb_store b ! p) = st_id token"
    and "run_bus_calls (PublishInternal depth script) calls (Unsubscribe token b) = Some (log, b')"
  shows "p \<notin> iv_entry ` set log"
proof -
  let ?b = "Unsubscribe token b"
  have p: "p < length (eb_store b)" and d: "list_ok b (handler_list b (st_type token))"
    and nz: "st_id token \<noteq> 0"
    using assms(1-3) by (auto simp: eb_ok_def list_ok_def)
  have "entry_dead p ?b"
    using deactivate_active [of "eb_store b" "handler_list b (st_type token)" p "st_id token"] d assms(2,3) p nz
    by (auto simp: entry_dead_def active_def Unsubscribe_def Token_Valid_def list_ok_def handler_list_def
        split: option.splits)
  moreover have "spares p (run_bus_calls (PublishInternal depth script) calls)"
    by (rule spares_calls) (rule spares_Publish)
  ultimately show ?thesis using assms(4) by (auto simp: spares_def)
qed

text \<open>Two handlers of one type; the first unsubscribes the second.\<close>

definition pair_bus :: "nat event_bus" where
  "pair_bus = \<lparr>eb_store = [\<lparr>he_id = 1, he_fn = 10, he_active = True\<rparr>, \<lparr>he_id = 2, he_fn = 20, he_active = True\<rparr>],
     eb_handlers = [7 \<mapsto> [0, 1]], eb_snapshots = [7 \<mapsto> [0, 1]], eb_nextId = 3\<rparr>"

lemma pair_bus_ok: "eb_ok pair_bus"
  by (auto simp: eb_ok_def list_ok_def pair_bus_def handler_list_def active_def split: if_splits)

theorem unsubscribed_never_invoked_witness:
  "\<exists>log b'. run_bus_calls (PublishInternal 1 (\<lambda>h e b. [])) [Publish_call 7 (5::nat)]
      (Unsubscribe \<lparr>st_id = 2, st_type = 7\<rparr> pair_bus) = Some (log, b') \<and> 1 \<notin> iv_entry ` set log"
proof -
  obtain log b' where run: "run_bus_calls (PublishInternal 1 (\<lambda>h e b. [])) [Publish_call 7 (5::nat)]
      (Unsubscribe \<lparr>st_id = 2, st_type = 7\<rparr> pair_bus) = Some (log, b')"
    by (simp add: Unsubscribe_def Token_Valid_def pair_bus_def RebuildSnapshot_def active_def Let_def)
  show ?thesis
    using run unsubscribed_never_invoked [OF pair_bus_ok, of 1 "\<lparr>st_id = 2, st_type = 7\<rparr>", OF _ _ run]
    by (simp add: pair_bus_def handler_list_def)
qed

text \<open>A dispatch whose handlers do not publish invokes handlers of the snapshot taken when it
  began, each at most once and in registration order: one subscribed meanwhile waits for the next
  event.\<close>

lemma run_bus_calls_no_publish:
  "\<forall>c \<in> set cs. \<nexists>ty e. c = Publish_call ty e \<Longrightarrow> \<exists>b'. run_bus_calls publish cs b = Some ([], b')"
proof (induction cs arbitrary: b)
  case Nil
  then show ?case by simp
next
  case (Cons c cs)
  then show ?case by (cases c) (auto simp: bind_eq_Some_conv)
qed

theorem dispatch_uses_snapshot:
  assumes "\<forall>h e b. \<forall>c \<in> set (script h e b). \<nexists>ty e'. c = Publish_call ty e'"
    and "eb_snapshots b ty = Some snapshot"
  shows "\<exists>log b'. PublishInternal (Suc depth) script ty e b = Some (log, b') \<and> subseq (map iv_entry log) snapshot"
proof -
  let ?call = "\<lambda>h b. run_bus_calls (PublishInternal depth script) (script h e b) b"
  have "\<exists>log b'. publish_loop ?call e ps b = Some (log, b') \<and> subseq (map iv_entry log) ps" for ps b
  proof (induction ps arbitrary: b)
    case Nil
    show ?case by simp
  next
    case (Cons p ps)
    obtain b1 where "?call (he_fn (eb_store b ! p)) b = Some ([], b1)"
      using run_bus_calls_no_publish assms(1) by metis
    with Cons.IH [of b] Cons.IH [of b1] show ?case by (auto simp: Let_def)
  qed
  then show ?thesis using assms(2) by simp
qed

theorem dispatch_uses_snapshot_witness:
  "\<exists>log b'. PublishInternal 1 (\<lambda>h e b. [Subscribe_call 7 30]) 7 (5::nat) pair_bus = Some (log, b')
     \<and> subseq (map iv_entry log) [0, 1]"
  using dispatch_uses_snapshot [of "\<lambda>h e b. [Subscribe_call 7 30]" pair_bus 7 "[0, 1]" 0 "5::nat"]
  by (simp add: pair_bus_def)

text \<open>After \<open>Clear\<close> the identifiers start again at 1, so a token kept from before is the token of
  the next subscription of its type, and unsubscribing the stale token removes that one.\<close>

theorem stale_token_after_clear:
  "let (token, b1) = SubscribeInternal ty h EventBus_new;
       (token', b2) = SubscribeInternal ty h' (EventBus_Clear b1);
       b3 = Unsubscribe token b2
   in token = token' \<and> live_of b2 ty = [(1, h')] \<and> live_of b3 ty = []"
proof -
  let ?b1 = "EventBus_Clear (snd (SubscribeInternal ty h EventBus_new))"
  let ?b2 = "snd (SubscribeInternal ty h' ?b1)" and ?t = "\<lparr>st_id = 1, st_type = ty\<rparr>"
  have room: "Suc (unat (eb_nextId ?b1)) < 2 ^ 64" by (simp add: Clear_ok)
  note b2 = Subscribe_ok [OF Clear_ok(1) room, of ty h']
  have "fst (SubscribeInternal ty h EventBus_new) = ?t"
    by (simp add: SubscribeInternal_def Let_def EventBus_new_def)
  moreover have "fst (SubscribeInternal ty h' ?b1) = ?t"
    using b2(3) by (simp add: Clear_ok)
  moreover have "live_of ?b2 ty = [(1, h')]"
    using b2(2) by (simp add: Clear_ok spec_subscribe_def)
  moreover have "live_of (Unsubscribe ?t ?b2) ty = []"
    using Unsubscribe_ok(2) [OF b2(1), of ?t] calculation(3) by (simp add: spec_unsubscribe_def)
  ultimately show ?thesis by (simp add: Let_def split_beta)
qed

end
