(* ===== verification/Event_Bus_Races.thy ===== *)
theory Event_Bus_Races
  imports Event_Bus
begin

text \<open>
  The event bus with its threads interleaved. \<open>Subscribe\<close>, \<open>Unsubscribe\<close> and \<open>Clear\<close> hold \<open>writeMutex_\<close>
  while they change the handler lists, store an active flag, rebuild the snapshot and exchange it under
  \<open>topologyMutex_\<close>; \<open>Publish\<close> takes a snapshot and then loads the flags with no lock held. A thread is a
  stack of calls: a running handler may call the bus again. \<open>topologyMutex_\<close> is held for one access of the snapshots at a
  time, so each such section is one step here. The writers' calls take effect one after the other, no
  thread waits for ever for a lock, and an unsubscribed handler is invoked only by the publishers that had
  already found it active.
\<close>

section \<open>Threads\<close>

text \<open>
  A writer at the lock, at its change, at the scan of \<open>RebuildSnapshot\<close>, at the exchange of the snapshot, at the
  unlock; a publisher at the snapshot, at the flag of the next handler, at its invocation, in the handler.
\<close>

datatype ('h, 'e) bus_pc =
    At_mutex "('h, 'e) bus_call"
  | Mutate "('h, 'e) bus_call"
  | Scan "('h, 'e) bus_call" EventTypeId
  | Swap "('h, 'e) bus_call" EventTypeId "handler_ptr list"
  | Unlock
  | Take EventTypeId 'e
  | Check_active 'e "handler_ptr list"
  | Invoke handler_ptr 'e "handler_ptr list"
  | In_handler 'e "handler_ptr list"

text \<open>\<open>br_history\<close>: the writers' calls in the order in which they took effect; \<open>br_log\<close>: the invocations.\<close>

record ('h, 'e) bus_race =
  br_bus :: "'h event_bus"
  br_mutex :: "nat option"
  br_threads :: "('h, 'e) bus_pc list list"
  br_history :: "('h, 'e) bus_call list"
  br_log :: "(handler_ptr \<times> 'e) list"

definition bus_race_new :: "nat \<Rightarrow> ('h, 'e) bus_race" where
  "bus_race_new n = \<lparr>br_bus = EventBus_new, br_mutex = None, br_threads = replicate n [], br_history = [], br_log = []\<rparr>"

definition br_goto :: "nat \<Rightarrow> ('h, 'e) bus_pc list \<Rightarrow> ('h, 'e) bus_race \<Rightarrow> ('h, 'e) bus_race" where
  "br_goto t stack s = s\<lparr>br_threads := (br_threads s)[t := stack]\<rparr>"

text \<open>The part of \<open>SubscribeInternal\<close> before \<open>RebuildSnapshot\<close>.\<close>

definition add_entry :: "EventTypeId \<Rightarrow> 'h \<Rightarrow> 'h event_bus \<Rightarrow> 'h event_bus" where
  "add_entry ty handler b =
     (let i = eb_nextId b; entry = length (eb_store b);
          hs = (case eb_handlers b ty of None \<Rightarrow> [] | Some hs \<Rightarrow> hs)
      in b\<lparr>eb_nextId := i + 1, eb_store := eb_store b @ [\<lparr>he_id = i, he_fn = handler, he_active = True\<rparr>],
           eb_handlers := (eb_handlers b)(ty \<mapsto> hs @ [entry])\<rparr>)"

text \<open>A call ends its effect: it goes to the unlock and into the history.\<close>

definition commit :: "nat \<Rightarrow> ('h, 'e) bus_pc list \<Rightarrow> ('h, 'e) bus_call \<Rightarrow> ('h, 'e) bus_race \<Rightarrow> ('h, 'e) bus_race" where
  "commit t rest c s = br_goto t (Unlock # rest) (s\<lparr>br_history := br_history s @ [c]\<rparr>)"

definition bus_thread_step :: "nat \<Rightarrow> ('h, 'e) bus_race \<Rightarrow> ('h, 'e) bus_race option" where
  "bus_thread_step t s =
     (if t \<ge> length (br_threads s) then None
      else let b = br_bus s in
        case br_threads s ! t of
          [] \<Rightarrow> None
        | pc # rest \<Rightarrow>
            (case pc of
               At_mutex c \<Rightarrow> if br_mutex s = None then Some (br_goto t (Mutate c # rest) (s\<lparr>br_mutex := Some t\<rparr>)) else None
             | Mutate c \<Rightarrow>
                 Some (case c of
                     Subscribe_call ty handler \<Rightarrow> br_goto t (Scan c ty # rest) (s\<lparr>br_bus := add_entry ty handler b\<rparr>)
                   | Unsubscribe_call token \<Rightarrow>
                       (case eb_handlers b (st_type token) of
                          None \<Rightarrow> commit t rest c s
                        | Some hs \<Rightarrow> br_goto t (Scan c (st_type token) # rest)
                            (s\<lparr>br_bus := b\<lparr>eb_store := deactivate (st_id token) hs (eb_store b)\<rparr>\<rparr>))
                   | Clear_call \<Rightarrow> commit t rest c (s\<lparr>br_bus := EventBus_Clear b\<rparr>)
                   | Publish_call ty e \<Rightarrow> commit t rest c s)
             | Scan c ty \<Rightarrow>
                 Some (case eb_handlers b ty of
                     None \<Rightarrow> commit t rest c s
                   | Some hs \<Rightarrow> br_goto t (Swap c ty (filter (active b) hs) # rest) s)
             | Swap c ty ps \<Rightarrow> Some (commit t rest c (s\<lparr>br_bus := b\<lparr>eb_snapshots := (eb_snapshots b)(ty \<mapsto> ps)\<rparr>\<rparr>))
             | Unlock \<Rightarrow> Some (br_goto t rest (s\<lparr>br_mutex := None\<rparr>))
             | Take ty e \<Rightarrow>
                 Some (case eb_snapshots b ty of None \<Rightarrow> br_goto t rest s | Some ps \<Rightarrow> br_goto t (Check_active e ps # rest) s)
             | Check_active e [] \<Rightarrow> Some (br_goto t rest s)
             | Check_active e (p # ps) \<Rightarrow>
                 Some (br_goto t ((if active b p then Invoke p e ps else Check_active e ps) # rest) s)
             | Invoke p e ps \<Rightarrow> Some (br_goto t (In_handler e ps # rest) (s\<lparr>br_log := br_log s @ [(p, e)]\<rparr>))
             | In_handler e ps \<Rightarrow> None))"

text \<open>The first place of a call; \<open>Unsubscribe\<close> with an invalid token returns at once.\<close>

fun begin_call :: "('h, 'e) bus_call \<Rightarrow> ('h, 'e) bus_pc list" where
  "begin_call (Publish_call ty e) = [Take ty e]"
| "begin_call (Unsubscribe_call token) = (if Token_Valid token then [At_mutex (Unsubscribe_call token)] else [])"
| "begin_call c = [At_mutex c]"

fun may_call :: "('h, 'e) bus_pc list \<Rightarrow> bool" where
  "may_call [] = True"
| "may_call (pc # rest) = (case pc of In_handler e ps \<Rightarrow> True | _ \<Rightarrow> False)"

definition handler_return :: "nat \<Rightarrow> ('h, 'e) bus_race \<Rightarrow> ('h, 'e) bus_race option" where
  "handler_return t s =
     (if t \<ge> length (br_threads s) then None
      else case br_threads s ! t of In_handler e ps # rest \<Rightarrow> Some (br_goto t (Check_active e ps # rest) s) | _ \<Rightarrow> None)"

lemma handler_return_SomeE:
  assumes "handler_return t s = Some s'"
  obtains e ps rest where "t < length (br_threads s)" "br_threads s ! t = In_handler e ps # rest"
    "s' = br_goto t (Check_active e ps # rest) s"
  using assms by (auto simp: handler_return_def split: if_splits list.splits bus_pc.splits)

text \<open>A thread steps, a thread outside or in a handler calls the bus, or a handler returns.\<close>

inductive bus_race_step :: "('h, 'e) bus_race \<Rightarrow> ('h, 'e) bus_race \<Rightarrow> bool" where
  own: "bus_thread_step t s = Some s' \<Longrightarrow> bus_race_step s s'"
| call: "t < length (br_threads s) \<Longrightarrow> may_call (br_threads s ! t) \<Longrightarrow>
    bus_race_step s (br_goto t (begin_call c @ br_threads s ! t) s)"
| handler_returns: "handler_return t s = Some s' \<Longrightarrow> bus_race_step s s'"

inductive bus_race_reachable :: "nat \<Rightarrow> ('h, 'e) bus_race \<Rightarrow> bool" for n :: nat where
  start: "bus_race_reachable n (bus_race_new n)"
| step: "bus_race_reachable n s \<Longrightarrow> bus_race_step s s' \<Longrightarrow> bus_race_reachable n s'"

section \<open>The writers' calls are atomic\<close>

fun apply_call :: "('h, 'e) bus_call \<Rightarrow> 'h event_bus \<Rightarrow> 'h event_bus" where
  "apply_call (Subscribe_call ty handler) b = snd (SubscribeInternal ty handler b)"
| "apply_call (Unsubscribe_call token) b = Unsubscribe token b"
| "apply_call (Publish_call ty e) b = b"
| "apply_call Clear_call b = EventBus_Clear b"

definition committed :: "('h, 'e) bus_race \<Rightarrow> 'h event_bus" where
  "committed s = fold apply_call (br_history s) EventBus_new"

lemma Subscribe_split: "snd (SubscribeInternal ty handler b) = RebuildSnapshot ty (add_entry ty handler b)"
  by (simp add: SubscribeInternal_def add_entry_def Let_def)

lemma Unsubscribe_split:
  "Token_Valid token \<Longrightarrow> Unsubscribe token b = (case eb_handlers b (st_type token) of None \<Rightarrow> b
     | Some hs \<Rightarrow> RebuildSnapshot (st_type token) (b\<lparr>eb_store := deactivate (st_id token) hs (eb_store b)\<rparr>))"
  by (simp add: Unsubscribe_def)

fun critical :: "('h, 'e) bus_pc \<Rightarrow> bool" where
  "critical (Mutate c) = True"
| "critical (Scan c ty) = True"
| "critical (Swap c ty ps) = True"
| "critical Unlock = True"
| "critical _ = False"

text \<open>
  The bus in the middle of a writer's call: the published snapshots are still those of the calls that
  took effect, and rebuilding the snapshot of the type completes the call.
\<close>

definition entries_kept :: "'h event_bus \<Rightarrow> 'h event_bus \<Rightarrow> bool" where
  "entries_kept B b \<longleftrightarrow> eb_snapshots b = eb_snapshots B \<and> length (eb_store B) \<le> length (eb_store b) \<and>
     (\<forall>p < length (eb_store B). he_id (eb_store b ! p) = he_id (eb_store B ! p) \<and> he_fn (eb_store b ! p) = he_fn (eb_store B ! p))"

fun writer_ok :: "'h event_bus \<Rightarrow> 'h event_bus \<Rightarrow> ('h, 'e) bus_pc \<Rightarrow> bool" where
  "writer_ok B b (Scan c ty) \<longleftrightarrow> apply_call c B = RebuildSnapshot ty b \<and> entries_kept B b"
| "writer_ok B b (Swap c ty ps) \<longleftrightarrow> apply_call c B = RebuildSnapshot ty b \<and> entries_kept B b \<and>
     map_option (filter (active b)) (eb_handlers b ty) = Some ps"
| "writer_ok B b pc \<longleftrightarrow> b = B"

fun valid_call :: "('h, 'e) bus_pc \<Rightarrow> bool" where
  "valid_call (At_mutex (Unsubscribe_call token)) = Token_Valid token"
| "valid_call (Mutate (Unsubscribe_call token)) = Token_Valid token"
| "valid_call _ = True"

definition stack_ok :: "bool \<Rightarrow> ('h, 'e) bus_pc list \<Rightarrow> bool" where
  "stack_ok holds stack \<longleftrightarrow> (case stack of [] \<Rightarrow> \<not> holds
     | pc # rest \<Rightarrow> critical pc = holds \<and> valid_call pc \<and> list_all (\<lambda>pc. may_call [pc]) rest)"

definition bus_race_ok :: "nat \<Rightarrow> ('h, 'e) bus_race \<Rightarrow> bool" where
  "bus_race_ok n s \<longleftrightarrow> length (br_threads s) = n \<and>
     (\<forall>t < n. stack_ok (br_mutex s = Some t) (br_threads s ! t)) \<and>
     (case br_mutex s of None \<Rightarrow> br_bus s = committed s
      | Some t \<Rightarrow> t < n \<and> writer_ok (committed s) (br_bus s) (hd (br_threads s ! t)))"

lemma goto_simps [simp]:
  "br_bus (br_goto t stack s) = br_bus s" "br_mutex (br_goto t stack s) = br_mutex s"
  "br_history (br_goto t stack s) = br_history s" "br_log (br_goto t stack s) = br_log s"
  "br_threads (br_goto t stack s) = (br_threads s)[t := stack]" "committed (br_goto t stack s) = committed s"
  by (simp_all add: br_goto_def committed_def)

lemma committed_update [simp]:
  "committed (s\<lparr>br_bus := b\<rparr>) = committed s" "committed (s\<lparr>br_mutex := m\<rparr>) = committed s"
  "committed (s\<lparr>br_log := l\<rparr>) = committed s"
  "committed (s\<lparr>br_history := br_history s @ [c]\<rparr>) = apply_call c (committed s)"
  "committed (s\<lparr>br_bus := b, br_history := br_history s @ [c]\<rparr>) = apply_call c (committed s)"
  by (simp_all add: committed_def)

lemma stack_ok_simps [simp]:
  "stack_ok holds [] \<longleftrightarrow> \<not> holds"
  "stack_ok holds (pc # rest) \<longleftrightarrow> critical pc = holds \<and> valid_call pc \<and> list_all (\<lambda>pc. may_call [pc]) rest"
  by (simp_all add: stack_ok_def)

lemma entries_kept_refl [simp]: "entries_kept B B"
  by (simp add: entries_kept_def)

lemma entries_kept_add: "entries_kept B (add_entry ty handler B)"
  by (simp add: entries_kept_def add_entry_def Let_def nth_append)

lemma entries_kept_deactivate: "entries_kept B (B\<lparr>eb_store := deactivate i hs (eb_store B)\<rparr>)"
  by (simp add: entries_kept_def deactivate_keeps)

text \<open>A step of a thread that does not hold the lock, and one of the thread that does.\<close>

lemma ok_outside:
  assumes "bus_race_ok n s" and "br_mutex s \<noteq> Some t" and "stack_ok False stack"
    and "br_threads s1 = br_threads s" "br_mutex s1 = br_mutex s" "br_bus s1 = br_bus s" "committed s1 = committed s"
  shows "bus_race_ok n (br_goto t stack s1)"
proof (cases "t < length (br_threads s)")
  case True
  then show ?thesis using assms by (auto simp: bus_race_ok_def nth_list_update split: option.splits)
next
  case False
  then show ?thesis using assms by (auto simp: bus_race_ok_def list_update_beyond split: option.splits)
qed

lemma ok_inside:
  assumes "bus_race_ok n s" and "br_mutex s = Some t" and "stack_ok True (pc # rest)"
    and "br_threads s1 = br_threads s" "br_mutex s1 = Some t" "writer_ok (committed s1) (br_bus s1) pc"
  shows "bus_race_ok n (br_goto t (pc # rest) s1)"
  using assms by (auto simp: bus_race_ok_def nth_list_update)

lemma bus_own_step_keeps:
  assumes "bus_race_ok n s" and "bus_thread_step t s = Some s'"
  shows "bus_race_ok n s'"
proof -
  let ?b = "br_bus s" and ?B = "committed s"
  have t: "t < n" "length (br_threads s) = n" and top: "stack_ok (br_mutex s = Some t) (br_threads s ! t)"
    using assms by (auto simp: bus_race_ok_def bus_thread_step_def split: if_splits)
  obtain pc rest where st: "br_threads s ! t = pc # rest"
    using assms(2) t by (auto simp: bus_thread_step_def Let_def split: list.splits)
  have "\<not> length (br_threads s) \<le> t" using t by simp
  note step = assms(2) [unfolded bus_thread_step_def] st this
  have out: "bus_race_ok n (br_goto t stack s1)"
    if "\<not> critical pc" "stack_ok False stack" "br_threads s1 = br_threads s" "br_mutex s1 = br_mutex s" "br_bus s1 = ?b"
      "committed s1 = ?B" for stack s1
    using ok_outside [OF assms(1), of t] that top st by auto
  have rest: "list_all (\<lambda>pc. may_call [pc]) rest" "valid_call pc" and holds: "critical pc = (br_mutex s = Some t)"
    using top st by simp_all
  have inside: "bus_race_ok n (br_goto t (pc' # rest) s1)"
    if "critical pc" "critical pc'" "valid_call pc'" "br_threads s1 = br_threads s" "br_mutex s1 = br_mutex s"
      "writer_ok (committed s1) (br_bus s1) pc'" for pc' s1
    using ok_inside [OF assms(1), of t] that top st by auto
  have w: "writer_ok ?B ?b pc" if "critical pc"
    using assms(1) that holds st by (simp add: bus_race_ok_def)
  show ?thesis
  proof (cases pc)
    case (At_mutex c)
    then have "s' = br_goto t (Mutate c # rest) (s\<lparr>br_mutex := Some t\<rparr>)" "br_mutex s = None"
      using step by (auto simp: Let_def split: if_splits)
    then show ?thesis
      using assms(1) rest At_mutex t by (cases c) (auto simp: bus_race_ok_def nth_list_update)
  next
    case (Mutate c)
    then have b: "?b = ?B" using w by simp
    show ?thesis
    proof (cases c)
      case (Subscribe_call ty handler)
      then show ?thesis
        using step Mutate b
        by (auto simp: Let_def Subscribe_split entries_kept_add intro!: inside)
    next
      case (Unsubscribe_call token)
      then have "Token_Valid token" using rest(2) Mutate by simp
      then show ?thesis
        using step Mutate b Unsubscribe_call
        by (auto simp: Let_def Unsubscribe_split entries_kept_deactivate commit_def split: option.splits intro!: inside)
    qed (use step Mutate b in \<open>auto simp: Let_def commit_def intro!: inside\<close>)
  next
    case (Scan c ty)
    then show ?thesis
      using step w by (auto simp: Let_def commit_def RebuildSnapshot_def split: option.splits intro!: inside)
  next
    case (Swap c ty ps)
    then show ?thesis
      using step w by (auto simp: Let_def commit_def RebuildSnapshot_def split: option.splits intro!: inside)
  next
    case Unlock
    then have "s' = br_goto t rest (s\<lparr>br_mutex := None\<rparr>)" "br_mutex s = Some t" "?b = ?B"
      using step holds w by (simp_all add: Let_def)
    moreover have "stack_ok False rest"
      using rest(1) by (cases rest; cases "hd rest") auto
    ultimately show ?thesis
      using assms(1) t by (auto simp: bus_race_ok_def nth_list_update)
  next
    case (Take ty e)
    then show ?thesis
      using step rest by (cases rest; cases "hd rest") (auto simp: Let_def split: option.splits intro!: out)
  next
    case (Check_active e ps)
    then show ?thesis
      using step rest by (cases rest; cases "hd rest"; cases ps) (auto simp: Let_def split: if_splits intro!: out)
  qed (use step rest in \<open>auto simp: Let_def intro!: out\<close>)
qed

lemma bus_race_step_keeps:
  assumes "bus_race_step s s'" and "bus_race_ok n s"
  shows "bus_race_ok n s'"
  using assms
proof (induction rule: bus_race_step.induct)
  case (own t s s')
  then show ?case using bus_own_step_keeps by blast
next
  case (call t s c)
  obtain free: "br_mutex s \<noteq> Some t" and "list_all (\<lambda>pc. may_call [pc]) (br_threads s ! t)"
  proof -
    have "stack_ok (br_mutex s = Some t) (br_threads s ! t)" using call by (simp add: bus_race_ok_def)
    then show thesis using that call(2) by (cases "br_threads s ! t"; cases "hd (br_threads s ! t)") auto
  qed
  then have "stack_ok False (begin_call c @ br_threads s ! t)"
    using call by (cases c; cases "br_threads s ! t"; cases "hd (br_threads s ! t)") (auto simp: bus_race_ok_def)
  then show ?case using free call by (intro ok_outside) auto
next
  case (handler_returns t s s')
  from handler_returns.hyps obtain e ps rest where st: "t < length (br_threads s)" "br_threads s ! t = In_handler e ps # rest"
    and s': "s' = br_goto t (Check_active e ps # rest) s" by (rule handler_return_SomeE)
  have "stack_ok (br_mutex s = Some t) (In_handler e ps # rest)"
    using handler_returns.prems st unfolding bus_race_ok_def by metis
  then show ?case using handler_returns.prems unfolding s' by (intro ok_outside) auto
qed

lemma bus_race_reachable_ok: "bus_race_reachable n s \<Longrightarrow> bus_race_ok n s"
proof (induction rule: bus_race_reachable.induct)
  case start
  show ?case by (simp add: bus_race_ok_def bus_race_new_def committed_def)
qed (rule bus_race_step_keeps)

text \<open>In every state the snapshots are those of the calls that took effect.\<close>

lemma reachable_entries_kept:
  assumes "bus_race_reachable n s"
  shows "entries_kept (committed s) (br_bus s)"
proof (cases "br_mutex s")
  case None
  then show ?thesis using bus_race_reachable_ok [OF assms] by (simp add: bus_race_ok_def)
next
  case (Some t)
  then show ?thesis
    using bus_race_reachable_ok [OF assms] by (cases "hd (br_threads s ! t)") (auto simp: bus_race_ok_def)
qed

section \<open>The abstract subscriptions behind a history\<close>

fun spec_call :: "('h, 'e) bus_call \<Rightarrow> u64 \<times> 'h subscriptions \<Rightarrow> u64 \<times> 'h subscriptions" where
  "spec_call (Subscribe_call ty h) (i, subs) = (i + 1, spec_subscribe i ty h subs)"
| "spec_call (Unsubscribe_call token) (i, subs) = (i, spec_unsubscribe token subs)"
| "spec_call (Publish_call ty e) (i, subs) = (i, subs)"
| "spec_call Clear_call (i, subs) = (1, \<lambda>_. [])"

lemma apply_call_spec:
  assumes "eb_ok b" and "Suc (unat (eb_nextId b)) < 2 ^ 64"
  shows "eb_ok (apply_call c b) \<and> spec_call c (eb_nextId b, live_of b) = (eb_nextId (apply_call c b), live_of (apply_call c b))
    \<and> unat (eb_nextId (apply_call c b)) \<le> Suc (unat (eb_nextId b))"
proof (cases c)
  case (Subscribe_call ty h)
  then show ?thesis using Subscribe_ok [OF assms, of ty h] assms(2) by (simp add: unat_add_nowrap)
next
  case (Unsubscribe_call token)
  then show ?thesis using Unsubscribe_ok [OF assms(1), of token] by simp
qed (use assms in \<open>auto simp: Clear_ok\<close>)

lemma fold_apply_call_spec:
  "length cs < 2 ^ 64 - 2 \<Longrightarrow> eb_ok (fold apply_call cs EventBus_new) \<and>
     fold spec_call cs (1, \<lambda>_. []) = (eb_nextId (fold apply_call cs EventBus_new), live_of (fold apply_call cs EventBus_new)) \<and>
     unat (eb_nextId (fold apply_call cs EventBus_new)) \<le> Suc (length cs)"
proof (induction cs rule: rev_induct)
  case Nil
  show ?case by (simp add: eb_ok_new) (simp add: EventBus_new_def)
next
  case (snoc c cs)
  then show ?case
    using apply_call_spec [of "fold apply_call cs EventBus_new" c] by auto
qed

section \<open>Calls return\<close>

fun pc_weight :: "('h, 'e) bus_pc \<Rightarrow> nat" where
  "pc_weight (At_mutex c) = 5"
| "pc_weight (Mutate c) = 4"
| "pc_weight (Scan c ty) = 3"
| "pc_weight (Swap c ty ps) = 2"
| "pc_weight Unlock = 1"
| "pc_weight (Take ty e) = 0"
| "pc_weight (Check_active e ps) = 3 * length ps + 1"
| "pc_weight (In_handler e ps) = 3 * length ps + 2"
| "pc_weight (Invoke p e ps) = 3 * length ps + 3"

definition stack_weight :: "('h, 'e) bus_pc list \<Rightarrow> nat" where
  "stack_weight stack = sum_list (map pc_weight stack)"

definition stack_takes :: "('h, 'e) bus_pc list \<Rightarrow> nat" where
  "stack_takes stack = length (filter (\<lambda>pc. case pc of Take ty e \<Rightarrow> True | _ \<Rightarrow> False) stack)"

definition bus_measures :: "(('h, 'e) bus_race \<Rightarrow> nat) list" where
  "bus_measures = [\<lambda>s. sum_list (map stack_takes (br_threads s)), \<lambda>s. sum_list (map stack_weight (br_threads s))]"

text \<open>What a step does to the stack of its thread.\<close>

lemma bus_thread_step_stack:
  assumes "bus_thread_step t s = Some s'"
  obtains stack where "t < length (br_threads s)" "br_threads s' = (br_threads s)[t := stack]"
    "stack_takes stack < stack_takes (br_threads s ! t) \<or>
     stack_takes stack = stack_takes (br_threads s ! t) \<and> stack_weight stack < stack_weight (br_threads s ! t)"
proof -
  have t: "t < length (br_threads s)" "\<not> length (br_threads s) \<le> t"
    using assms by (auto simp: bus_thread_step_def split: if_splits)
  obtain pc rest where st: "br_threads s ! t = pc # rest"
    using assms t by (auto simp: bus_thread_step_def Let_def split: list.splits)
  note step = assms [unfolded bus_thread_step_def] st t(2)
  have "\<exists>stack. br_threads s' = (br_threads s)[t := stack] \<and> (stack_takes stack < stack_takes (pc # rest) \<or>
     stack_takes stack = stack_takes (pc # rest) \<and> stack_weight stack < stack_weight (pc # rest))"
  proof (cases pc)
    case (Mutate c)
    then show ?thesis
      using step by (cases c) (auto simp: Let_def commit_def stack_takes_def stack_weight_def split: option.splits)
  next
    case (Check_active e ps)
    then show ?thesis
      using step by (cases ps) (auto simp: Let_def commit_def stack_takes_def stack_weight_def split: option.splits if_splits)
  qed (use step in \<open>auto simp: Let_def commit_def stack_takes_def stack_weight_def split: option.splits if_splits\<close>)
  then show thesis using that t st by auto
qed

lemma bus_step_decreases:
  assumes "bus_thread_step t s = Some s' \<or> handler_return t s = Some s'"
  shows "(s', s) \<in> measures bus_measures"
proof -
  obtain stack where st: "t < length (br_threads s)" "br_threads s' = (br_threads s)[t := stack]"
    "stack_takes stack < stack_takes (br_threads s ! t) \<or>
     stack_takes stack = stack_takes (br_threads s ! t) \<and> stack_weight stack < stack_weight (br_threads s ! t)"
  proof (cases "bus_thread_step t s = Some s'")
    case True
    then show thesis using that by (rule bus_thread_step_stack)
  next
    case False
    then have "handler_return t s = Some s'" using assms by simp
    then show thesis
      by (rule handler_return_SomeE) (rule that, auto simp: stack_takes_def stack_weight_def)
  qed
  then show ?thesis
    using sum_list_update_plus [OF st(1), of stack_takes stack] sum_list_update_plus [OF st(1), of stack_weight stack]
    by (auto simp: bus_measures_def)
qed

text \<open>The holder of the lock can always step, and with the lock free everyone at it can.\<close>

lemma bus_at_rest:
  assumes ok: "bus_race_ok n s" and rest: "\<forall>t. bus_thread_step t s = None"
  shows "br_mutex s = None \<and> (\<forall>t < n. may_call (br_threads s ! t))"
proof -
  have len: "length (br_threads s) = n" using ok by (simp add: bus_race_ok_def)
  have stuck: "may_call (br_threads s ! t) \<or> (br_mutex s \<noteq> None \<and> (\<exists>c rest. br_threads s ! t = At_mutex c # rest))"
    if "t < n" for t
  proof (cases "br_threads s ! t")
    case (Cons pc stack)
    then show ?thesis
      using rest [rule_format, of t] that len
      by (cases pc) (auto simp: bus_thread_step_def Let_def split: option.splits if_splits list.splits)
  qed simp
  have "br_mutex s = None"
  proof (rule ccontr)
    assume "br_mutex s \<noteq> None"
    then obtain t where t: "br_mutex s = Some t" by auto
    then have "t < n" "stack_ok True (br_threads s ! t)" using ok by (auto simp: bus_race_ok_def)
    then show False
      using stuck [of t] by (cases "br_threads s ! t"; cases "hd (br_threads s ! t)") auto
  qed
  then show ?thesis using stuck by auto
qed

section \<open>Late invocations\<close>

definition invocations :: "handler_ptr \<Rightarrow> ('h, 'e) bus_race \<Rightarrow> nat" where
  "invocations p s = length (filter (\<lambda>(q, e). q = p) (br_log s))"

text \<open>The calls of a stack that have found the entry active and are about to invoke it.\<close>

definition about_to_invoke :: "handler_ptr \<Rightarrow> ('h, 'e) bus_pc list \<Rightarrow> nat" where
  "about_to_invoke p stack = length (filter (\<lambda>pc. case pc of Invoke q e ps \<Rightarrow> q = p | _ \<Rightarrow> False) stack)"

definition late :: "handler_ptr \<Rightarrow> ('h, 'e) bus_race \<Rightarrow> nat" where
  "late p s = sum_list (map (about_to_invoke p) (br_threads s))"

lemma late_goto:
  assumes "t < length (br_threads s)" and "about_to_invoke p stack \<le> about_to_invoke p (br_threads s ! t)"
  shows "sum_list (map (about_to_invoke p) ((br_threads s)[t := stack])) \<le> late p s"
  using sum_list_update_plus [OF assms(1), of "about_to_invoke p" stack] assms(2) by (simp add: late_def)

lemma about_to_invoke_Cons:
  "about_to_invoke p (pc # rest) = (if \<exists>e ps. pc = Invoke p e ps then 1 else 0) + about_to_invoke p rest"
  by (cases pc) (auto simp: about_to_invoke_def)

lemma about_to_invoke_callers: "list_all (\<lambda>pc. may_call [pc]) rest \<Longrightarrow> about_to_invoke p rest = 0"
proof (induction rest)
  case (Cons pc rest)
  then show ?case by (cases pc) (auto simp: about_to_invoke_Cons)
qed (simp add: about_to_invoke_def)

lemma late_le_threads: "bus_race_ok n s \<Longrightarrow> late p s \<le> n"
proof -
  assume ok: "bus_race_ok n s"
  have "about_to_invoke p stack \<le> 1" if mem: "stack \<in> set (br_threads s)" for stack
  proof -
    have len: "length (br_threads s) = n" using ok by (simp add: bus_race_ok_def)
    obtain t where "t < length (br_threads s)" "br_threads s ! t = stack"
      using mem by (auto simp: in_set_conv_nth)
    then have "stack_ok (br_mutex s = Some t) stack" using ok len by (auto simp: bus_race_ok_def)
    then show ?thesis
      using about_to_invoke_callers by (cases stack) (auto simp: about_to_invoke_Cons)
  qed
  then have "late p s \<le> sum_list (map (\<lambda>_. 1) (br_threads s))"
    unfolding late_def by (intro sum_list_mono)
  then show ?thesis using ok by (simp add: bus_race_ok_def sum_list_triv)
qed

lemma entry_dead_add: "entry_dead p b \<Longrightarrow> entry_dead p (add_entry ty handler b)"
  by (auto simp: entry_dead_def active_def add_entry_def Let_def nth_append)

lemma entry_dead_store: "entry_dead p b \<Longrightarrow> entry_dead p (b\<lparr>eb_store := deactivate i hs (eb_store b)\<rparr>)"
  by (auto simp: entry_dead_def active_def deactivate_dead)

lemma entry_dead_snapshots: "entry_dead p (b\<lparr>eb_snapshots := m\<rparr>) = entry_dead p b"
  by (simp add: entry_dead_def active_def)

lemma own_step_dead:
  assumes "bus_thread_step t s = Some s'" and dead: "entry_dead p (br_bus s)"
  shows "entry_dead p (br_bus s') \<and> invocations p s' + late p s' \<le> invocations p s + late p s"
proof -
  have t: "t < length (br_threads s)" "\<not> length (br_threads s) \<le> t"
    using assms by (auto simp: bus_thread_step_def split: if_splits)
  obtain pc rest where st: "br_threads s ! t = pc # rest"
    using assms t by (auto simp: bus_thread_step_def Let_def split: list.splits)
  note step = assms(1) [unfolded bus_thread_step_def] st t(2) dead
  note defs = Let_def commit_def invocations_def late_def [of p s'] entry_dead_add entry_dead_store entry_dead_snapshots
    entry_dead_Clear
  have lg: "sum_list (map (about_to_invoke p) ((br_threads s)[t := stack])) \<le> late p s"
    if "about_to_invoke p stack \<le> about_to_invoke p (pc # rest)" for stack
    using late_goto [OF t(1)] that st by simp
  show ?thesis
  proof (cases pc)
    case (Mutate c)
    then show ?thesis
      using step by (cases c) (auto simp: defs about_to_invoke_def split: option.splits intro!: lg)
  next
    case (Check_active e ps)
    then show ?thesis
      using step by (cases ps) (auto simp: defs entry_dead_def about_to_invoke_def split: if_splits intro!: lg)
  next
    case (Invoke q e ps)
    then have "sum_list (map (about_to_invoke p) ((br_threads s)[t := In_handler e ps # rest])) + (if q = p then 1 else 0) = late p s"
      using sum_list_update_plus [OF t(1), of "about_to_invoke p" "In_handler e ps # rest"] st
      by (auto simp: late_def about_to_invoke_def)
    then show ?thesis using step Invoke by (auto simp: defs split: if_splits)
  qed (use step in \<open>auto simp: defs about_to_invoke_def split: option.splits if_splits intro!: lg\<close>)
qed

lemma step_dead:
  assumes "bus_race_step s s'" and "entry_dead p (br_bus s)"
  shows "entry_dead p (br_bus s') \<and> invocations p s' + late p s' \<le> invocations p s + late p s"
  using assms
proof (induction rule: bus_race_step.induct)
  case (own t s s')
  then show ?case by (rule own_step_dead)
next
  case (call t s c)
  have "about_to_invoke p (begin_call c @ br_threads s ! t) = about_to_invoke p (br_threads s ! t)"
    by (cases c) (simp_all add: about_to_invoke_def)
  then show ?case using call late_goto [OF call(1), of p] by (simp add: late_def [of p "br_goto _ _ _"] invocations_def)
next
  case (handler_returns t s s')
  from handler_returns.hyps show ?case
  proof (rule handler_return_SomeE)
    fix e ps rest
    assume "t < length (br_threads s)" "br_threads s ! t = In_handler e ps # rest" "s' = br_goto t (Check_active e ps # rest) s"
    then show ?thesis
      using handler_returns.prems late_goto [of t s p "Check_active e ps # rest"]
      by (simp add: late_def [of p "br_goto _ _ _"] invocations_def about_to_invoke_def)
  qed
qed

lemma steps_dead:
  assumes "bus_race_step\<^sup>*\<^sup>* s s'" and "entry_dead p (br_bus s)"
  shows "entry_dead p (br_bus s') \<and> invocations p s' + late p s' \<le> invocations p s + late p s"
  using assms
proof (induction rule: rtranclp_induct)
  case (step s1 s2)
  then show ?case using step_dead [of s1 s2 p] by fastforce
qed simp

section \<open>Properties\<close>

text \<open>C12. Whatever the interleaving of the threads' calls, calls made by running handlers included, the
  writers' calls are atomic: in every state, also in the middle of a call, the snapshots that publishers
  take are exactly the live subscriptions, in registration order, that the abstract bus has after the
  calls that took effect; and while no thread holds \<open>writeMutex_\<close> the whole bus is the result of
  those calls made one after the other (fewer than \<open>2^64 - 2\<close> of them).\<close>

theorem publishers_see_live_subscriptions:
  assumes "bus_race_reachable n s" and "length (br_history s) < 2 ^ 64 - 2"
  shows "map (\<lambda>p. (he_id (eb_store (br_bus s) ! p), he_fn (eb_store (br_bus s) ! p)))
        (case eb_snapshots (br_bus s) ty of None \<Rightarrow> [] | Some snapshot \<Rightarrow> snapshot)
      = snd (fold spec_call (br_history s) (1, \<lambda>_. [])) ty \<and>
    (br_mutex s = None \<longrightarrow> br_bus s = fold apply_call (br_history s) EventBus_new)"
proof -
  let ?B = "committed s"
  have spec: "eb_ok ?B" "snd (fold spec_call (br_history s) (1, \<lambda>_. [])) = live_of ?B"
    using fold_apply_call_spec [OF assms(2)] by (simp_all add: committed_def)
  have kept: "entries_kept ?B (br_bus s)" using reachable_entries_kept [OF assms(1)] .
  let ?ps = "case eb_snapshots ?B ty of None \<Rightarrow> [] | Some snapshot \<Rightarrow> snapshot"
  have ps: "?ps = filter (active ?B) (handler_list ?B ty)"
    using spec(1) by (auto simp: eb_ok_def handler_list_def split: option.splits)
  have "\<forall>p \<in> set ?ps. p < length (eb_store ?B)"
    using spec(1) unfolding ps by (auto simp: eb_ok_def list_ok_def)
  then have "map (\<lambda>p. (he_id (eb_store (br_bus s) ! p), he_fn (eb_store (br_bus s) ! p))) ?ps
      = map (\<lambda>p. (he_id (eb_store ?B ! p), he_fn (eb_store ?B ! p))) ?ps"
    using kept by (intro map_cong) (auto simp: entries_kept_def)
  then have "map (\<lambda>p. (he_id (eb_store (br_bus s) ! p), he_fn (eb_store (br_bus s) ! p))) ?ps = live_of ?B ty"
    by (simp add: live_of_def ps)
  then have "map (\<lambda>p. (he_id (eb_store (br_bus s) ! p), he_fn (eb_store (br_bus s) ! p)))
        (case eb_snapshots (br_bus s) ty of None \<Rightarrow> [] | Some snapshot \<Rightarrow> snapshot)
      = snd (fold spec_call (br_history s) (1, \<lambda>_. [])) ty"
    using kept spec(2) by (simp add: entries_kept_def)
  moreover have "br_mutex s = None \<longrightarrow> br_bus s = ?B"
    using bus_race_reachable_ok [OF assms(1)] by (auto simp: bus_race_ok_def)
  ultimately show ?thesis by (simp add: committed_def)
qed

text \<open>C21. No call on the bus waits for ever: as long as no new call is made no execution goes on for
  ever, however the threads are scheduled and whenever handlers return, and where no thread can
  step the lock is free and every thread is outside the bus or inside a handler it invoked.\<close>

theorem bus_calls_return:
  "wf {(s', s). \<exists>t. bus_thread_step t s = Some s' \<or> handler_return t s = Some s'} \<and>
   (\<forall>n s. bus_race_reachable n s \<and> (\<forall>t. bus_thread_step t s = None) \<longrightarrow>
     br_mutex s = None \<and> (\<forall>t < n. may_call (br_threads s ! t)))"
proof (rule conjI)
  show "wf {(s', s). \<exists>t. bus_thread_step t s = Some s' \<or> handler_return t s = Some s'}"
    by (rule wf_subset [OF wf_measures [of bus_measures]]) (use bus_step_decreases in blast)
qed (use bus_at_rest bus_race_reachable_ok in blast)

text \<open>C22. Once \<open>Unsubscribe\<close> has cleared the flag of an entry, the entry is invoked at most once more by
  each publishing thread that had already found it active, and by nobody else, whatever happens afterwards.\<close>

theorem late_invocations_bounded:
  assumes "bus_race_reachable n s0" and "length (br_history s0) < 2 ^ 64 - 2"
    and "br_threads s0 ! t = Mutate (Unsubscribe_call token) # rest" and "bus_thread_step t s0 = Some s1"
    and "p \<in> set (handler_list (br_bus s0) (st_type token))" and "he_id (eb_store (br_bus s0) ! p) = st_id token"
    and "bus_race_step\<^sup>*\<^sup>* s1 s2"
  shows "invocations p s2 \<le> invocations p s0 + late p s0 \<and> late p s0 \<le> n"
proof -
  let ?b = "br_bus s0" and ?ty = "st_type token"
  have ok: "bus_race_ok n s0" by (rule bus_race_reachable_ok [OF assms(1)])
  have t: "t < length (br_threads s0)" using assms(4) by (auto simp: bus_thread_step_def split: if_splits)
  then have "stack_ok (br_mutex s0 = Some t) (Mutate (Unsubscribe_call token) # rest)"
    using ok assms(3) unfolding bus_race_ok_def by metis
  then have "br_mutex s0 = Some t" by simp
  then have "?b = committed s0" using ok assms(3) by (simp add: bus_race_ok_def)
  then have "eb_ok ?b" using fold_apply_call_spec [OF assms(2)] by (simp add: committed_def)
  then have list: "list_ok ?b (handler_list ?b ?ty)" by (simp add: eb_ok_def)
  obtain hs where hs: "eb_handlers ?b ?ty = Some hs" "handler_list ?b ?ty = hs"
    using assms(5) by (cases "eb_handlers ?b ?ty") (simp_all add: handler_list_def)
  then have s1: "s1 = br_goto t (Scan (Unsubscribe_call token) ?ty # rest)
      (s0\<lparr>br_bus := ?b\<lparr>eb_store := deactivate (st_id token) hs (eb_store ?b)\<rparr>\<rparr>)"
    using assms(3,4) t by (simp add: bus_thread_step_def Let_def)
  have "entry_dead p (br_bus s1)"
    using deactivate_active [of "eb_store ?b" hs p "st_id token"] list assms(5,6) hs(2)
    by (auto simp: s1 entry_dead_def active_def list_ok_def)
  moreover have "invocations p s1 = invocations p s0" "late p s1 \<le> late p s0"
    using late_goto [OF t, of p "Scan (Unsubscribe_call token) ?ty # rest"] assms(3)
    by (simp_all add: s1 invocations_def late_def [of p "br_goto _ _ _"] about_to_invoke_def)
  ultimately show ?thesis
    using steps_dead [OF assms(7), of p] late_le_threads [OF ok, of p] by linarith
qed

section \<open>Witnesses\<close>

datatype ('h, 'e) bus_event = Own nat | Return nat | Start nat "('h, 'e) bus_call"

fun bus_event_step :: "('h, 'e) bus_event \<Rightarrow> ('h, 'e) bus_race \<Rightarrow> ('h, 'e) bus_race option" where
  "bus_event_step (Own t) s = bus_thread_step t s"
| "bus_event_step (Return t) s = handler_return t s"
| "bus_event_step (Start t c) s =
     (if t < length (br_threads s) \<and> may_call (br_threads s ! t) then Some (br_goto t (begin_call c @ br_threads s ! t) s) else None)"

fun run_bus_events :: "('h, 'e) bus_event list \<Rightarrow> ('h, 'e) bus_race \<Rightarrow> ('h, 'e) bus_race option" where
  "run_bus_events [] s = Some s"
| "run_bus_events (e # es) s = Option.bind (bus_event_step e s) (run_bus_events es)"

lemma run_bus_events_steps: "run_bus_events es s = Some s' \<Longrightarrow> bus_race_step\<^sup>*\<^sup>* s s'"
proof (induction es arbitrary: s)
  case (Cons e es)
  then obtain s1 where s1: "bus_event_step e s = Some s1" "run_bus_events es s1 = Some s'"
    by (auto split: bind_splits)
  have "bus_race_step s s1"
    using s1(1) by (cases e) (auto intro: bus_race_step.intros split: if_splits)
  then show ?case using Cons.IH s1(2) by (meson converse_rtranclp_into_rtranclp)
qed simp

lemma steps_reachable: "bus_race_step\<^sup>*\<^sup>* s s' \<Longrightarrow> bus_race_reachable n s \<Longrightarrow> bus_race_reachable n s'"
  by (induction rule: rtranclp_induct) (auto intro: bus_race_reachable.step)

lemma run_bus_events_new:
  assumes "case run_bus_events es (bus_race_new n) of None \<Rightarrow> False | Some s \<Rightarrow> P s"
  shows "\<exists>s. bus_race_reachable n s \<and> P s"
  using assms steps_reachable [OF run_bus_events_steps bus_race_reachable.start, of es n]
  by (cases "run_bus_events es (bus_race_new n)") auto

text \<open>A publisher finds the entry active and pauses; another thread begins to unsubscribe it.\<close>

definition late_prefix :: "(nat, nat) bus_event list" where
  "late_prefix = [Start 0 (Subscribe_call 7 10), Own 0, Own 0, Own 0, Own 0, Own 0,
     Start 1 (Publish_call 7 5), Own 1, Own 1, Start 0 (Unsubscribe_call \<lparr>st_id = 1, st_type = 7\<rparr>), Own 0]"

text \<open>\<open>Unsubscribe\<close> returns, and then the handler is invoked.\<close>

definition late_suffix :: "(nat, nat) bus_event list" where
  "late_suffix = [Own 0, Own 0, Own 0, Own 1]"

lemma late_run:
  "case run_bus_events late_prefix (bus_race_new 2) of None \<Rightarrow> False
   | Some s0 \<Rightarrow> br_threads s0 = [[Mutate (Unsubscribe_call \<lparr>st_id = 1, st_type = 7\<rparr>)], [Invoke 0 5 []]] \<and>
       length (br_history s0) = 1 \<and> handler_list (br_bus s0) 7 = [0] \<and> he_id (eb_store (br_bus s0) ! 0) = 1 \<and>
       invocations 0 s0 = 0 \<and> late 0 s0 = 1 \<and>
       (case bus_thread_step 0 s0 of None \<Rightarrow> False
        | Some s1 \<Rightarrow> (case run_bus_events late_suffix s1 of None \<Rightarrow> False
           | Some s2 \<Rightarrow> br_threads s2 = [[], [In_handler 5 []]] \<and> br_mutex s2 = None \<and> br_log s2 = [(0, 5)] \<and>
               br_history s2 = [Subscribe_call 7 10, Unsubscribe_call \<lparr>st_id = 1, st_type = 7\<rparr>] \<and> eb_snapshots (br_bus s2) 7 = Some []))"
  by code_simp

theorem late_invocations_bounded_witness:
  "\<exists>s0 s1 s2. bus_race_reachable 2 s0 \<and> bus_thread_step 0 s0 = Some s1 \<and> bus_race_step\<^sup>*\<^sup>* s1 s2 \<and>
     br_threads s2 = [[], [In_handler (5::nat) []]] \<and> br_log s2 = [(0, 5)] \<and>
     br_history s2 = [Subscribe_call 7 (10::nat), Unsubscribe_call \<lparr>st_id = 1, st_type = 7\<rparr>] \<and>
     invocations 0 s2 \<le> invocations 0 s0 + late 0 s0 \<and> late 0 s0 \<le> 2"
proof -
  obtain s0 where s0: "bus_race_reachable 2 s0" "br_threads s0 = [[Mutate (Unsubscribe_call \<lparr>st_id = 1, st_type = 7\<rparr>)], [Invoke 0 5 []]]"
    "length (br_history s0) = 1" "handler_list (br_bus s0) 7 = [0]" "he_id (eb_store (br_bus s0) ! 0) = 1"
    and run: "case bus_thread_step 0 s0 of None \<Rightarrow> False
        | Some s1 \<Rightarrow> (case run_bus_events late_suffix s1 of None \<Rightarrow> False
           | Some s2 \<Rightarrow> br_threads s2 = [[], [In_handler 5 []]] \<and> br_mutex s2 = None \<and> br_log s2 = [(0, 5)] \<and>
               br_history s2 = [Subscribe_call 7 10, Unsubscribe_call \<lparr>st_id = 1, st_type = 7\<rparr>] \<and> eb_snapshots (br_bus s2) 7 = Some [])"
    using run_bus_events_new [OF late_run] by blast
  obtain s1 s2 where s1: "bus_thread_step 0 s0 = Some s1" and s2: "run_bus_events late_suffix s1 = Some s2"
    "br_threads s2 = [[], [In_handler 5 []]]" "br_log s2 = [(0, 5)]"
    "br_history s2 = [Subscribe_call 7 10, Unsubscribe_call \<lparr>st_id = 1, st_type = 7\<rparr>]"
    using run by (auto split: option.splits)
  have "br_threads s0 ! 0 = Mutate (Unsubscribe_call \<lparr>st_id = 1, st_type = 7\<rparr>) # []" "length (br_history s0) < 2 ^ 64 - 2"
    using s0(2,3) by simp_all
  from late_invocations_bounded [OF s0(1) this(2,1) s1, of 0, OF _ _ run_bus_events_steps [OF s2(1)]]
  show ?thesis using s0 s1 s2 run_bus_events_steps [OF s2(1)] by auto
qed

text \<open>A subscription in the middle: its entry is in the list, the snapshot still lacks it.\<close>

lemma half_subscribed_run:
  "case run_bus_events [Start 0 (Subscribe_call 7 10), Own 0, Own 0, Own 0, Own 0, Own 0,
      Start 1 (Subscribe_call 7 20), Own 1, Own 1, Own 1, Start 0 (Publish_call 7 (5::nat)), Own 0] (bus_race_new 2) of None \<Rightarrow> False
   | Some s \<Rightarrow> br_threads s = [[Check_active 5 [0]], [Swap (Subscribe_call 7 (20::nat)) 7 [0, 1]]] \<and>
       br_history s = [Subscribe_call 7 10] \<and> handler_list (br_bus s) 7 = [0, 1] \<and> eb_snapshots (br_bus s) 7 = Some [0]"
  by code_simp

theorem publishers_see_live_subscriptions_witness:
  "\<exists>s. bus_race_reachable 2 s \<and> br_threads s = [[Check_active (5::nat) [0]], [Swap (Subscribe_call 7 (20::nat)) 7 [0, 1]]] \<and>
     handler_list (br_bus s) 7 = [0, 1] \<and> eb_snapshots (br_bus s) 7 = Some [0] \<and>
     he_id (eb_store (br_bus s) ! 0) = 1 \<and> he_fn (eb_store (br_bus s) ! 0) = 10"
proof -
  obtain s where s: "bus_race_reachable 2 s" "br_threads s = [[Check_active (5::nat) [0]], [Swap (Subscribe_call 7 (20::nat)) 7 [0, 1]]]"
    "br_history s = [Subscribe_call 7 10]" "handler_list (br_bus s) 7 = [0, 1]" "eb_snapshots (br_bus s) 7 = Some [0]"
    using run_bus_events_new [OF half_subscribed_run] by blast
  have "length (br_history s) < 2 ^ 64 - 2" using s(3) by simp
  then show ?thesis
    using publishers_see_live_subscriptions [OF s(1), of 7] s by (auto simp: spec_subscribe_def)
qed

lemma late_run_done:
  "case run_bus_events (late_prefix @ Own 0 # late_suffix) (bus_race_new 2) of None \<Rightarrow> False
   | Some s \<Rightarrow> br_threads s = [[], [In_handler 5 []]] \<and> br_log s = [(0, 5)] \<and>
       br_history s = [Subscribe_call 7 10, Unsubscribe_call \<lparr>st_id = 1, st_type = 7\<rparr>]"
  by code_simp

theorem bus_calls_return_witness:
  "\<exists>s. bus_race_reachable 2 s \<and> br_threads s = [[], [In_handler (5::nat) []]] \<and> br_log s = [(0, 5)] \<and>
     br_history s = [Subscribe_call 7 (10::nat), Unsubscribe_call \<lparr>st_id = 1, st_type = 7\<rparr>] \<and> br_mutex s = None"
proof -
  obtain s where s: "bus_race_reachable 2 s" "br_threads s = [[], [In_handler (5::nat) []]]" "br_log s = [(0, 5)]"
      "br_history s = [Subscribe_call 7 (10::nat), Unsubscribe_call \<lparr>st_id = 1, st_type = 7\<rparr>]"
    using run_bus_events_new [OF late_run_done] by blast
  have "bus_thread_step t s = None" for t
  proof -
    consider "t = 0" | "t = 1" | "t \<ge> 2" by linarith
    then show ?thesis by cases (simp_all add: bus_thread_step_def s(2))
  qed
  then show ?thesis using bus_calls_return s by blast
qed

end
