(* ===== verification/Event_Bus_Contract.thy ===== *)
theory Event_Bus_Contract
  imports Event_Bus
begin

text \<open>
  The contract of \<open>IEventBus\<close>: an abstract bus of subscriptions, and the refinement of it by the
  code's bus, with handlers that call back into the bus while they run. A subscription has a serial
  number, which is never used again; the identifier in its token is reused after \<open>Clear\<close>. The abstract
  publication walks over the subscriptions of the type at its start and leaves out those cancelled by
  the time their turn comes. A handler is client code that knows the bus by its answers: its calls are a function
  of the abstract bus.
\<close>

section \<open>The abstract bus\<close>

type_synonym 'h subscription = "nat \<times> u64 \<times> 'h"

record 'h abstract_bus =
  ab_next :: u64
  ab_made :: nat
  ab_subs :: "EventTypeId \<Rightarrow> 'h subscription list"
  ab_cancelled :: "nat set"

definition abs_new :: "'h abstract_bus" where
  "abs_new = \<lparr>ab_next = 1, ab_made = 0, ab_subs = (\<lambda>_. []), ab_cancelled = {}\<rparr>"

definition abs_subscribe :: "EventTypeId \<Rightarrow> 'h \<Rightarrow> 'h abstract_bus \<Rightarrow> subscription_token \<times> 'h abstract_bus" where
  "abs_subscribe ty h s =
     (\<lparr>st_id = ab_next s, st_type = ty\<rparr>,
      s\<lparr>ab_next := ab_next s + 1, ab_made := Suc (ab_made s),
        ab_subs := (ab_subs s)(ty := ab_subs s ty @ [(ab_made s, ab_next s, h)])\<rparr>)"

definition abs_unsubscribe :: "subscription_token \<Rightarrow> 'h abstract_bus \<Rightarrow> 'h abstract_bus" where
  "abs_unsubscribe t s =
     s\<lparr>ab_subs := (ab_subs s)(st_type t := filter (\<lambda>(k, i, h). i \<noteq> st_id t) (ab_subs s (st_type t))),
       ab_cancelled := ab_cancelled s \<union> fst ` set (filter (\<lambda>(k, i, h). i = st_id t) (ab_subs s (st_type t)))\<rparr>"

definition abs_clear :: "'h abstract_bus \<Rightarrow> 'h abstract_bus" where
  "abs_clear s = s\<lparr>ab_next := 1, ab_subs := (\<lambda>_. [])\<rparr>"

text \<open>What was invoked: the subscription and the event.\<close>

type_synonym ('h, 'e) dispatch = "'h subscription \<times> 'e"

type_synonym ('h, 'e) reaction = "'h \<Rightarrow> 'e \<Rightarrow> 'h abstract_bus \<Rightarrow> ('h, 'e) bus_call list"

type_synonym ('h, 'e) abs_run = "'h abstract_bus \<Rightarrow> (('h, 'e) dispatch list \<times> 'h abstract_bus) option"

fun abs_calls :: "(EventTypeId \<Rightarrow> 'e \<Rightarrow> ('h, 'e) abs_run) \<Rightarrow> ('h, 'e) bus_call list \<Rightarrow> ('h, 'e) abs_run" where
  "abs_calls publish [] s = Some ([], s)"
| "abs_calls publish (c # cs) s =
     Option.bind
       (case c of
          Subscribe_call ty h \<Rightarrow> Some ([], snd (abs_subscribe ty h s))
        | Unsubscribe_call token \<Rightarrow> Some ([], abs_unsubscribe token s)
        | Publish_call ty e \<Rightarrow> publish ty e s
        | Clear_call \<Rightarrow> Some ([], abs_clear s))
       (\<lambda>(log, s1). Option.bind (abs_calls publish cs s1) (\<lambda>(log', s2). Some (log @ log', s2)))"

fun abs_dispatch :: "('h \<Rightarrow> ('h, 'e) abs_run) \<Rightarrow> 'e \<Rightarrow> 'h subscription list \<Rightarrow> ('h, 'e) abs_run" where
  "abs_dispatch call e [] s = Some ([], s)"
| "abs_dispatch call e (x # xs) s =
     (if fst x \<in> ab_cancelled s then abs_dispatch call e xs s
      else Option.bind (call (snd (snd x)) s) (\<lambda>(log, s1).
        Option.bind (abs_dispatch call e xs s1) (\<lambda>(log', s2). Some ((x, e) # log @ log', s2))))"

fun abs_publish :: "nat \<Rightarrow> ('h, 'e) reaction \<Rightarrow> EventTypeId \<Rightarrow> 'e \<Rightarrow> ('h, 'e) abs_run" where
  "abs_publish 0 script ty e s = None"
| "abs_publish (Suc depth) script ty e s =
     abs_dispatch (\<lambda>h s. abs_calls (abs_publish depth script) (script h e s) s) e (ab_subs s ty) s"

text \<open>Handlers whose publishing is bounded: the events a handler publishes rank below the one it handles.\<close>

definition ranked :: "('e \<Rightarrow> nat) \<Rightarrow> ('h \<Rightarrow> 'e \<Rightarrow> 'b \<Rightarrow> ('h, 'e) bus_call list) \<Rightarrow> bool" where
  "ranked rank script \<longleftrightarrow> (\<forall>h e b ty e'. Publish_call ty e' \<in> set (script h e b) \<longrightarrow> rank e' < rank e)"

definition calls_below :: "('e \<Rightarrow> nat) \<Rightarrow> nat \<Rightarrow> ('h, 'e) bus_call list \<Rightarrow> bool" where
  "calls_below rank depth calls \<longleftrightarrow> (\<forall>ty e. Publish_call ty e \<in> set calls \<longrightarrow> rank e < depth)"

text \<open>Without calls back a publication runs the live subscriptions of the type, once each, in registration order.\<close>

lemma abs_publish_quiet:
  "abs_publish (Suc depth) (\<lambda>h e s. []) ty e s
   = Some (map (\<lambda>x. (x, e)) (filter (\<lambda>x. fst x \<notin> ab_cancelled s) (ab_subs s ty)), s)"
proof -
  have "abs_dispatch (\<lambda>h s. Some ([], s)) e xs s
      = Some (map (\<lambda>x. (x, e)) (filter (\<lambda>x. fst x \<notin> ab_cancelled s) xs), s)" for xs
    by (induction xs) auto
  then show ?thesis by simp
qed

section \<open>The contract\<close>

text \<open>A client run on any bus with these operations.\<close>

datatype ('h, 'e) bus_reply = Token_reply subscription_token | Invoked_reply "('h, 'e) dispatch list" | Done_reply

fun run_bus :: "(EventTypeId \<Rightarrow> 'h \<Rightarrow> 'b \<Rightarrow> subscription_token \<times> 'b) \<Rightarrow> (subscription_token \<Rightarrow> 'b \<Rightarrow> 'b)
    \<Rightarrow> (EventTypeId \<Rightarrow> 'e \<Rightarrow> 'b \<Rightarrow> (('h, 'e) dispatch list \<times> 'b) option) \<Rightarrow> ('b \<Rightarrow> 'b)
    \<Rightarrow> ('h, 'e) bus_call list \<Rightarrow> 'b \<Rightarrow> (('h, 'e) bus_reply list \<times> 'b) option" where
  "run_bus sub unsub pub clr [] b = Some ([], b)"
| "run_bus sub unsub pub clr (c # cs) b =
     Option.bind
       (case c of
          Subscribe_call ty h \<Rightarrow> (let (t, b1) = sub ty h b in Some (Token_reply t, b1))
        | Unsubscribe_call t \<Rightarrow> Some (Done_reply, unsub t b)
        | Publish_call ty e \<Rightarrow> Option.bind (pub ty e b) (\<lambda>(log, b1). Some (Invoked_reply log, b1))
        | Clear_call \<Rightarrow> Some (Done_reply, clr b))
       (\<lambda>(r, b1). Option.bind (run_bus sub unsub pub clr cs b1) (\<lambda>(rs, b2). Some (r # rs, b2)))"

abbreviation (input) run_abstract where
  "run_abstract depth script \<equiv> run_bus abs_subscribe abs_unsubscribe (abs_publish depth script) abs_clear"

text \<open>The laws hold while fewer than \<open>limit\<close> subscriptions were made.\<close>

locale event_bus_contract =
  fixes subscribe :: "EventTypeId \<Rightarrow> 'h \<Rightarrow> 'b \<Rightarrow> subscription_token \<times> 'b"
    and unsubscribe :: "subscription_token \<Rightarrow> 'b \<Rightarrow> 'b"
    and publish :: "nat \<Rightarrow> ('h, 'e) reaction \<Rightarrow> EventTypeId \<Rightarrow> 'e \<Rightarrow> 'b \<Rightarrow> (('h, 'e) dispatch list \<times> 'b) option"
    and clear :: "'b \<Rightarrow> 'b"
    and inv :: "'b \<Rightarrow> bool"
    and view :: "'b \<Rightarrow> 'h abstract_bus"
    and limit :: nat
  assumes subscribe_law: "inv b \<Longrightarrow> Suc (ab_made (view b)) < limit \<Longrightarrow>
      inv (snd (subscribe ty h b)) \<and> map_prod id view (subscribe ty h b) = abs_subscribe ty h (view b)"
    and unsubscribe_law: "inv b \<Longrightarrow> inv (unsubscribe t b) \<and> view (unsubscribe t b) = abs_unsubscribe t (view b)"
    and clear_law: "inv b \<Longrightarrow> inv (clear b) \<and> view (clear b) = abs_clear (view b)"
    and publish_law: "inv b \<Longrightarrow> publish depth script ty e b = Some (log, b') \<Longrightarrow> ab_made (view b') < limit \<Longrightarrow>
      inv b' \<and> abs_publish depth script ty e (view b) = Some (log, view b')"
    and subscribe_made: "ab_made (view (snd (subscribe ty h b))) = Suc (ab_made (view b))"
    and other_made: "ab_made (view (unsubscribe t b)) = ab_made (view b)" "ab_made (view (clear b)) = ab_made (view b)"
    and publish_made: "publish depth script ty e b = Some (log, b') \<Longrightarrow> ab_made (view b) \<le> ab_made (view b')"
    and publish_returns: "ranked rank script \<Longrightarrow> rank e < depth \<Longrightarrow> \<exists>r. publish depth script ty e b = Some r"
begin

lemma run_made:
  "run_bus subscribe unsubscribe (publish depth script) clear cs b = Some (rs, b') \<Longrightarrow>
     ab_made (view b) \<le> ab_made (view b')"
proof (induction cs arbitrary: b rs)
  case (Cons c cs)
  then show ?case
    by (cases c)
      (fastforce simp: bind_eq_Some_conv split_beta subscribe_made other_made dest: publish_made Suc_leD)+
qed simp

lemma run_refines:
  "inv b \<Longrightarrow> run_bus subscribe unsubscribe (publish depth script) clear cs b = Some (rs, b') \<Longrightarrow>
   ab_made (view b') < limit \<Longrightarrow> inv b' \<and> run_abstract depth script cs (view b) = Some (rs, view b')"
proof (induction cs arbitrary: b rs)
  case Nil
  then show ?case by simp
next
  case (Cons c cs)
  show ?case
  proof (cases c)
    case (Subscribe_call ty h)
    obtain t b1 rs1 where b1: "subscribe ty h b = (t, b1)" "rs = Token_reply t # rs1"
      and rest: "run_bus subscribe unsubscribe (publish depth script) clear cs b1 = Some (rs1, b')"
      using Cons.prems(2) Subscribe_call by (cases "subscribe ty h b") (auto simp: bind_eq_Some_conv)
    have "ab_made (view b1) = Suc (ab_made (view b))" using subscribe_made [of ty h b] b1(1) by simp
    then have "Suc (ab_made (view b)) < limit" using run_made [OF rest] Cons.prems(3) by simp
    then have "inv b1" "abs_subscribe ty h (view b) = (t, view b1)"
      using subscribe_law [OF Cons.prems(1), of ty h] b1(1) by simp_all
    with Cons.IH [OF _ rest Cons.prems(3)] show ?thesis using Subscribe_call b1(2) by simp
  next
    case (Publish_call ty e)
    obtain log b1 rs1 where b1: "publish depth script ty e b = Some (log, b1)" "rs = Invoked_reply log # rs1"
      and rest: "run_bus subscribe unsubscribe (publish depth script) clear cs b1 = Some (rs1, b')"
      using Cons.prems(2) Publish_call by (auto simp: bind_eq_Some_conv)
    have "ab_made (view b1) < limit" using run_made [OF rest] Cons.prems(3) by simp
    with publish_law [OF Cons.prems(1) b1(1)] Cons.IH [OF _ rest Cons.prems(3)]
    show ?thesis using Publish_call b1(2) by simp
  next
    case (Unsubscribe_call t)
    then show ?thesis
      using Cons.IH [of "unsubscribe t b"] unsubscribe_law [OF Cons.prems(1), of t] Cons.prems
      by (auto simp: bind_eq_Some_conv)
  next
    case Clear_call
    then show ?thesis
      using Cons.IH [of "clear b"] clear_law [OF Cons.prems(1)] Cons.prems by (auto simp: bind_eq_Some_conv)
  qed
qed

lemma run_returns:
  "ranked rank script \<Longrightarrow> calls_below rank depth cs \<Longrightarrow>
   \<exists>r. run_bus subscribe unsubscribe (publish depth script) clear cs b = Some r"
proof (induction cs arbitrary: b)
  case Nil
  then show ?case by simp
next
  case (Cons c cs)
  have IH: "\<exists>rs b'. run_bus subscribe unsubscribe (publish depth script) clear cs b = Some (rs, b')" for b
    using Cons by (simp add: calls_below_def)
  have below: "rank e < depth" if "c = Publish_call ty e" for ty e
    using Cons.prems(2) that by (simp add: calls_below_def)
  show ?case
  proof (cases c)
    case (Publish_call ty e)
    then obtain log b1 where "publish depth script ty e b = Some (log, b1)"
      using publish_returns [OF Cons.prems(1) below] by (metis surj_pair)
    then show ?thesis using Publish_call IH [of b1] by auto
  next
    case (Subscribe_call ty h)
    then show ?thesis using IH [of "snd (subscribe ty h b)"] by (auto simp: split_beta)
  next
    case (Unsubscribe_call t)
    then show ?thesis using IH [of "unsubscribe t b"] by auto
  next
    case Clear_call
    then show ?thesis using IH [of "clear b"] by auto
  qed
qed

end

section \<open>The code's bus\<close>

definition live_entries :: "'h event_bus \<Rightarrow> EventTypeId \<Rightarrow> handler_ptr list" where
  "live_entries b ty = filter (active b) (handler_list b ty)"

definition entry_view :: "'h event_bus \<Rightarrow> handler_ptr \<Rightarrow> 'h subscription" where
  "entry_view b p = (p, he_id (eb_store b ! p), he_fn (eb_store b ! p))"

definition abs_bus :: "'h event_bus \<Rightarrow> 'h abstract_bus" where
  "abs_bus b = \<lparr>ab_next = eb_nextId b, ab_made = length (eb_store b),
     ab_subs = (\<lambda>ty. map (entry_view b) (live_entries b ty)),
     ab_cancelled = {p. p < length (eb_store b) \<and> \<not> active b p}\<rparr>"

definition invocation_view :: "('h, 'e) invocation \<Rightarrow> ('h, 'e) dispatch" where
  "invocation_view iv = ((iv_entry iv, iv_id iv, iv_fn iv), iv_event iv)"

definition bus_publish :: "nat \<Rightarrow> ('h, 'e) reaction \<Rightarrow> EventTypeId \<Rightarrow> 'e \<Rightarrow> 'h event_bus
    \<Rightarrow> (('h, 'e) dispatch list \<times> 'h event_bus) option" where
  "bus_publish depth script ty e b =
     map_option (map_prod (map invocation_view) id) (PublishInternal depth (\<lambda>h e b. script h e (abs_bus b)) ty e b)"

definition bus_inv :: "'h event_bus \<Rightarrow> bool" where
  "bus_inv b \<longleftrightarrow> eb_ok b \<and> unat (eb_nextId b) \<le> Suc (length (eb_store b))"

definition entries_remain :: "'h event_bus \<Rightarrow> 'h event_bus \<Rightarrow> bool" where
  "entries_remain b b' \<longleftrightarrow> length (eb_store b) \<le> length (eb_store b') \<and>
     (\<forall>p < length (eb_store b). entry_view b' p = entry_view b p)"

lemma entries_remain_refl [simp]: "entries_remain b b"
  by (simp add: entries_remain_def)

lemma entries_remain_trans: "entries_remain a b \<Longrightarrow> entries_remain b c \<Longrightarrow> entries_remain a c"
  by (auto simp: entries_remain_def)

lemma abs_bus_new: "abs_bus EventBus_new = abs_new" "bus_inv EventBus_new"
  by (simp_all add: abs_bus_def abs_new_def EventBus_new_def live_entries_def handler_list_def bus_inv_def
      eb_ok_def list_ok_def fun_eq_iff)

lemma handler_bound: "eb_ok b \<Longrightarrow> p \<in> set (handler_list b ty) \<Longrightarrow> p < length (eb_store b)"
  by (auto simp: eb_ok_def list_ok_def)

lemma live_snapshot: "eb_ok b \<Longrightarrow> eb_snapshots b ty = (if eb_handlers b ty = None then None else Some (live_entries b ty))"
  by (auto simp: eb_ok_def live_entries_def handler_list_def)

lemma Subscribe_refines:
  assumes inv: "bus_inv b" and room: "Suc (length (eb_store b)) < 2 ^ 64 - 1"
  shows "bus_inv (snd (SubscribeInternal ty h b))"
    and "map_prod id abs_bus (SubscribeInternal ty h b) = abs_subscribe ty h (abs_bus b)"
    and "entries_remain b (snd (SubscribeInternal ty h b))"
proof -
  let ?b = "snd (SubscribeInternal ty h b)" and ?n = "length (eb_store b)"
  have ok: "eb_ok b" and next_id: "Suc (unat (eb_nextId b)) < 2 ^ 64"
    using inv room by (auto simp: bus_inv_def)
  note sub = Subscribe_ok [OF ok next_id, of ty h]
  have store: "eb_store ?b = eb_store b @ [\<lparr>he_id = eb_nextId b, he_fn = h, he_active = True\<rparr>]"
    and hl: "handler_list ?b ty' = (if ty' = ty then handler_list b ty @ [?n] else handler_list b ty')" for ty'
    by (simp_all add: SubscribeInternal_def RebuildSnapshot_def Let_def handler_list_def)
  have old: "active ?b p = active b p" "entry_view ?b p = entry_view b p" if "p < ?n" for p
    using that by (simp_all add: active_def entry_view_def store nth_append)
  have new: "active ?b ?n" "entry_view ?b ?n = (?n, eb_nextId b, h)"
    by (simp_all add: active_def entry_view_def store)
  have "filter (active ?b) (handler_list b ty') = live_entries b ty'" for ty'
    unfolding live_entries_def using handler_bound [OF ok] old(1) by (intro filter_cong) auto
  then have live: "live_entries ?b ty' = (if ty' = ty then live_entries b ty @ [?n] else live_entries b ty')" for ty'
    using new(1) by (simp add: live_entries_def [of ?b] hl)
  have "map (entry_view ?b) (live_entries b ty') = map (entry_view b) (live_entries b ty')" for ty'
    using handler_bound [OF ok] old(2) by (intro map_cong) (auto simp: live_entries_def)
  then have "(\<lambda>ty'. map (entry_view ?b) (live_entries ?b ty'))
      = (\<lambda>ty'. map (entry_view b) (live_entries b ty'))(ty := map (entry_view b) (live_entries b ty) @ [(?n, eb_nextId b, h)])"
    using new(2) by (auto simp: live fun_eq_iff)
  moreover have "{p. p < Suc ?n \<and> \<not> active ?b p} = {p. p < ?n \<and> \<not> active b p}"
    using old(1) new(1) by (auto simp: less_Suc_eq)
  ultimately show "map_prod id abs_bus (SubscribeInternal ty h b) = abs_subscribe ty h (abs_bus b)"
    using sub(3,4) by (intro prod_eqI) (simp_all add: abs_subscribe_def abs_bus_def store)
  show "bus_inv ?b"
    using sub(1,4) inv next_id by (simp add: bus_inv_def store unat_add_nowrap)
  show "entries_remain b ?b" using old(2) by (simp add: entries_remain_def store)
qed

lemma Unsubscribe_refines:
  assumes inv: "bus_inv b"
  shows "bus_inv (Unsubscribe t b)" and "abs_bus (Unsubscribe t b) = abs_unsubscribe t (abs_bus b)"
    and "entries_remain b (Unsubscribe t b)"
proof -
  let ?b = "Unsubscribe t b" and ?ty = "st_type t" and ?i = "st_id t"
  have ok: "eb_ok b" using inv by (simp add: bus_inv_def)
  have len: "length (eb_store ?b) = length (eb_store b)" and view: "entry_view ?b p = entry_view b p"
    and hl: "handler_list ?b = handler_list b" for p
    by (auto simp: Unsubscribe_def entry_view_def deactivate_keeps handler_list_def RebuildSnapshot_def fun_eq_iff
        split: option.splits)
  show "bus_inv ?b" using Unsubscribe_ok [OF ok, of t] inv by (simp add: bus_inv_def len)
  show "entries_remain b ?b" by (simp add: entries_remain_def len view)
  have list: "list_ok b (handler_list b ?ty)" using ok by (simp add: eb_ok_def)
  have act: "active ?b p \<longleftrightarrow> active b p \<and> \<not> (p \<in> set (handler_list b ?ty) \<and> he_id (eb_store b ! p) = ?i)" for p
  proof (cases "?i \<noteq> 0 \<and> p \<in> set (handler_list b ?ty)")
    case True
    then show ?thesis
      using deactivate_active [of "eb_store b" "handler_list b ?ty" p ?i] list
      by (auto simp: Unsubscribe_def Token_Valid_def active_def list_ok_def handler_list_def split: option.splits)
  next
    case False
    then have "active ?b p = active b p"
      by (auto simp: Unsubscribe_def Token_Valid_def active_def deactivate_other handler_list_def split: option.splits)
    then show ?thesis using False list by (auto simp: list_ok_def)
  qed
  have "live_entries ?b ty = (if ty = ?ty then filter (\<lambda>p. he_id (eb_store b ! p) \<noteq> ?i) (live_entries b ?ty)
      else live_entries b ty)" for ty
  proof (cases "ty = ?ty")
    case True
    then show ?thesis by (auto simp: live_entries_def hl act intro!: filter_cong)
  next
    case False
    then have "p \<notin> set (handler_list b ?ty)" if "p \<in> set (handler_list b ty)" for p
      using ok that by (fastforce simp: eb_ok_def)
    then show ?thesis using False by (auto simp: live_entries_def hl act intro!: filter_cong)
  qed
  then have "(\<lambda>ty. map (entry_view b) (live_entries ?b ty))
      = (\<lambda>ty. map (entry_view b) (live_entries b ty))
          (?ty := filter (\<lambda>(k, i, h). i \<noteq> ?i) (map (entry_view b) (live_entries b ?ty)))"
    by (auto simp: fun_eq_iff filter_map o_def entry_view_def)
  moreover have "{p. p < length (eb_store b) \<and> \<not> active ?b p} = {p. p < length (eb_store b) \<and> \<not> active b p}
      \<union> fst ` set (filter (\<lambda>(k, i, h). i = ?i) (map (entry_view b) (live_entries b ?ty)))"
    using handler_bound [OF ok] by (auto simp: act live_entries_def entry_view_def image_iff)
  moreover have "eb_nextId ?b = eb_nextId b" using Unsubscribe_ok [OF ok] by blast
  moreover have "entry_view ?b = entry_view b" by (simp add: view fun_eq_iff)
  ultimately show "abs_bus ?b = abs_unsubscribe t (abs_bus b)"
    by (simp add: abs_unsubscribe_def abs_bus_def len)
qed

lemma Clear_refines:
  "bus_inv (EventBus_Clear b)" "abs_bus (EventBus_Clear b) = abs_clear (abs_bus b)"
  "entries_remain b (EventBus_Clear b)"
  using Clear_ok [of b]
  by (simp_all add: bus_inv_def abs_clear_def abs_bus_def EventBus_Clear_def live_entries_def handler_list_def
      entries_remain_def entry_view_def active_def)

section \<open>Dispatch\<close>

definition refines_run :: "('h, 'e) bus_run \<Rightarrow> ('h, 'e) abs_run \<Rightarrow> bool" where
  "refines_run run arun \<longleftrightarrow> (\<forall>b log b'. run b = Some (log, b') \<longrightarrow>
     length (eb_store b) \<le> length (eb_store b') \<and>
     (bus_inv b \<and> length (eb_store b') < 2 ^ 64 - 1 \<longrightarrow>
        bus_inv b' \<and> entries_remain b b' \<and> arun (abs_bus b) = Some (map invocation_view log, abs_bus b')))"

lemma refines_runD:
  assumes "refines_run run arun" and "run b = Some (log, b')"
  shows "length (eb_store b) \<le> length (eb_store b')"
    and "bus_inv b \<Longrightarrow> length (eb_store b') < 2 ^ 64 - 1 \<Longrightarrow>
      bus_inv b' \<and> entries_remain b b' \<and> arun (abs_bus b) = Some (map invocation_view log, abs_bus b')"
  using assms by (auto simp: refines_run_def)

lemma store_Subscribe: "length (eb_store (snd (SubscribeInternal ty h b))) = Suc (length (eb_store b))"
  by (simp add: SubscribeInternal_def Let_def)

lemma store_Unsubscribe: "length (eb_store (Unsubscribe t b)) = length (eb_store b)"
  by (simp add: Unsubscribe_def split: option.splits)

lemma store_Clear: "eb_store (EventBus_Clear b) = eb_store b"
  by (simp add: EventBus_Clear_def)

lemma refines_call:
  assumes "\<And>ty e. refines_run (publish ty e) (apublish ty e)"
  shows "refines_run
      (\<lambda>b. case c of Subscribe_call ty h \<Rightarrow> Some ([], snd (SubscribeInternal ty h b))
        | Unsubscribe_call token \<Rightarrow> Some ([], Unsubscribe token b)
        | Publish_call ty e \<Rightarrow> publish ty e b
        | Clear_call \<Rightarrow> Some ([], EventBus_Clear b))
      (\<lambda>s. case c of Subscribe_call ty h \<Rightarrow> Some ([], snd (abs_subscribe ty h s))
        | Unsubscribe_call token \<Rightarrow> Some ([], abs_unsubscribe token s)
        | Publish_call ty e \<Rightarrow> apublish ty e s
        | Clear_call \<Rightarrow> Some ([], abs_clear s))"
proof (cases c)
  case (Subscribe_call ty h)
  have "snd (abs_subscribe ty h (abs_bus b)) = abs_bus (snd (SubscribeInternal ty h b))"
    if "bus_inv b" "Suc (length (eb_store b)) < 2 ^ 64 - 1" for b
    using Subscribe_refines(2) [OF that, of ty h] by (metis snd_map_prod)
  then show ?thesis
    using Subscribe_call Subscribe_refines(1,3) by (auto simp: refines_run_def store_Subscribe)
qed (use assms in \<open>auto simp: refines_run_def store_Unsubscribe store_Clear Unsubscribe_refines Clear_refines\<close>)

lemma refines_calls:
  assumes "\<And>ty e. refines_run (publish ty e) (apublish ty e)"
  shows "refines_run (run_bus_calls publish cs) (abs_calls apublish cs)"
proof (induction cs)
  case Nil
  show ?case by (simp add: refines_run_def)
next
  case (Cons c cs)
  show ?case unfolding refines_run_def
  proof (intro allI impI)
    fix b log b' assume run: "run_bus_calls publish (c # cs) b = Some (log, b')"
    from run obtain log1 b1 log2 where
      1: "(case c of Subscribe_call ty h \<Rightarrow> Some ([], snd (SubscribeInternal ty h b))
        | Unsubscribe_call token \<Rightarrow> Some ([], Unsubscribe token b)
        | Publish_call ty e \<Rightarrow> publish ty e b
        | Clear_call \<Rightarrow> Some ([], EventBus_Clear b)) = Some (log1, b1)"
      and 2: "run_bus_calls publish cs b1 = Some (log2, b')" and log: "log = log1 @ log2"
      by (auto simp: bind_eq_Some_conv)
    note one = refines_runD [OF refines_call [OF assms] 1] and two = refines_runD [OF Cons.IH 2]
    have len: "length (eb_store b) \<le> length (eb_store b1)" "length (eb_store b1) \<le> length (eb_store b')"
      by (rule one(1), rule two(1))
    moreover have "bus_inv b' \<and> entries_remain b b' \<and> abs_calls apublish (c # cs) (abs_bus b) = Some (map invocation_view log, abs_bus b')"
      if "bus_inv b" "length (eb_store b') < 2 ^ 64 - 1"
      using one(2) [OF that(1)] two(2) that(2) len(2) log by (auto intro: entries_remain_trans)
    ultimately show "length (eb_store b) \<le> length (eb_store b') \<and> (bus_inv b \<and> length (eb_store b') < 2 ^ 64 - 1 \<longrightarrow>
        bus_inv b' \<and> entries_remain b b' \<and> abs_calls apublish (c # cs) (abs_bus b) = Some (map invocation_view log, abs_bus b'))"
      by simp
  qed
qed

lemma refines_dispatch:
  assumes "\<And>h. refines_run (call h) (acall h)"
  shows "publish_loop call e ps b = Some (log, b') \<Longrightarrow> \<forall>p \<in> set ps. p < length (eb_store b) \<Longrightarrow>
    length (eb_store b) \<le> length (eb_store b') \<and>
    (bus_inv b \<and> length (eb_store b') < 2 ^ 64 - 1 \<longrightarrow> bus_inv b' \<and> entries_remain b b' \<and>
      abs_dispatch acall e (map (entry_view b) ps) (abs_bus b) = Some (map invocation_view log, abs_bus b'))"
proof (induction ps arbitrary: b log)
  case Nil
  then show ?case by simp
next
  case (Cons p ps)
  have cancelled: "fst (entry_view b p) \<in> ab_cancelled (abs_bus b) \<longleftrightarrow> \<not> active b p"
    using Cons.prems(2) by (simp add: abs_bus_def entry_view_def)
  show ?case
  proof (cases "active b p")
    case False
    then show ?thesis using Cons cancelled by simp
  next
    case True
    obtain log1 b1 log2 where 1: "call (he_fn (eb_store b ! p)) b = Some (log1, b1)"
      and 2: "publish_loop call e ps b1 = Some (log2, b')"
      and log: "map invocation_view log = (entry_view b p, e) # map invocation_view log1 @ map invocation_view log2"
      using Cons.prems(1) True by (auto simp: Let_def bind_eq_Some_conv entry_view_def invocation_view_def)
    note one = refines_runD [OF assms 1]
    have "\<forall>p \<in> set ps. p < length (eb_store b1)" using Cons.prems(2) one(1) by fastforce
    note two = Cons.IH [OF 2 this]
    have fn: "snd (snd (entry_view b p)) = he_fn (eb_store b ! p)" by (simp add: entry_view_def)
    have "bus_inv b' \<and> entries_remain b b' \<and>
        abs_dispatch acall e (map (entry_view b) (p # ps)) (abs_bus b) = Some (map invocation_view log, abs_bus b')"
      if inv: "bus_inv b" "length (eb_store b') < 2 ^ 64 - 1"
    proof -
      have b1: "bus_inv b1" "entries_remain b b1" "acall (he_fn (eb_store b ! p)) (abs_bus b) = Some (map invocation_view log1, abs_bus b1)"
        using one(2) [OF inv(1)] two inv(2) by simp_all
      have "map (entry_view b1) ps = map (entry_view b) ps"
        using b1(2) Cons.prems(2) by (auto simp: entries_remain_def)
      then have "abs_dispatch acall e (map (entry_view b) ps) (abs_bus b1) = Some (map invocation_view log2, abs_bus b')"
        "bus_inv b'" "entries_remain b1 b'"
        using two b1(1) inv(2) by (simp_all del: map_eq_conv)
      then show ?thesis
        using True cancelled fn b1 log by (auto intro: entries_remain_trans)
    qed
    then show ?thesis using one(1) two by simp
  qed
qed

lemma publish_loop_grows:
  assumes "\<And>h b log b'. call h b = Some (log, b') \<Longrightarrow> length (eb_store b) \<le> length (eb_store b')"
  shows "publish_loop call e ps b = Some (log, b') \<Longrightarrow> length (eb_store b) \<le> length (eb_store b')"
proof (induction ps arbitrary: b log)
  case (Cons p ps)
  then show ?case
    by (auto simp: Let_def bind_eq_Some_conv split: if_splits dest!: assms) (meson order_trans)
qed simp

lemma refines_Publish:
  "refines_run (PublishInternal depth (\<lambda>h e b. script h e (abs_bus b)) ty e) (abs_publish depth script ty e)"
proof (induction depth arbitrary: ty e)
  case 0
  show ?case by (simp add: refines_run_def)
next
  case (Suc depth)
  let ?call = "\<lambda>h b. run_bus_calls (PublishInternal depth (\<lambda>h e b. script h e (abs_bus b))) (script h e (abs_bus b)) b"
  let ?acall = "\<lambda>h s. abs_calls (abs_publish depth script) (script h e s) s"
  have "refines_run (run_bus_calls (PublishInternal depth (\<lambda>h e b. script h e (abs_bus b))) cs)
      (abs_calls (abs_publish depth script) cs)" for cs
    by (rule refines_calls) (rule Suc.IH)
  then have call: "refines_run (?call h) (?acall h)" for h
    unfolding refines_run_def by blast
  show ?case unfolding refines_run_def
  proof (intro allI impI)
    fix b log b' assume run: "PublishInternal (Suc depth) (\<lambda>h e b. script h e (abs_bus b)) ty e b = Some (log, b')"
    show "length (eb_store b) \<le> length (eb_store b') \<and> (bus_inv b \<and> length (eb_store b') < 2 ^ 64 - 1 \<longrightarrow>
        bus_inv b' \<and> entries_remain b b' \<and> abs_publish (Suc depth) script ty e (abs_bus b) = Some (map invocation_view log, abs_bus b'))"
      (is "?len \<and> (?ok \<longrightarrow> ?sim)")
    proof (cases "eb_snapshots b ty")
      case None
      then show ?thesis using run by (auto simp: bus_inv_def live_snapshot abs_bus_def live_entries_def handler_list_def split: if_splits)
    next
      case (Some ps)
      with run have loop: "publish_loop ?call e ps b = Some (log, b')" by simp
      have "?len"
        by (rule publish_loop_grows [OF refines_runD(1) [OF call] loop])
      moreover have "?sim" if "?ok"
      proof -
        have ok: "eb_ok b" using that by (simp add: bus_inv_def)
        then have ps: "ps = live_entries b ty" using Some live_snapshot [of b ty] by (simp split: if_splits)
        then have "\<forall>p \<in> set ps. p < length (eb_store b)"
          using handler_bound [OF ok] by (auto simp: live_entries_def)
        then show ?thesis using refines_dispatch [OF call loop] that by (simp add: ps abs_bus_def)
      qed
      ultimately show ?thesis by blast
    qed
  qed
qed

text \<open>Bounded publishing ends.\<close>

lemma run_bus_calls_returns:
  assumes "\<And>ty e b. rank e < depth \<Longrightarrow> \<exists>r. publish ty e b = Some r"
  shows "calls_below rank depth cs \<Longrightarrow> \<exists>r. run_bus_calls publish cs b = Some r"
proof (induction cs arbitrary: b)
  case Nil
  then show ?case by simp
next
  case (Cons c cs)
  have IH: "\<exists>log b'. run_bus_calls publish cs b = Some (log, b')" for b
    using Cons by (simp add: calls_below_def)
  have "\<exists>log b'. publish ty e b = Some (log, b')" if "c = Publish_call ty e" for ty e
    using assms [of e ty b] Cons.prems that by (auto simp: calls_below_def)
  then show ?case
    using IH [of "snd (SubscribeInternal _ _ b)"] IH [of "Unsubscribe _ b"] IH [of "EventBus_Clear b"] IH
    by (cases c) (fastforce simp: bind_eq_Some_conv)+
qed

lemma publish_loop_returns:
  assumes "\<And>h b. \<exists>r. call h b = Some r"
  shows "\<exists>r. publish_loop call e ps b = Some r"
proof (induction ps arbitrary: b)
  case (Cons p ps)
  obtain log b1 where "call (he_fn (eb_store b ! p)) b = Some (log, b1)"
    using assms by (metis surj_pair)
  then show ?case using Cons.IH [of b] Cons.IH [of b1] by (auto simp: Let_def)
qed simp

lemma Publish_returns:
  assumes "ranked rank script"
  shows "rank e < depth \<Longrightarrow> \<exists>r. PublishInternal depth script ty e b = Some r"
proof (induction depth arbitrary: ty e b)
  case (Suc depth)
  have "rank e' < depth" if "Publish_call ty' e' \<in> set (script h e b)" for h b ty' e'
  proof -
    have "rank e' < rank e" using assms that unfolding ranked_def by blast
    then show ?thesis using Suc.prems by simp
  qed
  then have "calls_below rank depth (script h e b)" for h b by (simp add: calls_below_def)
  then have "\<exists>r. run_bus_calls (PublishInternal depth script) (script h e b) b = Some r" for h b
    using run_bus_calls_returns [of rank depth "PublishInternal depth script"] Suc.IH by blast
  then show ?case
    using publish_loop_returns [of "\<lambda>h b. run_bus_calls (PublishInternal depth script) (script h e b) b"]
    by (simp split: option.splits)
qed simp

interpretation bus: event_bus_contract SubscribeInternal Unsubscribe bus_publish EventBus_Clear
  bus_inv abs_bus "2 ^ 64 - 1"
proof unfold_locales
  fix b b' :: "'a event_bus" and ty h t log depth e and script :: "('a, 'b) reaction" and rank :: "'b \<Rightarrow> nat"
  show "bus_inv (snd (SubscribeInternal ty h b)) \<and> map_prod id abs_bus (SubscribeInternal ty h b) = abs_subscribe ty h (abs_bus b)"
    if "bus_inv b" "Suc (ab_made (abs_bus b)) < 2 ^ 64 - 1"
    using Subscribe_refines [of b ty h] that by (simp add: abs_bus_def)
  show "bus_inv (Unsubscribe t b) \<and> abs_bus (Unsubscribe t b) = abs_unsubscribe t (abs_bus b)" if "bus_inv b"
    using Unsubscribe_refines [OF that] by blast
  show "bus_inv (EventBus_Clear b) \<and> abs_bus (EventBus_Clear b) = abs_clear (abs_bus b)"
    using Clear_refines by blast
  show "bus_inv b' \<and> abs_publish depth script ty e (abs_bus b) = Some (log, abs_bus b')"
    if "bus_inv b" "bus_publish depth script ty e b = Some (log, b')" "ab_made (abs_bus b') < 2 ^ 64 - 1"
    using that refines_runD(2) [OF refines_Publish, of depth script ty e b] by (auto simp: bus_publish_def abs_bus_def [of b'])
  show "ab_made (abs_bus (snd (SubscribeInternal ty h b))) = Suc (ab_made (abs_bus b))"
    "ab_made (abs_bus (Unsubscribe t b)) = ab_made (abs_bus b)" "ab_made (abs_bus (EventBus_Clear b)) = ab_made (abs_bus b)"
    by (simp_all add: abs_bus_def store_Subscribe store_Unsubscribe store_Clear)
  show "ab_made (abs_bus b) \<le> ab_made (abs_bus b')" if "bus_publish depth script ty e b = Some (log, b')"
    using that refines_runD(1) [OF refines_Publish, of depth script ty e b] by (auto simp: bus_publish_def abs_bus_def)
  show "\<exists>r. bus_publish depth script ty e b = Some r" if "ranked rank script" "rank e < depth"
  proof -
    have "ranked rank (\<lambda>h e b. script h e (abs_bus b))" using that(1) unfolding ranked_def by blast
    from Publish_returns [OF this that(2), of ty b] show ?thesis by (auto simp: bus_publish_def)
  qed
qed

section \<open>Property\<close>

text \<open>C11. Any sequence of calls on a new bus, with handlers that subscribe, unsubscribe, clear and
  publish in turn, returns when publishing is bounded (the events a handler publishes rank below the
  one it handles, and the depth is above every rank), and, while fewer than \<open>2^64 - 1\<close> subscriptions
  were made, gives the tokens and the invocations of the abstract bus and leaves the bus in the
  corresponding state: a publication runs the subscriptions of the type that were live at its start and
  are not cancelled when their turn comes, in registration order, each followed by the calls of its
  handler; unsubscribing removes the token's subscription only; clearing removes all and restarts the
  identifiers.\<close>

theorem event_bus_refines_subscriptions:
  assumes "ranked rank script" and "calls_below rank depth calls"
  shows "\<exists>replies b. run_bus SubscribeInternal Unsubscribe (bus_publish depth script) EventBus_Clear calls EventBus_new
      = Some (replies, b)
    \<and> (length (eb_store b) < 2 ^ 64 - 1 \<longrightarrow>
        run_bus abs_subscribe abs_unsubscribe (abs_publish depth script) abs_clear calls abs_new = Some (replies, abs_bus b)
        \<and> eb_ok b)"
proof -
  obtain replies b where run: "run_bus SubscribeInternal Unsubscribe (bus_publish depth script) EventBus_Clear calls
      EventBus_new = Some (replies, b)"
    using bus.run_returns [OF assms] by (metis surj_pair)
  show ?thesis
    using run bus.run_refines [OF abs_bus_new(2) run] by (auto simp: abs_bus_new bus_inv_def abs_bus_def [of b])
qed

text \<open>Three handlers of one type: the first unsubscribes the second and publishes an event of another
  type, whose handler subscribes a further one to the first type, which waits for the next event.\<close>

definition reentrant :: "(nat, nat) reaction" where
  "reentrant h e s =
     (if h = 10 \<and> 0 < e then [Unsubscribe_call \<lparr>st_id = 2, st_type = 7\<rparr>, Publish_call 8 (e - 1)]
      else if h = 40 then [Subscribe_call 7 50] else [])"

theorem event_bus_refines_subscriptions_witness:
  "\<exists>b. run_bus SubscribeInternal Unsubscribe (bus_publish 2 reentrant) EventBus_Clear
      [Subscribe_call 7 10, Subscribe_call 7 20, Subscribe_call 7 30, Subscribe_call 8 40, Publish_call 7 1] EventBus_new
    = Some ([Token_reply \<lparr>st_id = 1, st_type = 7\<rparr>, Token_reply \<lparr>st_id = 2, st_type = 7\<rparr>,
        Token_reply \<lparr>st_id = 3, st_type = 7\<rparr>, Token_reply \<lparr>st_id = 4, st_type = 8\<rparr>,
        Invoked_reply [((0, 1, 10), 1), ((3, 4, 40), 0), ((2, 3, 30), 1)]], b) \<and> eb_ok b"
proof -
  let ?calls = "[Subscribe_call 7 10, Subscribe_call 7 20, Subscribe_call 7 30, Subscribe_call 8 40, Publish_call 7 (1::nat)]"
  have pre: "ranked id reentrant" "calls_below id 2 ?calls"
    by (auto simp: ranked_def reentrant_def calls_below_def)
  obtain b where run: "run_bus SubscribeInternal Unsubscribe (bus_publish 2 reentrant) EventBus_Clear ?calls EventBus_new
      = Some ([Token_reply \<lparr>st_id = 1, st_type = 7\<rparr>, Token_reply \<lparr>st_id = 2, st_type = 7\<rparr>,
        Token_reply \<lparr>st_id = 3, st_type = 7\<rparr>, Token_reply \<lparr>st_id = 4, st_type = 8\<rparr>,
        Invoked_reply [((0, 1, 10), 1), ((3, 4, 40), 0), ((2, 3, 30), 1)]], b)"
    and len: "length (eb_store b) = 5"
    by (simp add: EventBus_new_def SubscribeInternal_def RebuildSnapshot_def active_def Let_def numeral_2_eq_2
        bus_publish_def reentrant_def Unsubscribe_def Token_Valid_def invocation_view_def)
  show ?thesis
    using run len event_bus_refines_subscriptions [OF pre] by auto
qed

end
