(* ===== verification/Event_Bus_Typed.thy ===== *)
theory Event_Bus_Typed
  imports Event_Bus_Contract
begin

text \<open>
  The typed front of the event bus (\<open>Subscribe\<close> and \<open>Publish\<close> in \<open>EventBus.hpp\<close>). \<open>Subscribe<TEvent>\<close> wraps the handler in a
  lambda that casts a \<open>const void *\<close> to \<open>TEvent\<close>, \<open>Publish<TEvent>\<close> passes its event as \<open>const void *\<close>, and only
  the type identifier joins the two. Here a wrapper is the pair of the type it casts to and the handler, and an event is the
  pair of its type and its value; a wrapper run on an event of another type would be undefined behaviour. \<open>names\<close> lists
  the event types in the order in which the program first uses them.
\<close>

section \<open>Type identifiers\<close>

definition type_ids_new :: type_ids where
  "type_ids_new = \<lparr>ti_counter = 1, ti_known = Map.empty\<rparr>"

definition type_ids_after :: "string list \<Rightarrow> type_ids" where
  "type_ids_after names = fold (\<lambda>n s. snd (GetEventTypeId n s)) names type_ids_new"

definition type_id :: "type_ids \<Rightarrow> string \<Rightarrow> EventTypeId" where
  "type_id ids n = fst (GetEventTypeId n ids)"

text \<open>The identifiers given out so far are the first ones from 1 on, each given once.\<close>

definition ids_ok :: "type_ids \<Rightarrow> bool" where
  "ids_ok s \<longleftrightarrow> finite (dom (ti_known s)) \<and> ti_counter s = 1 + of_nat (card (dom (ti_known s))) \<and>
     (\<exists>rank. bij_betw rank (dom (ti_known s)) {..< card (dom (ti_known s))} \<and>
       (\<forall>n \<in> dom (ti_known s). ti_known s n = Some (1 + of_nat (rank n))))"

lemma GetEventTypeId_known: "dom (ti_known (snd (GetEventTypeId n s))) = insert n (dom (ti_known s))"
  by (auto simp: GetEventTypeId_def GenerateNextTypeId_def split: option.splits)

lemma GetEventTypeId_ok:
  assumes "ids_ok s"
  shows "ids_ok (snd (GetEventTypeId n s))"
proof (cases "ti_known s n")
  case (Some i)
  then show ?thesis using assms by (simp add: GetEventTypeId_def)
next
  case None
  let ?D = "dom (ti_known s)"
  obtain rank where D: "finite ?D" "ti_counter s = 1 + of_nat (card ?D)" and rank: "bij_betw rank ?D {..< card ?D}"
    "\<And>m. m \<in> ?D \<Longrightarrow> ti_known s m = Some (1 + of_nat (rank m))"
    using assms by (auto simp: ids_ok_def)
  have n: "n \<notin> ?D" using None by auto
  let ?s = "snd (GetEventTypeId n s)" and ?rank = "rank(n := card ?D)"
  have s: "ti_known ?s = (ti_known s)(n \<mapsto> ti_counter s)" "ti_counter ?s = ti_counter s + 1"
    using None by (simp_all add: GetEventTypeId_def GenerateNextTypeId_def)
  have "bij_betw ?rank ?D {..< card ?D}"
    using rank(1) by (rule bij_betw_cong [THEN iffD1, rotated]) (use n in auto)
  then have "bij_betw ?rank (?D \<union> {n}) ({..< card ?D} \<union> {card ?D})"
    by (rule bij_betw_combine) (simp_all add: bij_betw_def)
  moreover have "dom (ti_known ?s) = ?D \<union> {n}" "card (dom (ti_known ?s)) = Suc (card ?D)"
    using n D(1) by (simp_all add: s)
  moreover have "{..< card ?D} \<union> {card ?D} = {..< Suc (card ?D)}" by auto
  ultimately have "bij_betw ?rank (dom (ti_known ?s)) {..< card (dom (ti_known ?s))}" by simp
  moreover have "\<forall>m \<in> dom (ti_known ?s). ti_known ?s m = Some (1 + of_nat (?rank m))"
    using rank(2) D(2) by (auto simp: s)
  ultimately show ?thesis unfolding ids_ok_def using D n by (intro conjI exI [of _ ?rank]) (simp_all add: s)
qed

lemma type_ids_after_ok: "ids_ok (type_ids_after names) \<and> dom (ti_known (type_ids_after names)) = set names"
proof -
  have "ids_ok s \<Longrightarrow> ids_ok (fold (\<lambda>n s. snd (GetEventTypeId n s)) names s) \<and>
      dom (ti_known (fold (\<lambda>n s. snd (GetEventTypeId n s)) names s)) = dom (ti_known s) \<union> set names" for s
  proof (induction names arbitrary: s)
    case (Cons n names)
    show ?case
      using Cons.IH [OF GetEventTypeId_ok [OF Cons.prems], of n] GetEventTypeId_known [of n s] by simp
  qed simp
  moreover have "ids_ok type_ids_new" by (auto simp: ids_ok_def type_ids_new_def bij_betw_def)
  ultimately show ?thesis unfolding type_ids_after_def by (simp add: type_ids_new_def)
qed

text \<open>A type keeps the identifier of its first use, so a call sees the same one whatever types come after.\<close>

lemma type_id_stable:
  assumes "n \<in> set names"
  shows "type_id (type_ids_after (names @ later)) n = type_id (type_ids_after names) n"
proof -
  have keeps: "ti_known (snd (GetEventTypeId m s)) n = ti_known s n" if "n \<in> dom (ti_known s)" for m s
    using that by (auto simp: GetEventTypeId_def GenerateNextTypeId_def split: option.splits)
  have "n \<in> dom (ti_known s) \<Longrightarrow> ti_known (fold (\<lambda>n s. snd (GetEventTypeId n s)) later s) n = ti_known s n" for s
  proof (induction later arbitrary: s)
    case (Cons m later)
    then show ?case using Cons.IH [of "snd (GetEventTypeId m s)"] keeps [OF Cons.prems] GetEventTypeId_known [of m s] by simp
  qed simp
  moreover have "n \<in> dom (ti_known (type_ids_after names))" using assms type_ids_after_ok by simp
  ultimately have "ti_known (type_ids_after (names @ later)) n = ti_known (type_ids_after names) n"
    by (simp add: type_ids_after_def)
  then show ?thesis
    using \<open>n \<in> dom (ti_known (type_ids_after names))\<close> by (auto simp: type_id_def GetEventTypeId_def)
qed

text \<open>Up to \<open>2^32\<close> event types have identifiers of their own.\<close>

lemma type_id_inj:
  assumes "card (set names) \<le> 2 ^ 32"
  shows "inj_on (type_id (type_ids_after names)) (set names)"
proof -
  let ?s = "type_ids_after names"
  obtain rank where rank: "bij_betw rank (set names) {..< card (set names)}"
    "\<And>n. n \<in> set names \<Longrightarrow> ti_known ?s n = Some (1 + of_nat (rank n))"
    using type_ids_after_ok [of names] by (auto simp: ids_ok_def)
  show ?thesis
  proof (rule inj_onI)
    fix a b assume a: "a \<in> set names" and b: "b \<in> set names" and eq: "type_id ?s a = type_id ?s b"
    have less: "rank a < 2 ^ 32" "rank b < 2 ^ 32"
      using rank(1) a b assms by (auto simp: bij_betw_def image_iff set_eq_iff intro: less_le_trans)
    have "(of_nat (rank a) :: u32) = of_nat (rank b)"
      using eq rank(2) a b by (simp add: type_id_def GetEventTypeId_def)
    then have "rank a = rank b" using less by (simp add: word_unat_eq_iff unat_of_nat take_bit_eq_mod)
    then show "a = b" using rank(1) a b by (auto simp: bij_betw_def inj_on_def)
  qed
qed

section \<open>Typed calls\<close>

datatype ('h, 'e) typed_call =
    Subscribe_typed string 'h
  | Unsubscribe_typed subscription_token
  | Publish_typed string 'e
  | Clear_typed

text \<open>What the templates pass to \<open>SubscribeInternal\<close> and \<open>PublishInternal\<close>.\<close>

fun internal_call :: "type_ids \<Rightarrow> ('h, 'e) typed_call \<Rightarrow> (string \<times> 'h, string \<times> 'e) bus_call" where
  "internal_call ids (Subscribe_typed n h) = Subscribe_call (type_id ids n) (n, h)"
| "internal_call ids (Unsubscribe_typed token) = Unsubscribe_call token"
| "internal_call ids (Publish_typed n e) = Publish_call (type_id ids n) (n, e)"
| "internal_call ids Clear_typed = Clear_call"

text \<open>The wrapper of a handler: what the handler calls in turn is again typed.\<close>

definition wrapped :: "type_ids \<Rightarrow> ('h \<Rightarrow> 'e \<Rightarrow> ('h, 'e) typed_call list) \<Rightarrow> (string \<times> 'h, string \<times> 'e) bus_script" where
  "wrapped ids script h e b = map (internal_call ids) (script (snd h) (snd e))"

fun call_types :: "('h, 'e) typed_call \<Rightarrow> string set" where
  "call_types (Subscribe_typed n h) = {n}"
| "call_types (Publish_typed n e) = {n}"
| "call_types c = {}"

section \<open>The invariant\<close>

text \<open>Entries sit in the list of the identifier of the type they cast to.\<close>

definition entry_typed :: "type_ids \<Rightarrow> string set \<Rightarrow> (string \<times> 'h) event_bus \<Rightarrow> EventTypeId \<Rightarrow> handler_ptr \<Rightarrow> bool" where
  "entry_typed ids N b ty p \<longleftrightarrow> p < length (eb_store b) \<and> fst (he_fn (eb_store b ! p)) \<in> N
     \<and> type_id ids (fst (he_fn (eb_store b ! p))) = ty"

definition bus_typed :: "type_ids \<Rightarrow> string set \<Rightarrow> (string \<times> 'h) event_bus \<Rightarrow> bool" where
  "bus_typed ids N b \<longleftrightarrow> (\<forall>ty. list_all (entry_typed ids N b ty) (handler_list b ty) \<and>
     (\<forall>ps. eb_snapshots b ty = Some ps \<longrightarrow> list_all (entry_typed ids N b ty) ps))"

text \<open>Entries are added and never change their function.\<close>

definition store_grows :: "'h event_bus \<Rightarrow> 'h event_bus \<Rightarrow> bool" where
  "store_grows b b' \<longleftrightarrow> length (eb_store b) \<le> length (eb_store b') \<and>
     (\<forall>p < length (eb_store b). he_fn (eb_store b' ! p) = he_fn (eb_store b ! p))"

lemma store_grows_refl [simp]: "store_grows b b"
  by (simp add: store_grows_def)

lemma store_grows_trans: "store_grows a b \<Longrightarrow> store_grows b c \<Longrightarrow> store_grows a c"
  by (auto simp: store_grows_def)

lemma entry_typed_grows: "entry_typed ids N b ty p \<Longrightarrow> store_grows b b' \<Longrightarrow> entry_typed ids N b' ty p"
  by (auto simp: entry_typed_def store_grows_def)

lemma entries_typed_grow:
  "list_all (entry_typed ids N b ty) ps \<Longrightarrow> store_grows b b' \<Longrightarrow> list_all (entry_typed ids N b' ty) ps"
  by (auto simp: list_all_iff intro: entry_typed_grows)

lemma Rebuild_typed:
  assumes "bus_typed ids N b"
  shows "bus_typed ids N (RebuildSnapshot ty b)"
proof -
  have "entry_typed ids N (RebuildSnapshot ty b) = entry_typed ids N b"
    by (simp add: fun_eq_iff entry_typed_def)
  moreover have "handler_list (RebuildSnapshot ty b) = handler_list b"
    by (simp add: fun_eq_iff handler_list_def RebuildSnapshot_def split: option.splits)
  ultimately show ?thesis
    using assms by (auto simp: bus_typed_def RebuildSnapshot_def handler_list_def list_all_iff split: option.splits if_splits)
qed

lemma Subscribe_typed_ok:
  assumes ok: "bus_typed ids N b" and n: "n \<in> N"
  shows "bus_typed ids N (snd (SubscribeInternal (type_id ids n) (n, h) b)) \<and>
    store_grows b (snd (SubscribeInternal (type_id ids n) (n, h) b))"
proof -
  let ?ty = "type_id ids n" and ?p = "length (eb_store b)"
  let ?b = "b\<lparr>eb_nextId := eb_nextId b + 1, eb_store := eb_store b @ [\<lparr>he_id = eb_nextId b, he_fn = (n, h), he_active = True\<rparr>],
      eb_handlers := (eb_handlers b)(?ty \<mapsto> handler_list b ?ty @ [?p])\<rparr>"
  have s: "snd (SubscribeInternal ?ty (n, h) b) = RebuildSnapshot ?ty ?b"
    by (simp add: SubscribeInternal_def Let_def handler_list_def)
  have grows: "store_grows b ?b" by (simp add: store_grows_def nth_append)
  have new: "entry_typed ids N ?b ?ty ?p" using n by (simp add: entry_typed_def)
  have "list_all (entry_typed ids N ?b t) (handler_list ?b t)" for t
  proof -
    have "list_all (entry_typed ids N ?b t) (handler_list b t)"
      by (rule entries_typed_grow [OF _ grows]) (use ok in \<open>simp add: bus_typed_def\<close>)
    moreover have "handler_list ?b t = (if t = ?ty then handler_list b t @ [?p] else handler_list b t)"
      by (simp add: handler_list_def)
    ultimately show ?thesis using new by (cases "t = ?ty") simp_all
  qed
  moreover have "list_all (entry_typed ids N ?b t) ps" if "eb_snapshots ?b t = Some ps" for t ps
    by (rule entries_typed_grow [OF _ grows]) (use ok that in \<open>simp add: bus_typed_def\<close>)
  ultimately have "bus_typed ids N ?b" by (simp add: bus_typed_def)
  then show ?thesis unfolding s using grows Rebuild_typed [of ids N ?b ?ty] by (simp add: store_grows_def)
qed

lemma Unsubscribe_typed_ok:
  assumes ok: "bus_typed ids N b"
  shows "bus_typed ids N (Unsubscribe token b) \<and> store_grows b (Unsubscribe token b)"
proof -
  have "bus_typed ids N (b\<lparr>eb_store := deactivate i hs (eb_store b)\<rparr>)" for i hs
    using ok by (simp add: bus_typed_def entry_typed_def handler_list_def deactivate_keeps list_all_iff)
  then show ?thesis
    using ok by (auto simp: Unsubscribe_def store_grows_def deactivate_keeps intro!: Rebuild_typed split: option.splits)
qed

lemma Clear_typed_ok: "bus_typed ids N (EventBus_Clear b) \<and> store_grows b (EventBus_Clear b)"
  by (simp add: bus_typed_def EventBus_Clear_def handler_list_def store_grows_def)

section \<open>Dispatch\<close>

definition casts_ok :: "type_ids \<Rightarrow> string set \<Rightarrow> (string \<times> 'h, string \<times> 'e) bus_run \<Rightarrow> bool" where
  "casts_ok ids N run \<longleftrightarrow> (\<forall>b log b'. run b = Some (log, b') \<longrightarrow> bus_typed ids N b \<longrightarrow>
     bus_typed ids N b' \<and> store_grows b b' \<and> (\<forall>iv \<in> set log. fst (iv_fn iv) = fst (iv_event iv)))"

lemma casts_ok_calls:
  assumes "\<And>n e. n \<in> N \<Longrightarrow> casts_ok ids N (publish (type_id ids n) (n, e))"
    and "\<forall>c \<in> set cs. call_types c \<subseteq> N"
  shows "casts_ok ids N (run_bus_calls publish (map (internal_call ids) cs))"
  using assms(2)
proof (induction cs)
  case Nil
  show ?case by (simp add: casts_ok_def)
next
  case (Cons c cs)
  have one: "casts_ok ids N (\<lambda>b. case internal_call ids c of
          Subscribe_call ty h \<Rightarrow> Some ([], snd (SubscribeInternal ty h b))
        | Unsubscribe_call token \<Rightarrow> Some ([], Unsubscribe token b)
        | Publish_call ty e \<Rightarrow> publish ty e b
        | Clear_call \<Rightarrow> Some ([], EventBus_Clear b))" (is "casts_ok ids N ?one")
  proof (cases c)
    case (Subscribe_typed n h)
    then show ?thesis
      using Cons.prems by (auto simp: casts_ok_def intro: Subscribe_typed_ok [THEN conjunct1] Subscribe_typed_ok [THEN conjunct2])
  next
    case (Publish_typed n e)
    then show ?thesis using Cons.prems assms(1) by simp
  qed (auto simp: casts_ok_def Unsubscribe_typed_ok Clear_typed_ok)
  show ?case unfolding casts_ok_def
  proof (intro allI impI)
    fix b log b' assume run: "run_bus_calls publish (map (internal_call ids) (c # cs)) b = Some (log, b')" and ok: "bus_typed ids N b"
    obtain log1 b1 log2 where r: "?one b = Some (log1, b1)" "run_bus_calls publish (map (internal_call ids) cs) b1 = Some (log2, b')"
      "log = log1 @ log2"
      using run by (auto simp: bind_eq_Some_conv)
    have b1: "bus_typed ids N b1 \<and> store_grows b b1 \<and> (\<forall>iv \<in> set log1. fst (iv_fn iv) = fst (iv_event iv))"
      using one [unfolded casts_ok_def, rule_format, OF r(1) ok] .
    have "casts_ok ids N (run_bus_calls publish (map (internal_call ids) cs))" using Cons by simp
    from this [unfolded casts_ok_def, rule_format, OF r(2)] b1
    have "bus_typed ids N b' \<and> store_grows b1 b' \<and> (\<forall>iv \<in> set log2. fst (iv_fn iv) = fst (iv_event iv))" by blast
    then show "bus_typed ids N b' \<and> store_grows b b' \<and> (\<forall>iv \<in> set log. fst (iv_fn iv) = fst (iv_event iv))"
      using b1 r(3) store_grows_trans [of b b1 b'] by auto
  qed
qed

lemma casts_ok_loop:
  assumes call: "\<And>h. casts_ok ids N (call h)" and inj: "inj_on (type_id ids) N" and n: "n \<in> N"
  shows "publish_loop call (n, e) ps b = Some (log, b') \<Longrightarrow> bus_typed ids N b \<Longrightarrow>
    list_all (entry_typed ids N b (type_id ids n)) ps \<Longrightarrow>
    bus_typed ids N b' \<and> store_grows b b' \<and> (\<forall>iv \<in> set log. fst (iv_fn iv) = fst (iv_event iv))"
proof (induction ps arbitrary: b log b')
  case Nil
  then show ?case by simp
next
  case (Cons p ps)
  show ?case
  proof (cases "active b p")
    case False
    then show ?thesis using Cons by simp
  next
    case True
    then obtain log1 b1 log2 where run: "call (he_fn (eb_store b ! p)) b = Some (log1, b1)"
      "publish_loop call (n, e) ps b1 = Some (log2, b')"
      "log = \<lparr>iv_entry = p, iv_id = he_id (eb_store b ! p), iv_fn = he_fn (eb_store b ! p), iv_event = (n, e)\<rparr> # log1 @ log2"
      using Cons.prems(1) by (auto simp: Let_def bind_eq_Some_conv)
    have b1: "bus_typed ids N b1" "store_grows b b1" "\<forall>iv \<in> set log1. fst (iv_fn iv) = fst (iv_event iv)"
      using call [unfolded casts_ok_def] run(1) Cons.prems(2) by blast+
    have rest: "bus_typed ids N b' \<and> store_grows b1 b' \<and> (\<forall>iv \<in> set log2. fst (iv_fn iv) = fst (iv_event iv))"
      using Cons.IH [OF run(2) b1(1)] entries_typed_grow [OF _ b1(2)] Cons.prems(3) by simp
    have "fst (he_fn (eb_store b ! p)) = n"
      using Cons.prems(3) inj n by (auto simp: entry_typed_def inj_on_def)
    then show ?thesis using b1 rest run(3) store_grows_trans [OF b1(2)] by auto
  qed
qed

lemma casts_ok_Publish:
  assumes inj: "inj_on (type_id ids) N" and script: "\<forall>h e. \<forall>c \<in> set (script h e). call_types c \<subseteq> N"
  shows "n \<in> N \<Longrightarrow> casts_ok ids N (PublishInternal depth (wrapped ids script) (type_id ids n) (n, e))"
proof (induction depth arbitrary: n e)
  case 0
  show ?case by (simp add: casts_ok_def)
next
  case (Suc depth)
  have "casts_ok ids N (\<lambda>b. run_bus_calls (PublishInternal depth (wrapped ids script)) (wrapped ids script h (n, e) b) b)" for h
    unfolding wrapped_def by (rule casts_ok_calls) (use Suc.IH script in \<open>simp_all add: wrapped_def\<close>)
  note loop = casts_ok_loop [of ids N, OF this inj Suc.prems]
  show ?case unfolding casts_ok_def
  proof (intro allI impI)
    fix b log b' assume run: "PublishInternal (Suc depth) (wrapped ids script) (type_id ids n) (n, e) b = Some (log, b')"
      and ok: "bus_typed ids N b"
    show "bus_typed ids N b' \<and> store_grows b b' \<and> (\<forall>iv \<in> set log. fst (iv_fn iv) = fst (iv_event iv))"
    proof (cases "eb_snapshots b (type_id ids n)")
      case None
      then show ?thesis using run ok by simp
    next
      case (Some ps)
      then have "publish_loop (\<lambda>h b. run_bus_calls (PublishInternal depth (wrapped ids script)) (wrapped ids script h (n, e) b) b)
          (n, e) ps b = Some (log, b')" using run by simp
      then show ?thesis by (rule loop) (use ok Some in \<open>auto simp: bus_typed_def\<close>)
    qed
  qed
qed

section \<open>Property\<close>

text \<open>Typed handlers whose publishing is bounded: what they publish ranks below what they handle.\<close>

definition typed_ranked :: "('e \<Rightarrow> nat) \<Rightarrow> ('h \<Rightarrow> 'e \<Rightarrow> ('h, 'e) typed_call list) \<Rightarrow> bool" where
  "typed_ranked rank script \<longleftrightarrow> (\<forall>h e n e'. Publish_typed n e' \<in> set (script h e) \<longrightarrow> rank e' < rank e)"

lemma Publish_internal:
  assumes "Publish_call ty e \<in> set (map (internal_call ids) cs)"
  obtains n e' where "Publish_typed n e' \<in> set cs" and "e = (n, e')"
proof -
  obtain c where c: "c \<in> set cs" "Publish_call ty e = internal_call ids c" using assms by auto
  have "\<exists>n e'. c = Publish_typed n e' \<and> e = (n, e')" using c(2) by (cases c rule: typed_call.exhaust) auto
  with c(1) show thesis using that by blast
qed

lemma typed_run_returns:
  assumes "typed_ranked rank script" and "\<forall>n e. Publish_typed n e \<in> set calls \<longrightarrow> rank e < depth"
  shows "\<exists>r. run_bus_calls (PublishInternal depth (wrapped ids script)) (map (internal_call ids) calls) b = Some r"
proof (rule run_bus_calls_returns [where rank = "rank \<circ> snd" and depth = depth])
  have "rank (snd e') < rank (snd e)" if "Publish_call ty e' \<in> set (wrapped ids script h e b)" for h e b ty e'
    using that assms(1) unfolding wrapped_def typed_ranked_def by (elim Publish_internal) simp
  then have "ranked (rank \<circ> snd) (wrapped ids script)" by (auto simp: ranked_def)
  then show "\<exists>r. PublishInternal depth (wrapped ids script) ty e b = Some r" if "(rank \<circ> snd) e < depth" for ty e b
    using that by (rule Publish_returns)
  have "rank (snd e) < depth" if "Publish_call ty e \<in> set (map (internal_call ids) calls)" for ty e
    using that assms(2) by (elim Publish_internal) simp
  then show "calls_below (rank \<circ> snd) depth (map (internal_call ids) calls)" by (simp add: calls_below_def del: set_map)
qed

text \<open>C32. In a program with at most \<open>2^32\<close> event types every event reaches only handlers of its own type. Over any
  sequence of typed calls on a new bus, with handlers that subscribe, unsubscribe (with any token), clear and publish in
  turn, the calls return when publishing is bounded (the events a handler publishes rank below the one it handles, and
  the depth is above every rank), and in every run, bounded or not, that returns, no wrapper casts the event it is given
  to another type than that with which the event was published.\<close>

theorem events_reach_handlers_of_their_type:
  assumes "card (set names) \<le> 2 ^ 32"
    and "\<forall>c \<in> set calls. call_types c \<subseteq> set names" and "\<forall>h e. \<forall>c \<in> set (script h e). call_types c \<subseteq> set names"
  shows "(typed_ranked rank script \<and> (\<forall>n e. Publish_typed n e \<in> set calls \<longrightarrow> rank e < depth) \<longrightarrow>
      (\<exists>log b. run_bus_calls (PublishInternal depth (wrapped (type_ids_after names) script))
        (map (internal_call (type_ids_after names)) calls) EventBus_new = Some (log, b)))
    \<and> (\<forall>log b. run_bus_calls (PublishInternal depth (wrapped (type_ids_after names) script))
        (map (internal_call (type_ids_after names)) calls) EventBus_new = Some (log, b) \<longrightarrow>
        (\<forall>iv \<in> set log. fst (iv_fn iv) = fst (iv_event iv)))"
proof -
  let ?ids = "type_ids_after names"
  have "bus_typed ?ids (set names) EventBus_new"
    by (simp add: bus_typed_def EventBus_new_def handler_list_def)
  moreover have "casts_ok ?ids (set names) (run_bus_calls (PublishInternal depth (wrapped ?ids script)) (map (internal_call ?ids) calls))"
    by (rule casts_ok_calls) (use casts_ok_Publish [OF type_id_inj [OF assms(1)] assms(3)] assms(2) in auto)
  ultimately show ?thesis using typed_run_returns [of rank script calls depth ?ids EventBus_new] unfolding casts_ok_def by fast
qed

theorem events_reach_handlers_of_their_type_witness:
  "\<exists>log b. run_bus_calls (PublishInternal 6 (wrapped (type_ids_after [''Join'', ''Chat''])
        (\<lambda>h e. if h = (1::nat) then if 0 < e then [Publish_typed ''Chat'' (e - 1 :: nat)] else [] else [])))
      (map (internal_call (type_ids_after [''Join'', ''Chat'']))
        [Subscribe_typed ''Join'' (1::nat), Subscribe_typed ''Chat'' 2, Publish_typed ''Join'' (5::nat)]) EventBus_new = Some (log, b)
    \<and> map (\<lambda>iv. (iv_fn iv, iv_event iv)) log = [((''Join'', 1), (''Join'', 5)), ((''Chat'', 2), (''Chat'', 4))]
    \<and> (\<forall>iv \<in> set log. fst (iv_fn iv) = fst (iv_event iv))"
proof -
  let ?script = "\<lambda>h e. if h = (1::nat) then if 0 < e then [Publish_typed ''Chat'' (e - 1 :: nat)] else [] else []"
  let ?calls = "[Subscribe_typed ''Join'' (1::nat), Subscribe_typed ''Chat'' 2, Publish_typed ''Join'' (5::nat)]"
  have ids: "type_id (type_ids_after [''Join'', ''Chat'']) ''Join'' = 1" "type_id (type_ids_after [''Join'', ''Chat'']) ''Chat'' = 2"
    by (simp_all add: type_id_def type_ids_after_def type_ids_new_def GetEventTypeId_def GenerateNextTypeId_def)
  let ?ids = "type_ids_after [''Join'', ''Chat'']"
  have ranked: "typed_ranked id ?script \<and> (\<forall>n e. Publish_typed n e \<in> set ?calls \<longrightarrow> id e < 6)"
    by (auto simp: typed_ranked_def)
  have "(typed_ranked id ?script \<and> (\<forall>n e. Publish_typed n e \<in> set ?calls \<longrightarrow> id e < 6) \<longrightarrow>
      (\<exists>log b. run_bus_calls (PublishInternal 6 (wrapped ?ids ?script)) (map (internal_call ?ids) ?calls) EventBus_new = Some (log, b)))
    \<and> (\<forall>log b. run_bus_calls (PublishInternal 6 (wrapped ?ids ?script)) (map (internal_call ?ids) ?calls) EventBus_new = Some (log, b) \<longrightarrow>
        (\<forall>iv \<in> set log. fst (iv_fn iv) = fst (iv_event iv)))"
    by (rule events_reach_handlers_of_their_type) simp_all
  with ranked obtain log b where run: "run_bus_calls (PublishInternal 6 (wrapped ?ids ?script)) (map (internal_call ?ids) ?calls)
      EventBus_new = Some (log, b)" and casts: "\<forall>iv \<in> set log. fst (iv_fn iv) = fst (iv_event iv)"
    by blast
  have "map (\<lambda>iv. (iv_fn iv, iv_event iv)) log = [((''Join'', 1), (''Join'', 5)), ((''Chat'', 2), (''Chat'', 4))]"
    using run
    by (simp add: ids wrapped_def EventBus_new_def SubscribeInternal_def RebuildSnapshot_def active_def Let_def
        numeral_eq_Suc) auto
  with run casts show ?thesis by (intro exI [of _ log] exI [of _ b] conjI)
qed

end
