(* ===== verification/Config_System.thy ===== *)
theory Config_System
  imports Prelude
begin

text \<open>
  The configuration system (\<open>infrastructure/ConfigSystem\<close>). The file system is a parameter: a map
  from paths to contents for \<open>std::ifstream\<close>, and the three queries \<open>FileConfigSource\<close> makes. A
  parser is a function that returns a result and the new storage, \<open>None\<close> standing for a thrown
  exception. A \<open>double\<close> is its bit pattern. The locale \<open>config_parser\<close> is the contract of
  \<open>IConfigParser\<close>; \<open>Load\<close> and \<open>Clear\<close> hold the mutex throughout and are atomic here. The line counter
  of \<open>ParseFile\<close> is written and never read, and is left out.
\<close>

section \<open>Keys, values and results\<close>

type_synonym ConfigKey = string
type_synonym path = string

datatype ConfigValueType = Boolean | Integer | Double | String

datatype ConfigValue =
    Bool_value bool
  | Int_value "64 word"
  | Double_value "64 word"
  | String_value string

fun type_of_value :: "ConfigValue \<Rightarrow> ConfigValueType" where
  "type_of_value (Bool_value _) = Boolean"
| "type_of_value (Int_value _) = Integer"
| "type_of_value (Double_value _) = Double"
| "type_of_value (String_value _) = String"

type_synonym storage = "ConfigKey \<rightharpoonup> ConfigValue"

record parse_error =
  er_message :: string
  er_file :: string
  er_line :: int

record parse_result =
  pr_success :: bool
  pr_errors :: "parse_error list"

type_synonym parser = "path \<Rightarrow> storage \<Rightarrow> parse_result option \<times> storage"

section \<open>KeyValueConfigParser\<close>

text \<open>\<open>std::getline\<close> until it fails: the text after the last newline is a line unless it is empty.\<close>

abbreviation newline :: char where
  "newline \<equiv> CHR 0x0A"

function getlines :: "string \<Rightarrow> string list" where
  "getlines [] = []"
| "getlines (c # cs) =
     takeWhile (\<lambda>x. x \<noteq> newline) (c # cs)
       # getlines (drop (Suc (length (takeWhile (\<lambda>x. x \<noteq> newline) (c # cs)))) (c # cs))"
  by pat_completeness auto
termination by (relation "measure length") auto

definition parse_line :: "string \<Rightarrow> storage \<Rightarrow> storage" where
  "parse_line line out =
     (if line = [] \<or> hd line = CHR ''#'' then out
      else let pos = length (takeWhile (\<lambda>x. x \<noteq> CHR ''='') line) in
        if pos = length line then out
        else let key = take pos line; value = drop (pos + 1) line
          in out(key \<mapsto> String_value value))"

definition KeyValue_ParseFile :: "(path \<rightharpoonup> string) \<Rightarrow> parser" where
  "KeyValue_ParseFile fs path out =
     (case fs path of
        None \<Rightarrow> (Some \<lparr>pr_success = False,
                   pr_errors = [\<lparr>er_message = ''Cannot open target file'', er_file = path, er_line = 0\<rparr>]\<rparr>, out)
      | Some text \<Rightarrow> (Some \<lparr>pr_success = True, pr_errors = []\<rparr>, fold parse_line (getlines text) out))"

section \<open>ConfigSystem\<close>

datatype config_error = ConfigNotFound ConfigKey | ConfigTypeMismatch ConfigKey

record config_system =
  cs_storage :: storage
  cs_loaded :: bool
  cs_parser :: parser

definition ConfigSystem_new :: "(path \<rightharpoonup> string) \<Rightarrow> parser option \<Rightarrow> config_system" where
  "ConfigSystem_new fs parser =
     \<lparr>cs_storage = Map.empty, cs_loaded = False,
      cs_parser = (case parser of None \<Rightarrow> KeyValue_ParseFile fs | Some p \<Rightarrow> p)\<rparr>"

text \<open>The loop over the paths: the result is \<open>None\<close> when a parser throws.\<close>

fun load_paths :: "parser \<Rightarrow> path list \<Rightarrow> storage \<Rightarrow> bool option \<times> storage" where
  "load_paths parser [] s = (Some True, s)"
| "load_paths parser (p # ps) s =
     (case parser p s of
        (None, s') \<Rightarrow> (None, s')
      | (Some r, s') \<Rightarrow> if \<not> pr_success r then (Some False, Map.empty) else load_paths parser ps s')"

definition Load :: "path list \<Rightarrow> config_system \<Rightarrow> bool \<times> config_system" where
  "Load paths c =
     (if cs_loaded c then (False, c)
      else case load_paths (cs_parser c) paths Map.empty of
          (None, s) \<Rightarrow> (False, c\<lparr>cs_storage := Map.empty, cs_loaded := False\<rparr>)
        | (Some False, s) \<Rightarrow> (False, c\<lparr>cs_storage := s\<rparr>)
        | (Some True, s) \<Rightarrow> (True, c\<lparr>cs_storage := s, cs_loaded := True\<rparr>))"

definition Config_Clear :: "config_system \<Rightarrow> config_system" where
  "Config_Clear c = c\<lparr>cs_storage := Map.empty, cs_loaded := False\<rparr>"

definition IsLoaded :: "config_system \<Rightarrow> bool" where
  "IsLoaded c = cs_loaded c"

text \<open>\<open>Get<TValue>\<close> and \<open>TryGet<TValue>\<close> with the alternative of the variant as an argument.\<close>

definition Get :: "ConfigValueType \<Rightarrow> ConfigKey \<Rightarrow> config_system \<Rightarrow> config_error + ConfigValue" where
  "Get ty key c =
     (case cs_storage c key of
        None \<Rightarrow> Inl (ConfigNotFound key)
      | Some v \<Rightarrow> if type_of_value v \<noteq> ty then Inl (ConfigTypeMismatch key) else Inr v)"

definition TryGet :: "ConfigValueType \<Rightarrow> ConfigKey \<Rightarrow> config_system \<Rightarrow> ConfigValue option" where
  "TryGet ty key c =
     (case cs_storage c key of
        None \<Rightarrow> None
      | Some v \<Rightarrow> if type_of_value v = ty then Some v else None)"

section \<open>FileConfigSource\<close>

record file_system =
  is_regular_file :: "path \<Rightarrow> bool"
  path_exists :: "path \<Rightarrow> bool"
  recursive_entries :: "path \<Rightarrow> path list"

definition Collect_paths :: "file_system \<Rightarrow> path \<Rightarrow> path list" where
  "Collect_paths fs root =
     (if is_regular_file fs root then [root]
      else if \<not> path_exists fs root then []
      else filter (is_regular_file fs) (recursive_entries fs root))"

section \<open>The contract of IConfigParser\<close>

text \<open>
  A parser that succeeds overrides the storage with the contents of the file; one that reports an
  error leaves the decision to \<open>Load\<close>. Later files override earlier ones.
\<close>

definition merged :: "(path \<Rightarrow> storage) \<Rightarrow> path list \<Rightarrow> storage" where
  "merged contents paths = foldl (\<lambda>s p. s ++ contents p) Map.empty paths"

locale config_parser =
  fixes parse :: parser
    and readable :: "path \<Rightarrow> bool"
    and contents :: "path \<Rightarrow> storage"
  assumes parse_ok: "readable p \<Longrightarrow> \<exists>r. parse p s = (Some r, s ++ contents p) \<and> pr_success r"
    and parse_error: "\<not> readable p \<Longrightarrow> \<exists>r s'. parse p s = (r, s') \<and> (\<forall>r'. r = Some r' \<longrightarrow> \<not> pr_success r')"
begin

lemma load_paths_ok:
  "\<forall>p \<in> set paths. readable p \<Longrightarrow>
     load_paths parse paths s = (Some True, foldl (\<lambda>s p. s ++ contents p) s paths)"
proof (induction paths arbitrary: s)
  case Nil
  then show ?case by simp
next
  case (Cons p ps)
  then obtain r where "parse p s = (Some r, s ++ contents p)" "pr_success r"
    using parse_ok [of p s] by auto
  with Cons show ?case by simp
qed

lemma load_paths_fails:
  "\<exists>p \<in> set paths. \<not> readable p \<Longrightarrow> fst (load_paths parse paths s) \<noteq> Some True"
proof (induction paths arbitrary: s)
  case Nil
  then show ?case by simp
next
  case (Cons p ps)
  show ?case
  proof (cases "readable p")
    case True
    then show ?thesis using Cons parse_ok [of p s] by auto
  next
    case False
    then show ?thesis using parse_error [of p s] by (auto split: option.splits)
  qed
qed

lemma Load_spec:
  assumes "cs_parser c = parse" and "\<not> cs_loaded c"
  shows "Load paths c =
     (if \<forall>p \<in> set paths. readable p then (True, c\<lparr>cs_storage := merged contents paths, cs_loaded := True\<rparr>)
      else (False, c\<lparr>cs_storage := Map.empty, cs_loaded := False\<rparr>))"
proof (cases "\<forall>p \<in> set paths. readable p")
  case True
  then show ?thesis using assms load_paths_ok by (simp add: Load_def merged_def)
next
  case False
  have empty: "s = Map.empty" if "load_paths parse ps s0 = (Some False, s)" for ps s0 s
    using that by (induction ps arbitrary: s0) (auto split: prod.splits option.splits if_splits)
  show ?thesis
  proof (cases "load_paths parse paths Map.empty")
    case (Pair r s)
    then show ?thesis
      using False assms load_paths_fails [of paths Map.empty] empty [of paths Map.empty s]
      by (cases r) (auto simp: Load_def split: bool.splits)
  qed
qed

end

definition entry_of :: "string \<Rightarrow> storage" where
  "entry_of line = parse_line line Map.empty"

definition file_storage :: "string \<Rightarrow> storage" where
  "file_storage text = fold parse_line (getlines text) Map.empty"

lemma parse_line_add: "parse_line line s = s ++ entry_of line"
  by (simp add: entry_of_def parse_line_def Let_def)

lemma fold_parse_line: "fold parse_line lines s = s ++ fold parse_line lines Map.empty"
proof (induction lines arbitrary: s)
  case Nil
  show ?case by simp
next
  case (Cons l ls)
  have "fold parse_line ls (parse_line l s) = s ++ (entry_of l ++ fold parse_line ls Map.empty)"
    by (subst Cons.IH) (simp add: parse_line_add)
  also have "entry_of l ++ fold parse_line ls Map.empty = fold parse_line ls (parse_line l Map.empty)"
    by (subst (2) Cons.IH) (simp add: entry_of_def)
  finally show ?case by simp
qed

interpretation key_value: config_parser "KeyValue_ParseFile fs" "\<lambda>p. fs p \<noteq> None"
  "\<lambda>p. case fs p of None \<Rightarrow> Map.empty | Some text \<Rightarrow> file_storage text" for fs
proof unfold_locales
  fix p and s :: storage
  show "\<exists>r. KeyValue_ParseFile fs p s
      = (Some r, s ++ (case fs p of None \<Rightarrow> Map.empty | Some text \<Rightarrow> file_storage text)) \<and> pr_success r"
    if "fs p \<noteq> None"
    using that by (auto simp: KeyValue_ParseFile_def file_storage_def fold_parse_line [of _ s])
  show "\<exists>r s'. KeyValue_ParseFile fs p s = (r, s') \<and> (\<forall>r'. r = Some r' \<longrightarrow> \<not> pr_success r')"
    if "\<not> fs p \<noteq> None"
    using that by (auto simp: KeyValue_ParseFile_def)
qed

section \<open>Lines and entries\<close>

fun render :: "(string \<times> string) list \<Rightarrow> string" where
  "render [] = []"
| "render ((k, v) # es) = k @ CHR ''='' # v @ newline # render es"

definition entry_ok :: "string \<times> string \<Rightarrow> bool" where
  "entry_ok e \<longleftrightarrow> (case e of (k, v) \<Rightarrow> CHR ''='' \<notin> set k \<and> newline \<notin> set k \<and> newline \<notin> set v
     \<and> (k \<noteq> [] \<longrightarrow> hd k \<noteq> CHR ''#''))"

lemma takeWhile_before: "x \<notin> set xs \<Longrightarrow> takeWhile (\<lambda>y. y \<noteq> x) (xs @ x # ys) = xs"
  by (induction xs) auto

lemma getlines_line:
  assumes "newline \<notin> set l"
  shows "getlines (l @ newline # rest) = l # getlines rest"
proof -
  obtain c cs where cs: "l @ newline # rest = c # cs" by (cases "l @ newline # rest") auto
  have "drop (Suc (length l)) (c # cs) = rest" by (subst cs [symmetric]) simp
  moreover note cs
  moreover have "takeWhile (\<lambda>x. x \<noteq> newline) (l @ newline # rest) = l"
    using assms by (rule takeWhile_before)
  ultimately show ?thesis
    using getlines.simps(2) [of c cs] by simp
qed

lemma parse_line_entry:
  assumes "entry_ok (k, v)"
  shows "parse_line (k @ CHR ''='' # v) s = s(k \<mapsto> String_value v)"
proof -
  have "takeWhile (\<lambda>x. x \<noteq> CHR ''='') (k @ CHR ''='' # v) = k"
    using assms by (intro takeWhile_before) (simp add: entry_ok_def)
  then show ?thesis
    using assms by (cases k) (auto simp: parse_line_def Let_def entry_ok_def)
qed

lemma fold_render:
  "\<forall>e \<in> set es. entry_ok e \<Longrightarrow>
     fold parse_line (getlines (render es)) s = s ++ map_of (rev (map (\<lambda>(k, v). (k, String_value v)) es))"
proof (induction es arbitrary: s rule: render.induct)
  case 1
  show ?case by simp
next
  case (2 k v es)
  have "getlines (render ((k, v) # es)) = (k @ CHR ''='' # v) # getlines (render es)"
    using getlines_line [of "k @ CHR ''='' # v" "render es"] 2(2) by (simp add: entry_ok_def)
  then show ?case
    using 2 parse_line_entry [of k v s] by (simp add: map_add_def fun_eq_iff split: option.splits)
qed

lemma only_strings: "s k = Some w \<Longrightarrow> \<exists>v. w = String_value v" if "s = fold parse_line ls Map.empty" for s k w
  using that
proof (induction ls arbitrary: s rule: rev_induct)
  case Nil
  then show ?case by simp
next
  case (snoc l ls)
  then show ?case by (auto simp: parse_line_def Let_def split: if_splits)
qed

section \<open>Properties\<close>

text \<open>\<open>Load\<close> is all or nothing with the default parser: on a system that is not loaded it succeeds
  exactly when every file can be opened, and then holds the entries of all files, later files
  overriding earlier ones; otherwise nothing is left of them. A loaded system refuses a second
  load and keeps its values.\<close>

theorem load_all_or_nothing:
  assumes "cs_parser c = KeyValue_ParseFile fs"
  shows "Load paths c =
    (if IsLoaded c then (False, c)
     else if \<forall>p \<in> set paths. fs p \<noteq> None
     then (True, c\<lparr>cs_storage := merged (\<lambda>p. case fs p of None \<Rightarrow> Map.empty | Some text \<Rightarrow> file_storage text) paths,
            cs_loaded := True\<rparr>)
     else (False, c\<lparr>cs_storage := Map.empty, cs_loaded := False\<rparr>))"
  using key_value.Load_spec [OF assms, of paths] by (simp add: IsLoaded_def Load_def)

definition two_files :: "path \<rightharpoonup> string" where
  "two_files = [''a'' \<mapsto> ''k=1'' @ [newline] @ ''x=2'', ''b'' \<mapsto> ''# c'' @ [newline] @ ''k=3'' @ [newline]]"

theorem load_all_or_nothing_witness:
  "fst (Load [''a'', ''b''] (ConfigSystem_new two_files None))
   \<and> Get String ''k'' (snd (Load [''a'', ''b''] (ConfigSystem_new two_files None))) = Inr (String_value ''3'')
   \<and> \<not> fst (Load [''a'', ''c''] (ConfigSystem_new two_files None))"
proof -
  have "cs_parser (ConfigSystem_new two_files None) = KeyValue_ParseFile two_files"
    by (simp add: ConfigSystem_new_def)
  note load = load_all_or_nothing [OF this]
  have a: "file_storage (''k=1'' @ [newline] @ ''x=2'') ''k'' = Some (String_value ''1'')"
    and b: "file_storage (''# c'' @ [newline] @ ''k=3'' @ [newline]) ''k'' = Some (String_value ''3'')"
    by (simp_all add: file_storage_def parse_line_def Let_def)
  show ?thesis
    unfolding load using a b by (simp add: IsLoaded_def ConfigSystem_new_def two_files_def merged_def Get_def map_add_def)
qed

text \<open>Whatever the parser does, and whether it fails or throws at any file, a failed \<open>Load\<close> leaves
  the system as it was if it was loaded, and empty and not loaded otherwise: no partial
  configuration is ever visible.\<close>

theorem failed_load_leaves_nothing:
  assumes "Load paths c = (False, c')"
  shows "(IsLoaded c \<and> c' = c) \<or> (\<not> IsLoaded c' \<and> cs_storage c' = Map.empty)"
proof -
  have "s = Map.empty" if "load_paths parser ps s0 = (Some False, s)" for parser ps s0 s
    using that by (induction ps arbitrary: s0) (auto split: prod.splits option.splits if_splits)
  then show ?thesis
    using assms by (auto simp: Load_def IsLoaded_def split: if_splits option.splits bool.splits prod.splits)
qed

theorem failed_load_leaves_nothing_witness:
  "\<exists>c'. Load [''a''] (ConfigSystem_new two_files (Some (\<lambda>p s. (None, s(p \<mapsto> Bool_value True))))) = (False, c')
     \<and> cs_storage c' = Map.empty"
proof -
  let ?c = "ConfigSystem_new two_files (Some (\<lambda>p s. (None, s(p \<mapsto> Bool_value True))))"
  have "Load [''a''] ?c = (False, ?c\<lparr>cs_storage := Map.empty, cs_loaded := False\<rparr>)"
    by (simp add: Load_def ConfigSystem_new_def)
  from failed_load_leaves_nothing [OF this] this show ?thesis by (auto simp: ConfigSystem_new_def IsLoaded_def)
qed

text \<open>C27. A file of entries written one per line as \<open>key=value\<close> is read back as those entries, the
  last one of a key winning; keys hold no equals sign and do not begin with a number sign, and
  neither part holds a newline.\<close>

theorem parse_rendered_entries:
  assumes "\<forall>e \<in> set es. entry_ok e" and "fs p = Some (render es)"
  shows "KeyValue_ParseFile fs p out
    = (Some \<lparr>pr_success = True, pr_errors = []\<rparr>, out ++ map_of (rev (map (\<lambda>(k, v). (k, String_value v)) es)))"
  using assms by (simp add: KeyValue_ParseFile_def fold_render)

theorem parse_rendered_entries_witness:
  "snd (KeyValue_ParseFile [''f'' \<mapsto> render [(''port'', ''80''), (''name'', ''a=b''), (''port'', ''81'')]] ''f'' Map.empty) ''port''
     = Some (String_value ''81'')"
  using parse_rendered_entries [of "[(''port'', ''80''), (''name'', ''a=b''), (''port'', ''81'')]"
      "[''f'' \<mapsto> render [(''port'', ''80''), (''name'', ''a=b''), (''port'', ''81'')]]" "''f''" Map.empty]
  by (simp add: entry_ok_def)

text \<open>After a load with the default parser every value is a string: \<open>Get\<close> and \<open>TryGet\<close> of any
  other alternative fail for every key, and they agree.\<close>

theorem default_values_are_strings:
  assumes "cs_parser c = KeyValue_ParseFile fs" and "Load paths c = (True, c')" and "ty \<noteq> String"
  shows "TryGet ty key c' = None
    \<and> Get ty key c' = Inl (if cs_storage c' key = None then ConfigNotFound key else ConfigTypeMismatch key)"
proof -
  let ?contents = "\<lambda>p. case fs p of None \<Rightarrow> Map.empty | Some text \<Rightarrow> file_storage text"
  have str: "\<exists>v. w = String_value v" if "s k = Some w" "s = foldl (\<lambda>s p. s ++ ?contents p) Map.empty ps" for s k w ps
    using that
  proof (induction ps arbitrary: s rule: rev_induct)
    case Nil
    then show ?case by simp
  next
    case (snoc p ps)
    then show ?case
      by (auto simp: map_add_Some_iff file_storage_def dest: only_strings [OF refl] split: option.splits)
  qed
  have "\<not> cs_loaded c" using assms(2) by (auto simp: Load_def)
  then have "c' = c\<lparr>cs_storage := merged ?contents paths, cs_loaded := True\<rparr>"
    using key_value.Load_spec [OF assms(1), of paths] assms(2) by (auto split: if_splits)
  then have "\<exists>v. w = String_value v" if "cs_storage c' key = Some w" for w
    using that str [OF _ refl] by (auto simp: merged_def)
  then show ?thesis using assms(3) by (auto simp: TryGet_def Get_def split: option.splits)
qed

theorem default_values_are_strings_witness:
  "Get Integer ''k'' (snd (Load [''a''] (ConfigSystem_new two_files None))) = Inl (ConfigTypeMismatch ''k'')"
proof -
  let ?c = "ConfigSystem_new two_files None" and ?c' = "snd (Load [''a''] (ConfigSystem_new two_files None))"
  have k: "cs_storage ?c' ''k'' = Some (String_value ''1'')" "Load [''a''] ?c = (True, ?c')"
    by (simp_all add: Load_def ConfigSystem_new_def KeyValue_ParseFile_def two_files_def parse_line_def Let_def)
  have "cs_parser ?c = KeyValue_ParseFile two_files" by (simp add: ConfigSystem_new_def)
  from default_values_are_strings [OF this k(2), of Integer "''k''"] k(1) show ?thesis by simp
qed

text \<open>A root that does not exist yields no path, and loading no path succeeds with an empty
  configuration.\<close>

theorem missing_root_loads_empty:
  assumes "\<not> is_regular_file fs root" and "\<not> path_exists fs root" and "\<not> IsLoaded c"
  shows "Load (Collect_paths fs root) c = (True, c\<lparr>cs_storage := Map.empty, cs_loaded := True\<rparr>)"
  using assms by (simp add: Collect_paths_def Load_def IsLoaded_def)

theorem missing_root_loads_empty_witness:
  "fst (Load (Collect_paths \<lparr>is_regular_file = \<lambda>_. False, path_exists = \<lambda>_. False, recursive_entries = \<lambda>_. []\<rparr> ''conf'')
     (ConfigSystem_new Map.empty None))"
  using missing_root_loads_empty
    [of "\<lparr>is_regular_file = \<lambda>_. False, path_exists = \<lambda>_. False, recursive_entries = \<lambda>_. []\<rparr>" "''conf''"
      "ConfigSystem_new Map.empty None"]
  by (simp add: IsLoaded_def ConfigSystem_new_def)

end
