(* ===== verification/Config_Races.thy ===== *)
theory Config_Races
  imports Config_System
begin

text \<open>
  The configuration system used by several threads (\<open>infrastructure/ConfigSystem\<close>). \<open>Load\<close>, \<open>Clear\<close> and
  \<open>IsLoaded\<close> hold the mutex throughout and are one step each, with one exception: when the parser throws, the
  lock is released on the way out of the \<open>try\<close> block and the handler \<open>catch (...)\<close> clears the members without it.
  That handler is a step of its own here. (\<open>Get\<close> and \<open>TryGet\<close> take no lock; they are meant for the time after loading.)
\<close>

section \<open>Load in two parts\<close>

text \<open>The \<open>try\<close> block: \<open>None\<close> when the parser throws. Then the \<open>catch\<close> block.\<close>

definition Load_try :: "path list \<Rightarrow> config_system \<Rightarrow> bool option \<times> config_system" where
  "Load_try paths c =
     (if cs_loaded c then (Some False, c)
      else case load_paths (cs_parser c) paths Map.empty of
          (None, s) \<Rightarrow> (None, c\<lparr>cs_storage := s\<rparr>)
        | (Some False, s) \<Rightarrow> (Some False, c\<lparr>cs_storage := s\<rparr>)
        | (Some True, s) \<Rightarrow> (Some True, c\<lparr>cs_storage := s, cs_loaded := True\<rparr>))"

definition Load_catch :: "config_system \<Rightarrow> config_system" where
  "Load_catch c = c\<lparr>cs_storage := Map.empty, cs_loaded := False\<rparr>"

lemma Load_in_parts:
  "Load paths c = (case Load_try paths c of (None, c') \<Rightarrow> (False, Load_catch c') | (Some b, c') \<Rightarrow> (b, c'))"
  by (auto simp: Load_def Load_try_def Load_catch_def split: prod.splits option.splits bool.splits)

section \<open>Threads\<close>

datatype config_call = Load_call "path list" | Clear_call | IsLoaded_call

text \<open>A thread outside the system, or in the \<open>catch\<close> block of a \<open>Load\<close>.\<close>

datatype config_pc = Outside | Catching "path list"

record config_race =
  cx_system :: config_system
  cx_pcs :: "config_pc list"
  cx_returned :: "(nat \<times> config_call \<times> bool) list"

text \<open>\<open>cx_returned\<close>: the calls that returned, with their thread and answer (\<open>True\<close> for \<open>Clear\<close>).\<close>

definition config_race_start :: "nat \<Rightarrow> config_system \<Rightarrow> config_race" where
  "config_race_start n c = \<lparr>cx_system = c, cx_pcs = replicate n Outside, cx_returned = []\<rparr>"

definition returned :: "nat \<Rightarrow> config_call \<Rightarrow> bool \<Rightarrow> config_system \<Rightarrow> config_race \<Rightarrow> config_race" where
  "returned t call b c s = s\<lparr>cx_system := c, cx_pcs := (cx_pcs s)[t := Outside], cx_returned := cx_returned s @ [(t, call, b)]\<rparr>"

text \<open>The step of thread \<open>t\<close>: \<open>call\<close> is the call it makes when it is outside.\<close>

definition config_step :: "nat \<Rightarrow> config_call \<Rightarrow> config_race \<Rightarrow> config_race option" where
  "config_step t call s =
     (if t \<ge> length (cx_pcs s) then None
      else case cx_pcs s ! t of
          Catching paths \<Rightarrow> Some (returned t (Load_call paths) False (Load_catch (cx_system s)) s)
        | Outside \<Rightarrow>
            (case call of
               Clear_call \<Rightarrow> Some (returned t call True (Config_Clear (cx_system s)) s)
             | IsLoaded_call \<Rightarrow> Some (returned t call (IsLoaded (cx_system s)) (cx_system s) s)
             | Load_call paths \<Rightarrow>
                 (case Load_try paths (cx_system s) of
                    (None, c) \<Rightarrow> Some (s\<lparr>cx_system := c, cx_pcs := (cx_pcs s)[t := Catching paths]\<rparr>)
                  | (Some b, c) \<Rightarrow> Some (returned t call b c s))))"

inductive config_reachable :: "nat \<Rightarrow> config_system \<Rightarrow> config_race \<Rightarrow> bool" for n :: nat and c :: config_system where
  start: "config_reachable n c (config_race_start n c)"
| step: "config_reachable n c s \<Longrightarrow> config_step t call s = Some s' \<Longrightarrow> config_reachable n c s'"

section \<open>Parsers that do not throw\<close>

text \<open>What the answers since the last \<open>Clear\<close> say: the paths of the \<open>Load\<close> that succeeded, if any. A second
  success without a \<open>Clear\<close> between would be lost here, so \<open>answers_ok\<close> excludes it.\<close>

fun winner :: "(nat \<times> config_call \<times> bool) list \<Rightarrow> path list option" where
  "winner [] = None"
| "winner ((t, Load_call paths, b) # rs) = (if b then Some paths else winner rs)"
| "winner ((t, Clear_call, b) # rs) = None"
| "winner ((t, IsLoaded_call, b) # rs) = winner rs"

text \<open>The newest answer first: a \<open>Load\<close> succeeds only when nothing is loaded and every file can be read, and then it does;
  \<open>IsLoaded\<close> tells whether a \<open>Load\<close> won.\<close>

fun answers_ok :: "(path \<Rightarrow> bool) \<Rightarrow> (nat \<times> config_call \<times> bool) list \<Rightarrow> bool" where
  "answers_ok readable [] = True"
| "answers_ok readable ((t, Load_call paths, b) # rs) =
     (b = (winner rs = None \<and> list_all readable paths) \<and> answers_ok readable rs)"
| "answers_ok readable ((t, Clear_call, b) # rs) = answers_ok readable rs"
| "answers_ok readable ((t, IsLoaded_call, b) # rs) = (b = (winner rs \<noteq> None) \<and> answers_ok readable rs)"

definition holds_winner :: "(path \<Rightarrow> storage) \<Rightarrow> path list option \<Rightarrow> config_system \<Rightarrow> bool" where
  "holds_winner contents w c \<longleftrightarrow> cs_loaded c = (w \<noteq> None) \<and>
     cs_storage c = (case w of None \<Rightarrow> Map.empty | Some paths \<Rightarrow> merged contents paths)"

context config_parser
begin

definition never_throws :: bool where
  "never_throws \<longleftrightarrow> (\<forall>p s. fst (parse p s) \<noteq> None)"

lemma load_paths_returns: "never_throws \<Longrightarrow> fst (load_paths parse paths s) \<noteq> None"
proof (induction paths arbitrary: s)
  case (Cons p ps)
  obtain r s' where "parse p s = (Some r, s')"
    using Cons.prems by (cases "parse p s") (auto simp: never_throws_def dest: spec [of _ p] dest!: spec [of _ s])
  then show ?case using Cons by auto
qed simp

lemma Load_try_spec:
  assumes "never_throws" and "cs_parser c = parse" and "\<not> cs_loaded c"
  shows "Load_try paths c =
     (if list_all readable paths then (Some True, c\<lparr>cs_storage := merged contents paths, cs_loaded := True\<rparr>)
      else (Some False, c\<lparr>cs_storage := Map.empty\<rparr>))"
proof -
  have "fst (Load_try paths c) \<noteq> None"
    using load_paths_returns [OF assms(1), of paths Map.empty] assms(2,3)
    by (auto simp: Load_try_def split: prod.splits option.splits bool.splits)
  then obtain b c' where b: "Load_try paths c = (Some b, c')" by (cases "Load_try paths c") auto
  then have "Load paths c = (b, c')" by (simp add: Load_in_parts)
  moreover have "c\<lparr>cs_storage := s, cs_loaded := False\<rparr> = c\<lparr>cs_storage := s\<rparr>" for s
    using assms(3) by (cases c) simp
  ultimately show ?thesis using b Load_spec [OF assms(2,3), of paths] by (simp add: list_all_iff split: if_splits)
qed

definition race_ok :: "config_race \<Rightarrow> bool" where
  "race_ok s \<longleftrightarrow> cs_parser (cx_system s) = parse \<and> set (cx_pcs s) \<subseteq> {Outside} \<and>
     answers_ok readable (rev (cx_returned s)) \<and> holds_winner contents (winner (rev (cx_returned s))) (cx_system s)"

lemma race_ok_step:
  assumes "never_throws" and ok: "race_ok s" and step: "config_step t call s = Some s'"
  shows "race_ok s'"
proof -
  have t: "t < length (cx_pcs s)" using step by (auto simp: config_step_def split: if_splits)
  then have pc: "cx_pcs s ! t = Outside" using ok nth_mem by (fastforce simp: race_ok_def)
  have outside: "set ((cx_pcs s)[t := Outside]) \<subseteq> {Outside}"
    using ok set_update_subset_insert [of "cx_pcs s" t Outside] by (auto simp: race_ok_def)
  show ?thesis
  proof (cases call)
    case (Load_call paths)
    show ?thesis
    proof (cases "cs_loaded (cx_system s)")
      case True
      then have "s' = returned t call False (cx_system s) s"
        using step t pc Load_call by (simp add: config_step_def Load_try_def)
      then show ?thesis
        using ok outside True Load_call by (auto simp: race_ok_def returned_def holds_winner_def)
    next
      case False
      have "cs_parser (cx_system s) = parse" using ok by (simp add: race_ok_def)
      note spec = Load_try_spec [OF assms(1) this False, of paths]
      show ?thesis
        using ok outside step t pc False Load_call spec
        by (auto simp: config_step_def race_ok_def returned_def holds_winner_def split: if_splits)
    qed
  next
    case Clear_call
    then have "s' = returned t call True (Config_Clear (cx_system s)) s" using step t pc by (simp add: config_step_def)
    then show ?thesis using ok outside Clear_call by (simp add: race_ok_def returned_def holds_winner_def Config_Clear_def)
  next
    case IsLoaded_call
    then have "s' = returned t call (IsLoaded (cx_system s)) (cx_system s) s" using step t pc by (simp add: config_step_def)
    then show ?thesis using ok outside IsLoaded_call by (simp add: race_ok_def returned_def holds_winner_def IsLoaded_def)
  qed
qed

lemma race_ok_reachable:
  assumes "config_reachable n c s" and "never_throws"
    and "cs_parser c = parse" and "\<not> cs_loaded c" and "cs_storage c = Map.empty"
  shows "race_ok s"
  using assms
proof (induction rule: config_reachable.induct)
  case start
  then show ?case by (auto simp: race_ok_def config_race_start_def holds_winner_def)
next
  case (step s t call s')
  then show ?case using race_ok_step by blast
qed

end

lemma key_value_never_throws: "key_value.never_throws fs"
  by (simp add: key_value.never_throws_def KeyValue_ParseFile_def split: option.split)

section \<open>Properties\<close>

text \<open>C26. With the default parser, however the calls of any number of threads interleave, a \<open>Load\<close> succeeds exactly
  when every file can be opened and no \<open>Load\<close> has succeeded since the last \<open>Clear\<close>; \<open>IsLoaded\<close> tells whether one has;
  and the system always holds the whole configuration of that \<open>Load\<close> and of no other, or nothing.\<close>

theorem one_load_wins:
  assumes "config_reachable n (ConfigSystem_new fs None) s"
  shows "answers_ok (\<lambda>p. fs p \<noteq> None) (rev (cx_returned s)) \<and>
    holds_winner (\<lambda>p. case fs p of None \<Rightarrow> Map.empty | Some text \<Rightarrow> file_storage text)
      (winner (rev (cx_returned s))) (cx_system s)"
proof -
  have "key_value.race_ok fs s"
    by (rule key_value.race_ok_reachable [OF assms key_value_never_throws]) (simp_all add: ConfigSystem_new_def)
  then show ?thesis unfolding key_value.race_ok_def by blast
qed

fun config_run :: "(nat \<times> config_call) list \<Rightarrow> config_race \<Rightarrow> config_race option" where
  "config_run [] s = Some s"
| "config_run ((t, call) # rest) s = (case config_step t call s of None \<Rightarrow> None | Some s' \<Rightarrow> config_run rest s')"

lemma config_run_reachable:
  "config_run schedule s = Some s' \<Longrightarrow> config_reachable n c s \<Longrightarrow> config_reachable n c s'"
  by (induction schedule s rule: config_run.induct) (auto split: option.splits intro: config_reachable.step)

theorem one_load_wins_witness:
  "\<exists>s. config_reachable 2 (ConfigSystem_new two_files None) s
    \<and> cx_returned s = [(0, Load_call [''c''], False), (1, Load_call [''a''], True), (0, Load_call [''b''], False)]
    \<and> cs_loaded (cx_system s)"
proof -
  define s where "s = the (config_run [(0, Load_call [''c'']), (1, Load_call [''a'']), (0, Load_call [''b''])]
      (config_race_start 2 (ConfigSystem_new two_files None)))"
  have run: "config_run [(0, Load_call [''c'']), (1, Load_call [''a'']), (0, Load_call [''b''])]
      (config_race_start 2 (ConfigSystem_new two_files None)) = Some s"
    and r: "cx_returned s = [(0, Load_call [''c''], False), (1, Load_call [''a''], True), (0, Load_call [''b''], False)]"
    by (simp_all add: s_def config_race_start_def ConfigSystem_new_def config_step_def Load_try_def returned_def
        KeyValue_ParseFile_def two_files_def numeral_2_eq_2)
  have "config_reachable 2 (ConfigSystem_new two_files None) s"
    by (rule config_run_reachable [OF run config_reachable.start])
  with one_load_wins [OF this] r show ?thesis by (auto simp: holds_winner_def)
qed

text \<open>C38. When the parser throws, the \<open>catch\<close> block of that \<open>Load\<close> clears the members after the lock was released: another thread's
  \<open>Load\<close> can return \<open>True\<close> in between, and its configuration is gone with no \<open>Clear\<close> having been called.\<close>

theorem failed_load_wipes_another_configuration:
  assumes "fst (load_paths parser bad Map.empty) = None" and "load_paths parser good Map.empty = (Some True, m)"
  shows "\<exists>s1 s2. config_reachable 2 (ConfigSystem_new fs (Some parser)) s1 \<and> config_step 0 IsLoaded_call s1 = Some s2
    \<and> cx_returned s1 = [(1, Load_call good, True)] \<and> IsLoaded (cx_system s1) \<and> cs_storage (cx_system s1) = m
    \<and> cx_returned s2 = [(1, Load_call good, True), (0, Load_call bad, False)]
    \<and> \<not> IsLoaded (cx_system s2) \<and> cs_storage (cx_system s2) = Map.empty"
proof -
  let ?c = "ConfigSystem_new fs (Some parser)"
  let ?s = "config_race_start 2 ?c"
  obtain partial where bad: "load_paths parser bad Map.empty = (None, partial)" using assms(1) by (cases "load_paths parser bad Map.empty") auto
  let ?thrown = "?s\<lparr>cx_system := ?c\<lparr>cs_storage := partial\<rparr>, cx_pcs := [Catching bad, Outside]\<rparr>"
  let ?loaded = "returned 1 (Load_call good) True (?c\<lparr>cs_storage := m, cs_loaded := True\<rparr>) ?thrown"
  let ?wiped = "returned 0 (Load_call bad) False (Load_catch (cx_system ?loaded)) ?loaded"
  have steps: "config_step 0 (Load_call bad) ?s = Some ?thrown" "config_step 1 (Load_call good) ?thrown = Some ?loaded"
    "config_step 0 IsLoaded_call ?loaded = Some ?wiped"
    using bad assms(2) by (simp_all add: config_race_start_def ConfigSystem_new_def config_step_def Load_try_def returned_def numeral_2_eq_2)
  have "config_reachable 2 ?c ?loaded"
    using config_reachable.step [OF config_reachable.step [OF config_reachable.start steps(1)] steps(2)] .
  then show ?thesis using steps(3)
    by (intro exI [of _ ?loaded] exI [of _ ?wiped])
      (simp add: returned_def Load_catch_def IsLoaded_def config_race_start_def)
qed

theorem failed_load_wipes_another_configuration_witness:
  "\<exists>s1 s2. config_reachable 2 (ConfigSystem_new two_files (Some (\<lambda>p m. if p = ''bad'' then (None, m)
        else KeyValue_ParseFile two_files p m))) s1 \<and> config_step 0 IsLoaded_call s1 = Some s2
    \<and> cx_returned s1 = [(1, Load_call [''a''], True)] \<and> IsLoaded (cx_system s1) \<and> \<not> IsLoaded (cx_system s2)"
proof -
  let ?p = "\<lambda>p m. if p = ''bad'' then (None, m) else KeyValue_ParseFile two_files p m"
  have "fst (load_paths ?p [''bad''] Map.empty) = None" by simp
  moreover have "load_paths ?p [''a''] Map.empty = (Some True, fold parse_line (getlines (''k=1'' @ [newline] @ ''x=2'')) Map.empty)"
    by (simp add: KeyValue_ParseFile_def two_files_def)
  ultimately show ?thesis using failed_load_wipes_another_configuration [of ?p "[''bad'']" "[''a'']" _ two_files] by blast
qed

end
