(* ===== verification/Logger.thy ===== *)
theory Logger
  imports Prelude
begin

text \<open>
  The logger (\<open>infrastructure/logger\<close>). The wall clock, the thread's hash and \<open>localtime_r\<close> are
  arguments; \<open>snprintf\<close> is written out for the conversions the formatter uses. A sink or formatter
  may throw, which is the value \<open>Inl\<close> of a call together with the state reached. The locale
  \<open>log_sink\<close> is the contract of \<open>ILogSink\<close>. Formatter and sinks are never null.
\<close>

section \<open>Levels and records\<close>

datatype LogLevel = Trace | Debug | Info | Warn | Error | Fatal

fun level_number :: "LogLevel \<Rightarrow> nat" where
  "level_number Trace = 0"
| "level_number Debug = 1"
| "level_number Info = 2"
| "level_number Warn = 3"
| "level_number Error = 4"
| "level_number Fatal = 5"

lemma level_number_inj: "level_number a = level_number b \<longleftrightarrow> a = b"
  by (cases a; cases b) auto

instantiation LogLevel :: linorder
begin

definition less_eq_LogLevel :: "LogLevel \<Rightarrow> LogLevel \<Rightarrow> bool" where
  "less_eq_LogLevel a b \<longleftrightarrow> level_number a \<le> level_number b"

definition less_LogLevel :: "LogLevel \<Rightarrow> LogLevel \<Rightarrow> bool" where
  "less_LogLevel a b \<longleftrightarrow> level_number a < level_number b"

instance
  by intro_classes (auto simp: less_eq_LogLevel_def less_LogLevel_def level_number_inj)

end

type_synonym Timestamp = u64
type_synonym ThreadId = u32

record log_record =
  lr_timestamp :: Timestamp
  lr_threadId :: ThreadId
  lr_level :: LogLevel
  lr_message :: string

definition MAX_LOG_FORMAT_BUFFER_SIZE :: usize where
  "MAX_LOG_FORMAT_BUFFER_SIZE = 2048"

section \<open>TextFormatter\<close>

fun digits :: "nat \<Rightarrow> string" where
  "digits n = (if n < 10 then [char_of (48 + n)] else digits (n div 10) @ [char_of (48 + n mod 10)])"

definition pad_zero :: "nat \<Rightarrow> int \<Rightarrow> string" where
  "pad_zero width n =
     (let sign = (if n < 0 then ''-'' else []); ds = digits (nat \<bar>n\<bar>)
      in sign @ replicate (width - length sign - length ds) CHR ''0'' @ ds)"

text \<open>
  \<open>%.*s\<close> with the precision \<open>static_cast<int>(size)\<close>: printing stops at a zero character; a negative
  precision counts as none, and reading past the view is undefined behaviour.
\<close>

definition print_view :: "string \<Rightarrow> string result" where
  "print_view msg =
     (let precision = sint (of_nat (length msg) :: u32) in
      if 0 \<le> precision then Inr (takeWhile (\<lambda>c. c \<noteq> CHR 0x00) (take (nat precision) msg))
      else if CHR 0x00 \<in> set msg then Inr (takeWhile (\<lambda>c. c \<noteq> CHR 0x00) msg)
      else Inl Undefined)"

record tm =
  tm_year :: int
  tm_mon :: int
  tm_mday :: int
  tm_hour :: int
  tm_min :: int
  tm_sec :: int

definition log_prefix :: "(int \<Rightarrow> tm) \<Rightarrow> log_record \<Rightarrow> string" where
  "log_prefix localtime r =
     (let total_ms = lr_timestamp r;
          t = localtime (sint (total_ms div 1000));
          ms = unat (ucast (total_ms mod 1000) :: u32)
      in pad_zero 4 (tm_year t + 1900) @ ''-'' @ pad_zero 2 (tm_mon t + 1) @ ''-'' @ pad_zero 2 (tm_mday t)
         @ '' '' @ pad_zero 2 (tm_hour t) @ '':'' @ pad_zero 2 (tm_min t) @ '':'' @ pad_zero 2 (tm_sec t)
         @ ''.'' @ pad_zero 3 (int ms) @ '' [T'' @ digits (unat (lr_threadId r)) @ ''] [''
         @ digits (level_number (lr_level r)) @ ''] '')"

text \<open>\<open>snprintf\<close> stores at most \<open>bufferSize - 1\<close> characters and returns the length of the whole text,
  negative when it exceeds \<open>INT_MAX\<close>. The view returned is the stored text.\<close>

definition TextFormatter_Format :: "(int \<Rightarrow> tm) \<Rightarrow> log_record \<Rightarrow> bool \<Rightarrow> usize \<Rightarrow> string result" where
  "TextFormatter_Format localtime r has_buffer bufferSize =
     (if \<not> has_buffer \<or> bufferSize = 0 then Inr []
      else and_then (print_view (lr_message r)) (\<lambda>msg.
        let text = log_prefix localtime r @ msg;
            buffer = take (unat bufferSize - 1) text
        in if length text > 2 ^ 31 - 1 then Inr []
           else if length text \<ge> unat bufferSize then Inr (take (unat bufferSize - 1) buffer)
           else Inr (take (length text) buffer)))"

section \<open>Sinks\<close>

text \<open>An output stream: what was written and not flushed, and what was. A stream that failed to open
  drops its output. A file sink owns its stream.\<close>

record out_stream =
  os_good :: bool
  os_pending :: string
  os_flushed :: string

definition stream_put :: "string \<Rightarrow> out_stream \<Rightarrow> out_stream" where
  "stream_put s st = (if os_good st then st\<lparr>os_pending := os_pending st @ s\<rparr> else st)"

definition stream_flush :: "out_stream \<Rightarrow> out_stream" where
  "stream_flush st =
     (if os_good st then st\<lparr>os_flushed := os_flushed st @ os_pending st, os_pending := []\<rparr> else st)"

definition FileSink_new :: "(string \<rightharpoonup> string) \<Rightarrow> string \<Rightarrow> out_stream" where
  "FileSink_new files path =
     (case files path of
        None \<Rightarrow> \<lparr>os_good = False, os_pending = [], os_flushed = []\<rparr>
      | Some text \<Rightarrow> \<lparr>os_good = True, os_pending = [], os_flushed = text\<rparr>)"

definition FileSink_Write :: "string \<Rightarrow> out_stream \<Rightarrow> out_stream" where
  "FileSink_Write msg st = stream_put [CHR 0x0A] (stream_put msg st)"

definition FileSink_Flush :: "out_stream \<Rightarrow> out_stream" where
  "FileSink_Flush st = stream_flush st"

definition FileSink_delete :: "out_stream \<Rightarrow> out_stream" where
  "FileSink_delete st = FileSink_Flush st"

text \<open>All console sinks write to the one \<open>std::cout\<close>, each whole line under the one global mutex. The stream of a
  \<open>Console_sink\<close> is what went to \<open>std::cout\<close> through this sink; the lines of other console sinks stand between these
  lines, never inside one.\<close>

definition ConsoleSink_Write :: "string \<Rightarrow> out_stream \<Rightarrow> out_stream" where
  "ConsoleSink_Write msg st = stream_put [CHR 0x0A] (stream_put msg st)"

definition ConsoleSink_Flush :: "out_stream \<Rightarrow> out_stream" where
  "ConsoleSink_Flush st = stream_flush st"

text \<open>An \<open>ILogSink\<close>: one of the two sinks of the code, or a client's, which may throw.\<close>

datatype sink = Console_sink out_stream | File_sink out_stream | Throwing_sink string

fun Sink_Write :: "string \<Rightarrow> sink \<Rightarrow> sink result" where
  "Sink_Write msg (Console_sink st) = Inr (Console_sink (ConsoleSink_Write msg st))"
| "Sink_Write msg (File_sink st) = Inr (File_sink (FileSink_Write msg st))"
| "Sink_Write msg (Throwing_sink n) = Inl Logic_error"

fun Sink_Flush :: "sink \<Rightarrow> sink result" where
  "Sink_Flush (Console_sink st) = Inr (Console_sink (ConsoleSink_Flush st))"
| "Sink_Flush (File_sink st) = Inr (File_sink (FileSink_Flush st))"
| "Sink_Flush (Throwing_sink n) = Inl Logic_error"

section \<open>Logger\<close>

type_synonym formatter = "log_record \<Rightarrow> bool \<Rightarrow> usize \<Rightarrow> string result"

record logger =
  lg_minimumLevel :: LogLevel
  lg_formatter :: formatter
  lg_sinks :: "sink list"

definition Logger_new :: "formatter \<Rightarrow> logger" where
  "Logger_new f = \<lparr>lg_minimumLevel = Info, lg_formatter = f, lg_sinks = []\<rparr>"

definition AddSink :: "sink \<Rightarrow> logger \<Rightarrow> logger" where
  "AddSink s l = l\<lparr>lg_sinks := lg_sinks l @ [s]\<rparr>"

definition SetMinimumLevel :: "LogLevel \<Rightarrow> logger \<Rightarrow> logger" where
  "SetMinimumLevel level l = l\<lparr>lg_minimumLevel := level\<rparr>"

definition GetMinimumLevel :: "logger \<Rightarrow> LogLevel" where
  "GetMinimumLevel l = lg_minimumLevel l"

text \<open>The loop over the sinks: an exception leaves it with the sinks before it already served.\<close>

fun each_sink :: "(sink \<Rightarrow> sink result) \<Rightarrow> sink list \<Rightarrow> cpp_error option \<times> sink list" where
  "each_sink f [] = (None, [])"
| "each_sink f (s # ss) =
     (case f s of
        Inl e \<Rightarrow> (Some e, s # ss)
      | Inr s' \<Rightarrow> (let (r, ss') = each_sink f ss in (r, s' # ss')))"

text \<open>\<open>Log\<close> and \<open>Flush\<close> return the exception that escapes, if any, and the logger.\<close>

definition Log :: "Timestamp \<Rightarrow> ThreadId \<Rightarrow> LogLevel \<Rightarrow> string \<Rightarrow> logger \<Rightarrow> cpp_error option \<times> logger" where
  "Log now tid level message l =
     (if level < lg_minimumLevel l then (None, l)
      else let record = \<lparr>lr_timestamp = now, lr_threadId = tid, lr_level = level, lr_message = message\<rparr> in
        case lg_formatter l record True MAX_LOG_FORMAT_BUFFER_SIZE of
          Inl e \<Rightarrow> (Some e, l)
        | Inr formatted \<Rightarrow>
            (let (r, ss) = each_sink (Sink_Write formatted) (lg_sinks l) in (r, l\<lparr>lg_sinks := ss\<rparr>)))"

definition Logger_Flush :: "logger \<Rightarrow> cpp_error option \<times> logger" where
  "Logger_Flush l = (let (r, ss) = each_sink Sink_Flush (lg_sinks l) in (r, l\<lparr>lg_sinks := ss\<rparr>))"

section \<open>The contract of ILogSink\<close>

definition log_line :: "string \<Rightarrow> string" where
  "log_line msg = msg @ [CHR 0x0A]"

locale log_sink =
  fixes put :: "string \<Rightarrow> 's \<Rightarrow> 's"
    and flush :: "'s \<Rightarrow> 's"
    and ok :: "'s \<Rightarrow> bool"
    and pending :: "'s \<Rightarrow> string"
    and flushed :: "'s \<Rightarrow> string"
  assumes write_law: "ok s \<Longrightarrow> ok (put m s) \<and> pending (put m s) = pending s @ log_line m
      \<and> flushed (put m s) = flushed s"
    and flush_law: "ok s \<Longrightarrow> ok (flush s) \<and> pending (flush s) = [] \<and> flushed (flush s) = flushed s @ pending s"
begin

lemma write_all:
  "ok s \<Longrightarrow> ok (fold put ms s) \<and> pending (fold put ms s) = pending s @ concat (map log_line ms)
     \<and> flushed (fold put ms s) = flushed s"
  by (induction ms arbitrary: s) (auto simp: write_law)

lemma write_all_flush:
  "ok s \<Longrightarrow> flushed (flush (fold put ms s)) = flushed s @ pending s @ concat (map log_line ms)"
  using write_all [of s ms] flush_law [of "fold put ms s"] by simp

end

interpretation file_sink: log_sink FileSink_Write FileSink_Flush os_good os_pending os_flushed
  by unfold_locales
    (simp_all add: FileSink_Write_def FileSink_Flush_def stream_put_def stream_flush_def log_line_def)

interpretation console_sink: log_sink ConsoleSink_Write ConsoleSink_Flush os_good os_pending os_flushed
  by unfold_locales
    (simp_all add: ConsoleSink_Write_def ConsoleSink_Flush_def stream_put_def stream_flush_def log_line_def)

fun sink_stream :: "sink \<Rightarrow> out_stream option" where
  "sink_stream (Console_sink st) = Some st"
| "sink_stream (File_sink st) = Some st"
| "sink_stream (Throwing_sink n) = None"

definition sink_ok :: "sink \<Rightarrow> bool" where
  "sink_ok s \<longleftrightarrow> (\<exists>st. sink_stream s = Some st \<and> os_good st)"

definition sink_flushed :: "sink \<Rightarrow> string" where
  "sink_flushed s = (case sink_stream s of None \<Rightarrow> [] | Some st \<Rightarrow> os_flushed st)"

definition sink_pending :: "sink \<Rightarrow> string" where
  "sink_pending s = (case sink_stream s of None \<Rightarrow> [] | Some st \<Rightarrow> os_pending st)"

lemma Sink_Write_ok:
  "sink_ok s \<Longrightarrow> \<exists>s'. Sink_Write m s = Inr s' \<and> sink_ok s' \<and> sink_flushed s' = sink_flushed s
     \<and> sink_pending s' = sink_pending s @ log_line m"
  by (cases s) (auto simp: sink_ok_def sink_flushed_def sink_pending_def file_sink.write_law console_sink.write_law)

lemma Sink_Flush_ok:
  "sink_ok s \<Longrightarrow> \<exists>s'. Sink_Flush s = Inr s' \<and> sink_ok s' \<and> sink_flushed s' = sink_flushed s @ sink_pending s
     \<and> sink_pending s' = []"
  by (cases s) (auto simp: sink_ok_def sink_flushed_def sink_pending_def file_sink.flush_law console_sink.flush_law)

lemma each_sink_ok:
  assumes "\<And>s. P s \<Longrightarrow> \<exists>s'. f s = Inr s' \<and> R s s'"
  shows "list_all P ss \<Longrightarrow> \<exists>ss'. each_sink f ss = (None, ss') \<and> list_all2 R ss ss'"
proof (induction ss)
  case Nil
  then show ?case by simp
next
  case (Cons s ss)
  then obtain s' ss' where "f s = Inr s'" "R s s'" "each_sink f ss = (None, ss')" "list_all2 R ss ss'"
    using assms [of s] by auto
  then show ?case by simp
qed

section \<open>A sequence of calls\<close>

record log_request =
  lq_now :: Timestamp
  lq_thread :: ThreadId
  lq_level :: LogLevel
  lq_message :: string

fun log_all :: "log_request list \<Rightarrow> logger \<Rightarrow> cpp_error option \<times> logger" where
  "log_all [] l = (None, l)"
| "log_all (q # qs) l =
     (case Log (lq_now q) (lq_thread q) (lq_level q) (lq_message q) l of
        (Some e, l') \<Rightarrow> (Some e, l')
      | (None, l') \<Rightarrow> log_all qs l')"

definition record_of :: "log_request \<Rightarrow> log_record" where
  "record_of q = \<lparr>lr_timestamp = lq_now q, lr_threadId = lq_thread q, lr_level = lq_level q, lr_message = lq_message q\<rparr>"

definition text_of :: "formatter \<Rightarrow> log_request \<Rightarrow> string" where
  "text_of f q = (case f (record_of q) True MAX_LOG_FORMAT_BUFFER_SIZE of Inl e \<Rightarrow> [] | Inr s \<Rightarrow> s)"

definition accepted :: "LogLevel \<Rightarrow> log_request list \<Rightarrow> log_request list" where
  "accepted m qs = filter (\<lambda>q. m \<le> lq_level q) qs"

definition sink_after :: "string \<Rightarrow> sink \<Rightarrow> sink \<Rightarrow> bool" where
  "sink_after text s s' \<longleftrightarrow> sink_ok s' \<and> sink_flushed s' = sink_flushed s \<and> sink_pending s' = sink_pending s @ text"

lemma sink_after_trans: "sink_after a s s1 \<Longrightarrow> sink_after b s1 s2 \<Longrightarrow> sink_after (a @ b) s s2"
  by (simp add: sink_after_def)

lemma Log_ok:
  assumes "list_all sink_ok (lg_sinks l)" and "lg_formatter l (record_of q) True MAX_LOG_FORMAT_BUFFER_SIZE = Inr t"
  shows "\<exists>l'. Log (lq_now q) (lq_thread q) (lq_level q) (lq_message q) l = (None, l')
    \<and> lg_minimumLevel l' = lg_minimumLevel l \<and> lg_formatter l' = lg_formatter l
    \<and> list_all2 (sink_after (if lg_minimumLevel l \<le> lq_level q then log_line t else [])) (lg_sinks l) (lg_sinks l')"
proof (cases "lq_level q < lg_minimumLevel l")
  case True
  have "list_all2 (sink_after []) (lg_sinks l) (lg_sinks l)"
    using assms(1) by (simp add: list_all2_same sink_after_def list_all_iff)
  then show ?thesis using True by (auto simp: Log_def)
next
  case False
  obtain ss where "each_sink (Sink_Write t) (lg_sinks l) = (None, ss)"
    "list_all2 (sink_after (log_line t)) (lg_sinks l) ss"
    using each_sink_ok [of sink_ok "Sink_Write t" "sink_after (log_line t)", OF _ assms(1)] Sink_Write_ok [of _ t]
    by (auto simp: sink_after_def)
  then show ?thesis using False assms(2) by (auto simp: Log_def record_of_def Let_def not_less)
qed

lemma sinks_stay_ok: "list_all2 (sink_after t) ss ss' \<Longrightarrow> list_all sink_ok ss'"
  by (induction rule: list_all2_induct) (auto simp: sink_after_def)

lemma log_all_ok:
  assumes "list_all sink_ok (lg_sinks l)"
    and "\<forall>q \<in> set qs. \<exists>t. lg_formatter l (record_of q) True MAX_LOG_FORMAT_BUFFER_SIZE = Inr t"
  shows "\<exists>l'. log_all qs l = (None, l') \<and> list_all2
    (sink_after (concat (map (\<lambda>q. log_line (text_of (lg_formatter l) q)) (accepted (lg_minimumLevel l) qs))))
    (lg_sinks l) (lg_sinks l')"
  using assms
proof (induction qs arbitrary: l)
  case Nil
  then show ?case by (simp add: accepted_def list_all2_same sink_after_def list_all_iff)
next
  case (Cons q qs)
  obtain t where t: "lg_formatter l (record_of q) True MAX_LOG_FORMAT_BUFFER_SIZE = Inr t"
    using Cons.prems(2) by auto
  obtain l1 where l1: "Log (lq_now q) (lq_thread q) (lq_level q) (lq_message q) l = (None, l1)"
    "lg_minimumLevel l1 = lg_minimumLevel l" "lg_formatter l1 = lg_formatter l"
    "list_all2 (sink_after (if lg_minimumLevel l \<le> lq_level q then log_line t else [])) (lg_sinks l) (lg_sinks l1)"
    using Log_ok [OF Cons.prems(1) t] by auto
  obtain l2 where l2: "log_all qs l1 = (None, l2)" "list_all2
    (sink_after (concat (map (\<lambda>q. log_line (text_of (lg_formatter l) q)) (accepted (lg_minimumLevel l) qs))))
    (lg_sinks l1) (lg_sinks l2)"
    using Cons.IH [of l1] sinks_stay_ok [OF l1(4)] Cons.prems(2) l1(2,3) by auto
  from list_all2_trans [OF _ l1(4) l2(2), of "\<lambda>s s2. sink_after ((if lg_minimumLevel l \<le> lq_level q then log_line t else [])
      @ concat (map (\<lambda>q. log_line (text_of (lg_formatter l) q)) (accepted (lg_minimumLevel l) qs))) s s2"]
  show ?case
    using l1(1) l2(1) t sink_after_trans by (auto simp: accepted_def text_of_def)
qed

lemma Logger_Flush_ok:
  assumes "list_all sink_ok (lg_sinks l)"
  shows "\<exists>l'. Logger_Flush l = (None, l') \<and> list_all2 (\<lambda>s s'. sink_flushed s' = sink_flushed s @ sink_pending s
    \<and> sink_pending s' = []) (lg_sinks l) (lg_sinks l')"
proof -
  obtain ss where "each_sink Sink_Flush (lg_sinks l) = (None, ss)"
    "list_all2 (\<lambda>s s'. sink_flushed s' = sink_flushed s @ sink_pending s \<and> sink_pending s' = []) (lg_sinks l) ss"
    using each_sink_ok [of sink_ok Sink_Flush
        "\<lambda>s s'. sink_flushed s' = sink_flushed s @ sink_pending s \<and> sink_pending s' = []", OF _ assms] Sink_Flush_ok
    by auto
  then show ?thesis by (simp add: Logger_Flush_def)
qed

section \<open>The formatter's bounds\<close>

definition shown :: "string \<Rightarrow> string" where
  "shown msg = takeWhile (\<lambda>c. c \<noteq> CHR 0x00) msg"

lemma print_view_small:
  assumes "length msg < 2 ^ 31"
  shows "print_view msg = Inr (shown msg)"
proof -
  have "sint (of_nat (length msg) :: u32) = int (length msg)"
    using assms by (rule sint_of_nat_small)
  then show ?thesis by (simp add: print_view_def shown_def)
qed

lemma Format_small:
  assumes "length (lr_message r) < 2 ^ 31" and "n \<noteq> 0"
  shows "TextFormatter_Format localtime r True n =
    (let text = log_prefix localtime r @ shown (lr_message r)
     in Inr (if length text > 2 ^ 31 - 1 then [] else take (unat n - 1) text))"
  using assms by (simp add: TextFormatter_Format_def print_view_small Let_def min_def)

section \<open>Properties\<close>

text \<open>The formatter never returns more than the buffer holds before its terminating zero: for a
  message below \<open>2^31\<close> characters the result is the text cut at \<open>bufferSize - 1\<close>, where the text is
  the prefix followed by the message up to its first zero character.\<close>

theorem format_fits_buffer:
  assumes "length (lr_message r) < 2 ^ 31" and "n \<noteq> 0"
    and "length (log_prefix localtime r) + length (lr_message r) < 2 ^ 31"
  shows "\<exists>s. TextFormatter_Format localtime r True n = Inr s
    \<and> s = take (unat n - 1) (log_prefix localtime r @ shown (lr_message r)) \<and> length s < unat n"
proof -
  have "0 < unat n" using assms(2) by (simp add: unat_gt_0)
  moreover have "length (shown (lr_message r)) \<le> length (lr_message r)"
    unfolding shown_def by (rule length_takeWhile_le)
  ultimately show ?thesis
    using assms Format_small [of r n localtime] by (auto simp: Let_def min_def)
qed

definition noon :: "int \<Rightarrow> tm" where
  "noon t = \<lparr>tm_year = 125, tm_mon = 0, tm_mday = 2, tm_hour = 12, tm_min = 0, tm_sec = 5\<rparr>"

definition sample_record :: log_record where
  "sample_record = \<lparr>lr_timestamp = 5007, lr_threadId = 3, lr_level = Warn, lr_message = ''disk''\<rparr>"

lemma sample_prefix: "log_prefix noon sample_record = ''2025-01-02 12:00:05.007 [T3] [3] ''"
  by code_simp

theorem format_fits_buffer_witness:
  "TextFormatter_Format noon sample_record True 36 = Inr ''2025-01-02 12:00:05.007 [T3] [3] di''"
  using format_fits_buffer [of sample_record 36 noon]
  by (simp add: sample_prefix) (simp add: sample_record_def shown_def)

text \<open>With the text formatter and sinks that opened, every sequence of \<open>Log\<close> calls followed by
  \<open>Flush\<close> delivers to every sink exactly the lines of the calls at or above the minimum level, in
  the order of the calls and after what it held before, and no exception escapes.\<close>

theorem logger_delivers_to_every_sink:
  assumes "lg_formatter l = TextFormatter_Format localtime" and "list_all sink_ok (lg_sinks l)"
    and "\<forall>q \<in> set qs. length (lq_message q) < 2 ^ 31"
  shows "\<exists>l1 l2. log_all qs l = (None, l1) \<and> Logger_Flush l1 = (None, l2)
    \<and> list_all2 (\<lambda>s s'. sink_pending s' = [] \<and> sink_flushed s' = sink_flushed s @ sink_pending s
        @ concat (map (\<lambda>q. log_line (text_of (TextFormatter_Format localtime) q)) (accepted (lg_minimumLevel l) qs)))
      (lg_sinks l) (lg_sinks l2)"
proof -
  have "\<forall>q \<in> set qs. \<exists>t. lg_formatter l (record_of q) True MAX_LOG_FORMAT_BUFFER_SIZE = Inr t"
    using assms(1,3) by (auto simp: Format_small record_of_def MAX_LOG_FORMAT_BUFFER_SIZE_def Let_def)
  then obtain l1 where l1: "log_all qs l = (None, l1)" "list_all2 (sink_after (concat (map
      (\<lambda>q. log_line (text_of (TextFormatter_Format localtime) q)) (accepted (lg_minimumLevel l) qs))))
      (lg_sinks l) (lg_sinks l1)"
    using log_all_ok [OF assms(2)] assms(1) by auto
  obtain l2 where l2: "Logger_Flush l1 = (None, l2)" "list_all2 (\<lambda>s s'. sink_flushed s' = sink_flushed s @ sink_pending s
      \<and> sink_pending s' = []) (lg_sinks l1) (lg_sinks l2)"
    using Logger_Flush_ok [OF sinks_stay_ok [OF l1(2)]] by auto
  show ?thesis
    using list_all2_trans [OF _ l1(2) l2(2)] l1(1) l2(1) by (auto simp: sink_after_def)
qed

theorem logger_delivers_to_every_sink_witness:
  "\<exists>l1 l2. log_all [\<lparr>lq_now = 5007, lq_thread = 3, lq_level = Debug, lq_message = ''a''\<rparr>,
        \<lparr>lq_now = 5007, lq_thread = 3, lq_level = Warn, lq_message = ''b''\<rparr>]
      (AddSink (File_sink \<lparr>os_good = True, os_pending = [], os_flushed = ''x''\<rparr>)
        (Logger_new (TextFormatter_Format noon))) = (None, l1)
    \<and> Logger_Flush l1 = (None, l2)
    \<and> map sink_flushed (lg_sinks l2) = [''x2025-01-02 12:00:05.007 [T3] [3] b'' @ [CHR 0x0A]]"
proof -
  let ?b = "\<lparr>lq_now = 5007, lq_thread = 3, lq_level = Warn, lq_message = ''b''\<rparr>"
  have "log_prefix noon (record_of ?b) = ''2025-01-02 12:00:05.007 [T3] [3] ''"
    by code_simp
  then have b: "text_of (TextFormatter_Format noon) ?b = ''2025-01-02 12:00:05.007 [T3] [3] b''"
    by (simp add: text_of_def Format_small Let_def MAX_LOG_FORMAT_BUFFER_SIZE_def shown_def record_of_def)
  show ?thesis
    using logger_delivers_to_every_sink [of "AddSink (File_sink \<lparr>os_good = True, os_pending = [], os_flushed = ''x''\<rparr>)
        (Logger_new (TextFormatter_Format noon))" noon
        "[\<lparr>lq_now = 5007, lq_thread = 3, lq_level = Debug, lq_message = ''a''\<rparr>, ?b]"] b
    by (fastforce simp: AddSink_def Logger_new_def sink_ok_def accepted_def less_eq_LogLevel_def
        sink_flushed_def [of "File_sink _"] sink_pending_def [of "File_sink _"] log_line_def list_all2_Cons1)
qed

text \<open>An exception of one sink escapes from \<open>Log\<close>, and the sinks after it miss the message; and a
  fatal message is neither flushed nor ends the process: what the sinks flushed is unchanged.\<close>

theorem throwing_sink_and_fatal:
  assumes "list_all sink_ok before" and "lg_formatter l (record_of q) True MAX_LOG_FORMAT_BUFFER_SIZE = Inr t"
    and "lg_sinks l = before @ Throwing_sink n # after" and "lq_level q = Fatal"
  shows "\<exists>served. Log (lq_now q) (lq_thread q) Fatal (lq_message q) l
      = (Some Logic_error, l\<lparr>lg_sinks := served @ Throwing_sink n # after\<rparr>)
    \<and> list_all2 (sink_after (log_line t)) before served \<and> map sink_flushed served = map sink_flushed before"
proof -
  have "\<exists>served. each_sink (Sink_Write t) (before @ Throwing_sink n # after) = (Some Logic_error, served @ Throwing_sink n # after)
      \<and> list_all2 (sink_after (log_line t)) before served"
    using assms(1)
  proof (induction before)
    case Nil
    then show ?case by simp
  next
    case (Cons s ss)
    obtain served where "each_sink (Sink_Write t) (ss @ Throwing_sink n # after) = (Some Logic_error, served @ Throwing_sink n # after)"
      "list_all2 (sink_after (log_line t)) ss served"
      using Cons by auto
    moreover obtain s' where "Sink_Write t s = Inr s'" "sink_after (log_line t) s s'"
      using Sink_Write_ok [of s t] Cons.prems by (auto simp: sink_after_def)
    ultimately show ?case by (intro exI [of _ "s' # served"]) simp
  qed
  then obtain served where s: "each_sink (Sink_Write t) (lg_sinks l) = (Some Logic_error, served @ Throwing_sink n # after)"
    "list_all2 (sink_after (log_line t)) before served"
    using assms(3) by auto
  have "map sink_flushed served = map sink_flushed before"
    using s(2) by (induction rule: list_all2_induct) (simp_all add: sink_after_def)
  moreover have "\<not> Fatal < lg_minimumLevel l" by (cases "lg_minimumLevel l") (simp_all add: less_LogLevel_def)
  ultimately show ?thesis
    using s assms(2,4) by (intro exI [of _ served]) (simp add: Log_def record_of_def Let_def)
qed

theorem throwing_sink_and_fatal_witness:
  "\<exists>l'. Log 0 0 Fatal ''m'' (AddSink (Console_sink \<lparr>os_good = True, os_pending = [], os_flushed = []\<rparr>)
      (AddSink (Throwing_sink ''net'') (Logger_new (\<lambda>r _ _. Inr (lr_message r))))) = (Some Logic_error, l')
    \<and> lg_sinks l' = [Throwing_sink ''net'', Console_sink \<lparr>os_good = True, os_pending = [], os_flushed = []\<rparr>]"
  using throwing_sink_and_fatal [of "[]" "AddSink (Console_sink \<lparr>os_good = True, os_pending = [], os_flushed = []\<rparr>)
      (AddSink (Throwing_sink ''net'') (Logger_new (\<lambda>r _ _. Inr (lr_message r))))"
      "\<lparr>lq_now = 0, lq_thread = 0, lq_level = Fatal, lq_message = ''m''\<rparr>" "''m''" "''net''"
      "[Console_sink \<lparr>os_good = True, os_pending = [], os_flushed = []\<rparr>]"]
  by (simp add: AddSink_def Logger_new_def record_of_def)

end
