(* ===== verification/Logger_Races.thy ===== *)
theory Logger_Races
  imports Logger "HOL-Library.Sublist"
begin

text \<open>
  Several threads logging at once (\<open>infrastructure/logger\<close>). \<open>Logger\<close> takes no lock: a thread formats into a
  buffer of its own and then hands the text to one sink after the other, and a sink does a whole
  \<open>Write\<close> or \<open>Flush\<close> under its mutex, one step here. The sinks are not added to meanwhile. Every sink gets every thread's
  lines whole and in order; the sinks may disagree on the order between threads.
\<close>

section \<open>Threads\<close>

datatype log_call = Log_call log_request | Flush_call

text \<open>A thread between calls, in the loop of \<open>Log\<close> or in that of \<open>Flush\<close>, at the given sink.\<close>

datatype log_pc = Idle | Writing log_request string nat | Flushing nat

record log_race =
  lx_logger :: logger
  lx_pcs :: "log_pc list"
  lx_calls :: "log_call list list"
  lx_written :: "(nat \<times> log_request) list list"

text \<open>\<open>lx_calls\<close> are the calls each thread has still to make; \<open>lx_written\<close> the lines each sink received.\<close>

definition log_race_start :: "logger \<Rightarrow> log_call list list \<Rightarrow> log_race" where
  "log_race_start l programs =
     \<lparr>lx_logger = l, lx_pcs = replicate (length programs) Idle, lx_calls = programs,
      lx_written = replicate (length (lg_sinks l)) []\<rparr>"

text \<open>\<open>None\<close>: the thread has nothing to do, or its sink or formatter failed, which ends the thread here.\<close>

definition log_thread_step :: "nat \<Rightarrow> log_race \<Rightarrow> log_race option" where
  "log_thread_step t s =
     (if t \<ge> length (lx_pcs s) then None
      else let l = lx_logger s; goto = (\<lambda>pc s. s\<lparr>lx_pcs := (lx_pcs s)[t := pc]\<rparr>) in
        case lx_pcs s ! t of
          Idle \<Rightarrow>
            (case lx_calls s ! t of
               [] \<Rightarrow> None
             | Flush_call # cs \<Rightarrow> Some (goto (Flushing 0) (s\<lparr>lx_calls := (lx_calls s)[t := cs]\<rparr>))
             | Log_call q # cs \<Rightarrow>
                 if lq_level q < lg_minimumLevel l then Some (s\<lparr>lx_calls := (lx_calls s)[t := cs]\<rparr>)
                 else (case lg_formatter l (record_of q) True MAX_LOG_FORMAT_BUFFER_SIZE of
                     Inl e \<Rightarrow> None
                   | Inr formatted \<Rightarrow> Some (goto (Writing q formatted 0) (s\<lparr>lx_calls := (lx_calls s)[t := cs]\<rparr>))))
        | Writing q formatted k \<Rightarrow>
            if k \<ge> length (lg_sinks l) then Some (goto Idle s)
            else (case Sink_Write formatted (lg_sinks l ! k) of
                Inl e \<Rightarrow> None
              | Inr sink \<Rightarrow> Some (goto (Writing q formatted (Suc k))
                  (s\<lparr>lx_logger := l\<lparr>lg_sinks := (lg_sinks l)[k := sink]\<rparr>,
                     lx_written := (lx_written s)[k := lx_written s ! k @ [(t, q)]]\<rparr>)))
        | Flushing k \<Rightarrow>
            if k \<ge> length (lg_sinks l) then Some (goto Idle s)
            else (case Sink_Flush (lg_sinks l ! k) of
                Inl e \<Rightarrow> None
              | Inr sink \<Rightarrow> Some (goto (Flushing (Suc k)) (s\<lparr>lx_logger := l\<lparr>lg_sinks := (lg_sinks l)[k := sink]\<rparr>\<rparr>))))"

inductive log_reachable :: "logger \<Rightarrow> log_call list list \<Rightarrow> log_race \<Rightarrow> bool" for l :: logger and programs :: "log_call list list" where
  start: "log_reachable l programs (log_race_start l programs)"
| step: "log_reachable l programs s \<Longrightarrow> log_thread_step t s = Some s' \<Longrightarrow> log_reachable l programs s'"

section \<open>The invariant\<close>

fun requests :: "log_call list \<Rightarrow> log_request list" where
  "requests [] = []"
| "requests (Log_call q # cs) = q # requests cs"
| "requests (Flush_call # cs) = requests cs"

text \<open>The line a thread is still to hand to sink \<open>k\<close>.\<close>

fun in_hand :: "nat \<Rightarrow> log_pc \<Rightarrow> log_request list" where
  "in_hand k (Writing q formatted i) = (if i \<le> k then [q] else [])"
| "in_hand k pc = []"

definition from_thread :: "nat \<Rightarrow> (nat \<times> log_request) list \<Rightarrow> log_request list" where
  "from_thread t ws = map snd (filter (\<lambda>(u, q). u = t) ws)"

fun pc_text_ok :: "formatter \<Rightarrow> log_pc \<Rightarrow> bool" where
  "pc_text_ok f (Writing q formatted k) \<longleftrightarrow> formatted = text_of f q"
| "pc_text_ok f pc \<longleftrightarrow> True"

definition log_race_ok :: "logger \<Rightarrow> log_call list list \<Rightarrow> log_race \<Rightarrow> bool" where
  "log_race_ok l0 programs s \<longleftrightarrow> (let l = lx_logger s; n = length (lg_sinks l0) in
     length (lx_pcs s) = length programs \<and> length (lx_calls s) = length programs \<and>
     length (lg_sinks l) = n \<and> length (lx_written s) = n \<and> list_all sink_ok (lg_sinks l) \<and>
     lg_formatter l = lg_formatter l0 \<and> lg_minimumLevel l = lg_minimumLevel l0 \<and>
     (\<forall>t < length programs. pc_text_ok (lg_formatter l0) (lx_pcs s ! t)) \<and>
     (\<forall>k < n. sink_flushed (lg_sinks l ! k) @ sink_pending (lg_sinks l ! k)
        = sink_flushed (lg_sinks l0 ! k) @ sink_pending (lg_sinks l0 ! k)
          @ concat (map (\<lambda>(t, q). log_line (text_of (lg_formatter l0) q)) (lx_written s ! k)) \<and>
        fst ` set (lx_written s ! k) \<subseteq> {..< length programs} \<and>
        (\<forall>t < length programs. from_thread t (lx_written s ! k) @ in_hand k (lx_pcs s ! t)
            @ accepted (lg_minimumLevel l0) (requests (lx_calls s ! t))
          = accepted (lg_minimumLevel l0) (requests (programs ! t)))))"

lemma log_start_ok: "list_all sink_ok (lg_sinks l) \<Longrightarrow> log_race_ok l programs (log_race_start l programs)"
  by (simp add: log_race_ok_def log_race_start_def Let_def from_thread_def)

lemma from_thread_snoc: "from_thread u (ws @ [(t, q)]) = from_thread u ws @ (if t = u then [q] else [])"
  by (simp add: from_thread_def)

lemma accepted_Cons: "accepted m (q # qs) = (if lq_level q < m then accepted m qs else q # accepted m qs)"
  by (auto simp: accepted_def)

lemma same_pcs: "s\<lparr>lx_calls := c, lx_pcs := lx_pcs s\<rparr> = s\<lparr>lx_calls := c\<rparr>"
  by simp

text \<open>A step that hands nothing to a sink.\<close>

lemma log_race_ok_moved:
  assumes ok: "log_race_ok l0 programs s" and t: "t < length (lx_pcs s)" and pc: "pc_text_ok (lg_formatter l0) pc"
    and same: "\<And>k. k < length (lg_sinks l0) \<Longrightarrow> in_hand k pc @ accepted (lg_minimumLevel l0) (requests cs)
      = in_hand k (lx_pcs s ! t) @ accepted (lg_minimumLevel l0) (requests (lx_calls s ! t))"
  shows "log_race_ok l0 programs (s\<lparr>lx_calls := (lx_calls s)[t := cs], lx_pcs := (lx_pcs s)[t := pc]\<rparr>)"
  using ok t pc same by (simp add: log_race_ok_def Let_def nth_list_update)

text \<open>A step that hands a line to sink \<open>k\<close>.\<close>

lemma log_race_ok_written:
  assumes ok: "log_race_ok l0 programs s" and t: "t < length (lx_pcs s)" and pc: "lx_pcs s ! t = Writing q formatted k"
    and k: "k < length (lg_sinks l0)" and f: "formatted = text_of (lg_formatter l0) q"
    and sink: "sink_ok sink" "sink_flushed sink = sink_flushed (lg_sinks (lx_logger s) ! k)"
      "sink_pending sink = sink_pending (lg_sinks (lx_logger s) ! k) @ log_line formatted"
  shows "log_race_ok l0 programs (s\<lparr>lx_logger := (lx_logger s)\<lparr>lg_sinks := (lg_sinks (lx_logger s))[k := sink]\<rparr>,
      lx_written := (lx_written s)[k := lx_written s ! k @ [(t, q)]], lx_pcs := (lx_pcs s)[t := Writing q formatted (Suc k)]\<rparr>)"
    (is "log_race_ok l0 programs ?s")
proof -
  note I = ok [unfolded log_race_ok_def Let_def]
  have lengths: "length (lx_pcs ?s) = length programs" "length (lx_calls ?s) = length programs" "t < length programs"
    "length (lg_sinks (lx_logger ?s)) = length (lg_sinks l0)" "length (lx_written ?s) = length (lg_sinks l0)"
    "lg_formatter (lx_logger ?s) = lg_formatter l0" "lg_minimumLevel (lx_logger ?s) = lg_minimumLevel l0"
    using I t by simp_all
  have sinks: "list_all sink_ok (lg_sinks (lx_logger ?s))"
    using I sink(1) set_update_subset_insert [of "lg_sinks (lx_logger s)" k sink] by (auto simp: list_all_iff)
  have pcs: "pc_text_ok (lg_formatter l0) (lx_pcs ?s ! u)" if "u < length programs" for u
    using I that f t by (simp add: nth_list_update)
  have line: "sink_flushed (lg_sinks (lx_logger ?s) ! j) @ sink_pending (lg_sinks (lx_logger ?s) ! j)
        = sink_flushed (lg_sinks l0 ! j) @ sink_pending (lg_sinks l0 ! j)
          @ concat (map (\<lambda>(t, q). log_line (text_of (lg_formatter l0) q)) (lx_written ?s ! j))
      \<and> fst ` set (lx_written ?s ! j) \<subseteq> {..< length programs}" if j: "j < length (lg_sinks l0)" for j
  proof -
    have "sink_flushed (lg_sinks (lx_logger s) ! j) @ sink_pending (lg_sinks (lx_logger s) ! j)
        = sink_flushed (lg_sinks l0 ! j) @ sink_pending (lg_sinks l0 ! j)
          @ concat (map (\<lambda>(t, q). log_line (text_of (lg_formatter l0) q)) (lx_written s ! j))"
      "fst ` set (lx_written s ! j) \<subseteq> {..< length programs}" using I j by blast+
    then show ?thesis using lengths I f sink j by (cases "j = k") (simp_all flip: append_assoc)
  qed
  have order: "from_thread u (lx_written ?s ! j) @ in_hand j (lx_pcs ?s ! u) @ accepted (lg_minimumLevel l0) (requests (lx_calls ?s ! u))
      = accepted (lg_minimumLevel l0) (requests (programs ! u))" if j: "j < length (lg_sinks l0)" and u: "u < length programs" for j u
  proof -
    have "from_thread u (lx_written s ! j) @ in_hand j (lx_pcs s ! u) @ accepted (lg_minimumLevel l0) (requests (lx_calls s ! u))
      = accepted (lg_minimumLevel l0) (requests (programs ! u))" using I j u by blast
    then show ?thesis using I t pc j k by (cases "j = k"; cases "t = u") (auto simp: from_thread_snoc)
  qed
  show ?thesis unfolding log_race_ok_def Let_def using lengths sinks pcs line order by blast
qed

lemma log_race_ok_flushed:
  assumes ok: "log_race_ok l0 programs s" and sink: "sink_ok sink"
    "sink_flushed sink @ sink_pending sink = sink_flushed (lg_sinks (lx_logger s) ! k) @ sink_pending (lg_sinks (lx_logger s) ! k)"
  shows "log_race_ok l0 programs (s\<lparr>lx_logger := (lx_logger s)\<lparr>lg_sinks := (lg_sinks (lx_logger s))[k := sink]\<rparr>\<rparr>)"
proof -
  note I = ok [unfolded log_race_ok_def Let_def]
  have "list_all sink_ok ((lg_sinks (lx_logger s))[k := sink])"
    using I sink(1) set_update_subset_insert [of "lg_sinks (lx_logger s)" k sink] by (auto simp: list_all_iff)
  moreover have "sink_flushed ((lg_sinks (lx_logger s))[k := sink] ! j) @ sink_pending ((lg_sinks (lx_logger s))[k := sink] ! j)
      = sink_flushed (lg_sinks (lx_logger s) ! j) @ sink_pending (lg_sinks (lx_logger s) ! j)" for j
    using sink(2) by (cases "j = k"; cases "k < length (lg_sinks (lx_logger s))") (simp_all add: not_less list_update_beyond)
  ultimately show ?thesis using I by (simp add: log_race_ok_def Let_def)
qed

lemma log_step_ok:
  assumes ok: "log_race_ok l0 programs s" and step: "log_thread_step t s = Some s'"
  shows "log_race_ok l0 programs s'"
proof -
  have t: "t < length (lx_pcs s)" using step by (auto simp: log_thread_step_def split: if_splits)
  note I = ok [unfolded log_race_ok_def Let_def]
  show ?thesis
  proof (cases "lx_pcs s ! t")
    case Idle
    show ?thesis
    proof (cases "lx_calls s ! t")
      case calls: (Cons c cs)
      have m: "lg_minimumLevel (lx_logger s) = lg_minimumLevel l0" "lg_formatter (lx_logger s) = lg_formatter l0" using I by auto
      show ?thesis
      proof (cases c)
        case Flush_call
        have "s' = s\<lparr>lx_calls := (lx_calls s)[t := cs], lx_pcs := (lx_pcs s)[t := Flushing 0]\<rparr>"
          using step t Idle calls Flush_call by (simp add: log_thread_step_def Let_def)
        then show ?thesis using log_race_ok_moved [OF ok t] calls Idle Flush_call by simp
      next
        case (Log_call q)
        show ?thesis
        proof (cases "lq_level q < lg_minimumLevel l0")
          case True
          have upd: "(lx_pcs s)[t := Idle] = lx_pcs s" using Idle list_update_id [of "lx_pcs s" t] by simp
          have s': "s' = s\<lparr>lx_calls := (lx_calls s)[t := cs]\<rparr>"
            using step t Idle calls Log_call True m by (simp add: log_thread_step_def Let_def)
          have "log_race_ok l0 programs (s\<lparr>lx_calls := (lx_calls s)[t := cs], lx_pcs := (lx_pcs s)[t := Idle]\<rparr>)"
            by (rule log_race_ok_moved [OF ok t]) (simp_all add: calls Idle Log_call True accepted_Cons)
          then show ?thesis unfolding upd same_pcs s' .
        next
          case False
          obtain formatted where f: "lg_formatter l0 (record_of q) True MAX_LOG_FORMAT_BUFFER_SIZE = Inr formatted"
            using step t Idle calls Log_call m False
            by (cases "lg_formatter l0 (record_of q) True MAX_LOG_FORMAT_BUFFER_SIZE") (simp_all add: log_thread_step_def Let_def)
          have s': "s' = s\<lparr>lx_calls := (lx_calls s)[t := cs], lx_pcs := (lx_pcs s)[t := Writing q formatted 0]\<rparr>"
            using step t Idle calls Log_call m False f by (simp add: log_thread_step_def Let_def)
          have "formatted = text_of (lg_formatter l0) q" using f by (simp add: text_of_def)
          then show ?thesis unfolding s'
            by (intro log_race_ok_moved [OF ok t]) (simp_all add: calls Idle Log_call False accepted_Cons)
        qed
      qed
    qed (use step Idle t in \<open>simp add: log_thread_step_def\<close>)
  next
    case (Writing q formatted k)
    show ?thesis
    proof (cases "k < length (lg_sinks l0)")
      case True
      have "sink_ok (lg_sinks (lx_logger s) ! k)" using I True by (simp add: list_all_length)
      then obtain sink where sink: "Sink_Write formatted (lg_sinks (lx_logger s) ! k) = Inr sink" "sink_ok sink"
        "sink_flushed sink = sink_flushed (lg_sinks (lx_logger s) ! k)"
        "sink_pending sink = sink_pending (lg_sinks (lx_logger s) ! k) @ log_line formatted"
        using Sink_Write_ok by blast
      have s': "s' = s\<lparr>lx_logger := (lx_logger s)\<lparr>lg_sinks := (lg_sinks (lx_logger s))[k := sink]\<rparr>,
          lx_written := (lx_written s)[k := lx_written s ! k @ [(t, q)]], lx_pcs := (lx_pcs s)[t := Writing q formatted (Suc k)]\<rparr>"
        using step t Writing True sink(1) I by (simp add: log_thread_step_def Let_def)
      have "formatted = text_of (lg_formatter l0) q" using I t Writing by (metis pc_text_ok.simps(1))
      then show ?thesis
        unfolding s' using log_race_ok_written [OF ok t Writing True _ sink(2) sink(3)] sink(4) by simp
    next
      case False
      then have "s' = s\<lparr>lx_calls := (lx_calls s)[t := lx_calls s ! t], lx_pcs := (lx_pcs s)[t := Idle]\<rparr>"
        using step I Writing t by (auto simp: log_thread_step_def Let_def)
      then show ?thesis using log_race_ok_moved [OF ok t, of Idle "lx_calls s ! t"] Writing False by simp
    qed
  next
    case (Flushing k)
    show ?thesis
    proof (cases "k < length (lg_sinks l0)")
      case True
      have "sink_ok (lg_sinks (lx_logger s) ! k)" using I True by (simp add: list_all_length)
      then obtain sink where sink: "Sink_Flush (lg_sinks (lx_logger s) ! k) = Inr sink" "sink_ok sink"
        "sink_flushed sink = sink_flushed (lg_sinks (lx_logger s) ! k) @ sink_pending (lg_sinks (lx_logger s) ! k)"
        "sink_pending sink = []"
        using Sink_Flush_ok by blast
      let ?s = "s\<lparr>lx_logger := (lx_logger s)\<lparr>lg_sinks := (lg_sinks (lx_logger s))[k := sink]\<rparr>\<rparr>"
      have flushed: "log_race_ok l0 programs ?s" by (rule log_race_ok_flushed [OF ok]) (simp_all add: sink)
      have "s' = ?s\<lparr>lx_calls := (lx_calls ?s)[t := lx_calls ?s ! t], lx_pcs := (lx_pcs ?s)[t := Flushing (Suc k)]\<rparr>"
        using step t Flushing True sink(1) I by (auto simp: log_thread_step_def Let_def)
      then show ?thesis using log_race_ok_moved [OF flushed, of t "Flushing (Suc k)" "lx_calls ?s ! t"] t Flushing by simp
    next
      case False
      then have "s' = s\<lparr>lx_calls := (lx_calls s)[t := lx_calls s ! t], lx_pcs := (lx_pcs s)[t := Idle]\<rparr>"
        using step I Flushing t by (auto simp: log_thread_step_def Let_def)
      then show ?thesis using log_race_ok_moved [OF ok t, of Idle "lx_calls s ! t"] Flushing by simp
    qed
  qed
qed

lemma log_reachable_ok:
  "log_reachable l programs s \<Longrightarrow> list_all sink_ok (lg_sinks l) \<Longrightarrow> log_race_ok l programs s"
proof (induction rule: log_reachable.induct)
  case start
  then show ?case by (rule log_start_ok)
next
  case (step s t s')
  then show ?case using log_step_ok by blast
qed

section \<open>Every call returns\<close>

fun pc_work :: "nat \<Rightarrow> log_pc \<Rightarrow> nat" where
  "pc_work n Idle = 0"
| "pc_work n (Writing q formatted k) = Suc (n - k)"
| "pc_work n (Flushing k) = Suc (n - k)"

definition log_work :: "log_race \<Rightarrow> nat" where
  "log_work s = (let n = length (lg_sinks (lx_logger s)) in
     sum_list (map (pc_work n) (lx_pcs s)) + sum_list (map (\<lambda>cs. (n + 2) * length cs) (lx_calls s)))"

lemma log_step_decreases:
  assumes "log_thread_step t s = Some s'" and "t < length (lx_calls s)"
  shows "log_work s' < log_work s"
proof -
  have t: "t < length (lx_pcs s)" using assms(1) by (auto simp: log_thread_step_def split: if_splits)
  let ?n = "length (lg_sinks (lx_logger s))"
  have pcs: "sum_list (map (pc_work ?n) ((lx_pcs s)[t := pc])) + pc_work ?n (lx_pcs s ! t)
      = sum_list (map (pc_work ?n) (lx_pcs s)) + pc_work ?n pc" for pc
    using t by (rule sum_list_update_plus)
  have calls: "sum_list (map (\<lambda>cs. (?n + 2) * length cs) ((lx_calls s)[t := cs])) + (?n + 2) * length (lx_calls s ! t)
      = sum_list (map (\<lambda>cs. (?n + 2) * length cs) (lx_calls s)) + (?n + 2) * length cs" for cs
    using assms(2) by (rule sum_list_update_plus [where f = "\<lambda>cs. (?n + 2) * length cs"])
  note w = log_thread_step_def log_work_def Let_def not_less
  show ?thesis
  proof (cases "lx_pcs s ! t")
    case Idle
    then obtain c cs where "lx_calls s ! t = c # cs"
      using assms(1) t by (cases "lx_calls s ! t") (auto simp: log_thread_step_def Let_def)
    then show ?thesis
      using assms(1) t Idle calls [of cs] pcs [of "Flushing 0"] pcs [of "Writing q formatted 0" for q formatted]
      by (cases c) (auto simp: w split: if_splits sum.splits)
  next
    case (Writing q formatted k)
    then show ?thesis
      using assms(1) t pcs [of "Writing q formatted (Suc k)"] pcs [of Idle] by (auto simp: w split: if_splits sum.splits)
  next
    case (Flushing k)
    then show ?thesis
      using assms(1) t pcs [of "Flushing (Suc k)"] pcs [of Idle] by (auto simp: w split: if_splits sum.splits)
  qed
qed

section \<open>Property\<close>

lemma log_not_stuck:
  assumes ok: "log_race_ok l programs s" and t: "t < length programs" and none: "log_thread_step t s = None"
    and f: "\<And>q. q \<in> set (requests (lx_calls s ! t)) \<Longrightarrow>
      \<exists>text. lg_formatter l (record_of q) True MAX_LOG_FORMAT_BUFFER_SIZE = Inr text"
  shows "lx_pcs s ! t = Idle \<and> lx_calls s ! t = []"
proof -
  note I = ok [unfolded log_race_ok_def Let_def]
  have sinks: "sink_ok (lg_sinks (lx_logger s) ! k)" if "k < length (lg_sinks (lx_logger s))" for k
    using I that by (simp add: list_all_length)
  have m: "lg_formatter (lx_logger s) = lg_formatter l" using I by blast
  show ?thesis
  proof (cases "lx_pcs s ! t")
    case Idle
    then show ?thesis
      using none t I m f by (cases "lx_calls s ! t"; cases "hd (lx_calls s ! t)")
        (fastforce simp: log_thread_step_def Let_def split: if_splits sum.splits)+
  next
    case (Writing q formatted k)
    then show ?thesis
      using none t I sinks [of k] Sink_Write_ok [of "lg_sinks (lx_logger s) ! k" formatted]
      by (fastforce simp: log_thread_step_def Let_def split: if_splits)
  next
    case (Flushing k)
    then show ?thesis
      using none t I sinks [of k] Sink_Flush_ok [of "lg_sinks (lx_logger s) ! k"]
      by (fastforce simp: log_thread_step_def Let_def split: if_splits)
  qed
qed

lemma log_step_calls:
  assumes "log_thread_step t s = Some s'"
  shows "lx_calls s' = lx_calls s \<or> (\<exists>c. lx_calls s ! t = c # lx_calls s' ! t \<and> lx_calls s' = (lx_calls s)[t := tl (lx_calls s ! t)])"
proof (cases "lx_pcs s ! t")
  case Idle
  then obtain c cs where "lx_calls s ! t = c # cs"
    using assms by (cases "lx_calls s ! t") (auto simp: log_thread_step_def Let_def split: if_splits)
  then show ?thesis
    using assms Idle by (cases "t < length (lx_calls s)"; cases c)
      (auto simp: log_thread_step_def Let_def list_update_beyond not_less split: if_splits sum.splits)
qed (use assms in \<open>auto simp: log_thread_step_def Let_def split: if_splits sum.splits\<close>)

lemma requests_tail: "set (requests cs) \<subseteq> set (requests (c # cs))"
  by (cases c) auto

lemma calls_left:
  "log_reachable l programs s \<Longrightarrow> t < length (lx_calls s) \<Longrightarrow>
    length (lx_calls s) = length programs \<and> set (requests (lx_calls s ! t)) \<subseteq> set (requests (programs ! t))"
proof (induction rule: log_reachable.induct)
  case start
  then show ?case by (simp add: log_race_start_def)
next
  case (step s u s')
  from log_step_calls [OF step.hyps(2)] have "length (lx_calls s') = length (lx_calls s)
      \<and> set (requests (lx_calls s' ! t)) \<subseteq> set (requests (lx_calls s ! t))"
  proof
    assume "\<exists>c. lx_calls s ! u = c # lx_calls s' ! u \<and> lx_calls s' = (lx_calls s)[u := tl (lx_calls s ! u)]"
    then obtain c where c: "lx_calls s ! u = c # lx_calls s' ! u" "lx_calls s' = (lx_calls s)[u := tl (lx_calls s ! u)]" by blast
    have "length (lx_calls s') = length (lx_calls s)" by (subst c(2)) simp
    moreover have "lx_calls s' ! t = lx_calls s ! t" if "t \<noteq> u" using that by (subst c(2)) simp
    moreover have "set (requests (lx_calls s' ! u)) \<subseteq> set (requests (lx_calls s ! u))" unfolding c(1) by (rule requests_tail)
    ultimately show ?thesis by (cases "t = u") simp_all
  qed simp
  then show ?case using step.IH step.prems by auto
qed

text \<open>C28. Any number of threads log and flush at once, through the text formatter and sinks that opened. Whatever the
  schedule, what a sink has received at any moment is a sequence of whole lines after what it held before; the lines of
  one thread are the first of its calls at or above the minimum level, in the order of its calls; no schedule goes on for
  ever, and when no thread can go on every thread has made all its calls and every sink has every line.\<close>

theorem concurrent_logs_stay_whole:
  assumes "lg_formatter l = TextFormatter_Format localtime" and "list_all sink_ok (lg_sinks l)"
    and "\<forall>cs \<in> set programs. \<forall>q \<in> set (requests cs). length (lq_message q) < 2 ^ 31"
  shows "wf {(s', s). log_reachable l programs s \<and> (\<exists>t. log_thread_step t s = Some s')} \<and>
    (\<forall>s k. log_reachable l programs s \<longrightarrow> k < length (lg_sinks l) \<longrightarrow>
     (\<exists>L. sink_flushed (lg_sinks (lx_logger s) ! k) @ sink_pending (lg_sinks (lx_logger s) ! k)
        = sink_flushed (lg_sinks l ! k) @ sink_pending (lg_sinks l ! k)
          @ concat (map (\<lambda>(t, q). log_line (text_of (lg_formatter l) q)) L)
      \<and> fst ` set L \<subseteq> {..< length programs}
      \<and> (\<forall>t < length programs. prefix (from_thread t L) (accepted (lg_minimumLevel l) (requests (programs ! t)))
          \<and> ((\<forall>u < length programs. log_thread_step u s = None)
             \<longrightarrow> lx_calls s ! t = [] \<and> from_thread t L = accepted (lg_minimumLevel l) (requests (programs ! t))))))"
proof (intro conjI allI impI)
  have "log_work s' < log_work s" if "log_reachable l programs s" "log_thread_step t s = Some s'" for s s' t
  proof -
    have "t < length (lx_pcs s)" using that(2) by (auto simp: log_thread_step_def split: if_splits)
    then have "t < length (lx_calls s)" using log_reachable_ok [OF that(1) assms(2)] by (simp add: log_race_ok_def Let_def)
    then show ?thesis using log_step_decreases [OF that(2)] by simp
  qed
  then show "wf {(s', s). log_reachable l programs s \<and> (\<exists>t. log_thread_step t s = Some s')}"
    by (intro wf_subset [OF wf_measure [of log_work]]) auto
next
  fix s k
  assume s: "log_reachable l programs s" and k: "k < length (lg_sinks l)"
  note ok = log_reachable_ok [OF s assms(2)]
  note I = ok [unfolded log_race_ok_def Let_def]
  have rest: "lx_pcs s ! t = Idle \<and> lx_calls s ! t = []" if t: "t < length programs" and none: "log_thread_step t s = None" for t
  proof (rule log_not_stuck [OF ok t none])
    fix q assume "q \<in> set (requests (lx_calls s ! t))"
    then have "q \<in> set (requests (programs ! t))" using calls_left [OF s, of t] I t by auto
    then have "length (lq_message q) < 2 ^ 31" using assms(3) t nth_mem by blast
    then show "\<exists>text. lg_formatter l (record_of q) True MAX_LOG_FORMAT_BUFFER_SIZE = Inr text"
      using assms(1) by (auto simp: Format_small record_of_def MAX_LOG_FORMAT_BUFFER_SIZE_def Let_def)
  qed
  have each: "from_thread t (lx_written s ! k) @ in_hand k (lx_pcs s ! t) @ accepted (lg_minimumLevel l) (requests (lx_calls s ! t))
      = accepted (lg_minimumLevel l) (requests (programs ! t))" if "t < length programs" for t
    using I k that by blast
  have "prefix (from_thread t (lx_written s ! k)) (accepted (lg_minimumLevel l) (requests (programs ! t)))"
    if "t < length programs" for t using each [OF that] by (metis prefixI)
  moreover have "from_thread t (lx_written s ! k) = accepted (lg_minimumLevel l) (requests (programs ! t))"
    if "t < length programs" "\<forall>u < length programs. log_thread_step u s = None" for t
    using each [OF that(1)] rest [of t] that by (simp add: accepted_def)
  ultimately show "\<exists>L. sink_flushed (lg_sinks (lx_logger s) ! k) @ sink_pending (lg_sinks (lx_logger s) ! k)
        = sink_flushed (lg_sinks l ! k) @ sink_pending (lg_sinks l ! k)
          @ concat (map (\<lambda>(t, q). log_line (text_of (lg_formatter l) q)) L)
      \<and> fst ` set L \<subseteq> {..< length programs}
      \<and> (\<forall>t < length programs. prefix (from_thread t L) (accepted (lg_minimumLevel l) (requests (programs ! t)))
          \<and> ((\<forall>u < length programs. log_thread_step u s = None)
             \<longrightarrow> lx_calls s ! t = [] \<and> from_thread t L = accepted (lg_minimumLevel l) (requests (programs ! t))))"
    using I k rest by (intro exI [of _ "lx_written s ! k"]) simp
qed

definition two_programs :: "log_call list list" where
  "two_programs =
     [[Log_call \<lparr>lq_now = 5007, lq_thread = 3, lq_level = Warn, lq_message = ''b''\<rparr>, Flush_call],
      [Log_call \<lparr>lq_now = 5007, lq_thread = 4, lq_level = Debug, lq_message = ''a''\<rparr>,
       Log_call \<lparr>lq_now = 5008, lq_thread = 4, lq_level = Error, lq_message = ''c''\<rparr>]]"

definition file_logger :: logger where
  "file_logger = AddSink (File_sink \<lparr>os_good = True, os_pending = [], os_flushed = ''x''\<rparr>)
     (Logger_new (TextFormatter_Format noon))"

theorem concurrent_logs_stay_whole_witness:
  "\<exists>s L. log_reachable file_logger two_programs s \<and>
     sink_flushed (lg_sinks (lx_logger s) ! 0) @ sink_pending (lg_sinks (lx_logger s) ! 0)
       = ''x'' @ concat (map (\<lambda>(t, q). log_line (text_of (TextFormatter_Format noon) q)) L) \<and>
     map lq_message (from_thread 0 L) = [''b''] \<and> map lq_message (from_thread 1 L) = [''c'']"
proof -
  have l: "lg_formatter file_logger = TextFormatter_Format noon" "list_all sink_ok (lg_sinks file_logger)"
    "length (lg_sinks file_logger) = 1" "lg_minimumLevel file_logger = Info"
    "sink_flushed (lg_sinks file_logger ! 0) @ sink_pending (lg_sinks file_logger ! 0) = ''x''"
    by (simp_all add: file_logger_def AddSink_def Logger_new_def sink_ok_def sink_flushed_def sink_pending_def)
  have p: "length two_programs = 2" "map lq_message (accepted Info (requests (two_programs ! 0))) = [''b'']"
    "map lq_message (accepted Info (requests (two_programs ! 1))) = [''c'']"
    by (simp_all add: two_programs_def accepted_def less_eq_LogLevel_def)
  have q: "\<forall>cs \<in> set two_programs. \<forall>q \<in> set (requests cs). length (lq_message q) < 2 ^ 31"
    by (simp add: two_programs_def)
  note T = concurrent_logs_stay_whole [OF l(1) l(2) q]
  obtain s where s: "log_reachable file_logger two_programs s" and rest: "log_thread_step u s = None" for u
  proof (rule wfE_min [OF T [THEN conjunct1], of "log_race_start file_logger two_programs" "Collect (log_reachable file_logger two_programs)"])
    fix s assume s: "s \<in> Collect (log_reachable file_logger two_programs)"
      and none: "\<And>y. (y, s) \<in> {(s', s). log_reachable file_logger two_programs s \<and> (\<exists>t. log_thread_step t s = Some s')}
        \<Longrightarrow> y \<notin> Collect (log_reachable file_logger two_programs)"
    have "log_thread_step u s = None" for u
      using s none log_reachable.step [of file_logger two_programs s u] by (cases "log_thread_step u s") auto
    with s that show thesis by simp
  qed (simp add: log_reachable.start)
  obtain L where L: "sink_flushed (lg_sinks (lx_logger s) ! 0) @ sink_pending (lg_sinks (lx_logger s) ! 0)
      = (sink_flushed (lg_sinks file_logger ! 0) @ sink_pending (lg_sinks file_logger ! 0))
        @ concat (map (\<lambda>(t, q). log_line (text_of (lg_formatter file_logger) q)) L)"
    "\<And>t. t < 2 \<Longrightarrow> from_thread t L = accepted Info (requests (two_programs ! t))"
    using T [THEN conjunct2, rule_format, OF s, of 0] l(3,4) p(1) rest by auto
  show ?thesis using s L(1) L(2) [of 0] L(2) [of 1] p(2,3) unfolding l(1,5)
    by (intro exI [of _ s] exI [of _ L]) simp
qed

end
