(* ===== verification/Task_Graph.thy ===== *)
theory Task_Graph
  imports Prelude
begin

text \<open>
  The data of the runtime layer: phases, context and pipeline (\<open>runtime/RuntimePhase\<close>,
  \<open>RuntimeContext\<close>, \<open>RuntimePipeline\<close>), the task graph in compressed rows (\<open>runtime/TaskGraph\<close>) and
  the task registry (\<open>JobDispatch/TaskRegistry\<close>). \<open>std::array\<close>s are lists of the declared length and
  an index past it is undefined behaviour.
\<close>

section \<open>Phases, context, pipeline\<close>

type_synonym RuntimePhaseIndex = u8
type_synonym RuntimePhaseCount = u8

definition RuntimePhaseCountV1 :: RuntimePhaseCount where
  "RuntimePhaseCountV1 = 4"

datatype RuntimePhaseId = Input | Simulation | PostSimulation | Output

fun phase_number :: "RuntimePhaseId \<Rightarrow> nat" where
  "phase_number Input = 0"
| "phase_number Simulation = 1"
| "phase_number PostSimulation = 2"
| "phase_number Output = 3"

lemma phase_number_inj: "phase_number p = phase_number q \<longleftrightarrow> p = q"
  by (cases p; cases q) auto

lemma phase_number_less: "phase_number p < 4"
  by (cases p) auto

instantiation RuntimePhaseId :: linorder
begin

definition less_eq_RuntimePhaseId :: "RuntimePhaseId \<Rightarrow> RuntimePhaseId \<Rightarrow> bool" where
  "less_eq_RuntimePhaseId p q \<longleftrightarrow> phase_number p \<le> phase_number q"

definition less_RuntimePhaseId :: "RuntimePhaseId \<Rightarrow> RuntimePhaseId \<Rightarrow> bool" where
  "less_RuntimePhaseId p q \<longleftrightarrow> phase_number p < phase_number q"

instance
  by intro_classes (auto simp: less_eq_RuntimePhaseId_def less_RuntimePhaseId_def phase_number_inj)

end

record runtime_phase =
  ph_id :: RuntimePhaseId

type_synonym TickId = u64
type_synonym TickDurationMs = u32
type_synonym WorkerCount = u32

datatype RuntimeMode = Initializing | Mode_Running | Mode_Stopping | Mode_Stopped

record runtime_context =
  rc_tickId :: TickId
  rc_deltaTimeMs :: TickDurationMs
  rc_mode :: RuntimeMode
  rc_workerCount :: WorkerCount

definition RuntimeContext_new :: runtime_context where
  "RuntimeContext_new = \<lparr>rc_tickId = 0, rc_deltaTimeMs = 0, rc_mode = Initializing, rc_workerCount = 0\<rparr>"

record runtime_pipeline =
  rl_phases :: "runtime_phase list"

definition RuntimePipeline_new :: runtime_pipeline where
  "RuntimePipeline_new =
     \<lparr>rl_phases = [\<lparr>ph_id = Input\<rparr>, \<lparr>ph_id = Simulation\<rparr>, \<lparr>ph_id = PostSimulation\<rparr>, \<lparr>ph_id = Output\<rparr>]\<rparr>"

definition Pipeline_size :: "runtime_pipeline \<Rightarrow> usize" where
  "Pipeline_size p = of_nat (length (rl_phases p))"

section \<open>The task graph\<close>

type_synonym TaskId = u16
type_synonym TaskNodeCount = u16
type_synonym TaskDependencyCount = u16

definition InvalidTaskId :: TaskId where
  "InvalidTaskId = 0xFFFF"

definition TaskGraphMaxNodesV1 :: TaskNodeCount where
  "TaskGraphMaxNodesV1 = 256"

definition TaskGraphMaxDependenciesV1 :: TaskDependencyCount where
  "TaskGraphMaxDependenciesV1 = 1024"

record task_node =
  tn_id :: TaskId
  tn_phaseId :: RuntimePhaseId
  tn_dependencyOffset :: u32
  tn_childCount :: u32
  tn_parentCount :: u32

definition TaskNode_new :: task_node where
  "TaskNode_new = \<lparr>tn_id = InvalidTaskId, tn_phaseId = Input, tn_dependencyOffset = 0,
     tn_childCount = 0, tn_parentCount = 0\<rparr>"

record task_dependency =
  td_parentTaskId :: TaskId
  td_childTaskId :: TaskId

record phase_range =
  pr_begin :: u16
  pr_count :: u16

record task_graph =
  tg_nodes :: "task_node list"
  tg_nodeCount :: TaskNodeCount
  tg_childTaskIds :: "TaskId list"
  tg_phaseRanges :: "phase_range list"
  tg_taskIdToNodeIndex :: "TaskId list"
  tg_dependencyCount :: TaskDependencyCount

definition TaskGraph_new :: task_graph where
  "TaskGraph_new =
     \<lparr>tg_nodes = replicate (unat TaskGraphMaxNodesV1) TaskNode_new, tg_nodeCount = 0,
      tg_childTaskIds = replicate (unat TaskGraphMaxDependenciesV1) 0,
      tg_phaseRanges = replicate (unat RuntimePhaseCountV1) \<lparr>pr_begin = 0, pr_count = 0\<rparr>,
      tg_taskIdToNodeIndex = replicate (unat TaskGraphMaxNodesV1) 0, tg_dependencyCount = 0\<rparr>"

section \<open>The task registry\<close>

type_synonym task_function = "runtime_context \<Rightarrow> runtime_context"
type_synonym task_registry = "task_function option list"

definition TaskRegistry_new :: task_registry where
  "TaskRegistry_new = replicate (unat TaskGraphMaxNodesV1) None"

definition Register :: "TaskId \<Rightarrow> task_function option \<Rightarrow> task_registry \<Rightarrow> bool \<times> task_registry" where
  "Register i f r = (if i \<ge> TaskGraphMaxNodesV1 then (False, r) else (True, r[unat i := f]))"

definition Resolve :: "TaskId \<Rightarrow> task_registry \<Rightarrow> task_function option" where
  "Resolve i r = (if i \<ge> TaskGraphMaxNodesV1 then None else r ! unat i)"

definition IsRegistered :: "TaskId \<Rightarrow> task_registry \<Rightarrow> bool" where
  "IsRegistered i r \<longleftrightarrow> Resolve i r \<noteq> None"

text \<open>\<open>Validate\<close>: the loop over the first \<open>nodeCount\<close> nodes, with its early return.\<close>

fun validate_nodes :: "task_node list \<Rightarrow> nat list \<Rightarrow> task_registry \<Rightarrow> bool result" where
  "validate_nodes nodes [] r = Inr True"
| "validate_nodes nodes (i # is) r =
     and_then (array_get nodes i) (\<lambda>node.
       if \<not> IsRegistered (tn_id node) r then Inr False else validate_nodes nodes is r)"

definition Validate :: "task_graph \<Rightarrow> task_registry \<Rightarrow> bool result" where
  "Validate g r = validate_nodes (tg_nodes g) [0 ..< unat (tg_nodeCount g)] r"

section \<open>Well-formed graphs\<close>

text \<open>The nodes in use, and the children a node lists.\<close>

definition graph_nodes :: "task_graph \<Rightarrow> task_node list" where
  "graph_nodes g = take (unat (tg_nodeCount g)) (tg_nodes g)"

definition children :: "task_graph \<Rightarrow> task_node \<Rightarrow> TaskId list" where
  "children g n = take (unat (tn_childCount n)) (drop (unat (tn_dependencyOffset n)) (tg_childTaskIds g))"

definition phase_nodes :: "task_graph \<Rightarrow> RuntimePhaseId \<Rightarrow> task_node list" where
  "phase_nodes g p = (let r = tg_phaseRanges g ! phase_number p
     in take (unat (pr_count r)) (drop (unat (pr_begin r)) (tg_nodes g)))"

text \<open>
  The shape the arrays must have: lengths as declared, identifiers distinct and indexing the node
  that carries them, child rows inside the edge array and naming nodes, parent counts equal to the
  number of edges, each phase's range holding exactly its nodes, edges never leading to an earlier
  phase, and no cycle (\<open>rank\<close> increases along every edge).
\<close>

definition edges_into :: "task_graph \<Rightarrow> task_node list \<Rightarrow> TaskId \<Rightarrow> nat" where
  "edges_into g ns c = sum_list (map (\<lambda>n. count_list (children g n) c) ns)"

definition graph_shape :: "task_graph \<Rightarrow> bool" where
  "graph_shape g \<longleftrightarrow> length (tg_nodes g) = 256 \<and> length (tg_childTaskIds g) = 1024 \<and>
     length (tg_phaseRanges g) = 4 \<and> length (tg_taskIdToNodeIndex g) = 256 \<and>
     unat (tg_nodeCount g) \<le> 256 \<and>
     (\<forall>i < unat (tg_nodeCount g). let n = tg_nodes g ! i in
        unat (tn_id n) < 256 \<and> unat (tg_taskIdToNodeIndex g ! unat (tn_id n)) = i \<and>
        unat (tn_dependencyOffset n) + unat (tn_childCount n) \<le> 1024) \<and>
     (\<forall>r \<in> set (tg_phaseRanges g). unat (pr_begin r) + unat (pr_count r) \<le> 256)"

definition graph_ok :: "task_graph \<Rightarrow> (TaskId \<Rightarrow> nat) \<Rightarrow> bool" where
  "graph_ok g rank \<longleftrightarrow> graph_shape g \<and>
     (\<forall>n \<in> set (graph_nodes g).
        unat (tn_parentCount n) = edges_into g (graph_nodes g) (tn_id n) \<and>
        (\<forall>c \<in> set (children g n). \<exists>m \<in> set (graph_nodes g).
           tn_id m = c \<and> tn_phaseId n \<le> tn_phaseId m \<and> rank (tn_id n) < rank c)) \<and>
     (\<forall>p. distinct (map tn_id (phase_nodes g p)) \<and>
        set (phase_nodes g p) = {n \<in> set (graph_nodes g). tn_phaseId n = p})"

lemma graph_nodes_nth:
  "graph_shape g \<Longrightarrow> i < unat (tg_nodeCount g) \<Longrightarrow> graph_nodes g ! i = tg_nodes g ! i"
  by (simp add: graph_nodes_def graph_shape_def)

lemma length_graph_nodes: "graph_shape g \<Longrightarrow> length (graph_nodes g) = unat (tg_nodeCount g)"
  by (simp add: graph_nodes_def graph_shape_def)

lemma graph_shape_node:
  assumes "graph_shape g" and "i < unat (tg_nodeCount g)"
  shows "unat (tn_id (tg_nodes g ! i)) < 256"
    and "unat (tg_taskIdToNodeIndex g ! unat (tn_id (tg_nodes g ! i))) = i"
    and "unat (tn_dependencyOffset (tg_nodes g ! i)) + unat (tn_childCount (tg_nodes g ! i)) \<le> 1024"
  using assms unfolding graph_shape_def Let_def by blast+

lemma graph_shape_lengths:
  assumes "graph_shape g"
  shows "length (tg_nodes g) = 256" "length (tg_childTaskIds g) = 1024" "length (tg_phaseRanges g) = 4"
    "length (tg_taskIdToNodeIndex g) = 256" "unat (tg_nodeCount g) \<le> 256"
  using assms unfolding graph_shape_def by blast+

lemma node_lookup:
  assumes "graph_shape g" and "n \<in> set (graph_nodes g)"
  shows "unat (tn_id n) < 256" and "unat (tg_taskIdToNodeIndex g ! unat (tn_id n)) < 256"
    and "tg_nodes g ! unat (tg_taskIdToNodeIndex g ! unat (tn_id n)) = n"
    and "unat (tn_dependencyOffset n) + unat (tn_childCount n) \<le> 1024"
proof -
  obtain i where "i < length (graph_nodes g)" "graph_nodes g ! i = n"
    using in_set_conv_nth [THEN iffD1, OF assms(2)] by blast
  then have i: "i < unat (tg_nodeCount g)" and n: "tg_nodes g ! i = n"
    using graph_nodes_nth [OF assms(1), of i] length_graph_nodes [OF assms(1)] by simp_all
  note node = graph_shape_node [OF assms(1) i, unfolded n]
  show "unat (tn_id n) < 256" by (rule node(1))
  show "unat (tg_taskIdToNodeIndex g ! unat (tn_id n)) < 256"
    unfolding node(2) using i graph_shape_lengths(5) [OF assms(1)] by simp
  show "tg_nodes g ! unat (tg_taskIdToNodeIndex g ! unat (tn_id n)) = n"
    unfolding node(2) by (rule n)
  show "unat (tn_dependencyOffset n) + unat (tn_childCount n) \<le> 1024" by (rule node(3))
qed

lemma node_eq_by_id:
  assumes "graph_shape g" and "n \<in> set (graph_nodes g)" and "m \<in> set (graph_nodes g)" and "tn_id n = tn_id m"
  shows "n = m"
proof -
  have "n = tg_nodes g ! unat (tg_taskIdToNodeIndex g ! unat (tn_id n))"
    by (rule node_lookup(3) [OF assms(1,2), symmetric])
  also have "\<dots> = tg_nodes g ! unat (tg_taskIdToNodeIndex g ! unat (tn_id m))"
    by (simp only: assms(4))
  also have "\<dots> = m" by (rule node_lookup(3) [OF assms(1,3)])
  finally show ?thesis .
qed

lemma distinct_ids:
  assumes shape: "graph_shape g"
  shows "distinct (map tn_id (graph_nodes g))"
  unfolding distinct_conv_nth
proof (intro allI impI)
  have idx: "unat (tg_taskIdToNodeIndex g ! unat (tn_id (graph_nodes g ! i))) = i" if "i < length (graph_nodes g)" for i
    using that graph_shape_node(2) [OF shape, of i] length_graph_nodes [OF shape] graph_nodes_nth [OF shape, of i]
    by (simp only:)
  fix i j assume ij: "i < length (map tn_id (graph_nodes g))" "j < length (map tn_id (graph_nodes g))" "i \<noteq> j"
  show "map tn_id (graph_nodes g) ! i \<noteq> map tn_id (graph_nodes g) ! j"
  proof
    assume eq: "map tn_id (graph_nodes g) ! i = map tn_id (graph_nodes g) ! j"
    have len: "i < length (graph_nodes g)" "j < length (graph_nodes g)" using ij by simp_all
    have ids: "tn_id (graph_nodes g ! i) = tn_id (graph_nodes g ! j)"
      using eq len by (simp only: nth_map)
    have "i = unat (tg_taskIdToNodeIndex g ! unat (tn_id (graph_nodes g ! i)))"
      by (rule idx [OF len(1), symmetric])
    also have "\<dots> = unat (tg_taskIdToNodeIndex g ! unat (tn_id (graph_nodes g ! j)))"
      by (simp only: ids)
    also have "\<dots> = j" by (rule idx [OF len(2)])
    finally have "i = j" .
    then show False using ij by simp
  qed
qed

end
