(* ===== verification/Worker_Pool.thy ===== *)
theory Worker_Pool
  imports Prelude
begin

text \<open>
  The worker pool of the runtime (\<open>runtime/JobDispatch/WorkerPool\<close>): its slots, \<open>Start\<close>, \<open>Stop\<close>, \<open>Join\<close>,
  and the proof that any sequence of calls behaves like a machine with two components. The body of the
  worker threads, \<open>WorkerLoop\<close>, is in theory Job_Dispatch.
\<close>

section \<open>The worker pool\<close>

type_synonym WorkerIndex = u16

record worker_thread =
  wt_thread :: bool
  wt_workerIndex :: WorkerIndex
  wt_executedTasks :: u64
  wt_stealCount :: u64

record worker_context =
  wc_workerIndex :: WorkerIndex

text \<open>Whether each pointer of the configuration is set.\<close>

record worker_pool_config =
  pc_executor :: bool
  pc_readyQueue :: bool
  pc_completionSink :: bool

record worker_pool =
  wp_config :: worker_pool_config
  wp_running :: bool
  wp_activeWorkerCount :: u16
  wp_threads :: "worker_thread list"
  wp_contexts :: "worker_context list"

definition kMaxHardwareWorkers :: nat where
  "kMaxHardwareWorkers = 32"

definition WorkerPool_new :: worker_pool where
  "WorkerPool_new =
     \<lparr>wp_config = \<lparr>pc_executor = False, pc_readyQueue = False, pc_completionSink = False\<rparr>,
      wp_running = False, wp_activeWorkerCount = 0,
      wp_threads = replicate kMaxHardwareWorkers
        \<lparr>wt_thread = False, wt_workerIndex = 0, wt_executedTasks = 0, wt_stealCount = 0\<rparr>,
      wp_contexts = replicate kMaxHardwareWorkers \<lparr>wc_workerIndex = 0\<rparr>\<rparr>"

text \<open>Assigning a thread to one that is joinable terminates the program.\<close>

definition start_worker :: "nat \<Rightarrow> worker_pool \<Rightarrow> worker_pool result" where
  "start_worker i p =
     and_then (array_set (wp_contexts p) i \<lparr>wc_workerIndex = of_nat i\<rparr>) (\<lambda>contexts.
     and_then (array_get (wp_threads p) i) (\<lambda>t.
       if wt_thread t then Inl Terminated
       else and_then (array_set (wp_threads p) i
           \<lparr>wt_thread = True, wt_workerIndex = of_nat i, wt_executedTasks = 0, wt_stealCount = 0\<rparr>) (\<lambda>threads.
         Inr (p\<lparr>wp_contexts := contexts, wp_threads := threads\<rparr>))))"

definition WorkerPool_Start :: "u32 \<Rightarrow> worker_pool_config \<Rightarrow> worker_pool \<Rightarrow> (bool \<times> worker_pool) result" where
  "WorkerPool_Start hardware_concurrency config p =
     (if wp_running p then Inr (False, p)
      else if \<not> pc_executor config \<or> \<not> pc_completionSink config \<or> \<not> pc_readyQueue config then Inr (False, p)
      else let n = ucast hardware_concurrency :: u16;
               count = (if n = 0 \<or> unat n > kMaxHardwareWorkers then 1 else n);
               p1 = p\<lparr>wp_config := config, wp_activeWorkerCount := count, wp_running := True\<rparr>
           in and_then (for_each start_worker [0 ..< unat count] p1) (\<lambda>p2. Inr (True, p2)))"

definition WorkerPool_Stop :: "worker_pool \<Rightarrow> worker_pool" where
  "WorkerPool_Stop p = p\<lparr>wp_running := False\<rparr>"

text \<open>A worker leaves its loop when the pool is not running; joining one of a running pool never returns.\<close>

definition join_worker :: "nat \<Rightarrow> worker_pool \<Rightarrow> worker_pool result" where
  "join_worker i p =
     and_then (array_get (wp_threads p) i) (\<lambda>t.
       if \<not> wt_thread t then Inr p
       else if wp_running p then Inl Diverged
       else and_then (array_set (wp_threads p) i (t\<lparr>wt_thread := False\<rparr>)) (\<lambda>threads. Inr (p\<lparr>wp_threads := threads\<rparr>)))"

definition WorkerPool_Join :: "worker_pool \<Rightarrow> worker_pool result" where
  "WorkerPool_Join p =
     and_then (for_each join_worker [0 ..< unat (wp_activeWorkerCount p)] p) (\<lambda>p1.
       Inr (p1\<lparr>wp_activeWorkerCount := 0\<rparr>))"

definition WorkerPool_Running :: "worker_pool \<Rightarrow> bool" where
  "WorkerPool_Running p = wp_running p"

section \<open>The pool as a machine\<close>

datatype pool_call = Call_Start u32 worker_pool_config | Call_Stop | Call_Join

fun pool_step :: "pool_call \<Rightarrow> worker_pool \<Rightarrow> (bool \<times> worker_pool) result" where
  "pool_step (Call_Start hw c) p = WorkerPool_Start hw c p"
| "pool_step Call_Stop p = Inr (True, WorkerPool_Stop p)"
| "pool_step Call_Join p = and_then (WorkerPool_Join p) (\<lambda>p. Inr (True, p))"

fun pool_run :: "pool_call list \<Rightarrow> worker_pool \<Rightarrow> (bool list \<times> worker_pool) result" where
  "pool_run [] p = Inr ([], p)"
| "pool_run (c # cs) p = and_then (pool_step c p) (\<lambda>(b, p1). and_then (pool_run cs p1) (\<lambda>(bs, p2). Inr (b # bs, p2)))"

text \<open>The abstract pool: whether it runs, and how many threads are joinable.\<close>

definition worker_count :: "u32 \<Rightarrow> nat" where
  "worker_count hw = (let n = unat (ucast hw :: u16) in if n = 0 \<or> n > 32 then 1 else n)"

definition config_complete :: "worker_pool_config \<Rightarrow> bool" where
  "config_complete c \<longleftrightarrow> pc_executor c \<and> pc_readyQueue c \<and> pc_completionSink c"

fun pool_spec :: "pool_call \<Rightarrow> bool \<times> nat \<Rightarrow> (bool \<times> bool \<times> nat) result" where
  "pool_spec (Call_Start hw c) (r, n) =
     (if r \<or> \<not> config_complete c then Inr (False, r, n)
      else if n > 0 then Inl Terminated
      else Inr (True, True, worker_count hw))"
| "pool_spec Call_Stop (r, n) = Inr (True, False, n)"
| "pool_spec Call_Join (r, n) = (if r \<and> n > 0 then Inl Diverged else Inr (True, r, 0))"

fun pool_spec_run :: "pool_call list \<Rightarrow> bool \<times> nat \<Rightarrow> (bool list \<times> bool \<times> nat) result" where
  "pool_spec_run [] s = Inr ([], s)"
| "pool_spec_run (c # cs) s = and_then (pool_spec c s) (\<lambda>(b, s1). and_then (pool_spec_run cs s1) (\<lambda>(bs, s2). Inr (b # bs, s2)))"

definition pool_ok :: "worker_pool \<Rightarrow> bool \<Rightarrow> nat \<Rightarrow> bool" where
  "pool_ok p r n \<longleftrightarrow> length (wp_threads p) = 32 \<and> length (wp_contexts p) = 32 \<and> wp_running p = r \<and>
     unat (wp_activeWorkerCount p) = n \<and> n \<le> 32 \<and>
     (\<forall>i < 32. wt_thread (wp_threads p ! i) \<longleftrightarrow> i < n) \<and>
     (\<forall>i < n. wc_workerIndex (wp_contexts p ! i) = of_nat i \<and> wt_workerIndex (wp_threads p ! i) = of_nat i)"

definition pool_up :: "worker_pool \<Rightarrow> bool" where
  "pool_up p \<longleftrightarrow> (\<exists>n. 1 \<le> n \<and> pool_ok p True n)"

lemma pool_up_running [simp]: "pool_up p \<Longrightarrow> wp_running p"
  by (auto simp: pool_up_def pool_ok_def)

lemma pool_new_ok: "pool_ok WorkerPool_new False 0"
  by (simp add: pool_ok_def WorkerPool_new_def kMaxHardwareWorkers_def)

text \<open>The pool while its threads are started (\<open>up\<close> ones so far) or joined (\<open>down\<close> ones so far).\<close>

definition pool_half :: "worker_pool \<Rightarrow> nat \<Rightarrow> nat \<Rightarrow> worker_pool \<Rightarrow> bool" where
  "pool_half p0 up down p \<longleftrightarrow> length (wp_threads p) = 32 \<and> length (wp_contexts p) = 32 \<and>
     wp_running p = wp_running p0 \<and> wp_activeWorkerCount p = wp_activeWorkerCount p0 \<and>
     (\<forall>i < 32. wt_thread (wp_threads p ! i) \<longleftrightarrow> down \<le> i \<and> i < up) \<and>
     (\<forall>i < up. wc_workerIndex (wp_contexts p ! i) = of_nat i \<and> wt_workerIndex (wp_threads p ! i) = of_nat i)"

lemma start_workers_ok:
  assumes "pool_half p 0 0 p" and "n \<le> 32"
  shows "\<exists>p'. for_each start_worker [0 ..< n] p = Inr p' \<and> pool_half p n 0 p'"
proof -
  have "\<exists>p'. for_each start_worker [0 ..< n] p = Inr p' \<and> pool_half p (length [0 ..< n]) 0 p'"
  proof (rule for_each_invariant)
    show "pool_half p 0 0 p" by (rule assms(1))
    fix k s assume "k < length [0 ..< n]" and s: "pool_half p k 0 s"
    then have k: "k < n" "k < 32" using assms(2) by simp_all
    then show "\<exists>s'. start_worker ([0 ..< n] ! k) s = Inr s' \<and> pool_half p (Suc k) 0 s'"
      using s by (auto simp: start_worker_def pool_half_def nth_list_update less_Suc_eq)
  qed
  then show ?thesis by simp
qed

lemma join_workers_ok:
  assumes "pool_half p n 0 p" and "n \<le> 32" and "\<not> wp_running p"
  shows "\<exists>p'. for_each join_worker [0 ..< n] p = Inr p' \<and> pool_half p n n p'"
proof -
  have "\<exists>p'. for_each join_worker [0 ..< n] p = Inr p' \<and> pool_half p n (length [0 ..< n]) p'"
  proof (rule for_each_invariant)
    show "pool_half p n 0 p" by (rule assms(1))
    fix k s assume "k < length [0 ..< n]" and s: "pool_half p n k s"
    then have k: "k < n" "k < 32" using assms(2) by simp_all
    then show "\<exists>s'. join_worker ([0 ..< n] ! k) s = Inr s' \<and> pool_half p n (Suc k) s'"
      using s assms(3) by (auto simp: join_worker_def pool_half_def nth_list_update)
  qed
  then show ?thesis by simp
qed

lemma worker_count_range: "1 \<le> worker_count hw" "worker_count hw \<le> 32"
  by (auto simp: worker_count_def Let_def)

lemma Start_ok:
  assumes ok: "pool_ok p False 0" and c: "config_complete c"
  shows "\<exists>p'. WorkerPool_Start hw c p = Inr (True, p') \<and> pool_ok p' True (worker_count hw)"
proof -
  let ?n = "ucast hw :: u16"
  let ?count = "if ?n = 0 \<or> unat ?n > kMaxHardwareWorkers then 1 else ?n"
  let ?p1 = "p\<lparr>wp_config := c, wp_activeWorkerCount := ?count, wp_running := True\<rparr>"
  have count: "unat ?count = worker_count hw"
    by (simp add: worker_count_def Let_def kMaxHardwareWorkers_def unat_eq_0)
  have "pool_half ?p1 0 0 ?p1" using ok by (simp add: pool_half_def pool_ok_def)
  then obtain p' where "for_each start_worker [0 ..< worker_count hw] ?p1 = Inr p'" "pool_half ?p1 (worker_count hw) 0 p'"
    using start_workers_ok worker_count_range(2) by blast
  then show ?thesis
    using ok c count worker_count_range(2) [of hw]
    by (intro exI [of _ p']) (simp add: WorkerPool_Start_def Let_def pool_ok_def pool_half_def config_complete_def)
qed

lemma Start_refused:
  "pool_ok p r n \<Longrightarrow> r \<or> \<not> config_complete c \<Longrightarrow> WorkerPool_Start hw c p = Inr (False, p)"
  by (auto simp: WorkerPool_Start_def pool_ok_def config_complete_def)

lemma Start_terminates:
  assumes ok: "pool_ok p False n" and n: "n > 0" and c: "config_complete c"
  shows "WorkerPool_Start hw c p = Inl Terminated"
proof -
  have "worker_count hw \<noteq> 0" using worker_count_range(1) [of hw] by simp
  then obtain m where m: "worker_count hw = Suc m" using not0_implies_Suc by blast
  have fail: "start_worker 0 q = Inl Terminated"
    if "wp_threads q = wp_threads p" "wp_contexts q = wp_contexts p" for q
    using that ok n by (simp add: start_worker_def pool_ok_def)
  have list: "[0 ..< worker_count hw] = 0 # [Suc 0 ..< worker_count hw]"
    by (simp add: m upt_rec)
  have count: "unat (if (ucast hw :: u16) = 0 \<or> unat (ucast hw :: u16) > kMaxHardwareWorkers then 1 else (ucast hw :: u16)) = worker_count hw"
    by (simp add: worker_count_def Let_def kMaxHardwareWorkers_def unat_eq_0)
  show ?thesis
    using ok c by (simp only: WorkerPool_Start_def Let_def count list)
      (simp add: fail pool_ok_def config_complete_def)
qed

lemma Join_ok:
  assumes ok: "pool_ok p r n" and r: "\<not> r \<or> n = 0"
  shows "\<exists>p'. WorkerPool_Join p = Inr p' \<and> pool_ok p' r 0"
proof -
  have "pool_half p n 0 p" using ok by (simp add: pool_half_def pool_ok_def)
  then obtain p' where "for_each join_worker [0 ..< n] p = Inr p'" "pool_half p n n p'"
    using join_workers_ok [of p n] ok r by (cases "n = 0") (auto simp: pool_ok_def)
  then show ?thesis
    using ok by (intro exI [of _ "p'\<lparr>wp_activeWorkerCount := 0\<rparr>"])
      (auto simp: WorkerPool_Join_def pool_ok_def pool_half_def)
qed

lemma Join_diverges:
  assumes ok: "pool_ok p True n" and n: "n > 0"
  shows "WorkerPool_Join p = Inl Diverged"
proof -
  have "[0 ..< n] = 0 # [Suc 0 ..< n]" using n by (simp add: upt_rec)
  moreover have "unat (wp_activeWorkerCount p) = n" "join_worker 0 p = Inl Diverged"
    using ok n by (auto simp: pool_ok_def join_worker_def)
  ultimately show ?thesis by (simp add: WorkerPool_Join_def)
qed

lemma pool_step_refines:
  assumes "pool_ok p r n"
  shows "case pool_spec c (r, n) of
      Inl e \<Rightarrow> pool_step c p = Inl e
    | Inr (b, r', n') \<Rightarrow> (\<exists>p'. pool_step c p = Inr (b, p') \<and> pool_ok p' r' n')"
proof (cases c)
  case (Call_Start hw cf)
  then show ?thesis
    using assms Start_ok [of p cf hw] Start_refused [OF assms, of cf hw] Start_terminates [of p n cf hw] by auto
next
  case Call_Stop
  then show ?thesis using assms by (simp add: WorkerPool_Stop_def pool_ok_def)
next
  case Call_Join
  then show ?thesis using assms Join_ok [OF assms] Join_diverges [of p n] by auto
qed

lemma pool_run_refines:
  "pool_ok p r n \<Longrightarrow> case pool_spec_run cs (r, n) of
      Inl e \<Rightarrow> pool_run cs p = Inl e
    | Inr (bs, r', n') \<Rightarrow> (\<exists>p'. pool_run cs p = Inr (bs, p') \<and> pool_ok p' r' n')"
proof (induction cs arbitrary: p r n)
  case Nil
  then show ?case by auto
next
  case (Cons c cs)
  show ?case
  proof (cases "pool_spec c (r, n)")
    case (Inl e)
    then show ?thesis using pool_step_refines [OF Cons.prems, of c] by simp
  next
    case (Inr x)
    obtain b r' n' where x: "x = (b, r', n')" by (cases x) auto
    then obtain p' where p': "pool_step c p = Inr (b, p')" "pool_ok p' r' n'"
      using pool_step_refines [OF Cons.prems, of c] Inr by auto
    show ?thesis
      using Cons.IH [OF p'(2)] p'(1) Inr x by (cases "pool_spec_run cs (r', n')") auto
  qed
qed

lemma pool_ok_threads: "pool_ok p r n \<Longrightarrow> map wt_thread (wp_threads p) = replicate n True @ replicate (32 - n) False"
  by (intro nth_equalityI) (auto simp: pool_ok_def nth_append)

text \<open>C24. Every sequence of \<open>Start\<close>, \<open>Stop\<close> and \<open>Join\<close> on a new pool behaves like the two-component
  machine: a running pool refuses \<open>Start\<close>, an incomplete configuration is refused, \<open>Start\<close> raises
  between 1 and 32 workers, starting again before joining the old threads terminates the program,
  and \<open>Join\<close> never returns while the pool runs. The threads up are those of the machine.\<close>

theorem worker_pool_refines_machine:
  "case pool_spec_run cs (False, 0) of
      Inl e \<Rightarrow> pool_run cs WorkerPool_new = Inl e
    | Inr (bs, r, n) \<Rightarrow> (\<exists>p. pool_run cs WorkerPool_new = Inr (bs, p) \<and> WorkerPool_Running p = r \<and> n \<le> 32 \<and>
        map wt_thread (wp_threads p) = replicate n True @ replicate (32 - n) False)"
proof (cases "pool_spec_run cs (False, 0)")
  case (Inl e)
  then show ?thesis using pool_run_refines [OF pool_new_ok, of cs] by simp
next
  case (Inr x)
  obtain bs r n where x: "x = (bs, r, n)" by (cases x) auto
  then obtain p where "pool_run cs WorkerPool_new = Inr (bs, p)" "pool_ok p r n"
    using pool_run_refines [OF pool_new_ok, of cs] Inr by auto
  then show ?thesis using Inr x pool_ok_threads by (auto simp: pool_ok_def WorkerPool_Running_def)
qed

end
