(* ===== verification/Job_Dispatch.thy ===== *)
theory Job_Dispatch
  imports Task_Graph Ring_Queue Worker_Pool
begin

text \<open>
  The job dispatcher (\<open>runtime/JobDispatch/JobDispatch.cpp\<close> with a round of the worker loop of
  \<open>WorkerPool.cpp\<close>). The pointers the dispatcher holds are options, the ready queue is the MPMC ring of
  theory Ring_Queue, and \<open>jd_executed\<close> is a ghost log of the tasks executed. Every operation is a
  function of the dispatcher's state, run by one thread without interruption. \<open>ExecutePhase\<close> and its wait
  for the workers have no such reading: theories Job_Races and Job_Ticks model them by the atomic
  accesses of all threads, and Job_Crew runs the calls of a client over those. A failed \<open>assert\<close> is an error.
\<close>

section \<open>The dispatcher\<close>

record job_dispatch =
  jd_taskGraph :: "task_graph option"
  jd_runtimeContext :: "runtime_context option"
  jd_currentPhase :: RuntimePhaseId
  jd_workerPool :: worker_pool
  jd_registry :: "task_registry option"
  jd_readyQueue :: "TaskId ring"
  jd_runtimeState :: "u32 list"
  jd_activeTaskCount :: u32
  jd_phaseEpoch :: u64
  jd_running :: bool
  jd_executed :: "TaskId list"

definition JobDispatch_new :: job_dispatch where
  "JobDispatch_new =
     \<lparr>jd_taskGraph = None, jd_runtimeContext = None, jd_currentPhase = Input,
      jd_workerPool = WorkerPool_new, jd_registry = None,
      jd_readyQueue = ring_new (unat TaskGraphMaxNodesV1) 0,
      jd_runtimeState = replicate (unat TaskGraphMaxNodesV1) 0,
      jd_activeTaskCount = 0, jd_phaseEpoch = 0, jd_running = False, jd_executed = []\<rparr>"

definition JobDispatch_Initialize :: "u32 \<Rightarrow> task_graph \<Rightarrow> runtime_context \<Rightarrow> task_registry \<Rightarrow> job_dispatch
    \<Rightarrow> (bool \<times> job_dispatch) result" where
  "JobDispatch_Initialize hardware_concurrency graph context registry d =
     (if jd_running d then Inr (False, d)
      else and_then (Validate graph registry) (\<lambda>valid.
        if \<not> valid then Inr (False, d)
        else let d1 = d\<lparr>jd_taskGraph := Some graph, jd_runtimeContext := Some context, jd_registry := Some registry\<rparr>;
                 config = \<lparr>pc_executor = True, pc_readyQueue = True, pc_completionSink = True\<rparr>
             in and_then (WorkerPool_Start hardware_concurrency config (jd_workerPool d1)) (\<lambda>(ok, pool).
               if \<not> ok then Inr (False, d1\<lparr>jd_workerPool := pool\<rparr>)
               else Inr (True, d1\<lparr>jd_workerPool := pool, jd_running := True\<rparr>))))"

definition ExecuteTask :: "TaskId \<Rightarrow> job_dispatch \<Rightarrow> job_dispatch result" where
  "ExecuteTask taskId d =
     and_then (deref (jd_registry d)) (\<lambda>registry.
       case Resolve taskId registry of
         None \<Rightarrow> Inr d
       | Some fn \<Rightarrow> and_then (deref (jd_runtimeContext d)) (\<lambda>context.
           Inr (d\<lparr>jd_runtimeContext := Some (fn context), jd_executed := jd_executed d @ [taskId]\<rparr>)))"

definition GetNode :: "task_graph \<Rightarrow> TaskId \<Rightarrow> task_node result" where
  "GetNode g i = and_then (array_get (tg_taskIdToNodeIndex g) (unat i)) (\<lambda>index. array_get (tg_nodes g) (unat index))"

definition set_remaining :: "TaskId \<Rightarrow> u32 \<Rightarrow> job_dispatch \<Rightarrow> job_dispatch result" where
  "set_remaining i v d =
     and_then (array_set (jd_runtimeState d) (unat i) v) (\<lambda>state. Inr (d\<lparr>jd_runtimeState := state\<rparr>))"

definition BuildRuntimeState :: "job_dispatch \<Rightarrow> job_dispatch result" where
  "BuildRuntimeState d =
     and_then (deref (jd_taskGraph d)) (\<lambda>g.
       for_each (\<lambda>i d. and_then (array_get (tg_nodes g) i) (\<lambda>node.
           set_remaining (tn_id node) (tn_parentCount node) d))
         [0 ..< unat (tg_nodeCount g)] d)"

text \<open>\<open>m_readyQueue.Enqueue\<close> with its assertion, then the counter.\<close>

definition ready_enqueue :: "TaskId \<Rightarrow> job_dispatch \<Rightarrow> job_dispatch result" where
  "ready_enqueue i d =
     (case MPMC_Enqueue (jd_readyQueue d) i of
        None \<Rightarrow> Inl Diverged
      | Some (ok, q) \<Rightarrow>
          if \<not> ok then Inl Assertion_failed
          else Inr (d\<lparr>jd_readyQueue := q, jd_activeTaskCount := jd_activeTaskCount d + 1\<rparr>))"

definition SeedReadyQueue :: "job_dispatch \<Rightarrow> job_dispatch result" where
  "SeedReadyQueue d =
     and_then (deref (jd_taskGraph d)) (\<lambda>g.
     and_then (array_get (tg_phaseRanges g) (phase_number (jd_currentPhase d))) (\<lambda>range.
       for_each (\<lambda>i d.
           and_then (array_get (tg_nodes g) (unat (pr_begin range) + i)) (\<lambda>node.
           and_then (array_get (jd_runtimeState d) (unat (tn_id node))) (\<lambda>remaining.
             if remaining = 0 then ready_enqueue (tn_id node) d else Inr d)))
         [0 ..< unat (pr_count range)] d))"

definition release_child :: "task_graph \<Rightarrow> RuntimePhaseId \<Rightarrow> TaskId \<Rightarrow> job_dispatch \<Rightarrow> job_dispatch result" where
  "release_child g currentPhase child d =
     and_then (array_get (jd_runtimeState d) (unat child)) (\<lambda>old.
     and_then (set_remaining child (old - 1) d) (\<lambda>d1.
       if old = 1
       then and_then (GetNode g child) (\<lambda>childNode.
         if tn_phaseId childNode = currentPhase then ready_enqueue child d1 else Inr d1)
       else Inr d1))"

definition ReleaseSuccessors :: "TaskId \<Rightarrow> job_dispatch \<Rightarrow> job_dispatch result" where
  "ReleaseSuccessors completedTask d =
     and_then (deref (jd_taskGraph d)) (\<lambda>g.
     and_then (GetNode g completedTask) (\<lambda>node.
       for_each (\<lambda>i d.
           and_then (array_get (tg_childTaskIds g) (unat (tn_dependencyOffset node + of_nat i))) (\<lambda>child.
             release_child g (jd_currentPhase d) child d))
         [0 ..< unat (tn_childCount node)] d))"

definition OnTaskCompleted :: "TaskId \<Rightarrow> job_dispatch \<Rightarrow> job_dispatch result" where
  "OnTaskCompleted taskId d =
     and_then (ReleaseSuccessors taskId d) (\<lambda>d1.
       let prev = jd_activeTaskCount d1; d2 = d1\<lparr>jd_activeTaskCount := prev - 1\<rparr>
       in Inr (if prev = 1 then d2\<lparr>jd_phaseEpoch := jd_phaseEpoch d2 + 1\<rparr> else d2))"

text \<open>One round of \<open>WorkerLoop\<close>: whether the loop goes on, and the state.\<close>

definition WorkerLoop_round :: "job_dispatch \<Rightarrow> (bool \<times> job_dispatch) result" where
  "WorkerLoop_round d =
     (if \<not> wp_running (jd_workerPool d) then Inr (False, d)
      else case MPMC_Dequeue (jd_readyQueue d) 0 of
          None \<Rightarrow> Inl Diverged
        | Some (ok, taskId, q) \<Rightarrow>
            if \<not> ok then Inr (True, d\<lparr>jd_readyQueue := q\<rparr>)
            else and_then (ExecuteTask taskId (d\<lparr>jd_readyQueue := q\<rparr>)) (\<lambda>d1.
                 and_then (OnTaskCompleted taskId d1) (\<lambda>d2. Inr (True, d2))))"

definition JobDispatch_Shutdown :: "job_dispatch \<Rightarrow> job_dispatch result" where
  "JobDispatch_Shutdown d =
     (if \<not> jd_running d then Inr d
      else let d1 = d\<lparr>jd_running := False\<rparr> in
        and_then (WorkerPool_Join (WorkerPool_Stop (jd_workerPool d1))) (\<lambda>pool.
          Inr (d1\<lparr>jd_workerPool := pool, jd_activeTaskCount := 0, jd_phaseEpoch := 0, jd_currentPhase := Input,
                  jd_runtimeState := map (\<lambda>_. 0) (jd_runtimeState d1),
                  jd_taskGraph := None, jd_runtimeContext := None, jd_registry := None\<rparr>)))"

end
