(* ===== verification/Job_Phases.thy ===== *)
theory Job_Phases
  imports Job_Dispatch
begin

text \<open>
  The operations of the dispatcher one by one: an invariant between them, its preservation by releasing successors, by
  a worker's round, by building and by seeding, with all array accesses in range and no assertion failing; and
  the vocabulary for the order in which a tick executes its tasks. How the operations of several threads mix is the
  subject of Job_Races and Job_Ticks.
\<close>

declare length_ring_contents [simp del]

section \<open>Edges still to be released\<close>

definition node_ids :: "task_graph \<Rightarrow> TaskId set" where
  "node_ids g = tn_id ` set (graph_nodes g)"

text \<open>The number of edges into a task from tasks not yet done.\<close>

definition need :: "task_graph \<Rightarrow> TaskId set \<Rightarrow> TaskId \<Rightarrow> nat" where
  "need g D c = edges_into g (filter (\<lambda>n. tn_id n \<notin> D) (graph_nodes g)) c"

lemma need_empty: "need g {} c = edges_into g (graph_nodes g) c"
  by (simp add: need_def)

lemma edges_into_split:
  "distinct (map tn_id ns) \<Longrightarrow> n \<in> set ns \<Longrightarrow> P n \<Longrightarrow>
   edges_into g (filter P ns) c
     = count_list (children g n) c + edges_into g (filter (\<lambda>m. P m \<and> tn_id m \<noteq> tn_id n) ns) c"
proof (induction ns)
  case Nil
  then show ?case by simp
next
  case (Cons m ns)
  show ?case
  proof (cases "m = n")
    case True
    then have "filter (\<lambda>m. P m \<and> tn_id m \<noteq> tn_id n) ns = filter P ns"
      using Cons.prems(1) by (intro filter_cong) (auto simp: image_iff)
    then show ?thesis using True Cons.prems by (simp add: edges_into_def)
  next
    case False
    then have "n \<in> set ns" "tn_id m \<noteq> tn_id n" using Cons.prems by auto
    then show ?thesis using Cons by (simp add: edges_into_def)
  qed
qed

lemma need_insert:
  assumes "graph_shape g" and "n \<in> set (graph_nodes g)" and "tn_id n \<notin> D"
  shows "need g D c = count_list (children g n) c + need g (insert (tn_id n) D) c"
proof -
  have "filter (\<lambda>m. tn_id m \<notin> D \<and> tn_id m \<noteq> tn_id n) (graph_nodes g)
      = filter (\<lambda>m. tn_id m \<notin> insert (tn_id n) D) (graph_nodes g)"
    by (intro filter_cong) auto
  then show ?thesis
    using edges_into_split [OF distinct_ids [OF assms(1)] assms(2), of "\<lambda>m. tn_id m \<notin> D" g c] assms(3)
    by (simp add: need_def)
qed

lemma need_zero:
  "need g D c = 0 \<longleftrightarrow> (\<forall>n \<in> set (graph_nodes g). c \<in> set (children g n) \<longrightarrow> tn_id n \<in> D)"
  by (auto simp: need_def edges_into_def count_list_0_iff sum_list_eq_0_iff)

section \<open>The invariant\<close>

text \<open>
  \<open>ks\<close> are the children of the task just done that are still to be released and \<open>k\<close> counts tasks
  that are executing: the ready queue holds the tasks of the phase that are not done and whose
  counter is zero, once each.
\<close>

definition jd_base :: "task_graph \<Rightarrow> job_dispatch \<Rightarrow> bool" where
  "jd_base g d \<longleftrightarrow> jd_taskGraph d = Some g \<and> jd_running d \<and> pool_up (jd_workerPool d) \<and>
     jd_runtimeContext d \<noteq> None \<and> (\<exists>r. jd_registry d = Some r \<and> (\<forall>i \<in> node_ids g. IsRegistered i r)) \<and>
     length (jd_runtimeState d) = 256 \<and> ring_ok (jd_readyQueue d) \<and> ring_capacity (jd_readyQueue d) = 256"

definition remaining :: "job_dispatch \<Rightarrow> TaskId \<Rightarrow> nat" where
  "remaining d i = unat (jd_runtimeState d ! unat i)"

definition ready :: "task_graph \<Rightarrow> RuntimePhaseId \<Rightarrow> TaskId set \<Rightarrow> job_dispatch \<Rightarrow> TaskId set" where
  "ready g p D d = {tn_id n | n. n \<in> set (graph_nodes g) \<and> tn_phaseId n = p \<and> tn_id n \<notin> D \<and> remaining d (tn_id n) = 0}"

definition jd_inv :: "task_graph \<Rightarrow> RuntimePhaseId \<Rightarrow> TaskId set \<Rightarrow> TaskId list \<Rightarrow> nat \<Rightarrow> job_dispatch \<Rightarrow> bool" where
  "jd_inv g p D ks k d \<longleftrightarrow> jd_base g d \<and> jd_currentPhase d = p \<and>
     (\<forall>i \<in> node_ids g. remaining d i = need g D i + count_list ks i) \<and>
     (\<forall>i \<in> node_ids g. i \<in> D \<longrightarrow> remaining d i = 0) \<and>
     distinct (ring_contents (jd_readyQueue d)) \<and> set (ring_contents (jd_readyQueue d)) = ready g p D d \<and>
     unat (jd_activeTaskCount d) = length (ring_contents (jd_readyQueue d)) + k \<and>
     (\<forall>n \<in> set (graph_nodes g). tn_phaseId n < p \<longrightarrow> tn_id n \<in> D)"

lemma ready_iff:
  assumes "graph_shape g" and "n \<in> set (graph_nodes g)"
  shows "tn_id n \<in> ready g p D d \<longleftrightarrow> tn_phaseId n = p \<and> tn_id n \<notin> D \<and> remaining d (tn_id n) = 0"
proof
  assume "tn_id n \<in> ready g p D d"
  then obtain m where m: "m \<in> set (graph_nodes g)" "tn_id n = tn_id m" "tn_phaseId m = p" "tn_id m \<notin> D"
    "remaining d (tn_id m) = 0"
    unfolding ready_def by blast
  then have "n = m" using node_eq_by_id [OF assms(1,2)] by blast
  then show "tn_phaseId n = p \<and> tn_id n \<notin> D \<and> remaining d (tn_id n) = 0" using m by blast
next
  assume "tn_phaseId n = p \<and> tn_id n \<notin> D \<and> remaining d (tn_id n) = 0"
  then show "tn_id n \<in> ready g p D d" using assms(2) unfolding ready_def by blast
qed

lemma ready_sub: "ready g p D d \<subseteq> node_ids g"
  unfolding ready_def node_ids_def by blast

lemma ready_eqI:
  assumes "graph_shape g" and "S \<subseteq> node_ids g"
    and "\<And>n. n \<in> set (graph_nodes g) \<Longrightarrow>
      (tn_phaseId n = p \<and> tn_id n \<notin> D \<and> remaining d (tn_id n) = 0) \<longleftrightarrow> tn_id n \<in> S"
  shows "ready g p D d = S"
proof
  show "ready g p D d \<subseteq> S" unfolding ready_def using assms(3) by blast
  show "S \<subseteq> ready g p D d"
  proof
    fix i assume i: "i \<in> S"
    then obtain n where n: "n \<in> set (graph_nodes g)" "i = tn_id n" using assms(2) unfolding node_ids_def by blast
    then show "i \<in> ready g p D d" using assms(3) [OF n(1)] i unfolding ready_def by blast
  qed
qed

lemma node_id_bound: "graph_shape g \<Longrightarrow> i \<in> node_ids g \<Longrightarrow> unat i < 256"
  using node_lookup(1) by (auto simp: node_ids_def)

lemma GetNode_ok:
  assumes "graph_shape g" and "n \<in> set (graph_nodes g)"
  shows "GetNode g (tn_id n) = Inr n"
  using node_lookup [OF assms] graph_shape_lengths [OF assms(1)]
  by (simp only: GetNode_def array_get_def if_True and_then_simps)

lemma card_node_ids: "graph_shape g \<Longrightarrow> finite (node_ids g) \<and> card (node_ids g) \<le> 256"
  using card_image_le [of "set (graph_nodes g)" tn_id] card_length [of "graph_nodes g"]
    length_graph_nodes [of g] graph_shape_lengths(5) [of g]
  by (simp add: node_ids_def)

lemma ready_enqueue_ok:
  assumes shape: "graph_shape g" and base: "jd_base g d"
    and c: "c \<in> node_ids g" "c \<notin> set (ring_contents (jd_readyQueue d))"
    and q: "distinct (ring_contents (jd_readyQueue d))" "set (ring_contents (jd_readyQueue d)) \<subseteq> node_ids g"
    and act: "unat (jd_activeTaskCount d) = length (ring_contents (jd_readyQueue d)) + k" and k: "k \<le> 1"
  shows "\<exists>q'. ready_enqueue c d
      = Inr (d\<lparr>jd_readyQueue := q', jd_activeTaskCount := jd_activeTaskCount d + 1\<rparr>)
    \<and> ring_ok q' \<and> ring_capacity q' = 256 \<and> ring_contents q' = ring_contents (jd_readyQueue d) @ [c]
    \<and> unat (jd_activeTaskCount d + 1) = length (ring_contents q') + k"
proof -
  have "card (insert c (set (ring_contents (jd_readyQueue d)))) \<le> card (node_ids g)"
    using c q card_node_ids [OF shape] by (intro card_mono) auto
  then have room: "length (ring_contents (jd_readyQueue d)) < 256"
    using c(2) q(1) card_node_ids [OF shape] by (simp add: distinct_card)
  have ok: "ring_ok (jd_readyQueue d)" "ring_capacity (jd_readyQueue d) = 256"
    using base by (simp_all add: jd_base_def)
  obtain q' where q': "MPMC_Enqueue (jd_readyQueue d) c = Some (True, q')" "ring_ok q'"
    "ring_capacity q' = 256" "ring_contents q' = ring_contents (jd_readyQueue d) @ [c]"
    using mpmc.enqueue_room [OF ok(1), of c] room ok(2) by auto
  moreover have "unat (jd_activeTaskCount d + 1) = Suc (unat (jd_activeTaskCount d))"
    using act room k by (simp add: unat_add_nowrap)
  moreover have "length (ring_contents q') = Suc (length (ring_contents (jd_readyQueue d)))"
    by (simp only: q'(4)) simp
  ultimately show ?thesis
    using act by (intro exI [of _ q']) (simp add: ready_enqueue_def)
qed

section \<open>Releasing the successors of a task\<close>

lemma release_child_ok:
  assumes shape: "graph_shape g" and inv: "jd_inv g p D (c # ks) k d" and k: "k \<le> 1"
    and m: "m \<in> set (graph_nodes g)" "tn_id m = c"
  shows "\<exists>d'. release_child g p c d = Inr d' \<and> jd_inv g p D ks k d' \<and> jd_executed d' = jd_executed d"
proof -
  let ?old = "jd_runtimeState d ! unat c"
  let ?d1 = "d\<lparr>jd_runtimeState := (jd_runtimeState d)[unat c := ?old - 1]\<rparr>"
  note I = inv [unfolded jd_inv_def]
  have c: "c \<in> node_ids g" "unat c < 256"
    using m node_id_bound [OF shape, of c] by (auto simp: node_ids_def)
  have base: "jd_base g d" and len: "length (jd_runtimeState d) = 256"
    using I by (simp_all add: jd_base_def)
  have rem: "remaining d c = Suc (need g D c + count_list ks c)" using I c(1) by simp
  then have old: "unat ?old = Suc (need g D c + count_list ks c)" by (simp add: remaining_def)
  then have "?old \<noteq> 0" by auto
  then have minus: "unat (?old - 1) = need g D c + count_list ks c"
    using old by (simp add: unat_minus_one)
  have notD: "c \<notin> D" and notQ: "c \<notin> set (ring_contents (jd_readyQueue d))"
    using I c(1) rem by (auto simp: ready_def)
  have rem1: "remaining ?d1 i = (if i = c then need g D c + count_list ks c else remaining d i)"
    if "i \<in> node_ids g" for i
    using that c(2) len minus node_id_bound [OF shape that] word_unat_eq_iff [of i c]
    by (auto simp: remaining_def nth_list_update)
  have rem_all: "\<forall>i \<in> node_ids g. remaining ?d1 i = need g D i + count_list ks i"
    using rem1 I by auto
  have done1: "\<forall>i \<in> node_ids g. i \<in> D \<longrightarrow> remaining ?d1 i = 0"
    using rem1 I notD by auto
  have base1: "jd_base g ?d1" using base by (simp add: jd_base_def)
  have readyIff: "ready g p D ?d1
      = (if tn_phaseId m = p \<and> remaining ?d1 c = 0 then insert c (ready g p D d) else ready g p D d)"
  proof (rule ready_eqI [OF shape])
    show "(if tn_phaseId m = p \<and> remaining ?d1 c = 0 then insert c (ready g p D d) else ready g p D d) \<subseteq> node_ids g"
      using ready_sub c(1) by auto
    fix n assume n: "n \<in> set (graph_nodes g)"
    note old_ready = ready_iff [OF shape n, of p D d]
    show "(tn_phaseId n = p \<and> tn_id n \<notin> D \<and> remaining ?d1 (tn_id n) = 0) \<longleftrightarrow>
      tn_id n \<in> (if tn_phaseId m = p \<and> remaining ?d1 c = 0 then insert c (ready g p D d) else ready g p D d)"
    proof (cases "tn_id n = c")
      case True
      then have "n = m" by (intro node_eq_by_id [OF shape n m(1)]) (simp add: m(2))
      then show ?thesis using old_ready notD rem m(2) by simp
    next
      case False
      then have "remaining ?d1 (tn_id n) = remaining d (tn_id n)"
        using rem1 [of "tn_id n"] n by (simp add: node_ids_def)
      then show ?thesis using old_ready False by simp
    qed
  qed
  have one: "?old = 1 \<longleftrightarrow> remaining ?d1 c = 0"
    using old minus rem1 [OF c(1)] by (simp add: word_unat_eq_iff)
  have start: "release_child g p c d = (if ?old = 1 then and_then (GetNode g c) (\<lambda>n.
      if tn_phaseId n = p then ready_enqueue c ?d1 else Inr ?d1) else Inr ?d1)"
    using c(2) len by (simp add: release_child_def set_remaining_def)
  show ?thesis
  proof (cases "?old = 1 \<and> tn_phaseId m = p")
    case False
    then have "release_child g p c d = Inr ?d1"
      using start GetNode_ok [OF shape m(1)] m(2) by auto
    moreover have "jd_inv g p D ks k ?d1"
    proof -
      have "ready g p D ?d1 = ready g p D d" unfolding readyIff using False one by auto
      then show ?thesis using I base1 rem_all done1 unfolding jd_inv_def by simp
    qed
    ultimately show ?thesis by simp
  next
    case True
    have sub: "set (ring_contents (jd_readyQueue d)) \<subseteq> node_ids g"
      using I by (auto simp: ready_def node_ids_def)
    obtain q' where q': "ready_enqueue c ?d1
        = Inr (?d1\<lparr>jd_readyQueue := q', jd_activeTaskCount := jd_activeTaskCount d + 1\<rparr>)"
      "ring_ok q'" "ring_capacity q' = 256" "ring_contents q' = ring_contents (jd_readyQueue d) @ [c]"
      "unat (jd_activeTaskCount d + 1) = length (ring_contents q') + k"
      using ready_enqueue_ok [OF shape base1 c(1), of k] notQ sub I k by auto
    let ?d2 = "?d1\<lparr>jd_readyQueue := q', jd_activeTaskCount := jd_activeTaskCount d + 1\<rparr>"
    have r2: "remaining ?d2 = remaining ?d1" "ready g p D ?d2 = ready g p D ?d1"
      by (simp_all add: remaining_def ready_def fun_eq_iff)
    have "ready g p D ?d1 = insert c (ready g p D d)" unfolding readyIff using True one by auto
    then have "jd_inv g p D ks k ?d2"
      unfolding jd_inv_def r2 using I base1 rem_all done1 q' notQ by (simp add: jd_base_def)
    moreover have "release_child g p c d = Inr ?d2"
      using start GetNode_ok [OF shape m(1)] m(2) True q'(1) by simp
    ultimately show ?thesis by simp
  qed
qed

lemma child_nth:
  assumes "graph_shape g" and "n \<in> set (graph_nodes g)" and "i < unat (tn_childCount n)"
  shows "array_get (tg_childTaskIds g) (unat (tn_dependencyOffset n + of_nat i)) = Inr (children g n ! i)"
    and "length (children g n) = unat (tn_childCount n)"
proof -
  have le: "unat (tn_dependencyOffset n) + unat (tn_childCount n) \<le> 1024"
    by (rule node_lookup(4) [OF assms(1,2)])
  have len: "length (tg_childTaskIds g) = 1024" by (rule graph_shape_lengths(2) [OF assms(1)])
  have i: "unat (of_nat i :: u32) = i" using le assms(3) by (simp add: unat_of_nat32)
  have "unat (tn_dependencyOffset n + of_nat i) = unat (tn_dependencyOffset n) + i"
    using le assms(3) i unat_add_nowrap [of "tn_dependencyOffset n" "of_nat i"] by simp
  then show "array_get (tg_childTaskIds g) (unat (tn_dependencyOffset n + of_nat i)) = Inr (children g n ! i)"
    using le len assms(3) by (simp add: children_def array_get_def)
  show "length (children g n) = unat (tn_childCount n)"
    using le len by (simp add: children_def)
qed

lemma graph_ok_shape: "graph_ok g rank \<Longrightarrow> graph_shape g"
  unfolding graph_ok_def by (rule conjunct1)

lemma graph_ok_child:
  "graph_ok g rank \<Longrightarrow> n \<in> set (graph_nodes g) \<Longrightarrow> c \<in> set (children g n) \<Longrightarrow>
     \<exists>m \<in> set (graph_nodes g). tn_id m = c \<and> tn_phaseId n \<le> tn_phaseId m \<and> rank (tn_id n) < rank c"
  unfolding graph_ok_def by blast

lemma ReleaseSuccessors_ok:
  assumes ok: "graph_ok g rank" and n: "n \<in> set (graph_nodes g)"
    and inv: "jd_inv g p D (children g n) k d" and k: "k \<le> 1"
  shows "\<exists>d'. ReleaseSuccessors (tn_id n) d = Inr d' \<and> jd_inv g p D [] k d' \<and> jd_executed d' = jd_executed d"
proof -
  note shape = graph_ok_shape [OF ok]
  let ?body = "\<lambda>i d. and_then (array_get (tg_childTaskIds g) (unat (tn_dependencyOffset n + of_nat i)))
    (\<lambda>child. release_child g (jd_currentPhase d) child d)"
  let ?P = "\<lambda>i d'. jd_inv g p D (drop i (children g n)) k d' \<and> jd_executed d' = jd_executed d"
  have "\<exists>d'. for_each ?body [0 ..< unat (tn_childCount n)] d = Inr d' \<and> ?P (length [0 ..< unat (tn_childCount n)]) d'"
  proof (rule for_each_invariant)
    show "?P 0 d" using inv by simp
    fix i e assume i: "i < length [0 ..< unat (tn_childCount n)]" and P: "?P i e"
    then have i': "i < unat (tn_childCount n)" by simp
    note child = child_nth [OF shape n i']
    have drop: "drop i (children g n) = children g n ! i # drop (Suc i) (children g n)"
      using i' child(2) by (simp add: Cons_nth_drop_Suc)
    obtain m where m: "m \<in> set (graph_nodes g)" "tn_id m = children g n ! i"
      using graph_ok_child [OF ok n, of "children g n ! i"] i' child(2) by auto
    have phase: "jd_currentPhase e = p" using P by (simp add: jd_inv_def)
    show "\<exists>e'. ?body ([0 ..< unat (tn_childCount n)] ! i) e = Inr e' \<and> ?P (Suc i) e'"
      using release_child_ok [OF shape _ k m, of p D "drop (Suc i) (children g n)" e] P child(1) i' phase
      by (auto simp: drop)
  qed
  then obtain d' where d': "for_each ?body [0 ..< unat (tn_childCount n)] d = Inr d'"
    "jd_inv g p D (drop (unat (tn_childCount n)) (children g n)) k d'" "jd_executed d' = jd_executed d"
    by auto
  have "children g n = [] \<or> 0 < unat (tn_childCount n)" by (auto simp: children_def)
  then have "drop (unat (tn_childCount n)) (children g n) = []"
    using child_nth(2) [OF shape n, of 0] by auto
  moreover have "jd_taskGraph d = Some g" using inv by (simp add: jd_inv_def jd_base_def)
  ultimately show ?thesis
    using d' GetNode_ok [OF shape n] by (auto simp: ReleaseSuccessors_def)
qed

section \<open>A worker's round\<close>

definition parents_in :: "task_graph \<Rightarrow> TaskId \<Rightarrow> TaskId set \<Rightarrow> bool" where
  "parents_in g t D \<longleftrightarrow> (\<forall>n \<in> set (graph_nodes g). t \<in> set (children g n) \<longrightarrow> tn_id n \<in> D)"

lemma worker_round_ok:
  assumes ok: "graph_ok g rank" and inv: "jd_inv g p D [] 0 d" and busy: "jd_activeTaskCount d \<noteq> 0"
  shows "\<exists>t d'. WorkerLoop_round d = Inr (True, d') \<and> jd_inv g p (insert t D) [] 0 d'
    \<and> jd_executed d' = jd_executed d @ [t] \<and> t \<in> node_ids g \<and> t \<notin> D \<and> parents_in g t D
    \<and> (\<forall>n \<in> set (graph_nodes g). tn_id n = t \<longrightarrow> tn_phaseId n = p)"
proof -
  note shape = graph_ok_shape [OF ok] and I = inv [unfolded jd_inv_def]
  have base: "jd_base g d" using I by simp
  obtain t ts where q: "ring_contents (jd_readyQueue d) = t # ts"
    using I busy by (cases "ring_contents (jd_readyQueue d)") (auto simp: unat_gt_0 simp flip: unat_eq_0)
  have "t \<in> ready g p D d" using I q by auto
  then obtain n where n: "n \<in> set (graph_nodes g)" "t = tn_id n" "tn_phaseId n = p" "t \<notin> D" "remaining d t = 0"
    unfolding ready_def by blast
  have t: "t \<in> node_ids g" using n by (simp add: node_ids_def)
  have none: "need g D t = 0" using I t n(5) by auto
  obtain q' where q': "MPMC_Dequeue (jd_readyQueue d) 0 = Some (True, t, q')" "ring_ok q'"
    "ring_capacity q' = 256" "ring_contents q' = ts"
    using mpmc.dequeue_item [OF _ q, of 0] base by (auto simp: jd_base_def)
  obtain r f ctx where r: "jd_registry d = Some r" "Resolve t r = Some f" "jd_runtimeContext d = Some ctx"
    using base t by (auto simp: jd_base_def IsRegistered_def)
  let ?d1 = "d\<lparr>jd_readyQueue := q', jd_runtimeContext := Some (f ctx), jd_executed := jd_executed d @ [t]\<rparr>"
  have exec: "ExecuteTask t (d\<lparr>jd_readyQueue := q'\<rparr>) = Inr ?d1" using r by (simp add: ExecuteTask_def)
  have rem: "remaining ?d1 = remaining d" by (simp add: remaining_def fun_eq_iff)
  have "jd_inv g p (insert t D) (children g n) 1 ?d1"
  proof -
    have "need g D i = count_list (children g n) i + need g (insert t D) i" for i
      unfolding n(2) using need_insert [OF shape n(1)] n(2,4) by simp
    moreover have "ready g p (insert t D) ?d1 = set ts"
    proof (rule ready_eqI [OF shape])
      have "set (t # ts) = ready g p D d" using I q by simp
      then show "set ts \<subseteq> node_ids g" using ready_sub [of g p D d] by auto
      fix m assume m: "m \<in> set (graph_nodes g)"
      have "tn_id m \<in> set (t # ts) \<longleftrightarrow> tn_phaseId m = p \<and> tn_id m \<notin> D \<and> remaining d (tn_id m) = 0"
        using ready_iff [OF shape m, of p D d] I q by simp
      moreover have "t \<notin> set ts" using I q by simp
      ultimately show "(tn_phaseId m = p \<and> tn_id m \<notin> insert t D \<and> remaining ?d1 (tn_id m) = 0) \<longleftrightarrow> tn_id m \<in> set ts"
        unfolding rem by auto
    qed
    moreover have "unat (jd_activeTaskCount d) = Suc (length ts)" using I q by simp
    ultimately show ?thesis
      unfolding jd_inv_def rem using I base q q' n(5) by (auto simp: jd_base_def)
  qed
  then obtain d2 where d2: "ReleaseSuccessors t ?d1 = Inr d2" "jd_inv g p (insert t D) [] 1 d2"
    "jd_executed d2 = jd_executed d @ [t]"
    using ReleaseSuccessors_ok [OF ok n(1), of p "insert t D" 1 ?d1] n(2) by auto
  let ?d3 = "if jd_activeTaskCount d2 = 1
    then d2\<lparr>jd_activeTaskCount := jd_activeTaskCount d2 - 1, jd_phaseEpoch := jd_phaseEpoch d2 + 1\<rparr>
    else d2\<lparr>jd_activeTaskCount := jd_activeTaskCount d2 - 1\<rparr>"
  have "OnTaskCompleted t ?d1 = Inr ?d3" using d2(1) by (simp add: OnTaskCompleted_def Let_def)
  then have round: "WorkerLoop_round d = Inr (True, ?d3)"
    using base q'(1) exec by (simp add: WorkerLoop_round_def jd_base_def)
  have act: "unat (jd_activeTaskCount d2) = Suc (length (ring_contents (jd_readyQueue d2)))"
    using d2(2) by (simp add: jd_inv_def)
  then have "jd_activeTaskCount d2 \<noteq> 0" by auto
  then have "unat (jd_activeTaskCount d2 - 1) = length (ring_contents (jd_readyQueue d2))"
    using act by (simp add: unat_minus_one)
  then have "jd_inv g p (insert t D) [] 0 ?d3"
    using d2(2) by (auto simp: jd_inv_def jd_base_def remaining_def ready_def)
  moreover have "jd_executed ?d3 = jd_executed d @ [t]" using d2(3) by simp
  moreover have "parents_in g t D" using none by (simp add: need_zero parents_in_def)
  moreover have "\<forall>m \<in> set (graph_nodes g). tn_id m = t \<longrightarrow> tn_phaseId m = p"
    using node_eq_by_id [OF shape _ n(1)] n(2,3) by metis
  ultimately show ?thesis using round t n(4) by blast
qed

section \<open>The order of a phase\<close>

text \<open>Every task of the order follows its parents.\<close>

fun follows_parents :: "task_graph \<Rightarrow> TaskId set \<Rightarrow> TaskId list \<Rightarrow> bool" where
  "follows_parents g D [] \<longleftrightarrow> True"
| "follows_parents g D (t # ts) \<longleftrightarrow> parents_in g t D \<and> follows_parents g (insert t D) ts"

definition phase_ids :: "task_graph \<Rightarrow> RuntimePhaseId \<Rightarrow> TaskId set" where
  "phase_ids g p = {tn_id n | n. n \<in> set (graph_nodes g) \<and> tn_phaseId n = p}"

lemma phase_ids_sub: "phase_ids g p \<subseteq> node_ids g"
  by (auto simp: phase_ids_def node_ids_def)

lemma follows_parents_append:
  "follows_parents g D (xs @ ys) \<longleftrightarrow> follows_parents g D xs \<and> follows_parents g (D \<union> set xs) ys"
  by (induction xs arbitrary: D) auto

section \<open>Building and seeding\<close>

lemma set_remaining_ok:
  "length (jd_runtimeState d) = 256 \<Longrightarrow> unat i < 256 \<Longrightarrow>
     set_remaining i v d = Inr (d\<lparr>jd_runtimeState := (jd_runtimeState d)[unat i := v]\<rparr>)"
  by (simp add: set_remaining_def)

lemma BuildRuntimeState_ok:
  assumes shape: "graph_shape g" and base: "jd_base g d"
  shows "\<exists>s. BuildRuntimeState d = Inr (d\<lparr>jd_runtimeState := s\<rparr>) \<and> length s = 256
    \<and> (\<forall>n \<in> set (graph_nodes g). s ! unat (tn_id n) = tn_parentCount n)"
proof -
  let ?n = "unat (tg_nodeCount g)" and ?N = "graph_nodes g"
  let ?body = "\<lambda>i d. and_then (array_get (tg_nodes g) i) (\<lambda>node. set_remaining (tn_id node) (tn_parentCount node) d)"
  let ?P = "\<lambda>k e. \<exists>s. e = d\<lparr>jd_runtimeState := s\<rparr> \<and> length s = 256
    \<and> (\<forall>j < k. s ! unat (tn_id (?N ! j)) = tn_parentCount (?N ! j))"
  have len: "length ?N = ?n" by (rule length_graph_nodes [OF shape])
  have ids: "unat (tn_id (?N ! i)) < 256" if "i < ?n" for i
    using node_lookup(1) [OF shape, of "?N ! i"] that len by simp
  have apart: "unat (tn_id (?N ! i)) \<noteq> unat (tn_id (?N ! j))" if "i < ?n" "j < i" for i j
  proof -
    have "i < length (map tn_id ?N)" "j < length (map tn_id ?N)" "i \<noteq> j" using that len by simp_all
    then have "map tn_id ?N ! i \<noteq> map tn_id ?N ! j"
      by (simp only: nth_eq_iff_index_eq [OF distinct_ids [OF shape]] simp_thms)
    then have "tn_id (?N ! i) \<noteq> tn_id (?N ! j)" using that len by simp
    then show ?thesis using word_unat_eq_iff [of "tn_id (?N ! i)" "tn_id (?N ! j)"] by blast
  qed
  have "\<exists>d'. for_each ?body [0 ..< ?n] d = Inr d' \<and> ?P (length [0 ..< ?n]) d'"
  proof (rule for_each_invariant)
    show "?P 0 d" using base by (intro exI [of _ "jd_runtimeState d"]) (simp add: jd_base_def)
    fix k e assume k: "k < length [0 ..< ?n]" and P: "?P k e"
    then obtain s where s: "e = d\<lparr>jd_runtimeState := s\<rparr>" "length s = 256"
      "\<forall>j < k. s ! unat (tn_id (?N ! j)) = tn_parentCount (?N ! j)" by blast
    have k': "k < ?n" "k < length (tg_nodes g)" "tg_nodes g ! k = ?N ! k"
      using k graph_nodes_nth [OF shape, of k] graph_shape_lengths [OF shape] by simp_all
    let ?s = "s[unat (tn_id (?N ! k)) := tn_parentCount (?N ! k)]"
    have "?body ([0 ..< ?n] ! k) e = Inr (d\<lparr>jd_runtimeState := ?s\<rparr>)"
      using k k' s(1,2) ids [OF k'(1)] by (simp add: set_remaining_ok)
    moreover have "\<forall>j < Suc k. ?s ! unat (tn_id (?N ! j)) = tn_parentCount (?N ! j)"
      using s(2,3) ids [OF k'(1)] apart [OF k'(1)] by (auto simp: less_Suc_eq)
    ultimately show "\<exists>e'. ?body ([0 ..< ?n] ! k) e = Inr e' \<and> ?P (Suc k) e'"
      using s(2) by (intro exI [of _ "d\<lparr>jd_runtimeState := ?s\<rparr>"] conjI exI [of _ ?s]) simp_all
  qed
  then obtain s where "BuildRuntimeState d = Inr (d\<lparr>jd_runtimeState := s\<rparr>)" "length s = 256"
    and all: "\<forall>j < ?n. s ! unat (tn_id (?N ! j)) = tn_parentCount (?N ! j)"
    using base by (auto simp: BuildRuntimeState_def jd_base_def)
  moreover have "\<forall>n \<in> set ?N. s ! unat (tn_id n) = tn_parentCount n"
    using all by (simp add: all_set_conv_all_nth len)
  ultimately show ?thesis by blast
qed

text \<open>
  Between phases: no task is ready or executing, and the counters say what is left to release.
\<close>

definition between_phases :: "task_graph \<Rightarrow> TaskId set \<Rightarrow> job_dispatch \<Rightarrow> bool" where
  "between_phases g D d \<longleftrightarrow> jd_base g d \<and> ring_contents (jd_readyQueue d) = [] \<and> jd_activeTaskCount d = 0 \<and>
     (\<forall>i \<in> node_ids g. remaining d i = need g D i) \<and> (\<forall>i \<in> node_ids g. i \<in> D \<longrightarrow> remaining d i = 0)"

lemma phase_nodes_nth:
  assumes "graph_ok g rank" and "i < unat (pr_count (tg_phaseRanges g ! phase_number p))"
  shows "unat (pr_begin (tg_phaseRanges g ! phase_number p)) + i < length (tg_nodes g)"
    and "tg_nodes g ! (unat (pr_begin (tg_phaseRanges g ! phase_number p)) + i) = phase_nodes g p ! i"
    and "length (phase_nodes g p) = unat (pr_count (tg_phaseRanges g ! phase_number p))"
proof -
  let ?r = "tg_phaseRanges g ! phase_number p"
  note shape = graph_ok_shape [OF assms(1)]
  have "phase_number p < length (tg_phaseRanges g)"
    using graph_shape_lengths(3) [OF shape] phase_number_less by simp
  then have "?r \<in> set (tg_phaseRanges g)" by (rule nth_mem)
  then have le: "unat (pr_begin ?r) + unat (pr_count ?r) \<le> 256"
    using shape unfolding graph_shape_def by blast
  have len: "length (tg_nodes g) = 256" by (rule graph_shape_lengths(1) [OF shape])
  show "unat (pr_begin ?r) + i < length (tg_nodes g)" using le len assms(2) by simp
  show "tg_nodes g ! (unat (pr_begin ?r) + i) = phase_nodes g p ! i"
    using le len assms(2) by (simp add: phase_nodes_def Let_def)
  show "length (phase_nodes g p) = unat (pr_count ?r)"
    using le len by (simp add: phase_nodes_def Let_def)
qed

lemma SeedReadyQueue_ok:
  assumes ok: "graph_ok g rank" and betw: "between_phases g D d" and phase: "jd_currentPhase d = p"
    and before: "\<forall>n \<in> set (graph_nodes g). tn_phaseId n < p \<longrightarrow> tn_id n \<in> D"
    and fresh: "phase_ids g p \<inter> D = {}"
  shows "\<exists>d'. SeedReadyQueue d = Inr d' \<and> jd_inv g p D [] 0 d' \<and> jd_executed d' = jd_executed d"
proof -
  note shape = graph_ok_shape [OF ok] and B = betw [unfolded between_phases_def]
  let ?r = "tg_phaseRanges g ! phase_number p" and ?ns = "phase_nodes g p"
  let ?sel = "\<lambda>k. map tn_id (filter (\<lambda>n. remaining d (tn_id n) = 0) (take k ?ns))"
  let ?body = "\<lambda>i d. and_then (array_get (tg_nodes g) (unat (pr_begin ?r) + i)) (\<lambda>node.
    and_then (array_get (jd_runtimeState d) (unat (tn_id node))) (\<lambda>remaining.
      if remaining = 0 then ready_enqueue (tn_id node) d else Inr d))"
  let ?P = "\<lambda>k e. \<exists>q c. e = d\<lparr>jd_readyQueue := q, jd_activeTaskCount := c\<rparr> \<and> ring_ok q \<and> ring_capacity q = 256
    \<and> ring_contents q = ?sel k \<and> unat c = length (?sel k)"
  have base: "jd_base g d" using B by simp
  have nodes: "distinct (map tn_id ?ns)" "set ?ns = {n \<in> set (graph_nodes g). tn_phaseId n = p}"
    using ok unfolding graph_ok_def by blast+
  have "\<exists>d'. for_each ?body [0 ..< unat (pr_count ?r)] d = Inr d' \<and> ?P (length [0 ..< unat (pr_count ?r)]) d'"
  proof (rule for_each_invariant)
    show "?P 0 d"
      using B by (intro exI [of _ "jd_readyQueue d"] exI [of _ "jd_activeTaskCount d"]) (simp add: jd_base_def)
    fix k e assume k0: "k < length [0 ..< unat (pr_count ?r)]" and P: "?P k e"
    obtain q c where e: "e = d\<lparr>jd_readyQueue := q, jd_activeTaskCount := c\<rparr>" and q: "ring_ok q" "ring_capacity q = 256"
      "ring_contents q = ?sel k" "unat c = length (?sel k)" using P by blast
    have k: "k < unat (pr_count ?r)" using k0 by simp
    note nth = phase_nodes_nth [OF ok k]
    let ?n = "?ns ! k"
    have kl: "k < length ?ns" using k nth(3) by simp
    have n: "?n \<in> set (graph_nodes g)" using nodes(2) nth_mem [OF kl] by blast
    have id: "tn_id ?n \<in> node_ids g" "unat (tn_id ?n) < length (jd_runtimeState d)"
      using n node_lookup(1) [OF shape n] base by (simp_all add: node_ids_def jd_base_def)
    have sel: "?sel (Suc k) = (if remaining d (tn_id ?n) = 0 then ?sel k @ [tn_id ?n] else ?sel k)"
      using kl by (simp add: take_Suc_conv_app_nth)
    have body: "?body ([0 ..< unat (pr_count ?r)] ! k) e
        = (if remaining d (tn_id ?n) = 0 then ready_enqueue (tn_id ?n) e else Inr e)"
      using k nth(1,2) id(2) e by (simp add: remaining_def unat_eq_0)
    show "\<exists>e'. ?body ([0 ..< unat (pr_count ?r)] ! k) e = Inr e' \<and> ?P (Suc k) e'"
    proof (cases "remaining d (tn_id ?n) = 0")
      case False
      then show ?thesis using body sel e q by auto
    next
      case True
      have new: "tn_id ?n \<notin> set (?sel k)"
      proof
        assume "tn_id ?n \<in> set (?sel k)"
        then obtain j where "j < k" "tn_id (?ns ! j) = tn_id ?n"
          using kl by (auto simp: in_set_conv_nth)
        then show False using nodes(1) kl by (auto simp: distinct_conv_nth)
      qed
      have dsel: "distinct (?sel k)"
      proof -
        have "distinct (take k (map tn_id ?ns))" using nodes(1) by (rule distinct_take)
        then show ?thesis by (simp add: distinct_map_filter take_map)
      qed
      have sub: "set (?sel k) \<subseteq> node_ids g"
        using nodes(2) set_take_subset [of k ?ns] by (auto simp: node_ids_def)
      have basee: "jd_base g e" using base e q by (simp add: jd_base_def)
      obtain q' where "ready_enqueue (tn_id ?n) e
          = Inr (e\<lparr>jd_readyQueue := q', jd_activeTaskCount := jd_activeTaskCount e + 1\<rparr>)"
        "ring_ok q'" "ring_capacity q' = 256" "ring_contents q' = ?sel k @ [tn_id ?n]"
        "unat (jd_activeTaskCount e + 1) = length (ring_contents q') + 0"
        using ready_enqueue_ok [OF shape basee id(1), of 0] new dsel sub q(3,4) e by auto
      then show ?thesis
        using body sel True e by (intro exI [of _ "d\<lparr>jd_readyQueue := q', jd_activeTaskCount := c + 1\<rparr>"]) auto
    qed
  qed
  then obtain q c where run: "for_each ?body [0 ..< unat (pr_count ?r)] d = Inr (d\<lparr>jd_readyQueue := q, jd_activeTaskCount := c\<rparr>)"
    and q: "ring_ok q" "ring_capacity q = 256" "ring_contents q = ?sel (unat (pr_count ?r))"
      "unat c = length (?sel (unat (pr_count ?r)))"
    by (simp only: length_upt diff_zero) blast
  let ?d' = "d\<lparr>jd_readyQueue := q, jd_activeTaskCount := c\<rparr>"
  have range: "phase_number p < length (tg_phaseRanges g)"
    using graph_shape_lengths(3) [OF shape] phase_number_less by simp
  then have seed: "SeedReadyQueue d = Inr ?d'"
    using run base phase by (simp add: SeedReadyQueue_def jd_base_def)
  have rem: "remaining ?d' = remaining d" by (simp add: remaining_def fun_eq_iff)
  have full: "?sel (unat (pr_count ?r)) = map tn_id (filter (\<lambda>n. remaining d (tn_id n) = 0) ?ns)"
    using phase_nodes_def [of g p] by (simp add: Let_def)
  have "distinct (ring_contents q)" unfolding q(3) full using nodes(1) by (simp add: distinct_map_filter)
  moreover have "set (ring_contents q) = ready g p D ?d'"
    unfolding q(3) full ready_def rem using nodes(2) fresh by (auto simp: phase_ids_def)
  ultimately have "jd_inv g p D [] 0 ?d'"
    unfolding jd_inv_def rem using B base q phase before by (auto simp: jd_base_def)
  then show ?thesis using seed by simp
qed

section \<open>Between ticks, and the order of a tick\<close>

definition idle :: "task_graph \<Rightarrow> job_dispatch \<Rightarrow> bool" where
  "idle g d \<longleftrightarrow> jd_base g d \<and> ring_contents (jd_readyQueue d) = [] \<and> jd_activeTaskCount d = 0"

lemma jd_base_phase [simp]: "jd_base g (d\<lparr>jd_currentPhase := p\<rparr>) = jd_base g d"
  by (simp add: jd_base_def)

lemma between_phases_phase [simp]: "between_phases g D (d\<lparr>jd_currentPhase := p\<rparr>) = between_phases g D d"
  by (simp add: between_phases_def remaining_def)

lemma Build_between:
  assumes ok: "graph_ok g rank" and idle: "idle g d"
  shows "\<exists>d'. BuildRuntimeState d = Inr d' \<and> between_phases g {} d' \<and> jd_executed d' = jd_executed d
    \<and> jd_currentPhase d' = jd_currentPhase d"
proof -
  have base: "jd_base g d" using idle by (simp add: idle_def)
  obtain s where s: "BuildRuntimeState d = Inr (d\<lparr>jd_runtimeState := s\<rparr>)" "length s = 256"
    "\<forall>n \<in> set (graph_nodes g). s ! unat (tn_id n) = tn_parentCount n"
    using BuildRuntimeState_ok [OF graph_ok_shape [OF ok] base] by blast
  have parents: "\<forall>n \<in> set (graph_nodes g). unat (tn_parentCount n) = edges_into g (graph_nodes g) (tn_id n)"
    using ok unfolding graph_ok_def by blast
  have "remaining (d\<lparr>jd_runtimeState := s\<rparr>) i = need g {} i" if i: "i \<in> node_ids g" for i
  proof -
    obtain n where n: "n \<in> set (graph_nodes g)" "i = tn_id n" using i unfolding node_ids_def by blast
    then show ?thesis
      using bspec [OF s(3) n(1)] bspec [OF parents n(1)] by (simp add: remaining_def need_empty)
  qed
  then have "between_phases g {} (d\<lparr>jd_runtimeState := s\<rparr>)"
    using idle s(2) by (simp add: between_phases_def idle_def jd_base_def)
  then show ?thesis using s(1) by simp
qed

text \<open>A tick's order of execution: every task once, after its parents, phase by phase.\<close>

definition tick_order :: "task_graph \<Rightarrow> TaskId list \<Rightarrow> bool" where
  "tick_order g order \<longleftrightarrow> distinct order \<and> set order = node_ids g \<and> follows_parents g {} order \<and>
     (\<exists>a b c e. order = a @ b @ c @ e \<and> set a = phase_ids g Input \<and> set b = phase_ids g Simulation
        \<and> set c = phase_ids g PostSimulation \<and> set e = phase_ids g Output)"

lemma phase_ids_disjoint: "graph_shape g \<Longrightarrow> p \<noteq> q \<Longrightarrow> phase_ids g p \<inter> phase_ids g q = {}"
  unfolding phase_ids_def using node_eq_by_id [of g] by blast

lemma phase_ids_all: "node_ids g = phase_ids g Input \<union> phase_ids g Simulation \<union> phase_ids g PostSimulation \<union> phase_ids g Output"
proof -
  have "p = Input \<or> p = Simulation \<or> p = PostSimulation \<or> p = Output" for p by (cases p) auto
  then show ?thesis unfolding node_ids_def phase_ids_def by blast
qed

lemma phase_less [simp]:
  "q < Input \<longleftrightarrow> False" "q < Simulation \<longleftrightarrow> q = Input" "q < PostSimulation \<longleftrightarrow> q = Input \<or> q = Simulation"
  "q < Output \<longleftrightarrow> q = Input \<or> q = Simulation \<or> q = PostSimulation"
  by (cases q; simp add: less_RuntimePhaseId_def)+

end
