(* ===== verification/Job_Lifecycle.thy ===== *)
theory Job_Lifecycle
  imports Job_Phases
begin

text \<open>
  Life cycle of the dispatcher: \<open>Initialize\<close> establishing the state the phases need, a graph that satisfies what is
  assumed of graphs, and \<open>Shutdown\<close>, which keeps the ready queue.
\<close>

section \<open>Initialize\<close>

lemma Validate_iff:
  assumes "graph_shape g"
  shows "Validate g r = Inr (\<forall>i \<in> node_ids g. IsRegistered i r)"
proof -
  have "validate_nodes ns is r = Inr (\<forall>i \<in> set is. IsRegistered (tn_id (ns ! i)) r)"
    if "\<forall>i \<in> set is. i < length ns" for ns "is"
    using that by (induction "is") auto
  then have "Validate g r = Inr (\<forall>i < unat (tg_nodeCount g). IsRegistered (tn_id (tg_nodes g ! i)) r)"
    using graph_shape_lengths [OF assms] by (simp add: Validate_def) (simp add: atLeast0LessThan Ball_def)
  also have "(\<forall>i < unat (tg_nodeCount g). IsRegistered (tn_id (tg_nodes g ! i)) r)
      \<longleftrightarrow> (\<forall>i \<in> node_ids g. IsRegistered i r)"
    using graph_shape_lengths [OF assms] by (auto simp: node_ids_def graph_nodes_def set_conv_nth)
  finally show ?thesis .
qed

text \<open>A dispatcher that is shut down, or was never initialized.\<close>

definition jd_down :: "job_dispatch \<Rightarrow> bool" where
  "jd_down d \<longleftrightarrow> \<not> jd_running d \<and> pool_ok (jd_workerPool d) False 0 \<and> jd_activeTaskCount d = 0 \<and>
     length (jd_runtimeState d) = 256 \<and> ring_ok (jd_readyQueue d) \<and> ring_capacity (jd_readyQueue d) = 256"

lemma JobDispatch_new_down: "jd_down JobDispatch_new" "ring_contents (jd_readyQueue JobDispatch_new) = []"
proof -
  have "capacity_ok 256" unfolding capacity_ok_def by (intro exI [of _ 8]) simp
  then show "jd_down JobDispatch_new" "ring_contents (jd_readyQueue JobDispatch_new) = []"
    using ring_new_ok [of 256 0] pool_new_ok
    by (simp_all add: jd_down_def JobDispatch_new_def TaskGraphMaxNodesV1_def ring_new_def)
qed

lemma Initialize_ok:
  assumes g: "graph_shape g" and reg: "\<forall>i \<in> node_ids g. IsRegistered i r" and d: "jd_down d"
  shows "\<exists>d'. JobDispatch_Initialize hw g ctx r d = Inr (True, d') \<and> jd_base g d' \<and> pool_up (jd_workerPool d')
    \<and> jd_readyQueue d' = jd_readyQueue d \<and> jd_activeTaskCount d' = 0 \<and> jd_executed d' = jd_executed d
    \<and> jd_runtimeState d' = jd_runtimeState d \<and> jd_currentPhase d' = jd_currentPhase d"
proof -
  have c: "config_complete \<lparr>pc_executor = True, pc_readyQueue = True, pc_completionSink = True\<rparr>"
    by (simp add: config_complete_def)
  obtain p where p: "WorkerPool_Start hw \<lparr>pc_executor = True, pc_readyQueue = True, pc_completionSink = True\<rparr> (jd_workerPool d)
      = Inr (True, p)" "pool_ok p True (worker_count hw)"
    using Start_ok [OF _ c] d by (auto simp: jd_down_def)
  have "JobDispatch_Initialize hw g ctx r d = Inr (True, d\<lparr>jd_taskGraph := Some g, jd_runtimeContext := Some ctx,
      jd_registry := Some r, jd_workerPool := p, jd_running := True\<rparr>)"
    using d p(1) reg by (simp add: JobDispatch_Initialize_def Validate_iff [OF g] Let_def jd_down_def)
  moreover have "pool_up p" using p(2) worker_count_range(1) by (auto simp: pool_up_def)
  ultimately show ?thesis using d reg by (simp add: jd_base_def jd_down_def)
qed

lemma Initialize_refused:
  "graph_shape g \<Longrightarrow> jd_running d \<or> (\<exists>i \<in> node_ids g. \<not> IsRegistered i r) \<Longrightarrow> JobDispatch_Initialize hw g ctx r d = Inr (False, d)"
  by (auto simp: JobDispatch_Initialize_def Validate_iff)

lemma Initialize_idle:
  assumes "graph_shape g" and "\<forall>i \<in> node_ids g. IsRegistered i r" and "jd_down d"
    and "ring_contents (jd_readyQueue d) = []"
  shows "\<exists>d'. JobDispatch_Initialize hw g ctx r d = Inr (True, d') \<and> idle g d' \<and> jd_executed d' = jd_executed d"
proof -
  obtain d' where "JobDispatch_Initialize hw g ctx r d = Inr (True, d')" "jd_base g d'"
    "jd_readyQueue d' = jd_readyQueue d" "jd_activeTaskCount d' = 0" "jd_executed d' = jd_executed d"
    using Initialize_ok [OF assms(1-3), of hw ctx] by blast
  then show ?thesis using assms(4) by (simp add: idle_def)
qed

text \<open>A diamond over three phases: task 0 (Input) before 7 and 5 (Simulation), both before 3 (Output).\<close>

definition node0 :: task_node where
  "node0 = \<lparr>tn_id = 0, tn_phaseId = Input, tn_dependencyOffset = 0, tn_childCount = 2, tn_parentCount = 0\<rparr>"

definition node7 :: task_node where
  "node7 = \<lparr>tn_id = 7, tn_phaseId = Simulation, tn_dependencyOffset = 2, tn_childCount = 1, tn_parentCount = 1\<rparr>"

definition node5 :: task_node where
  "node5 = \<lparr>tn_id = 5, tn_phaseId = Simulation, tn_dependencyOffset = 3, tn_childCount = 1, tn_parentCount = 1\<rparr>"

definition node3 :: task_node where
  "node3 = \<lparr>tn_id = 3, tn_phaseId = Output, tn_dependencyOffset = 4, tn_childCount = 0, tn_parentCount = 2\<rparr>"

definition diamond :: task_graph where
  "diamond =
     \<lparr>tg_nodes =
        [node0, node7, node5, node3] @ replicate 252 TaskNode_new,
      tg_nodeCount = 4,
      tg_childTaskIds = [7, 5, 3, 3] @ replicate 1020 0,
      tg_phaseRanges = [\<lparr>pr_begin = 0, pr_count = 1\<rparr>, \<lparr>pr_begin = 1, pr_count = 2\<rparr>, \<lparr>pr_begin = 3, pr_count = 0\<rparr>,
        \<lparr>pr_begin = 3, pr_count = 1\<rparr>],
      tg_taskIdToNodeIndex = [0, 0, 0, 3, 0, 2, 0, 1] @ replicate 248 0,
      tg_dependencyCount = 4\<rparr>"

definition diamond_rank :: "TaskId \<Rightarrow> nat" where
  "diamond_rank i = (if i = 0 then 0 else if i = 3 then 2 else 1)"

definition tick_task :: task_function where
  "tick_task c = c\<lparr>rc_workerCount := rc_workerCount c + 1\<rparr>"

lemma all_less_4: "(\<forall>i < 4. P i) \<longleftrightarrow> P 0 \<and> P 1 \<and> P 2 \<and> P (3::nat)"
  by (auto simp: numeral_eq_Suc less_Suc_eq)

lemma diamond_nodes: "graph_nodes diamond = [node0, node7, node5, node3]"
  by code_simp

lemma diamond_nodeCount: "unat (tg_nodeCount diamond) = 4"
  by (simp add: diamond_def)

lemma diamond_children:
  "children diamond node0 = [7, 5]" "children diamond node7 = [3]" "children diamond node5 = [3]"
  "children diamond node3 = []"
  by code_simp+

lemma diamond_shape: "graph_shape diamond"
  unfolding graph_shape_def diamond_nodeCount all_less_4 Let_def by (intro conjI; code_simp)

lemma diamond_phase_nodes:
  "phase_nodes diamond Input = [node0]" "phase_nodes diamond Simulation = [node7, node5]"
  "phase_nodes diamond PostSimulation = []" "phase_nodes diamond Output = [node3]"
  by code_simp+

lemmas diamond_node_defs = node0_def node3_def node5_def node7_def

lemma diamond_ok: "graph_ok diamond diamond_rank"
proof -
  have "\<forall>n \<in> set (graph_nodes diamond).
      unat (tn_parentCount n) = edges_into diamond (graph_nodes diamond) (tn_id n) \<and>
      (\<forall>c \<in> set (children diamond n). \<exists>m \<in> set (graph_nodes diamond).
         tn_id m = c \<and> tn_phaseId n \<le> tn_phaseId m \<and> diamond_rank (tn_id n) < diamond_rank c)"
    unfolding diamond_nodes edges_into_def
    by (simp add: diamond_children) (simp add: diamond_node_defs diamond_rank_def less_eq_RuntimePhaseId_def)
  moreover have "distinct (map tn_id (phase_nodes diamond p)) \<and>
      set (phase_nodes diamond p) = {n \<in> set (graph_nodes diamond). tn_phaseId n = p}" for p
    unfolding diamond_nodes by (cases p) (auto simp: diamond_phase_nodes diamond_node_defs)
  ultimately show ?thesis using diamond_shape unfolding graph_ok_def by blast
qed

lemma diamond_ids: "node_ids diamond = {0, 3, 5, 7}"
  unfolding node_ids_def diamond_nodes by (auto simp: diamond_node_defs)

lemma registered_all: "i \<in> {0, 3, 5, 7} \<Longrightarrow> IsRegistered i (replicate 256 (Some tick_task))"
  by (auto simp: IsRegistered_def Resolve_def TaskGraphMaxNodesV1_def)

lemma pipeline_phases: "map ph_id (rl_phases RuntimePipeline_new) = [Input, Simulation, PostSimulation, Output]"
  by (simp add: RuntimePipeline_new_def)

section \<open>Shutdown\<close>

lemma Shutdown_ok:
  assumes "jd_base g d"
  shows "\<exists>d'. JobDispatch_Shutdown d = Inr d' \<and> jd_down d' \<and> jd_readyQueue d' = jd_readyQueue d
    \<and> jd_executed d' = jd_executed d \<and> jd_taskGraph d' = None \<and> jd_registry d' = None
    \<and> set (jd_runtimeState d') \<subseteq> {0}"
proof -
  obtain n where "pool_ok (jd_workerPool d) True n" using assms by (auto simp: jd_base_def pool_up_def)
  then have "pool_ok (WorkerPool_Stop (jd_workerPool d)) False n" by (simp add: WorkerPool_Stop_def pool_ok_def)
  then obtain p where "WorkerPool_Join (WorkerPool_Stop (jd_workerPool d)) = Inr p" "pool_ok p False 0"
    using Join_ok by blast
  then show ?thesis using assms by (auto simp: JobDispatch_Shutdown_def Let_def jd_base_def jd_down_def)
qed

text \<open>C35. \<open>Shutdown\<close> does not empty the ready queue: shut down while a task waits in it, initialized
  again, the dispatcher executes that task before any phase was asked for, and its counter of active
  tasks wraps below zero.\<close>

theorem shutdown_keeps_ready_tasks:
  assumes "jd_base g d" and "ring_contents (jd_readyQueue d) = t # ts"
    and "graph_shape g'" and "\<forall>i \<in> node_ids g'. IsRegistered i r"
    and "n \<in> set (graph_nodes g')" and "tn_id n = t" and "tn_childCount n = 0"
  shows "\<exists>d1 d2 d3. JobDispatch_Shutdown d = Inr d1 \<and> JobDispatch_Initialize hw g' ctx r d1 = Inr (True, d2) \<and>
    WorkerLoop_round d2 = Inr (True, d3) \<and> jd_executed d3 = jd_executed d @ [t] \<and> jd_activeTaskCount d3 = 0xFFFFFFFF"
proof -
  obtain d1 where d1: "JobDispatch_Shutdown d = Inr d1" "jd_down d1" "jd_readyQueue d1 = jd_readyQueue d"
    "jd_executed d1 = jd_executed d"
    using Shutdown_ok [OF assms(1)] by blast
  obtain d2 where d2: "JobDispatch_Initialize hw g' ctx r d1 = Inr (True, d2)" "jd_base g' d2"
    "jd_readyQueue d2 = jd_readyQueue d1" "jd_activeTaskCount d2 = 0" "jd_executed d2 = jd_executed d1"
    using Initialize_ok [OF assms(3,4) d1(2)] by blast
  have q: "ring_ok (jd_readyQueue d2)" "ring_contents (jd_readyQueue d2) = t # ts"
    using d2(2) d2(3) d1(3) assms(2) by (simp_all add: jd_base_def)
  obtain q' where q': "MPMC_Dequeue (jd_readyQueue d2) 0 = Some (True, t, q')"
    using mpmc.dequeue_item [OF q(1), of t ts 0] q(2) by blast
  have t: "t \<in> node_ids g'" using assms(5,6) by (auto simp: node_ids_def)
  obtain r' c where r': "jd_registry d2 = Some r'" "IsRegistered t r'" "jd_runtimeContext d2 = Some c" "jd_taskGraph d2 = Some g'"
    "wp_running (jd_workerPool d2)"
    using d2(2) t by (auto simp: jd_base_def)
  obtain f where f: "Resolve t r' = Some f" using r'(2) by (auto simp: IsRegistered_def)
  have "GetNode g' t = Inr n" using GetNode_ok [OF assms(3,5)] assms(6) by simp
  then have "WorkerLoop_round d2 = Inr (True, d2\<lparr>jd_readyQueue := q', jd_runtimeContext := Some (f c),
      jd_executed := jd_executed d2 @ [t], jd_activeTaskCount := 0 - 1\<rparr>)"
    using r' f q' d2(4) assms(7)
    by (simp add: WorkerLoop_round_def ExecuteTask_def OnTaskCompleted_def ReleaseSuccessors_def Let_def)
  then show ?thesis using d1(1,4) d2(1,5) by auto
qed

definition solo :: task_graph where
  "solo = diamond\<lparr>tg_nodeCount := 1, tg_nodes := (tg_nodes diamond)[0 := node0\<lparr>tn_childCount := 0\<rparr>]\<rparr>"

lemma solo_facts: "graph_nodes solo = [node0\<lparr>tn_childCount := 0\<rparr>]" "unat (tg_nodeCount solo) = 1"
  by (code_simp, simp add: solo_def)

lemma solo_shape: "graph_shape solo"
  unfolding graph_shape_def solo_facts(2) less_one Let_def simp_thms by (intro conjI; code_simp)

lemma diamond_seeded:
  assumes "idle diamond d"
  shows "\<exists>d1 d2. BuildRuntimeState (d\<lparr>jd_currentPhase := Input\<rparr>) = Inr d1 \<and> SeedReadyQueue d1 = Inr d2 \<and>
    jd_base diamond d2 \<and> jd_executed d2 = jd_executed d \<and> ring_contents (jd_readyQueue d2) = [0]"
proof -
  obtain d1 where d1: "BuildRuntimeState (d\<lparr>jd_currentPhase := Input\<rparr>) = Inr d1" "between_phases diamond {} d1"
    "jd_executed d1 = jd_executed d" "jd_currentPhase d1 = Input"
    using Build_between [OF diamond_ok, of "d\<lparr>jd_currentPhase := Input\<rparr>"] assms by (auto simp: idle_def)
  obtain d2 where d2: "SeedReadyQueue d1 = Inr d2" "jd_inv diamond Input {} [] 0 d2" "jd_executed d2 = jd_executed d1"
    using SeedReadyQueue_ok [OF diamond_ok d1(2,4)] by auto
  have "remaining d2 0 = 0"
    using d2(2) diamond_ids by (simp add: jd_inv_def need_empty diamond_nodes edges_into_def diamond_children)
  then have "0 \<in> ready diamond Input {} d2"
    using ready_iff [OF diamond_shape, of node0 Input "{}" d2] by (simp add: diamond_nodes) (simp add: node0_def)
  moreover have "ready diamond Input {} d2 \<subseteq> {0}"
    unfolding ready_def diamond_nodes by (auto simp: diamond_node_defs)
  ultimately have "ready diamond Input {} d2 = {0}" by blast
  then have "distinct (ring_contents (jd_readyQueue d2))" "set (ring_contents (jd_readyQueue d2)) = {0}" "jd_base diamond d2"
    using d2(2) by (simp_all add: jd_inv_def)
  moreover have "distinct xs \<Longrightarrow> set xs = {0} \<Longrightarrow> xs = [0]" for xs :: "TaskId list"
    by (cases xs; cases "tl xs") auto
  ultimately show ?thesis using d1(1,3) d2(1,3) by auto
qed

theorem shutdown_keeps_ready_tasks_witness:
  "\<exists>d d1 d2 d3. jd_base diamond d \<and> ring_contents (jd_readyQueue d) = [0] \<and> JobDispatch_Shutdown d = Inr d1 \<and>
    JobDispatch_Initialize 1 solo RuntimeContext_new (replicate 256 (Some tick_task)) d1 = Inr (True, d2) \<and>
    WorkerLoop_round d2 = Inr (True, d3) \<and> jd_executed d3 = jd_executed d @ [0] \<and> jd_activeTaskCount d3 = 0xFFFFFFFF"
proof -
  have reg: "\<forall>i \<in> node_ids diamond. IsRegistered i (replicate 256 (Some tick_task))"
    and reg': "\<forall>i \<in> node_ids solo. IsRegistered i (replicate 256 (Some tick_task))"
    using registered_all diamond_ids by (auto simp: node_ids_def solo_facts node0_def)
  obtain d0 where "idle diamond d0"
    using Initialize_idle [OF diamond_shape reg JobDispatch_new_down] by blast
  then obtain d where d: "jd_base diamond d" "ring_contents (jd_readyQueue d) = [0]"
    using diamond_seeded by blast
  have n: "node0\<lparr>tn_childCount := 0\<rparr> \<in> set (graph_nodes solo)" "tn_id (node0\<lparr>tn_childCount := 0\<rparr>) = 0"
    "tn_childCount (node0\<lparr>tn_childCount := 0\<rparr>) = 0"
    by (simp_all add: solo_facts node0_def)
  show ?thesis
    using shutdown_keeps_ready_tasks [OF d(1) d(2) solo_shape reg' n, of 1 RuntimeContext_new] d by blast
qed

end
