(* ===== verification/Job_Races.thy ===== *)
theory Job_Races
  imports Job_Lifecycle "HOL-Library.Multiset"
begin

text \<open>
  The dispatcher's threads interleaved: the caller of \<open>ExecutePhase\<close> seeds and waits while workers
  take tasks, one atomic access per step (\<open>JobDispatch.cpp\<close>, \<open>WorkerPool.cpp\<close>). The ready queue is
  a list, which theory Ring_Queue justifies for one call at a time, and \<open>rs_executed\<close> and
  \<open>rs_bumps\<close> are ghosts. A phase without edges inside it is race free under every schedule and its
  barrier loses no wake-up; with an edge inside a phase a task can run twice, or the barrier open early.
\<close>

section \<open>Atomic steps\<close>

text \<open>Program points of \<open>SeedReadyQueue\<close> and \<open>WaitForPhaseCompletion\<close>.\<close>

datatype caller =
    Seeding "TaskId list"
  | Seed_enqueue TaskId "TaskId list"
  | Seed_count "TaskId list"
  | Check1
  | Load_epoch
  | Check2 u64
  | Blocked u64
  | Passed

text \<open>Program points of \<open>WorkerLoop\<close>, \<open>ReleaseSuccessors\<close> and \<open>OnTaskCompleted\<close>.\<close>

datatype worker =
    Polling
  | Executing TaskId
  | Releasing TaskId "TaskId list"
  | Enqueuing TaskId TaskId "TaskId list"
  | Counting TaskId "TaskId list"
  | Bump

record race =
  rs_remaining :: "TaskId \<Rightarrow> u32"
  rs_queue :: "TaskId list"
  rs_active :: u32
  rs_epoch :: u64
  rs_caller :: caller
  rs_workers :: "worker list"
  rs_executed :: "TaskId list"
  rs_bumps :: nat

definition child_list :: "task_graph \<Rightarrow> TaskId \<Rightarrow> TaskId list" where
  "child_list g t = (case GetNode g t of Inl e \<Rightarrow> [] | Inr n \<Rightarrow> children g n)"

definition in_phase :: "task_graph \<Rightarrow> RuntimePhaseId \<Rightarrow> TaskId \<Rightarrow> bool" where
  "in_phase g p t \<longleftrightarrow> (case GetNode g t of Inl e \<Rightarrow> False | Inr n \<Rightarrow> tn_phaseId n = p)"

definition caller_step :: "race \<Rightarrow> race option" where
  "caller_step s =
     (case rs_caller s of
        Seeding [] \<Rightarrow> Some (s\<lparr>rs_caller := Check1\<rparr>)
      | Seeding (t # ts) \<Rightarrow>
          Some (s\<lparr>rs_caller := if rs_remaining s t = 0 then Seed_enqueue t ts else Seeding ts\<rparr>)
      | Seed_enqueue t ts \<Rightarrow> Some (s\<lparr>rs_queue := rs_queue s @ [t], rs_caller := Seed_count ts\<rparr>)
      | Seed_count ts \<Rightarrow> Some (s\<lparr>rs_active := rs_active s + 1, rs_caller := Seeding ts\<rparr>)
      | Check1 \<Rightarrow> Some (s\<lparr>rs_caller := if rs_active s = 0 then Passed else Load_epoch\<rparr>)
      | Load_epoch \<Rightarrow> Some (s\<lparr>rs_caller := Check2 (rs_epoch s)\<rparr>)
      | Check2 e \<Rightarrow> Some (s\<lparr>rs_caller := if rs_active s = 0 then Passed else Blocked e\<rparr>)
      | Blocked e \<Rightarrow> if rs_epoch s = e then None else Some (s\<lparr>rs_caller := Check1\<rparr>)
      | Passed \<Rightarrow> None)"

definition worker_step :: "task_graph \<Rightarrow> RuntimePhaseId \<Rightarrow> nat \<Rightarrow> race \<Rightarrow> race option" where
  "worker_step g p w s =
     (if w \<ge> length (rs_workers s) then None
      else let at = (\<lambda>pc s. Some (s\<lparr>rs_workers := (rs_workers s)[w := pc]\<rparr>)) in
        case rs_workers s ! w of
          Polling \<Rightarrow> (case rs_queue s of [] \<Rightarrow> None | t # q \<Rightarrow> at (Executing t) (s\<lparr>rs_queue := q\<rparr>))
        | Executing t \<Rightarrow> at (Releasing t (child_list g t)) (s\<lparr>rs_executed := rs_executed s @ [t]\<rparr>)
        | Releasing t [] \<Rightarrow> at (if rs_active s = 1 then Bump else Polling) (s\<lparr>rs_active := rs_active s - 1\<rparr>)
        | Releasing t (c # cs) \<Rightarrow>
            at (if rs_remaining s c = 1 \<and> in_phase g p c then Enqueuing c t cs else Releasing t cs)
              (s\<lparr>rs_remaining := (rs_remaining s)(c := rs_remaining s c - 1)\<rparr>)
        | Enqueuing c t cs \<Rightarrow> at (Counting t cs) (s\<lparr>rs_queue := rs_queue s @ [c]\<rparr>)
        | Counting t cs \<Rightarrow> at (Releasing t cs) (s\<lparr>rs_active := rs_active s + 1\<rparr>)
        | Bump \<Rightarrow> at Polling (s\<lparr>rs_epoch := rs_epoch s + 1, rs_bumps := rs_bumps s + 1\<rparr>))"

text \<open>A phase starts with the workers polling, or still about to announce the end of the one before.\<close>

definition race_start :: "task_graph \<Rightarrow> RuntimePhaseId \<Rightarrow> (TaskId \<Rightarrow> u32) \<Rightarrow> u64 \<Rightarrow> worker list \<Rightarrow> race" where
  "race_start g p rem e ws =
     \<lparr>rs_remaining = rem, rs_queue = [], rs_active = 0, rs_epoch = e,
      rs_caller = Seeding (map tn_id (phase_nodes g p)), rs_workers = ws, rs_executed = [], rs_bumps = 0\<rparr>"

inductive race_reachable :: "task_graph \<Rightarrow> RuntimePhaseId \<Rightarrow> race \<Rightarrow> race \<Rightarrow> bool"
  for g :: task_graph and p :: RuntimePhaseId and s0 :: race where
  start: "race_reachable g p s0 s0"
| caller: "race_reachable g p s0 s \<Longrightarrow> caller_step s = Some s' \<Longrightarrow> race_reachable g p s0 s'"
| worker: "race_reachable g p s0 s \<Longrightarrow> worker_step g p w s = Some s' \<Longrightarrow> race_reachable g p s0 s'"

text \<open>A schedule names the thread of each step; \<open>None\<close> is the caller.\<close>

fun run_schedule :: "task_graph \<Rightarrow> RuntimePhaseId \<Rightarrow> nat option list \<Rightarrow> race \<Rightarrow> race option" where
  "run_schedule g p [] s = Some s"
| "run_schedule g p (None # ts) s = Option.bind (caller_step s) (run_schedule g p ts)"
| "run_schedule g p (Some w # ts) s = Option.bind (worker_step g p w s) (run_schedule g p ts)"

lemma run_schedule_reachable:
  "race_reachable g p s0 s \<Longrightarrow> run_schedule g p ts s = Some s' \<Longrightarrow> race_reachable g p s0 s'"
proof (induction g p ts s rule: run_schedule.induct)
  case (2 g p ts s)
  then show ?case by (cases "caller_step s") (auto intro: race_reachable.caller)
next
  case (3 g p w ts s)
  then show ?case by (cases "worker_step g p w s") (auto intro: race_reachable.worker)
qed simp

section \<open>Phases without inner edges\<close>

fun todo :: "caller \<Rightarrow> TaskId list" where
  "todo (Seeding ts) = ts"
| "todo (Seed_enqueue t ts) = t # ts"
| "todo (Seed_count ts) = ts"
| "todo _ = []"

fun uncounted :: "caller \<Rightarrow> nat" where
  "uncounted (Seed_count ts) = 1"
| "uncounted _ = 0"

fun taken :: "worker \<Rightarrow> TaskId multiset" where
  "taken (Executing t) = {#t#}"
| "taken _ = {#}"

fun busy :: "worker \<Rightarrow> nat" where
  "busy (Executing t) = 1"
| "busy (Releasing t cs) = 1"
| "busy _ = 0"

fun unfinished :: "worker \<Rightarrow> nat" where
  "unfinished (Releasing t cs) = 1"
| "unfinished Bump = 1"
| "unfinished _ = 0"

fun unreleased :: "TaskId \<Rightarrow> worker \<Rightarrow> nat" where
  "unreleased c (Releasing t cs) = count_list cs c"
| "unreleased c _ = 0"

fun fine :: "task_graph \<Rightarrow> RuntimePhaseId \<Rightarrow> worker \<Rightarrow> bool" where
  "fine g p (Releasing t cs) \<longleftrightarrow> (\<forall>c \<in> set cs. \<not> in_phase g p c)"
| "fine g p (Executing t) \<longleftrightarrow> (\<forall>c \<in> set (child_list g t). \<not> in_phase g p c)"
| "fine g p (Enqueuing c t cs) \<longleftrightarrow> False"
| "fine g p (Counting t cs) \<longleftrightarrow> False"
| "fine g p _ \<longleftrightarrow> True"

fun announcing :: "worker \<Rightarrow> nat" where
  "announcing Bump = 1"
| "announcing _ = 0"

definition edges_out :: "task_graph \<Rightarrow> TaskId list \<Rightarrow> TaskId \<Rightarrow> nat" where
  "edges_out g ts c = sum_list (map (\<lambda>t. count_list (child_list g t) c) ts)"

text \<open>What a waiting caller knows: the epoch it read, and that it will still change or a task is active.\<close>

definition waiting_ok :: "u64 \<Rightarrow> race \<Rightarrow> bool" where
  "waiting_ok e0 s \<longleftrightarrow>
     (case rs_caller s of
        Check2 e \<Rightarrow> \<exists>k \<le> rs_bumps s. e = e0 + of_nat k
      | Blocked e \<Rightarrow> \<exists>k \<le> rs_bumps s. e = e0 + of_nat k \<and>
          (k < rs_bumps s \<or> rs_active s \<noteq> 0 \<or> 0 < sum_list (map announcing (rs_workers s)))
      | Passed \<Rightarrow> rs_queue s = [] \<and> sum_list (map busy (rs_workers s)) = 0
      | _ \<Rightarrow> True)"

definition race_inv :: "task_graph \<Rightarrow> RuntimePhaseId \<Rightarrow> TaskId list \<Rightarrow> (TaskId \<Rightarrow> u32) \<Rightarrow> u64 \<Rightarrow> nat \<Rightarrow> race \<Rightarrow> bool" where
  "race_inv g p S rem e0 n s \<longleftrightarrow>
     length (rs_workers s) = n \<and> (\<forall>w \<in> set (rs_workers s). fine g p w) \<and>
     mset (todo (rs_caller s)) + mset (rs_queue s) + sum_list (map taken (rs_workers s)) + mset (rs_executed s) = mset S \<and>
     rs_active s + of_nat (uncounted (rs_caller s)) = of_nat (length (rs_queue s) + sum_list (map busy (rs_workers s))) \<and>
     (\<forall>c. rs_remaining s c + of_nat (edges_out g (rs_executed s) c)
        = rem c + of_nat (sum_list (map (unreleased c) (rs_workers s)))) \<and>
     rs_epoch s = e0 + of_nat (rs_bumps s) \<and>
     rs_bumps s + sum_list (map unfinished (rs_workers s)) \<le> n + length (rs_executed s) \<and>
     waiting_ok e0 s"

text \<open>The phase's tasks are free to run, and no edge stays inside the phase.\<close>

definition flat_phase :: "task_graph \<Rightarrow> RuntimePhaseId \<Rightarrow> TaskId list \<Rightarrow> (TaskId \<Rightarrow> u32) \<Rightarrow> bool" where
  "flat_phase g p S rem \<longleftrightarrow>
     (\<forall>t \<in> set S. in_phase g p t \<and> rem t = 0 \<and> (\<forall>c \<in> set (child_list g t). \<not> in_phase g p c))"

lemma flat_remaining:
  assumes flat: "flat_phase g p S rem" and inv: "race_inv g p S rem e0 n s" and t: "t \<in> set S"
  shows "rs_remaining s t = 0"
proof -
  have sub: "set (rs_executed s) \<subseteq> set S"
    using inv unfolding race_inv_def by (metis (no_types, lifting) mset_subset_eq_add_right set_mset_mono set_mset_mset)
  have out: "count_list (child_list g u) t = 0" if "u \<in> set S" for u
    using flat that t by (auto simp: flat_phase_def count_list_0_iff)
  have none: "edges_out g (rs_executed s) t = 0"
    using sub out by (auto simp: edges_out_def sum_list_eq_0_iff)
  have "unreleased t w = 0" if w: "w \<in> set (rs_workers s)" for w
  proof -
    have "fine g p w" using inv w unfolding race_inv_def by blast
    moreover have "in_phase g p t" using flat t unfolding flat_phase_def by blast
    ultimately show ?thesis by (cases w) (auto simp: count_list_0_iff)
  qed
  then have none': "sum_list (map (unreleased t) (rs_workers s)) = 0" by (auto simp: sum_list_eq_0_iff)
  have "rs_remaining s t + of_nat (edges_out g (rs_executed s) t)
      = rem t + of_nat (sum_list (map (unreleased t) (rs_workers s)))"
    using inv unfolding race_inv_def by blast
  moreover have "rem t = 0" using flat t unfolding flat_phase_def by blast
  ultimately show ?thesis by (simp add: none none')
qed

lemma inv_executed: "race_inv g p S rem e0 n s \<Longrightarrow> set (rs_executed s) \<subseteq> set S \<and> length (rs_executed s) \<le> length S"
  unfolding race_inv_def
  by (metis (no_types, lifting) mset_subset_eq_add_right set_mset_mono set_mset_mset size_mset size_mset_mono)

lemma sum_busy_le: "sum_list (map busy ws) \<le> length ws"
proof (induction ws)
  case (Cons w ws)
  then show ?case by (cases w) auto
qed simp

lemma inactive:
  assumes inv: "race_inv g p S rem e0 n s" and small: "length S + n < 2 ^ 32"
    and act: "rs_active s = 0" "uncounted (rs_caller s) = 0"
  shows "rs_queue s = [] \<and> sum_list (map busy (rs_workers s)) = 0"
proof -
  have "mset (todo (rs_caller s)) + mset (rs_queue s) + sum_list (map taken (rs_workers s)) + mset (rs_executed s) = mset S"
    using inv by (simp add: race_inv_def)
  then have "size (mset (rs_queue s)) \<le> size (mset S)"
    by (intro size_mset_mono) (metis (no_types, lifting) add.assoc add.commute mset_subset_eq_add_left)
  moreover have "sum_list (map busy (rs_workers s)) \<le> n"
    using inv sum_busy_le [of "rs_workers s"] by (auto simp: race_inv_def)
  ultimately have "length (rs_queue s) + sum_list (map busy (rs_workers s)) < 2 ^ 32" using small by simp
  moreover have "(of_nat (length (rs_queue s) + sum_list (map busy (rs_workers s))) :: u32) = 0"
    using inv act by (simp add: race_inv_def)
  ultimately show ?thesis using of_nat_eq_0_small [where 'a = 32] by fastforce
qed

lemma race_inv_parts:
  assumes "race_inv g p S rem e0 n s"
  shows "length (rs_workers s) = n" and "\<And>w. w \<in> set (rs_workers s) \<Longrightarrow> fine g p w"
    and "mset (todo (rs_caller s)) + mset (rs_queue s) + sum_list (map taken (rs_workers s)) + mset (rs_executed s) = mset S"
    and "rs_active s + of_nat (uncounted (rs_caller s)) = of_nat (length (rs_queue s) + sum_list (map busy (rs_workers s)))"
    and "\<And>c. rs_remaining s c + of_nat (edges_out g (rs_executed s) c)
        = rem c + of_nat (sum_list (map (unreleased c) (rs_workers s)))"
    and "rs_epoch s = e0 + of_nat (rs_bumps s)"
    and "rs_bumps s + sum_list (map unfinished (rs_workers s)) \<le> n + length (rs_executed s)"
    and "waiting_ok e0 s"
  using assms unfolding race_inv_def by blast+

text \<open>The caller moving to a new program point.\<close>

lemma race_inv_call:
  assumes inv: "race_inv g p S rem e0 n s"
    and s': "rs_workers s' = rs_workers s" "rs_executed s' = rs_executed s" "rs_remaining s' = rs_remaining s"
      "rs_epoch s' = rs_epoch s" "rs_bumps s' = rs_bumps s"
    and tasks: "mset (todo (rs_caller s')) + mset (rs_queue s') = mset (todo (rs_caller s)) + mset (rs_queue s)"
    and active: "rs_active s' + of_nat (uncounted (rs_caller s') + length (rs_queue s))
      = rs_active s + of_nat (uncounted (rs_caller s) + length (rs_queue s'))"
    and wait: "waiting_ok e0 s'"
  shows "race_inv g p S rem e0 n s'"
proof -
  note I = race_inv_parts [OF inv]
  have "rs_active s' + of_nat (uncounted (rs_caller s')) + of_nat (length (rs_queue s))
      = rs_active s + of_nat (uncounted (rs_caller s)) + of_nat (length (rs_queue s'))"
    using active by (simp add: add.assoc)
  then have "rs_active s' + of_nat (uncounted (rs_caller s')) = of_nat (length (rs_queue s') + sum_list (map busy (rs_workers s')))"
    unfolding I(4) s'(1) by (simp add: ac_simps)
  moreover have "mset (todo (rs_caller s')) + mset (rs_queue s') + sum_list (map taken (rs_workers s')) + mset (rs_executed s') = mset S"
    unfolding tasks s' by (rule I(3))
  ultimately show ?thesis
    using I(1,2,5,6,7) wait unfolding race_inv_def s' by blast
qed

lemma caller_step_inv:
  assumes flat: "flat_phase g p S rem" and inv: "race_inv g p S rem e0 n s" and step: "caller_step s = Some s'"
    and small: "length S + n < 2 ^ 32"
  shows "race_inv g p S rem e0 n s'"
proof (rule race_inv_call [OF inv])
  note wait = race_inv_parts(8) [OF inv]
  have rem: "rs_remaining s t = 0" if "rs_caller s = Seeding (t # ts)" for t ts
  proof (rule flat_remaining [OF flat inv])
    have "t \<in># mset (todo (rs_caller s)) + mset (rs_queue s) + sum_list (map taken (rs_workers s)) + mset (rs_executed s)"
      using that by simp
    then show "t \<in> set S" unfolding race_inv_parts(3) [OF inv] by simp
  qed
  show "rs_workers s' = rs_workers s" "rs_executed s' = rs_executed s" "rs_remaining s' = rs_remaining s"
      "rs_epoch s' = rs_epoch s" "rs_bumps s' = rs_bumps s"
    using step by (auto simp: caller_step_def split: caller.splits list.splits if_splits)
  show "mset (todo (rs_caller s')) + mset (rs_queue s') = mset (todo (rs_caller s)) + mset (rs_queue s)"
    using step rem by (auto simp: caller_step_def split: caller.splits list.splits if_splits)
  show "rs_active s' + of_nat (uncounted (rs_caller s') + length (rs_queue s))
      = rs_active s + of_nat (uncounted (rs_caller s) + length (rs_queue s'))"
    using step by (auto simp: caller_step_def split: caller.splits list.splits if_splits)
  show "waiting_ok e0 s'"
    using step wait inactive [OF inv small] race_inv_parts(6) [OF inv]
    by (auto simp: caller_step_def waiting_ok_def split: caller.splits list.splits if_splits)
qed

text \<open>Moving worker \<open>w\<close> to a new program point.\<close>

lemma race_inv_move:
  assumes inv: "race_inv g p S rem e0 n s" and w: "w < length (rs_workers s)"
    and s': "rs_workers s' = (rs_workers s)[w := pc]" "rs_caller s' = rs_caller s"
    and fine: "fine g p pc"
    and tasks: "mset (rs_queue s') + taken pc + mset (rs_executed s')
      = mset (rs_queue s) + taken (rs_workers s ! w) + mset (rs_executed s)"
    and active: "rs_active s' + of_nat (length (rs_queue s) + busy (rs_workers s ! w))
      = rs_active s + of_nat (length (rs_queue s') + busy pc)"
    and remaining: "\<And>c. rs_remaining s' c + of_nat (edges_out g (rs_executed s') c + unreleased c (rs_workers s ! w))
      = rs_remaining s c + of_nat (edges_out g (rs_executed s) c + unreleased c pc)"
    and epoch: "rs_epoch s' + of_nat (rs_bumps s) = rs_epoch s + of_nat (rs_bumps s')"
    and bumps: "rs_bumps s' + unfinished pc + length (rs_executed s)
      \<le> rs_bumps s + unfinished (rs_workers s ! w) + length (rs_executed s')"
    and wait: "waiting_ok e0 s'"
  shows "race_inv g p S rem e0 n s'"
proof -
  note I = race_inv_parts [OF inv]
  note upd = sum_list_update_plus [OF w, where y = pc]
  have "length (rs_workers s') = n" using I(1) s'(1) by simp
  moreover have "\<forall>v \<in> set (rs_workers s'). fine g p v"
    using I(2) fine set_update_subset_insert [of "rs_workers s" w pc] s'(1) by auto
  moreover have "mset (todo (rs_caller s')) + mset (rs_queue s') + sum_list (map taken (rs_workers s')) + mset (rs_executed s') = mset S"
  proof -
    have "(mset (todo (rs_caller s)) + mset (rs_queue s') + sum_list (map taken (rs_workers s')) + mset (rs_executed s')) + taken (rs_workers s ! w)
        = mset (todo (rs_caller s)) + (mset (rs_queue s') + taken pc + mset (rs_executed s')) + sum_list (map taken (rs_workers s))"
      using upd [of taken] s'(1) by (simp add: ac_simps)
    also have "\<dots> = mset S + taken (rs_workers s ! w)" unfolding tasks I(3) [symmetric] by (simp add: ac_simps)
    finally show ?thesis using s'(2) by simp
  qed
  moreover have "rs_active s' + of_nat (uncounted (rs_caller s')) = of_nat (length (rs_queue s') + sum_list (map busy (rs_workers s')))"
  proof -
    have "rs_active s' + of_nat (uncounted (rs_caller s)) + of_nat (length (rs_queue s) + sum_list (map busy (rs_workers s)) + busy pc)
      = (rs_active s' + of_nat (length (rs_queue s) + busy (rs_workers s ! w))) + of_nat (uncounted (rs_caller s)) + of_nat (sum_list (map busy (rs_workers s')))"
      using arg_cong [OF upd [of busy], of "of_nat :: nat \<Rightarrow> u32"] s'(1) by (simp add: ac_simps)
    also have "\<dots> = (rs_active s + of_nat (uncounted (rs_caller s))) + of_nat (length (rs_queue s') + busy pc + sum_list (map busy (rs_workers s')))"
      unfolding active by (simp add: ac_simps)
    finally show ?thesis unfolding I(4) s'(2) by (simp add: ac_simps)
  qed
  moreover have "rs_remaining s' c + of_nat (edges_out g (rs_executed s') c)
      = rem c + of_nat (sum_list (map (unreleased c) (rs_workers s')))" for c
  proof -
    have "rs_remaining s' c + of_nat (edges_out g (rs_executed s') c) + of_nat (unreleased c (rs_workers s ! w) + sum_list (map (unreleased c) (rs_workers s)))
      = (rs_remaining s' c + of_nat (edges_out g (rs_executed s') c + unreleased c (rs_workers s ! w))) + of_nat (sum_list (map (unreleased c) (rs_workers s)))"
      by (simp add: ac_simps)
    also have "\<dots> = (rs_remaining s c + of_nat (edges_out g (rs_executed s) c)) + of_nat (sum_list (map (unreleased c) (rs_workers s)) + unreleased c pc)"
      unfolding remaining by (simp add: ac_simps)
    also have "\<dots> = rem c + of_nat (sum_list (map (unreleased c) (rs_workers s'))) + of_nat (unreleased c (rs_workers s ! w) + sum_list (map (unreleased c) (rs_workers s)))"
      unfolding I(5) s'(1) upd [symmetric] by (simp add: ac_simps)
    finally show ?thesis by simp
  qed
  moreover have "rs_epoch s' = e0 + of_nat (rs_bumps s')"
    using epoch I(6) by (simp add: algebra_simps)
  moreover have "rs_bumps s' + sum_list (map unfinished (rs_workers s')) \<le> n + length (rs_executed s')"
    using bumps I(7) upd [of unfinished] s'(1) by simp
  ultimately show ?thesis using wait unfolding race_inv_def by blast
qed

lemma edges_out_snoc: "edges_out g (ts @ [t]) c = edges_out g ts c + count_list (child_list g t) c"
  by (simp add: edges_out_def)

text \<open>A worker's step leaves what the waiting caller knows true.\<close>

lemma waiting_move:
  assumes wait: "waiting_ok e0 s" and w: "w < length (rs_workers s)" and inactive: "rs_caller s = Passed \<Longrightarrow>
      rs_queue s' = [] \<and> busy pc \<le> busy (rs_workers s ! w)"
    and s': "rs_workers s' = (rs_workers s)[w := pc]" "rs_caller s' = rs_caller s" "rs_bumps s \<le> rs_bumps s'"
    and keep: "rs_bumps s < rs_bumps s' \<or> 0 < announcing pc \<or>
      (announcing (rs_workers s ! w) = 0 \<and> (rs_active s \<noteq> 0 \<longrightarrow> rs_active s' \<noteq> 0))"
  shows "waiting_ok e0 s'"
proof -
  note ann = sum_list_update_plus [OF w, of announcing pc] and busy = sum_list_update_plus [OF w, of busy pc]
  have ann_keep: "0 < sum_list (map announcing (rs_workers s)) \<Longrightarrow> rs_bumps s < rs_bumps s' \<or> 0 < announcing pc
      \<or> 0 < sum_list (map announcing (rs_workers s'))"
    using ann keep s'(1) by (auto simp del: sum_list_eq_0_iff)
  have ann_pos: "0 < announcing pc \<Longrightarrow> 0 < sum_list (map announcing (rs_workers s'))"
    using s'(1) w by (auto simp: set_update_memI intro!: gr0I)
  have busy_zero: "sum_list (map busy (rs_workers s)) = 0 \<Longrightarrow> busy pc \<le> busy (rs_workers s ! w) \<Longrightarrow> sum_list (map busy (rs_workers s')) = 0"
    unfolding s'(1) using busy by linarith
  show ?thesis
  proof (cases "rs_caller s")
    case (Check2 e)
    then show ?thesis using wait s'(2,3) by (auto simp: waiting_ok_def intro: order_trans)
  next
    case (Blocked e)
    then obtain k where k: "k \<le> rs_bumps s" "e = e0 + of_nat k"
      "k < rs_bumps s \<or> rs_active s \<noteq> 0 \<or> 0 < sum_list (map announcing (rs_workers s))"
      using wait by (auto simp: waiting_ok_def simp del: sum_list_eq_0_iff)
    then have "k < rs_bumps s' \<or> rs_active s' \<noteq> 0 \<or> 0 < sum_list (map announcing (rs_workers s'))"
      using keep ann_keep ann_pos s'(3) by linarith
    then show ?thesis
      using Blocked s'(2,3) k by (auto simp: waiting_ok_def simp del: sum_list_eq_0_iff intro!: exI [of _ k])
  next
    case Passed
    then show ?thesis
      using wait inactive busy_zero s'(2) by (simp add: waiting_ok_def del: sum_list_eq_0_iff)
  qed (use s'(2) in \<open>simp_all add: waiting_ok_def\<close>)
qed

lemma worker_step_inv:
  assumes flat: "flat_phase g p S rem" and inv: "race_inv g p S rem e0 n s" and step: "worker_step g p w s = Some s'"
  shows "race_inv g p S rem e0 n s'"
proof -
  have w: "w < length (rs_workers s)" using step by (simp add: worker_step_def split: if_splits)
  have at_w: "fine g p (rs_workers s ! w)" by (rule race_inv_parts(2) [OF inv]) (use w in simp)
  have idle: "busy (rs_workers s ! w) = 0" if "rs_caller s = Passed"
  proof -
    have "sum_list (map busy (rs_workers s)) = 0" using race_inv_parts(8) [OF inv] that by (simp add: waiting_ok_def)
    then show ?thesis using w by (simp add: sum_list_eq_0_iff)
  qed
  note move = race_inv_move [OF inv w] and wait = waiting_move [OF race_inv_parts(8) [OF inv] w]
  show ?thesis
  proof (cases "rs_workers s ! w")
    case Polling
    obtain t q where q: "rs_queue s = t # q" "s' = s\<lparr>rs_queue := q, rs_workers := (rs_workers s)[w := Executing t]\<rparr>"
      using step w Polling by (auto simp: worker_step_def split: list.splits)
    have "t \<in># mset (todo (rs_caller s)) + mset (rs_queue s) + sum_list (map taken (rs_workers s)) + mset (rs_executed s)"
      using q(1) by simp
    then have "t \<in> set S" unfolding race_inv_parts(3) [OF inv] by simp
    moreover have "rs_caller s \<noteq> Passed" using race_inv_parts(8) [OF inv] q(1) by (auto simp: waiting_ok_def)
    ultimately show ?thesis
      using flat q Polling by (intro move [where pc = "Executing t"] wait [where pc = "Executing t"]) (auto simp: flat_phase_def)
  next
    case (Executing t)
    then have s': "s' = s\<lparr>rs_executed := rs_executed s @ [t], rs_workers := (rs_workers s)[w := Releasing t (child_list g t)]\<rparr>"
      using step w by (simp add: worker_step_def)
    then show ?thesis
      using at_w Executing idle
      by (intro move [where pc = "Releasing t (child_list g t)"] wait [where pc = "Releasing t (child_list g t)"])
        (auto simp: edges_out_snoc)
  next
    case (Releasing t cs)
    show ?thesis
    proof (cases cs)
      case Nil
      let ?pc = "if rs_active s = 1 then Bump else Polling"
      have s': "s' = s\<lparr>rs_active := rs_active s - 1, rs_workers := (rs_workers s)[w := ?pc]\<rparr>"
        using step w Releasing Nil by (simp add: worker_step_def)
      then show ?thesis
        using Releasing Nil idle by (intro move [where pc = ?pc] wait [where pc = ?pc]) auto
    next
      case (Cons c cs')
      have s': "s' = s\<lparr>rs_remaining := (rs_remaining s)(c := rs_remaining s c - 1), rs_workers := (rs_workers s)[w := Releasing t cs']\<rparr>"
        using step w Releasing Cons at_w by (simp add: worker_step_def)
      then show ?thesis
        using at_w Releasing Cons idle
        by (intro move [where pc = "Releasing t cs'"] wait [where pc = "Releasing t cs'"]) (auto simp: algebra_simps)
    qed
  next
    case Bump
    then have s': "s' = s\<lparr>rs_epoch := rs_epoch s + 1, rs_bumps := rs_bumps s + 1, rs_workers := (rs_workers s)[w := Polling]\<rparr>"
      using step w by (simp add: worker_step_def)
    then show ?thesis
      using Bump race_inv_parts(8) [OF inv]
      by (intro move [where pc = Polling] wait [where pc = Polling]) (auto simp: waiting_ok_def)
  qed (use at_w in simp_all)
qed

section \<open>The barrier\<close>

lemma race_start_inv:
  assumes "\<forall>w \<in> set ws. w = Polling \<or> w = Bump"
  shows "race_inv g p (map tn_id (phase_nodes g p)) rem e (length ws) (race_start g p rem e ws)"
proof -
  have "sum_list (map f ws) = 0" if "f Polling = 0" "f Bump = 0" for f :: "worker \<Rightarrow> nat"
    using assms that by (auto simp: sum_list_eq_0_iff)
  moreover have "sum_list (map taken ws) = {#}"
    using assms by (induction ws) auto
  moreover have "sum_list (map unfinished ws) \<le> length ws"
    using assms by (induction ws) auto
  moreover have "fine g p w" if "w \<in> set ws" for w using assms that by auto
  ultimately show ?thesis by (simp add: race_inv_def race_start_def waiting_ok_def edges_out_def del: sum_list_eq_0_iff)
qed

lemma race_reachable_inv:
  assumes "race_reachable g p (race_start g p rem e ws) s"
    and "flat_phase g p (map tn_id (phase_nodes g p)) rem" and "\<forall>w \<in> set ws. w = Polling \<or> w = Bump"
    and "length (phase_nodes g p) + length ws < 2 ^ 32"
  shows "race_inv g p (map tn_id (phase_nodes g p)) rem e (length ws) s"
  using assms(1)
proof induction
  case start
  then show ?case by (rule race_start_inv [OF assms(3)])
next
  case (caller s s')
  then show ?case using caller_step_inv [OF assms(2) caller.IH] assms(4) by simp
next
  case (worker s w s')
  then show ?case using worker_step_inv [OF assms(2) worker.IH] by blast
qed

text \<open>The Simulation phase of the diamond, after its Input phase.\<close>

definition diamond_rem :: "TaskId \<Rightarrow> u32" where
  "diamond_rem c = (if c = 3 then 2 else 0)"

definition diamond_race :: race where
  "diamond_race = race_start diamond Simulation diamond_rem 0 [Polling, Polling]"

lemma diamond_flat: "flat_phase diamond Simulation (map tn_id (phase_nodes diamond Simulation)) diamond_rem"
  unfolding flat_phase_def diamond_phase_nodes by code_simp

definition diamond_schedule :: "nat option list" where
  "diamond_schedule = replicate 3 None @ [Some 0, Some 0] @ replicate 4 None @ replicate 4 (Some 1) @ replicate 3 None
     @ replicate 2 (Some 0)"

lemma diamond_run:
  "case run_schedule diamond Simulation diamond_schedule diamond_race of
     None \<Rightarrow> False
   | Some s \<Rightarrow> rs_caller s = Blocked 0 \<and> rs_epoch s = 0 \<and> rs_workers s = [Bump, Polling] \<and> rs_executed s = [7, 5]"
  by code_simp

lemma diamond_pass:
  "case run_schedule diamond Simulation (diamond_schedule @ [Some 0, None, None]) diamond_race of
     None \<Rightarrow> False
   | Some s \<Rightarrow> rs_caller s = Passed \<and> rs_executed s = [7, 5]"
  by code_simp

text \<open>In a phase without edges between its own tasks, whatever the number of workers and the
  schedule: when the caller passes the barrier every task of the phase has been executed exactly once,
  no task is queued or running, and every counter has been lowered by the edges of the phase.\<close>

theorem flat_phase_race_free:
  assumes "race_reachable g p (race_start g p rem e ws) s" and "rs_caller s = Passed"
    and "flat_phase g p (map tn_id (phase_nodes g p)) rem" and "\<forall>w \<in> set ws. w = Polling \<or> w = Bump"
    and "length (phase_nodes g p) + length ws < 2 ^ 32"
  shows "mset (rs_executed s) = mset (map tn_id (phase_nodes g p)) \<and> rs_queue s = [] \<and>
    (\<forall>w \<in> set (rs_workers s). w = Polling \<or> w = Bump) \<and>
    (\<forall>c. rs_remaining s c = rem c - of_nat (edges_out g (rs_executed s) c))"
proof -
  note inv = race_reachable_inv [OF assms(1,3,4,5)]
  have idle: "rs_queue s = []" "sum_list (map busy (rs_workers s)) = 0"
    using race_inv_parts(8) [OF inv] assms(2) by (auto simp: waiting_ok_def)
  have ws: "\<forall>w \<in> set (rs_workers s). w = Polling \<or> w = Bump"
  proof
    fix w assume w: "w \<in> set (rs_workers s)"
    then have "busy w = 0" "fine g p w" using idle(2) race_inv_parts(2) [OF inv] by (auto simp: sum_list_eq_0_iff)
    then show "w = Polling \<or> w = Bump" by (cases w) auto
  qed
  have "sum_list (map taken vs) = {#}" if "\<forall>w \<in> set vs. w = Polling \<or> w = Bump" for vs
    using that by (induction vs) auto
  then have "mset (rs_executed s) = mset (map tn_id (phase_nodes g p))"
    using race_inv_parts(3) [OF inv] ws idle(1) assms(2) by simp
  moreover have "sum_list (map (unreleased c) (rs_workers s)) = 0" for c
    using ws by (auto simp: sum_list_eq_0_iff)
  then have "rs_remaining s c = rem c - of_nat (edges_out g (rs_executed s) c)" for c
    using race_inv_parts(5) [OF inv, of c] by (simp add: eq_diff_eq del: sum_list_eq_0_iff)
  ultimately show ?thesis using ws idle(1) by blast
qed

theorem flat_phase_race_free_witness:
  "\<exists>s. race_reachable diamond Simulation diamond_race s \<and> rs_caller s = Passed \<and> rs_executed s = [7, 5] \<and>
    (mset (rs_executed s) = mset (map tn_id (phase_nodes diamond Simulation)) \<and> rs_queue s = [] \<and>
      (\<forall>w \<in> set (rs_workers s). w = Polling \<or> w = Bump) \<and>
      (\<forall>c. rs_remaining s c = diamond_rem c - of_nat (edges_out diamond (rs_executed s) c)))"
proof -
  obtain s where s: "run_schedule diamond Simulation (diamond_schedule @ [Some 0, None, None]) diamond_race = Some s"
    "rs_caller s = Passed" "rs_executed s = [7, 5]"
    using diamond_pass by (auto split: option.splits)
  have r: "race_reachable diamond Simulation diamond_race s"
    by (rule run_schedule_reachable [OF race_reachable.start s(1)])
  have "length (phase_nodes diamond Simulation) + length [Polling, Polling] < 2 ^ 32"
    by (simp add: diamond_phase_nodes)
  then show ?thesis
    using flat_phase_race_free [OF r [unfolded diamond_race_def] s(2) diamond_flat _] r s(2,3) by auto
qed

text \<open>The barrier of such a phase loses no wake-up: a caller blocked on the epoch is never left
  alone, a worker is at work, or a task is queued for the workers, or one is about to change the epoch.\<close>

theorem barrier_keeps_wakeups:
  assumes "race_reachable g p (race_start g p rem e ws) s" and "caller_step s = None" and "rs_caller s \<noteq> Passed"
    and "flat_phase g p (map tn_id (phase_nodes g p)) rem" and "\<forall>w \<in> set ws. w = Polling \<or> w = Bump"
    and "length (phase_nodes g p) + length ws < 2 ^ 32" and "ws \<noteq> []"
  shows "\<exists>w s'. worker_step g p w s = Some s'"
proof -
  note inv = race_reachable_inv [OF assms(1,4,5,6)]
  note I = race_inv_parts [OF inv]
  obtain x where x: "rs_caller s = Blocked x" "rs_epoch s = x"
    using assms(2,3) by (auto simp: caller_step_def split: caller.splits list.splits if_splits)
  then obtain k where k: "k \<le> rs_bumps s" "x = e + of_nat k"
    "k < rs_bumps s \<or> rs_active s \<noteq> 0 \<or> 0 < sum_list (map announcing (rs_workers s))"
    using I(8) by (auto simp: waiting_ok_def simp del: sum_list_eq_0_iff)
  have "rs_bumps s \<le> length ws + length (rs_executed s)" using I(7) by simp
  then have small: "rs_bumps s < 2 ^ 64" using assms(6) inv_executed [OF inv] by simp
  have "(of_nat (rs_bumps s) :: u64) = of_nat k" using I(6) x(2) k(2) by simp
  then have "rs_bumps s = k" using of_nat_eq64 [of "rs_bumps s" k] small k(1) by simp
  then have "rs_active s \<noteq> 0 \<or> 0 < sum_list (map announcing (rs_workers s))"
    using k(3) by (auto simp del: sum_list_eq_0_iff)
  then have "rs_queue s \<noteq> [] \<or> (\<exists>w \<in> set (rs_workers s). w \<noteq> Polling)"
  proof
    assume "rs_active s \<noteq> 0"
    then have "length (rs_queue s) + sum_list (map busy (rs_workers s)) \<noteq> 0"
      using I(4) x(1) by (intro notI) simp
    moreover have "sum_list (map busy (rs_workers s)) = 0" if "\<forall>w \<in> set (rs_workers s). w = Polling"
      using that by (auto simp: sum_list_eq_0_iff)
    ultimately show ?thesis by (metis add_eq_0_iff_both_eq_0 list.size(3))
  next
    assume ann: "0 < sum_list (map announcing (rs_workers s))"
    have "sum_list (map announcing (rs_workers s)) = 0" if "\<forall>w \<in> set (rs_workers s). w = Polling"
      using that by (auto simp: sum_list_eq_0_iff)
    then show ?thesis using ann by (metis less_irrefl)
  qed
  moreover have "length (rs_workers s) = length ws" by (rule I(1))
  ultimately obtain w where w: "w < length (rs_workers s)" "rs_workers s ! w \<noteq> Polling \<or> rs_queue s \<noteq> []"
    using assms(7) by (metis in_set_conv_nth length_greater_0_conv)
  then have "\<exists>s'. worker_step g p w s = Some s'"
    by (auto simp: worker_step_def Let_def split: worker.splits list.splits)
  then show ?thesis by blast
qed

theorem barrier_keeps_wakeups_witness:
  "\<exists>s w s'. race_reachable diamond Simulation diamond_race s \<and> rs_caller s = Blocked 0 \<and> caller_step s = None \<and>
    worker_step diamond Simulation w s = Some s'"
proof -
  obtain s where s: "run_schedule diamond Simulation diamond_schedule diamond_race = Some s"
    "rs_caller s = Blocked 0" "rs_epoch s = 0"
    using diamond_run by (auto split: option.splits)
  have r: "race_reachable diamond Simulation diamond_race s"
    by (rule run_schedule_reachable [OF race_reachable.start s(1)])
  have b: "caller_step s = None" using s by (simp add: caller_step_def)
  have "length (phase_nodes diamond Simulation) + length [Polling, Polling] < 2 ^ 32"
    by (simp add: diamond_phase_nodes)
  then have "\<exists>w s'. worker_step diamond Simulation w s = Some s'"
    using barrier_keeps_wakeups [OF r [unfolded diamond_race_def] b _ diamond_flat _] s(2) by auto
  then show ?thesis using r b s(2) by blast
qed

section \<open>Phases with inner edges\<close>
































end
