(* ===== verification/Job_Ticks.thy ===== *)
theory Job_Ticks
  imports Job_Races
begin

text \<open>
  The whole life of a dispatcher with its threads interleaved, from the moment \<open>Initialize\<close> has started
  the workers to the end of \<open>Shutdown\<close>: the owner asks for phase after phase, shuts down, and between
  any two of its accesses the workers take theirs. Theory Job_Races has the accesses inside a phase; here
  are those around it (\<open>ExecutePhase\<close>, \<open>BuildRuntimeState\<close>, \<open>Shutdown\<close> in \<open>JobDispatch.cpp\<close>, \<open>Stop\<close>,
  \<open>Join\<close> and the end of \<open>WorkerLoop\<close> in \<open>WorkerPool.cpp\<close>). For graphs without an edge inside a phase
  every tick executes the graph whatever the schedule, and the owner always gets to the end.
\<close>

section \<open>The owner and the workers\<close>

text \<open>
  The owner between calls, at the store of \<open>m_currentPhase\<close>, in (or past) the loop of
  \<open>BuildRuntimeState\<close>, in \<open>SeedReadyQueue\<close> and \<open>WaitForPhaseCompletion\<close> (where \<open>rs_caller\<close> tells), and
  at the accesses of \<open>Shutdown\<close>. \<open>ReleaseSuccessors\<close> reads \<open>m_currentPhase\<close> for every child while the code reads
  it once per call: no worker is inside it when the owner stores the phase, so both see the same value.
\<close>

datatype control =
    Between_calls
  | Set_phase RuntimePhaseId
  | Build RuntimePhaseId "task_node list"
  | In_phase
  | Stop_pool
  | Join_from nat
  | Clear_state
  | Shut_down

text \<open>\<open>dl_plan\<close>: the phases the owner will still ask for, before it shuts down; \<open>dl_history\<close>: the phases
  that returned, each with the tasks executed in it.\<close>

record life =
  dl_race :: race
  dl_phase :: RuntimePhaseId
  dl_poolRunning :: bool
  dl_exited :: "bool list"
  dl_control :: control
  dl_plan :: "RuntimePhaseId list"
  dl_history :: "(RuntimePhaseId \<times> TaskId list) list"

definition life_start :: "nat \<Rightarrow> RuntimePhaseId list \<Rightarrow> life" where
  "life_start n plan =
     \<lparr>dl_race = \<lparr>rs_remaining = (\<lambda>_. 0), rs_queue = [], rs_active = 0, rs_epoch = 0, rs_caller = Passed,
        rs_workers = replicate n Polling, rs_executed = [], rs_bumps = 0\<rparr>,
      dl_phase = Input, dl_poolRunning = True, dl_exited = replicate n False, dl_control = Between_calls,
      dl_plan = plan, dl_history = []\<rparr>"

definition enter_phase :: "task_graph \<Rightarrow> RuntimePhaseId \<Rightarrow> race \<Rightarrow> race" where
  "enter_phase g p r = r\<lparr>rs_caller := Seeding (map tn_id (phase_nodes g p)), rs_executed := [], rs_bumps := 0\<rparr>"

definition owner_step :: "task_graph \<Rightarrow> life \<Rightarrow> life option" where
  "owner_step g s =
     (let r = dl_race s in
      case dl_control s of
        Between_calls \<Rightarrow> Some (case dl_plan s of
            [] \<Rightarrow> s\<lparr>dl_control := Stop_pool\<rparr>
          | p # ps \<Rightarrow> s\<lparr>dl_control := Set_phase p, dl_plan := ps\<rparr>)
      | Set_phase p \<Rightarrow> Some (s\<lparr>dl_phase := p, dl_control := Build p (if p = Input then graph_nodes g else [])\<rparr>)
      | Build p (m # ms) \<Rightarrow>
          Some (s\<lparr>dl_race := r\<lparr>rs_remaining := (rs_remaining r)(tn_id m := tn_parentCount m)\<rparr>, dl_control := Build p ms\<rparr>)
      | Build p [] \<Rightarrow> Some (s\<lparr>dl_race := enter_phase g p r, dl_control := In_phase\<rparr>)
      | In_phase \<Rightarrow>
          (if rs_caller r = Passed
           then Some (s\<lparr>dl_control := Between_calls, dl_history := dl_history s @ [(dl_phase s, rs_executed r)]\<rparr>)
           else map_option (\<lambda>r'. s\<lparr>dl_race := r'\<rparr>) (caller_step r))
      | Stop_pool \<Rightarrow> Some (s\<lparr>dl_poolRunning := False, dl_control := Join_from 0\<rparr>)
      | Join_from i \<Rightarrow>
          (if i = length (dl_exited s) then Some (s\<lparr>dl_control := Clear_state\<rparr>)
           else if dl_exited s ! i then Some (s\<lparr>dl_control := Join_from (Suc i)\<rparr>) else None)
      | Clear_state \<Rightarrow>
          Some (s\<lparr>dl_race := r\<lparr>rs_active := 0, rs_epoch := 0, rs_remaining := \<lambda>_. 0\<rparr>, dl_phase := Input, dl_control := Shut_down\<rparr>)
      | Shut_down \<Rightarrow> None)"

text \<open>A worker that found the pool running takes its next access; one that finds it stopped leaves its loop.\<close>

definition work_step :: "task_graph \<Rightarrow> nat \<Rightarrow> life \<Rightarrow> life option" where
  "work_step g w s =
     (if w < length (dl_exited s) \<and> \<not> dl_exited s ! w
      then map_option (\<lambda>r'. s\<lparr>dl_race := r'\<rparr>) (worker_step g (dl_phase s) w (dl_race s)) else None)"

definition leave_step :: "nat \<Rightarrow> life \<Rightarrow> life option" where
  "leave_step w s =
     (if w < length (dl_exited s) \<and> \<not> dl_exited s ! w \<and> rs_workers (dl_race s) ! w = Polling \<and> \<not> dl_poolRunning s
      then Some (s\<lparr>dl_exited := (dl_exited s)[w := True]\<rparr>) else None)"

inductive life_step :: "task_graph \<Rightarrow> life \<Rightarrow> life \<Rightarrow> bool" for g :: task_graph where
  owner: "owner_step g s = Some s' \<Longrightarrow> life_step g s s'"
| work: "work_step g w s = Some s' \<Longrightarrow> life_step g s s'"
| leave: "leave_step w s = Some s' \<Longrightarrow> life_step g s s'"

inductive life_reachable :: "task_graph \<Rightarrow> nat \<Rightarrow> RuntimePhaseId list \<Rightarrow> life \<Rightarrow> bool"
  for g :: task_graph and n :: nat and plan :: "RuntimePhaseId list" where
  start: "life_reachable g n plan (life_start n plan)"
| step: "life_reachable g n plan s \<Longrightarrow> life_step g s s' \<Longrightarrow> life_reachable g n plan s'"

section \<open>Graphs without an edge inside a phase\<close>

definition flat_graph :: "task_graph \<Rightarrow> (TaskId \<Rightarrow> nat) \<Rightarrow> bool" where
  "flat_graph g rank \<longleftrightarrow> graph_ok g rank \<and>
     (\<forall>n \<in> set (graph_nodes g). \<forall>m \<in> set (graph_nodes g). tn_id m \<in> set (children g n) \<longrightarrow> tn_phaseId n \<noteq> tn_phaseId m)"

definition before :: "task_graph \<Rightarrow> RuntimePhaseId \<Rightarrow> TaskId set" where
  "before g p = {tn_id n | n. n \<in> set (graph_nodes g) \<and> tn_phaseId n < p}"

text \<open>The counters when the phases before \<open>p\<close> are done.\<close>

definition released :: "task_graph \<Rightarrow> RuntimePhaseId \<Rightarrow> (TaskId \<Rightarrow> u32) \<Rightarrow> bool" where
  "released g p rem \<longleftrightarrow> (\<forall>i \<in> node_ids g. rem i = of_nat (need g (before g p) i))"

lemma before_iff:
  assumes "graph_shape g" and "n \<in> set (graph_nodes g)"
  shows "tn_id n \<in> before g p \<longleftrightarrow> tn_phaseId n < p"
  using assms node_eq_by_id [OF assms] unfolding before_def by auto

lemma before_Input [simp]: "before g Input = {}"
  by (auto simp: before_def less_RuntimePhaseId_def)

lemma need_before:
  assumes "graph_shape g"
  shows "need g (before g p) c = edges_into g (filter (\<lambda>n. \<not> tn_phaseId n < p) (graph_nodes g)) c"
proof -
  have "filter (\<lambda>n. tn_id n \<notin> before g p) (graph_nodes g) = filter (\<lambda>n. \<not> tn_phaseId n < p) (graph_nodes g)"
    using before_iff [OF assms] by (intro filter_cong) auto
  then show ?thesis by (simp add: need_def)
qed

lemma edges_into_disjoint:
  "(\<And>n. P n \<longleftrightarrow> Q n \<or> R n) \<Longrightarrow> (\<And>n. \<not> (Q n \<and> R n)) \<Longrightarrow>
   edges_into g (filter P ns) c = edges_into g (filter Q ns) c + edges_into g (filter R ns) c"
  by (induction ns) (auto simp: edges_into_def)

lemma sum_list_mset: "mset xs = mset ys \<Longrightarrow> sum_list (map f xs) = sum_list (map f ys)" for f :: "'a \<Rightarrow> nat"
  by (metis mset_map sum_mset_sum_list)

lemma edges_into_mset: "mset ns = mset ms \<Longrightarrow> edges_into g ns c = edges_into g ms c"
  unfolding edges_into_def by (rule sum_list_mset)

lemma child_list_node: "graph_shape g \<Longrightarrow> n \<in> set (graph_nodes g) \<Longrightarrow> child_list g (tn_id n) = children g n"
  by (simp add: child_list_def GetNode_ok)

lemma in_phase_node: "graph_shape g \<Longrightarrow> n \<in> set (graph_nodes g) \<Longrightarrow> in_phase g p (tn_id n) \<longleftrightarrow> tn_phaseId n = p"
  by (simp add: in_phase_def GetNode_ok)

lemma phase_nodes_mset:
  assumes "graph_ok g rank"
  shows "mset (phase_nodes g p) = mset (filter (\<lambda>n. tn_phaseId n = p) (graph_nodes g))"
proof -
  have "distinct (phase_nodes g p)" "set (phase_nodes g p) = {n \<in> set (graph_nodes g). tn_phaseId n = p}"
    using assms unfolding graph_ok_def by (auto simp: distinct_map)
  moreover have "distinct (graph_nodes g)"
    using distinct_ids [OF graph_ok_shape [OF assms]] by (simp add: distinct_map)
  ultimately show ?thesis by (intro set_eq_iff_mset_eq_distinct [THEN iffD1]) auto
qed

lemma edges_out_phase:
  assumes ok: "graph_ok g rank" and xs: "mset xs = mset (map tn_id (phase_nodes g p))"
  shows "edges_out g xs c = edges_into g (filter (\<lambda>n. tn_phaseId n = p) (graph_nodes g)) c"
proof -
  have "edges_out g xs c = edges_out g (map tn_id (phase_nodes g p)) c"
    unfolding edges_out_def by (rule sum_list_mset [OF xs])
  also have "\<dots> = edges_into g (phase_nodes g p) c"
  proof -
    have "\<forall>n \<in> set (phase_nodes g p). child_list g (tn_id n) = children g n"
      using ok child_list_node [OF graph_ok_shape [OF ok]] by (simp add: graph_ok_def)
    then show ?thesis by (simp add: edges_out_def edges_into_def o_def cong: map_cong)
  qed
  also have "\<dots> = edges_into g (filter (\<lambda>n. tn_phaseId n = p) (graph_nodes g)) c"
    by (rule edges_into_mset [OF phase_nodes_mset [OF ok]])
  finally show ?thesis .
qed

lemma need_next_phase:
  assumes ok: "graph_ok g rank" and xs: "mset xs = mset (map tn_id (phase_nodes g p))"
    and q: "phase_number q = Suc (phase_number p)"
  shows "need g (before g p) c = edges_out g xs c + need g (before g q) c"
  unfolding need_before [OF graph_ok_shape [OF ok]] edges_out_phase [OF ok xs]
  by (rule edges_into_disjoint) (auto simp: less_RuntimePhaseId_def q phase_number_inj [symmetric])

lemma released_next:
  assumes "graph_ok g rank" and "released g p rem" and "mset xs = mset (map tn_id (phase_nodes g p))"
    and "phase_number q = Suc (phase_number p)" and "\<And>c. rem' c = rem c - of_nat (edges_out g xs c)"
  shows "released g q rem'"
  using assms(2,5) need_next_phase [OF assms(1,3,4)] by (simp add: released_def)

lemma released_flat:
  assumes flat: "flat_graph g rank" and rel: "released g p rem"
  shows "flat_phase g p (map tn_id (phase_nodes g p)) rem"
  unfolding flat_phase_def
proof
  note ok = flat [unfolded flat_graph_def, THEN conjunct1]
  note shape = graph_ok_shape [OF ok]
  fix t assume "t \<in> set (map tn_id (phase_nodes g p))"
  then obtain n where n: "n \<in> set (graph_nodes g)" "tn_phaseId n = p" "t = tn_id n"
    using ok by (auto simp: graph_ok_def)
  have kids: "tn_phaseId m < tn_phaseId n'" if mn: "m \<in> set (graph_nodes g)" "n' \<in> set (graph_nodes g)" "tn_id n' \<in> set (children g m)" for m n'
  proof -
    obtain k where k: "k \<in> set (graph_nodes g)" "tn_id k = tn_id n'" "tn_phaseId m \<le> tn_phaseId k"
      using ok mn(1,3) unfolding graph_ok_def by metis
    then have "k = n'" using node_eq_by_id [OF shape] mn(2) by blast
    then show ?thesis using k(3) flat mn by (auto simp: flat_graph_def order_le_less)
  qed
  have "need g (before g p) t = 0"
    unfolding need_zero n(3) using kids n(1,2) before_iff [OF shape] by auto
  then have "rem t = 0" using rel n(1,3) by (auto simp: released_def node_ids_def)
  moreover have "\<not> in_phase g p c" if c: "c \<in> set (child_list g t)" for c
  proof -
    have "c \<in> set (children g n)" using c child_list_node [OF shape n(1)] n(3) by simp
    then obtain m where "m \<in> set (graph_nodes g)" "tn_id m = c" using ok n(1) unfolding graph_ok_def by metis
    then show ?thesis using kids [OF n(1), of m] in_phase_node [OF shape, of m p] n(2) \<open>c \<in> set (children g n)\<close> by auto
  qed
  ultimately show "in_phase g p t \<and> rem t = 0 \<and> (\<forall>c \<in> set (child_list g t). \<not> in_phase g p c)"
    using in_phase_node [OF shape n(1)] n(2,3) by simp
qed

section \<open>The invariant\<close>

definition at_rest :: "nat \<Rightarrow> race \<Rightarrow> bool" where
  "at_rest n r \<longleftrightarrow> rs_queue r = [] \<and> rs_active r = 0 \<and> length (rs_workers r) = n \<and>
     (\<forall>w \<in> set (rs_workers r). w = Polling \<or> w = Bump)"

text \<open>The phases follow each other as in the pipeline.\<close>

definition in_order :: "RuntimePhaseId list \<Rightarrow> bool" where
  "in_order ps \<longleftrightarrow> (ps = [] \<or> hd ps = Input) \<and>
     successively (\<lambda>p q. q = Input \<or> phase_number q = Suc (phase_number p)) ps"

fun asked :: "control \<Rightarrow> RuntimePhaseId \<Rightarrow> RuntimePhaseId list" where
  "asked (Set_phase p) q = [p]"
| "asked (Build p ns) q = [p]"
| "asked In_phase q = [q]"
| "asked _ q = []"

definition startable :: "task_graph \<Rightarrow> RuntimePhaseId \<Rightarrow> race \<Rightarrow> bool" where
  "startable g p r \<longleftrightarrow> p = Input \<or> released g p (rs_remaining r)"

text \<open>Whatever phase may follow those of the history can be started.\<close>

definition ready_next :: "task_graph \<Rightarrow> life \<Rightarrow> bool" where
  "ready_next g s \<longleftrightarrow> (\<forall>q. in_order (map fst (dl_history s) @ [q]) \<longrightarrow> startable g q (dl_race s))"

definition crew_up :: "nat \<Rightarrow> life \<Rightarrow> bool" where
  "crew_up n s \<longleftrightarrow> dl_poolRunning s \<and> dl_exited s = replicate n False"

fun control_ok :: "task_graph \<Rightarrow> nat \<Rightarrow> life \<Rightarrow> control \<Rightarrow> bool" where
  "control_ok g n s Between_calls \<longleftrightarrow> at_rest n (dl_race s) \<and> crew_up n s \<and> ready_next g s"
| "control_ok g n s (Set_phase p) \<longleftrightarrow> at_rest n (dl_race s) \<and> crew_up n s \<and> startable g p (dl_race s)"
| "control_ok g n s (Build p ns) \<longleftrightarrow> at_rest n (dl_race s) \<and> crew_up n s \<and> dl_phase s = p \<and>
     (if p = Input
      then \<exists>ms. graph_nodes g = ms @ ns \<and> (\<forall>m \<in> set ms. rs_remaining (dl_race s) (tn_id m) = tn_parentCount m)
      else ns = [] \<and> released g p (rs_remaining (dl_race s)))"
| "control_ok g n s In_phase \<longleftrightarrow> crew_up n s \<and>
     (\<exists>rem e ws. released g (dl_phase s) rem \<and> length ws = n \<and> (\<forall>w \<in> set ws. w = Polling \<or> w = Bump) \<and>
        race_reachable g (dl_phase s) (race_start g (dl_phase s) rem e ws) (dl_race s))"
| "control_ok g n s Stop_pool \<longleftrightarrow> at_rest n (dl_race s) \<and> crew_up n s \<and> dl_plan s = []"
| "control_ok g n s (Join_from i) \<longleftrightarrow> at_rest n (dl_race s) \<and> \<not> dl_poolRunning s \<and> dl_plan s = [] \<and> i \<le> n \<and>
     (\<forall>j < i. dl_exited s ! j)"
| "control_ok g n s Clear_state \<longleftrightarrow> at_rest n (dl_race s) \<and> \<not> dl_poolRunning s \<and> dl_plan s = [] \<and> (\<forall>j < n. dl_exited s ! j)"
| "control_ok g n s Shut_down \<longleftrightarrow> at_rest n (dl_race s) \<and> \<not> dl_poolRunning s \<and> dl_plan s = [] \<and> (\<forall>j < n. dl_exited s ! j)"

definition life_inv :: "task_graph \<Rightarrow> nat \<Rightarrow> RuntimePhaseId list \<Rightarrow> life \<Rightarrow> bool" where
  "life_inv g n plan s \<longleftrightarrow> length (dl_exited s) = n \<and>
     map fst (dl_history s) @ asked (dl_control s) (dl_phase s) @ dl_plan s = plan \<and>
     (\<forall>(p, xs) \<in> set (dl_history s). mset xs = mset (map tn_id (phase_nodes g p))) \<and>
     control_ok g n s (dl_control s)"

lemma life_start_inv: "in_order plan \<Longrightarrow> life_inv g n plan (life_start n plan)"
  by (auto simp: life_inv_def life_start_def at_rest_def crew_up_def startable_def ready_next_def in_order_def)

lemma in_order_prefix: "in_order (ps @ qs) \<Longrightarrow> in_order ps"
  unfolding in_order_def by (auto simp: successively_append_iff hd_append split: if_splits)

text \<open>A phase starts from rest, and its end is at rest again with the counters of the next one.\<close>

lemma enter_phase_start:
  "at_rest n r \<Longrightarrow> enter_phase g p r = race_start g p (rs_remaining r) (rs_epoch r) (rs_workers r)"
  by (simp add: enter_phase_def race_start_def at_rest_def)

lemma built_released:
  assumes "graph_ok g rank" and "\<forall>m \<in> set (graph_nodes g). rem (tn_id m) = tn_parentCount m"
  shows "released g Input rem"
proof -
  have "rem (tn_id n) = of_nat (need g {} (tn_id n))" if n: "n \<in> set (graph_nodes g)" for n
  proof -
    have "unat (tn_parentCount n) = need g {} (tn_id n)" using assms(1) n by (simp add: graph_ok_def need_empty)
    then show ?thesis using assms(2) n by (simp flip: \<open>unat _ = _\<close>)
  qed
  then show ?thesis by (auto simp: released_def node_ids_def)
qed

lemma phase_race_inv:
  assumes flat: "flat_graph g rank" and n: "n < 2 ^ 31" and ok: "control_ok g n s In_phase"
  obtains rem e ws where "released g (dl_phase s) rem" "length ws = n" "\<forall>w \<in> set ws. w = Polling \<or> w = Bump"
    "race_reachable g (dl_phase s) (race_start g (dl_phase s) rem e ws) (dl_race s)"
    "flat_phase g (dl_phase s) (map tn_id (phase_nodes g (dl_phase s))) rem"
    "length (phase_nodes g (dl_phase s)) + length ws < 2 ^ 32"
    "race_inv g (dl_phase s) (map tn_id (phase_nodes g (dl_phase s))) rem e (length ws) (dl_race s)"
proof -
  let ?p = "dl_phase s"
  obtain rem e ws where r: "released g ?p rem" "length ws = n" "\<forall>w \<in> set ws. w = Polling \<or> w = Bump"
    "race_reachable g ?p (race_start g ?p rem e ws) (dl_race s)"
    using ok by auto
  have fp: "flat_phase g ?p (map tn_id (phase_nodes g ?p)) rem" by (rule released_flat [OF flat r(1)])
  have "graph_shape g" using flat graph_ok_shape by (auto simp: flat_graph_def)
  then have "length (phase_nodes g ?p) \<le> 256"
    using graph_shape_lengths(1) by (simp add: phase_nodes_def Let_def)
  then have small: "length (phase_nodes g ?p) + length ws < 2 ^ 32" using n r(2) by simp
  show thesis by (rule that [OF r fp small race_reachable_inv [OF r(4) fp r(3) small]])
qed

lemma phase_passed:
  assumes flat: "flat_graph g rank" and n: "n < 2 ^ 31" and ok: "control_ok g n s In_phase"
    and passed: "rs_caller (dl_race s) = Passed"
  shows "at_rest n (dl_race s) \<and> mset (rs_executed (dl_race s)) = mset (map tn_id (phase_nodes g (dl_phase s))) \<and>
    (\<forall>q. phase_number q = Suc (phase_number (dl_phase s)) \<longrightarrow> released g q (rs_remaining (dl_race s)))"
proof -
  let ?p = "dl_phase s" and ?r = "dl_race s"
  note gok = flat [unfolded flat_graph_def, THEN conjunct1]
  obtain rem e ws where r: "released g ?p rem" "length ws = n" "\<forall>w \<in> set ws. w = Polling \<or> w = Bump"
    "race_reachable g ?p (race_start g ?p rem e ws) ?r" "flat_phase g ?p (map tn_id (phase_nodes g ?p)) rem"
    "length (phase_nodes g ?p) + length ws < 2 ^ 32"
    and inv: "race_inv g ?p (map tn_id (phase_nodes g ?p)) rem e (length ws) ?r"
    by (rule phase_race_inv [OF flat n ok])
  note free = flat_phase_race_free [OF r(4) passed r(5,3,6)]
  have "sum_list (map busy (rs_workers ?r)) = 0"
    using race_inv_parts(8) [OF inv] passed by (simp add: waiting_ok_def)
  then have "rs_active ?r = 0"
    using race_inv_parts(4) [OF inv] passed free by (simp del: sum_list_eq_0_iff)
  moreover have "length (rs_workers ?r) = n" using race_inv_parts(1) [OF inv] r(2) by simp
  ultimately show ?thesis
    using free released_next [OF gok r(1)] by (auto simp: at_rest_def)
qed

lemma at_rest_worker:
  assumes "at_rest n r" and "worker_step g p w r = Some r'"
  shows "at_rest n r' \<and> rs_remaining r' = rs_remaining r"
proof -
  have w: "w < length (rs_workers r)" using assms(2) by (auto simp: worker_step_def split: if_splits)
  then have "rs_workers r ! w = Polling \<or> rs_workers r ! w = Bump" using assms(1) by (auto simp: at_rest_def)
  moreover have "rs_workers r ! w \<noteq> Polling"
    using assms w by (intro notI) (simp add: worker_step_def at_rest_def)
  ultimately have "rs_workers r ! w = Bump" by simp
  then have "r' = r\<lparr>rs_epoch := rs_epoch r + 1, rs_bumps := rs_bumps r + 1, rs_workers := (rs_workers r)[w := Polling]\<rparr>"
    using assms(2) w by (simp add: worker_step_def)
  then show ?thesis using assms(1) by (auto simp: at_rest_def dest: set_update_subset_insert [THEN subsetD])
qed

lemma owner_step_inv:
  assumes flat: "flat_graph g rank" and n: "n < 2 ^ 31" and plan: "in_order plan"
    and inv: "life_inv g n plan s" and step: "owner_step g s = Some s'"
  shows "life_inv g n plan s'"
proof (cases "dl_control s")
  case Between_calls
  then have c: "control_ok g n s Between_calls" "plan = map fst (dl_history s) @ dl_plan s"
    using inv by (simp_all add: life_inv_def)
  have "startable g p (dl_race s)" if "dl_plan s = p # ps" for p ps
    using c plan that in_order_prefix [of "map fst (dl_history s) @ [p]" ps] by (simp add: ready_next_def)
  then show ?thesis
    using Between_calls inv step c by (cases "dl_plan s") (auto simp: owner_step_def Let_def life_inv_def crew_up_def)
next
  case (Set_phase p)
  then show ?thesis
    using inv step by (auto simp: owner_step_def Let_def life_inv_def crew_up_def startable_def)
next
  case (Build p ns)
  then have b: "control_ok g n s (Build p ns)" using inv by (simp add: life_inv_def)
  show ?thesis
  proof (cases ns)
    case Nil
    have "released g p (rs_remaining (dl_race s))"
      using b Nil built_released [of g rank] flat by (auto simp: flat_graph_def split: if_splits)
    moreover have s': "s' = s\<lparr>dl_race := enter_phase g p (dl_race s), dl_control := In_phase\<rparr>"
      using step Build Nil by (simp add: owner_step_def)
    ultimately have "control_ok g n s' In_phase"
      using b enter_phase_start [of n "dl_race s" g p] by (auto simp: crew_up_def at_rest_def intro!: race_reachable.start)
    then show ?thesis using inv s' Build b by (auto simp: life_inv_def)
  next
    case (Cons m ms)
    then have p: "p = Input" using b by (auto split: if_splits)
    then obtain ds where ds: "graph_nodes g = ds @ m # ms"
      "\<forall>m \<in> set ds. rs_remaining (dl_race s) (tn_id m) = tn_parentCount m"
      using b Cons by auto
    have "distinct (map tn_id (graph_nodes g))"
      using distinct_ids [OF graph_ok_shape] flat unfolding flat_graph_def by blast
    then have "\<forall>k \<in> set ds. tn_id k \<noteq> tn_id m" unfolding ds(1) by (auto simp: image_iff)
    then have "graph_nodes g = (ds @ [m]) @ ms \<and>
        (\<forall>k \<in> set (ds @ [m]). ((rs_remaining (dl_race s))(tn_id m := tn_parentCount m)) (tn_id k) = tn_parentCount k)"
      using ds by auto
    then show ?thesis
      using inv step Build Cons p b unfolding life_inv_def
      by (auto simp: owner_step_def Let_def crew_up_def at_rest_def)
  qed
next
  case In_phase
  then have c: "control_ok g n s In_phase" using inv by (simp add: life_inv_def)
  show ?thesis
  proof (cases "rs_caller (dl_race s) = Passed")
    case True
    note fin = phase_passed [OF flat n c True]
    have s': "s' = s\<lparr>dl_control := Between_calls, dl_history := dl_history s @ [(dl_phase s, rs_executed (dl_race s))]\<rparr>"
      using step In_phase True by (simp add: owner_step_def)
    have pl: "plan = (map fst (dl_history s) @ [dl_phase s]) @ dl_plan s"
      using inv In_phase by (simp add: life_inv_def)
    have "startable g q (dl_race s)" if "in_order (map fst (dl_history s) @ [dl_phase s] @ [q])" for q
      using that fin unfolding in_order_def by (auto simp: successively_append_iff startable_def)
    then have "ready_next g s'" by (simp add: ready_next_def s')
    then show ?thesis using inv s' In_phase fin c by (auto simp: life_inv_def crew_up_def)
  next
    case False
    then obtain r' where r': "caller_step (dl_race s) = Some r'" "s' = s\<lparr>dl_race := r'\<rparr>"
      using step In_phase by (auto simp: owner_step_def)
    then show ?thesis
      using inv In_phase by (auto simp: life_inv_def crew_up_def intro: race_reachable.caller)
  qed
next
  case (Join_from i)
  then show ?thesis
    using inv step by (auto simp: owner_step_def Let_def life_inv_def less_Suc_eq split: if_splits)
qed (use inv step in \<open>auto simp: owner_step_def Let_def life_inv_def crew_up_def at_rest_def\<close>)

lemma work_step_inv:
  assumes inv: "life_inv g n plan s" and step: "work_step g w s = Some s'"
  shows "life_inv g n plan s'"
proof -
  obtain r' where r': "worker_step g (dl_phase s) w (dl_race s) = Some r'" "s' = s\<lparr>dl_race := r'\<rparr>"
    using step by (auto simp: work_step_def split: if_splits)
  show ?thesis
  proof (cases "dl_control s")
    case In_phase
    then show ?thesis using inv r' by (auto simp: life_inv_def crew_up_def intro: race_reachable.worker)
  qed (use inv r' at_rest_worker [of n "dl_race s" g "dl_phase s" w r'] in
      \<open>auto simp: life_inv_def crew_up_def startable_def ready_next_def\<close>)
qed

lemma leave_step_inv:
  assumes inv: "life_inv g n plan s" and step: "leave_step w s = Some s'"
  shows "life_inv g n plan s'"
proof -
  have w: "w < n" "\<not> dl_poolRunning s" "s' = s\<lparr>dl_exited := (dl_exited s)[w := True]\<rparr>"
    using inv step by (auto simp: leave_step_def life_inv_def split: if_splits)
  then show ?thesis
    using inv by (cases "dl_control s") (auto simp: life_inv_def crew_up_def nth_list_update)
qed

lemma life_reachable_inv:
  assumes "life_reachable g n plan s" and "flat_graph g rank" and "n < 2 ^ 31" and "in_order plan"
  shows "life_inv g n plan s"
  using assms(1)
proof induction
  case start
  show ?case by (rule life_start_inv [OF assms(4)])
next
  case (step s s')
  from step.hyps(2) show ?case
    by cases (use step.IH owner_step_inv [OF assms(2-4)] work_step_inv leave_step_inv in blast)+
qed

section \<open>Whole ticks\<close>

lemma parents_in_before:
  assumes "flat_graph g rank" and "t \<in> phase_ids g p"
  shows "parents_in g t (before g p)"
proof -
  note ok = assms(1) [unfolded flat_graph_def, THEN conjunct1]
  have "tn_phaseId m < p" if m: "m \<in> set (graph_nodes g)" "t \<in> set (children g m)" for m
  proof -
    obtain n where n: "n \<in> set (graph_nodes g)" "tn_id n = t" "tn_phaseId m \<le> tn_phaseId n"
      using ok m unfolding graph_ok_def by metis
    then have "tn_phaseId n = p"
      using assms(2) node_eq_by_id [OF graph_ok_shape [OF ok]] unfolding phase_ids_def by blast
    then show ?thesis using n m assms(1) unfolding flat_graph_def by (metis order_le_less)
  qed
  then show ?thesis by (auto simp: parents_in_def before_def)
qed

lemma follows_flat:
  assumes "flat_graph g rank" and "set xs \<subseteq> phase_ids g p" and "before g p \<subseteq> D"
  shows "follows_parents g D xs"
  using assms(2,3)
proof (induction xs arbitrary: D)
  case (Cons t xs)
  have "parents_in g t D"
    using parents_in_before [OF assms(1), of t p] Cons.prems unfolding parents_in_def by auto
  moreover have "follows_parents g (insert t D) xs" by (rule Cons.IH) (use Cons.prems in auto)
  ultimately show ?case by simp
qed simp

lemma flat_tick_order:
  assumes flat: "flat_graph g rank"
    and "set a = phase_ids g Input" "set b = phase_ids g Simulation" "set c = phase_ids g PostSimulation" "set e = phase_ids g Output"
    and "distinct a" "distinct b" "distinct c" "distinct e"
  shows "tick_order g (a @ b @ c @ e)"
proof -
  have shape: "graph_shape g" using flat graph_ok_shape by (auto simp: flat_graph_def)
  have in_phases: "before g q \<subseteq> (\<Union>p \<in> {p. p < q}. phase_ids g p)" for q
    by (auto simp: before_def phase_ids_def)
  have less: "{p. p < Input} = {}" "{p. p < Simulation} = {Input}" "{p. p < PostSimulation} = {Input, Simulation}"
    "{p. p < Output} = {Input, Simulation, PostSimulation}"
    by (auto simp: less_RuntimePhaseId_def; (case_tac x; simp))+
  have sub: "before g Simulation \<subseteq> phase_ids g Input" "before g PostSimulation \<subseteq> phase_ids g Input \<union> phase_ids g Simulation"
    "before g Output \<subseteq> phase_ids g Input \<union> phase_ids g Simulation \<union> phase_ids g PostSimulation"
    using in_phases [of Simulation] in_phases [of PostSimulation] in_phases [of Output] unfolding less by auto
  have "follows_parents g {} (a @ b @ c @ e)"
    unfolding follows_parents_append
    using follows_flat [OF flat, of a Input] follows_flat [OF flat, of b Simulation] follows_flat [OF flat, of c PostSimulation]
      follows_flat [OF flat, of e Output] sub
    by (simp add: assms(2-5) Un_assoc)
  moreover have "distinct (a @ b @ c @ e)"
    using assms(2-9) phase_ids_disjoint [OF shape] by (simp add: Int_Un_distrib Int_Un_distrib2)
  moreover have "set (a @ b @ c @ e) = node_ids g"
    using assms(2-5) phase_ids_all [of g] by (simp add: Un_assoc)
  ultimately show ?thesis unfolding tick_order_def using assms(2-5) by blast
qed

lemma history_ticks:
  assumes flat: "flat_graph g rank"
  shows "map fst h = concat (replicate k [Input, Simulation, PostSimulation, Output]) \<Longrightarrow>
    (\<forall>(p, xs) \<in> set h. distinct xs \<and> set xs = phase_ids g p) \<Longrightarrow>
    \<exists>orders. length orders = k \<and> concat (map snd h) = concat orders \<and> (\<forall>xs \<in> set orders. tick_order g xs)"
proof (induction k arbitrary: h)
  case (Suc k)
  then obtain a b c e h' where h: "h = (Input, a) # (Simulation, b) # (PostSimulation, c) # (Output, e) # h'"
    "map fst h' = concat (replicate k [Input, Simulation, PostSimulation, Output])"
    by (auto simp: map_eq_Cons_conv)
  obtain orders where "length orders = k" "concat (map snd h') = concat orders" "\<forall>xs \<in> set orders. tick_order g xs"
    using Suc.IH [OF h(2)] Suc.prems(2) h(1) by auto
  moreover have "tick_order g (a @ b @ c @ e)"
    using Suc.prems(2) h(1) by (intro flat_tick_order [OF flat]) auto
  ultimately show ?case using h(1) by (intro exI [of _ "(a @ b @ c @ e) # orders"]) simp
qed simp

lemma pipeline_in_order: "in_order (concat (replicate k [Input, Simulation, PostSimulation, Output]))"
proof (induction k)
  case (Suc k)
  then show ?case by (cases k) (auto simp: in_order_def successively_append_iff)
qed (simp add: in_order_def)

text \<open>C9. A dispatcher of any number of workers asked for \<open>k\<close> ticks of the pipeline and then shut down, under
  every interleaving of the owner's and the workers' accesses: the phases return in the order asked for, and each
  has by then executed every one of its tasks exactly once; when \<open>Shutdown\<close> is over the executions make up
  \<open>k\<close> ticks that each execute the whole graph, every task once and after its parents, all
  worker threads have left, and the ready queue and the counter are empty. The graph is well formed and has
  no edge inside a phase.\<close>

theorem interleaved_ticks_execute_the_graph:
  assumes "flat_graph g rank" and "n \<le> 32"
    and "life_reachable g n (concat (replicate k [Input, Simulation, PostSimulation, Output])) s"
  shows "(\<exists>ps. map fst (dl_history s) @ ps = concat (replicate k [Input, Simulation, PostSimulation, Output])) \<and>
    (\<forall>(p, xs) \<in> set (dl_history s). distinct xs \<and> set xs = phase_ids g p) \<and>
    (dl_control s = Shut_down \<longrightarrow>
      (\<exists>orders. length orders = k \<and> concat (map snd (dl_history s)) = concat orders \<and> (\<forall>xs \<in> set orders. tick_order g xs)) \<and>
      (\<forall>w < n. dl_exited s ! w) \<and> rs_queue (dl_race s) = [] \<and> rs_active (dl_race s) = 0)"
proof -
  let ?plan = "concat (replicate k [Input, Simulation, PostSimulation, Output])"
  have inv: "life_inv g n ?plan s"
    using life_reachable_inv [OF assms(3,1) _ pipeline_in_order] assms(2) by simp
  have ok: "graph_ok g rank" using assms(1) by (simp add: flat_graph_def)
  have each: "\<forall>(p, xs) \<in> set (dl_history s). distinct xs \<and> set xs = phase_ids g p"
  proof (safe)
    fix p xs assume "(p, xs) \<in> set (dl_history s)"
    then have xs: "mset xs = mset (map tn_id (phase_nodes g p))" using inv by (auto simp: life_inv_def)
    have "distinct (map tn_id (phase_nodes g p))" "set (map tn_id (phase_nodes g p)) = phase_ids g p"
      using ok by (auto simp: graph_ok_def phase_ids_def)
    then show "distinct xs" "x \<in> set xs \<Longrightarrow> x \<in> phase_ids g p" "x \<in> phase_ids g p \<Longrightarrow> x \<in> set xs" for x
      using xs mset_eq_imp_distinct_iff mset_eq_setD by blast+
  qed
  moreover have "(\<exists>orders. length orders = k \<and> concat (map snd (dl_history s)) = concat orders \<and> (\<forall>xs \<in> set orders. tick_order g xs)) \<and>
      (\<forall>w < n. dl_exited s ! w) \<and> rs_queue (dl_race s) = [] \<and> rs_active (dl_race s) = 0" if "dl_control s = Shut_down"
  proof -
    have "map fst (dl_history s) = ?plan" using inv that by (auto simp: life_inv_def)
    from history_ticks [OF assms(1) this each] show ?thesis using inv that by (simp add: life_inv_def at_rest_def)
  qed
  ultimately show ?thesis using inv by (auto simp: life_inv_def)
qed

section \<open>The owner gets to the end\<close>

definition fan :: "task_graph \<Rightarrow> TaskId \<Rightarrow> nat" where
  "fan g t = length (child_list g t)"

fun caller_weight :: "task_graph \<Rightarrow> caller \<Rightarrow> nat" where
  "caller_weight g (Seeding ts) = 1 + sum_list (map (\<lambda>t. 7 + fan g t) ts)"
| "caller_weight g (Seed_enqueue t ts) = 7 + fan g t + sum_list (map (\<lambda>t. 7 + fan g t) ts)"
| "caller_weight g (Seed_count ts) = 2 + sum_list (map (\<lambda>t. 7 + fan g t) ts)"
| "caller_weight g _ = 0"

fun worker_weight :: "task_graph \<Rightarrow> worker \<Rightarrow> nat" where
  "worker_weight g (Executing t) = 3 + fan g t"
| "worker_weight g (Releasing t cs) = 2 + length cs"
| "worker_weight g Bump = 1"
| "worker_weight g _ = 0"

text \<open>Accesses still to come for the tasks of the phase.\<close>

definition potential :: "task_graph \<Rightarrow> race \<Rightarrow> nat" where
  "potential g r = caller_weight g (rs_caller r) + sum_list (map (\<lambda>t. 4 + fan g t) (rs_queue r)) +
     sum_list (map (worker_weight g) (rs_workers r))"

text \<open>Accesses of the waiting caller until it blocks, if the epoch stays.\<close>

definition wait_rank :: "race \<Rightarrow> nat" where
  "wait_rank r = (case rs_caller r of
     Check1 \<Rightarrow> 3
   | Load_epoch \<Rightarrow> 2
   | Check2 e \<Rightarrow> if e = rs_epoch r then 1 else 5
   | Blocked e \<Rightarrow> if e = rs_epoch r then 0 else 4
   | _ \<Rightarrow> 0)"

fun control_rank :: "control \<Rightarrow> nat" where
  "control_rank (Set_phase p) = 7"
| "control_rank (Build p ns) = 6"
| "control_rank In_phase = 5"
| "control_rank Between_calls = 4"
| "control_rank Stop_pool = 3"
| "control_rank (Join_from i) = 2"
| "control_rank Clear_state = 1"
| "control_rank Shut_down = 0"

fun loop_left :: "nat \<Rightarrow> control \<Rightarrow> nat" where
  "loop_left n (Build p ns) = length ns"
| "loop_left n (Join_from i) = n - i"
| "loop_left n _ = 0"

definition life_measures :: "task_graph \<Rightarrow> (life \<Rightarrow> nat) list" where
  "life_measures g = [\<lambda>s. length (dl_plan s), \<lambda>s. control_rank (dl_control s),
     \<lambda>s. loop_left (length (dl_exited s)) (dl_control s), \<lambda>s. potential g (dl_race s), \<lambda>s. wait_rank (dl_race s),
     \<lambda>s. length (filter Not (dl_exited s))]"

lemma caller_step_decreases:
  assumes "caller_step r = Some r'"
  shows "potential g r' < potential g r \<or> potential g r' = potential g r \<and> wait_rank r' < wait_rank r"
  using assms
  by (auto simp: caller_step_def potential_def wait_rank_def split: caller.splits list.splits if_splits)

lemma worker_step_decreases:
  assumes "worker_step g p w r = Some r'" and "\<forall>v \<in> set (rs_workers r). fine g p v"
  shows "potential g r' < potential g r"
proof -
  have w: "w < length (rs_workers r)" using assms(1) by (auto simp: worker_step_def split: if_splits)
  then have fine: "fine g p (rs_workers r ! w)" using assms(2) by simp
  note upd = sum_list_update_plus [OF w, of "worker_weight g"]
  show ?thesis
  proof (cases "rs_workers r ! w")
    case Polling
    obtain t q where "rs_queue r = t # q" "r' = r\<lparr>rs_queue := q, rs_workers := (rs_workers r)[w := Executing t]\<rparr>"
      using assms(1) w Polling by (auto simp: worker_step_def split: list.splits)
    then show ?thesis using upd [of "Executing t"] Polling by (simp add: potential_def)
  next
    case (Executing t)
    then show ?thesis
      using assms(1) w upd [of "Releasing t (child_list g t)"] by (auto simp: worker_step_def potential_def fan_def)
  next
    case (Releasing t cs)
    show ?thesis
    proof (cases cs)
      case Nil
      then show ?thesis
        using assms(1) w Releasing upd [of Bump] upd [of Polling] by (auto simp: worker_step_def potential_def split: if_splits)
    next
      case (Cons c cs')
      then show ?thesis
        using assms(1) w Releasing fine upd [of "Releasing t cs'"] by (auto simp: worker_step_def potential_def)
    qed
  next
    case Bump
    then show ?thesis using assms(1) w upd [of Polling] by (auto simp: worker_step_def potential_def)
  qed (use fine in simp_all)
qed

lemma life_inv_fine:
  assumes "flat_graph g rank" and "n < 2 ^ 31" and "life_inv g n plan s"
  shows "\<forall>w \<in> set (rs_workers (dl_race s)). fine g (dl_phase s) w"
proof (cases "dl_control s")
  case In_phase
  then have "control_ok g n s In_phase" using assms(3) by (simp add: life_inv_def)
  then show ?thesis by (rule phase_race_inv [OF assms(1,2)]) (use race_inv_parts(2) in blast)
qed (use assms(3) in \<open>auto simp: life_inv_def at_rest_def\<close>)

lemma exit_counts:
  "w < length bs \<Longrightarrow> \<not> bs ! w \<Longrightarrow> length (filter Not (bs[w := True])) < length (filter Not bs)"
proof (induction bs arbitrary: w)
  case (Cons b bs)
  then show ?case by (cases w) auto
qed simp

lemma life_step_decreases:
  assumes inv: "life_inv g n plan s" and fine: "\<forall>w \<in> set (rs_workers (dl_race s)). fine g (dl_phase s) w" and step: "life_step g s s'"
  shows "(s', s) \<in> measures (life_measures g)"
  using step
proof cases
  case owner
  show ?thesis
  proof (cases "dl_control s")
    case In_phase
    then show ?thesis
      using owner caller_step_decreases [of "dl_race s" _ g]
      by (fastforce simp: owner_step_def Let_def life_measures_def split: if_splits)
  next
    case (Build p ns)
    then show ?thesis using owner by (cases ns) (auto simp: owner_step_def Let_def life_measures_def)
  next
    case (Join_from i)
    then have "i \<le> length (dl_exited s)" using inv by (simp add: life_inv_def)
    then show ?thesis using owner Join_from by (auto simp: owner_step_def Let_def life_measures_def split: if_splits)
  qed (use owner in \<open>auto simp: owner_step_def Let_def life_measures_def split: list.splits\<close>)
next
  case (work w)
  then show ?thesis
    using worker_step_decreases [OF _ fine] by (auto simp: work_step_def life_measures_def split: if_splits)
next
  case (leave w)
  then show ?thesis using exit_counts [of w "dl_exited s"] by (auto simp: leave_step_def life_measures_def split: if_splits)
qed

lemma life_stuck:
  assumes flat: "flat_graph g rank" and n: "0 < n" "n < 2 ^ 31" and inv: "life_inv g n plan s"
    and stuck: "\<nexists>s'. life_step g s s'"
  shows "dl_control s = Shut_down"
proof -
  have owner: "owner_step g s = None" and pool: "work_step g w s = None" and leave: "leave_step w s = None" for w
    using stuck life_step.intros by (metis option.exhaust)+
  have len: "length (dl_exited s) = n" and ok: "control_ok g n s (dl_control s)" using inv by (simp_all add: life_inv_def)
  show ?thesis
  proof (cases "dl_control s")
    case (Build p ns)
    then show ?thesis using owner by (cases ns) (auto simp: owner_step_def Let_def)
  next
    case In_phase
    then have ph: "control_ok g n s In_phase" using ok by simp
    obtain rem e ws where r: "length ws = n" "\<forall>w \<in> set ws. w = Polling \<or> w = Bump"
      "race_reachable g (dl_phase s) (race_start g (dl_phase s) rem e ws) (dl_race s)"
      "flat_phase g (dl_phase s) (map tn_id (phase_nodes g (dl_phase s))) rem"
      "length (phase_nodes g (dl_phase s)) + length ws < 2 ^ 32"
      and rinv: "race_inv g (dl_phase s) (map tn_id (phase_nodes g (dl_phase s))) rem e (length ws) (dl_race s)"
      by (rule phase_race_inv [OF flat n(2) ph])
    have "caller_step (dl_race s) = None" "rs_caller (dl_race s) \<noteq> Passed"
      using owner In_phase by (auto simp: owner_step_def Let_def split: if_splits)
    moreover have "ws \<noteq> []" using r(1) n(1) by auto
    ultimately obtain w r' where w: "worker_step g (dl_phase s) w (dl_race s) = Some r'"
      using barrier_keeps_wakeups [OF r(3) _ _ r(4,2,5)] by blast
    then have "w < n" using race_inv_parts(1) [OF rinv] r(1) by (auto simp: worker_step_def split: if_splits)
    then show ?thesis using pool [of w] w ph len by (simp add: work_step_def crew_up_def)
  next
    case (Join_from i)
    then have i: "i < n" "\<not> dl_exited s ! i"
      using owner len ok by (auto simp: owner_step_def Let_def le_less split: if_splits)
    have down: "at_rest n (dl_race s)" "\<not> dl_poolRunning s" using ok Join_from by simp_all
    then have "rs_workers (dl_race s) ! i = Polling \<or> rs_workers (dl_race s) ! i = Bump"
      using i by (auto simp: at_rest_def)
    then show ?thesis
    proof
      assume "rs_workers (dl_race s) ! i = Polling"
      then show ?thesis using leave [of i] i down(2) len by (simp add: leave_step_def)
    next
      assume "rs_workers (dl_race s) ! i = Bump"
      then show ?thesis using pool [of i] i down(1) len by (simp add: work_step_def worker_step_def at_rest_def)
    qed
  qed (use owner in \<open>auto simp: owner_step_def Let_def split: list.splits\<close>)
qed

text \<open>C20. The owner always gets to the end: with at least one worker no execution goes on for ever, however the
  threads are scheduled, and the only states in which no thread can step are those in which
  \<open>Shutdown\<close> has returned: no barrier waits in vain and \<open>Join\<close> finds every worker gone. (A worker that
  polls an empty queue takes no step here.)\<close>

theorem interleaved_ticks_return:
  assumes "flat_graph g rank" and "0 < n" and "n \<le> 32"
  shows "wf {(s', s). life_reachable g n (concat (replicate k [Input, Simulation, PostSimulation, Output])) s \<and> life_step g s s'} \<and>
    (\<forall>s. life_reachable g n (concat (replicate k [Input, Simulation, PostSimulation, Output])) s \<and> (\<nexists>s'. life_step g s s') \<longrightarrow>
      dl_control s = Shut_down)"
proof (rule conjI)
  have small: "n < 2 ^ 31" using assms(3) by simp
  note inv = life_reachable_inv [OF _ assms(1) small pipeline_in_order]
  show "wf {(s', s). life_reachable g n (concat (replicate k [Input, Simulation, PostSimulation, Output])) s \<and> life_step g s s'}"
    by (rule wf_subset [OF wf_measures [of "life_measures g"]])
      (use life_step_decreases inv life_inv_fine [OF assms(1) small] in blast)
  show "\<forall>s. life_reachable g n (concat (replicate k [Input, Simulation, PostSimulation, Output])) s \<and> (\<nexists>s'. life_step g s s') \<longrightarrow>
      dl_control s = Shut_down"
    using life_stuck [OF assms(1,2) small inv] by blast
qed

section \<open>Witnesses\<close>

text \<open>A scheduler that prefers the workers.\<close>

fun first_step :: "life option list \<Rightarrow> life option" where
  "first_step [] = None"
| "first_step (None # xs) = first_step xs"
| "first_step (Some s # xs) = Some s"

definition workers_first :: "task_graph \<Rightarrow> nat \<Rightarrow> life \<Rightarrow> life option" where
  "workers_first g n s =
     first_step (map (\<lambda>w. work_step g w s) [0..<n] @ map (\<lambda>w. leave_step w s) [0..<n] @ [owner_step g s])"

fun run_life :: "task_graph \<Rightarrow> nat \<Rightarrow> nat \<Rightarrow> life \<Rightarrow> life" where
  "run_life g n 0 s = s"
| "run_life g n (Suc k) s = (case workers_first g n s of None \<Rightarrow> s | Some s' \<Rightarrow> run_life g n k s')"

lemma first_step_in: "first_step xs = Some s \<Longrightarrow> Some s \<in> set xs"
  by (induction xs rule: first_step.induct) auto

lemma run_life_reachable: "life_reachable g n plan s \<Longrightarrow> life_reachable g n plan (run_life g m k s)"
proof (induction k arbitrary: s)
  case (Suc k)
  show ?case
  proof (cases "workers_first g m s")
    case (Some s')
    then have "life_step g s s'"
      by (auto simp: workers_first_def dest!: first_step_in intro: life_step.owner [OF sym] life_step.work [OF sym] life_step.leave [OF sym])
    then show ?thesis using Some Suc by (auto intro: life_reachable.step)
  qed (use Suc in simp)
qed simp

lemma diamond_flat_graph: "flat_graph diamond diamond_rank"
  using diamond_ok unfolding flat_graph_def diamond_nodes
  by (simp add: diamond_children) (simp add: diamond_node_defs)

definition one_tick :: life where
  "one_tick = run_life diamond 2 120 (life_start 2 (concat (replicate 1 [Input, Simulation, PostSimulation, Output])))"

lemma one_tick_end:
  "dl_control one_tick = Shut_down \<and> concat (map snd (dl_history one_tick)) = [0, 7, 5, 3] \<and> dl_exited one_tick = [True, True]"
  by code_simp

theorem interleaved_ticks_execute_the_graph_witness:
  "\<exists>s orders. life_reachable diamond 2 (concat (replicate 1 [Input, Simulation, PostSimulation, Output])) s \<and>
    dl_control s = Shut_down \<and> length orders = 1 \<and> concat orders = [0, 7, 5, 3] \<and>
    (\<forall>xs \<in> set orders. tick_order diamond xs)"
proof -
  have r: "life_reachable diamond 2 (concat (replicate 1 [Input, Simulation, PostSimulation, Output])) one_tick"
    unfolding one_tick_def by (rule run_life_reachable [OF life_reachable.start])
  have "\<exists>orders. length orders = 1 \<and> concat (map snd (dl_history one_tick)) = concat orders \<and> (\<forall>xs \<in> set orders. tick_order diamond xs)"
    using interleaved_ticks_execute_the_graph [OF diamond_flat_graph _ r] one_tick_end by simp
  then show ?thesis using r one_tick_end by (intro exI [of _ one_tick]) auto
qed

theorem interleaved_ticks_return_witness:
  "wf {(s', s). life_reachable diamond 2 (concat (replicate 3 [Input, Simulation, PostSimulation, Output])) s \<and> life_step diamond s s'}"
  using interleaved_ticks_return [OF diamond_flat_graph, of 2 3] by simp

end
