(* ===== verification/Job_Crew.thy ===== *)
theory Job_Crew
  imports Job_Ticks
begin

text \<open>
  The dispatcher as its client calls it (\<open>Initialize\<close>, \<open>ExecutePhase\<close>, \<open>Shutdown\<close> in
  \<open>JobDispatch.cpp\<close>), over the interleaved accesses of theory Job_Ticks: a call lets the owner and the
  workers take steps, chosen one after the other by a scheduler, until the owner is back. The scheduler is an
  arbitrary function, so what is shown holds under every interleaving; a call whose wait never ends has no
  result. The client calls from one thread; what the workers still do between two calls (the announcement
  of the end of a phase) may as well be done in the next one. A task is an opaque call here.
\<close>

section \<open>Running the threads\<close>

type_synonym scheduler = "nat \<Rightarrow> nat"

fun somes :: "'a option list \<Rightarrow> 'a list" where
  "somes [] = []"
| "somes (None # xs) = somes xs"
| "somes (Some x # xs) = x # somes xs"

definition next_lives :: "task_graph \<Rightarrow> life \<Rightarrow> life list" where
  "next_lives g s =
     somes (owner_step g s # map (\<lambda>w. work_step g w s) [0 ..< length (dl_exited s)]
       @ map (\<lambda>w. leave_step w s) [0 ..< length (dl_exited s)])"

text \<open>The threads run until the owner's control is as wanted; \<open>None\<close> when it never is. The counter tells the
  scheduler how many steps were taken.\<close>

partial_function (option) life_until :: "(control \<Rightarrow> bool) \<Rightarrow> scheduler \<Rightarrow> task_graph \<Rightarrow> nat \<Rightarrow> life \<Rightarrow> (nat \<times> life) option" where
  "life_until stop pick g k s =
     (if stop (dl_control s) then Some (k, s)
      else case next_lives g s of
          [] \<Rightarrow> None
        | _ # _ \<Rightarrow> life_until stop pick g (Suc k) (next_lives g s ! (pick k mod length (next_lives g s))))"

lemma set_somes: "set (somes xs) = {x. Some x \<in> set xs}"
  by (induction xs rule: somes.induct) auto

lemma next_lives_step: "s' \<in> set (next_lives g s) \<longleftrightarrow> life_step g s s'"
proof
  assume "s' \<in> set (next_lives g s)"
  then show "life_step g s s'"
    by (auto simp: next_lives_def set_somes intro: life_step.owner [OF sym] life_step.work [OF sym] life_step.leave [OF sym])
next
  assume "life_step g s s'"
  then show "s' \<in> set (next_lives g s)"
  proof cases
    case (work w)
    then have "w < length (dl_exited s)" by (simp add: work_step_def split: if_splits)
    then show ?thesis using work by (auto simp: next_lives_def set_somes intro!: image_eqI [OF sym])
  next
    case (leave w)
    then have "w < length (dl_exited s)" by (simp add: leave_step_def split: if_splits)
    then show ?thesis using leave by (auto simp: next_lives_def set_somes intro!: image_eqI [OF sym])
  qed (simp add: next_lives_def set_somes)
qed

lemma life_step_history:
  assumes "life_step g s s'"
  shows "(\<exists>h. dl_history s' = dl_history s @ h) \<and> (dl_plan s = [] \<longrightarrow> dl_plan s' = [])"
  using assms
  by cases (auto simp: owner_step_def work_step_def leave_step_def Let_def split: control.splits list.splits if_splits)

lemma life_step_inv:
  assumes "flat_graph g rank" and "n < 2 ^ 31" and "in_order plan" and "life_inv g n plan s" and "life_step g s s'"
  shows "life_inv g n plan s'"
  using assms(5) by cases (use owner_step_inv [OF assms(1-4)] work_step_inv [OF assms(4)] leave_step_inv [OF assms(4)] in blast)+

lemma life_until_returns:
  assumes flat: "flat_graph g rank" and n: "0 < n" "n < 2 ^ 31" and plan: "in_order plan"
    and closed: "\<And>s s'. life_step g s s' \<Longrightarrow> C (dl_control s) \<Longrightarrow> dl_plan s = [] \<Longrightarrow> \<not> stop (dl_control s) \<Longrightarrow> C (dl_control s')"
    and last: "C Shut_down \<Longrightarrow> stop Shut_down"
  shows "life_inv g n plan s \<Longrightarrow> C (dl_control s) \<Longrightarrow> dl_plan s = [] \<Longrightarrow>
    \<exists>k' s' h. life_until stop pick g k s = Some (k', s') \<and> stop (dl_control s') \<and> C (dl_control s') \<and>
      life_inv g n plan s' \<and> dl_plan s' = [] \<and> dl_history s' = dl_history s @ h"
proof (induction s arbitrary: k rule: wf_induct_rule [OF wf_measures [of "life_measures g"]])
  case (1 s)
  show ?case
  proof (cases "stop (dl_control s)")
    case True
    then show ?thesis using 1(2-) by (subst life_until.simps) auto
  next
    case False
    let ?xs = "next_lives g s"
    have ne: "?xs \<noteq> []"
    proof
      assume "?xs = []"
      then have "\<nexists>s'. life_step g s s'" using next_lives_step [of _ g s] by auto
      then have "dl_control s = Shut_down" by (rule life_stuck [OF flat n 1(2)])
      then show False using False last 1(3) by simp
    qed
    define s1 where "s1 = ?xs ! (pick k mod length ?xs)"
    have "s1 \<in> set ?xs" using ne by (simp add: s1_def)
    then have step: "life_step g s s1" by (simp add: next_lives_step)
    have dec: "(s1, s) \<in> measures (life_measures g)"
      by (rule life_step_decreases [OF 1(2) life_inv_fine [OF flat n(2) 1(2)] step])
    obtain h where h: "dl_history s1 = dl_history s @ h" "dl_plan s1 = []"
      using life_step_history [OF step] 1(4) by blast
    obtain k' s' h' where "life_until stop pick g (Suc k) s1 = Some (k', s')" "stop (dl_control s')" "C (dl_control s')"
      "life_inv g n plan s'" "dl_plan s' = []" "dl_history s' = dl_history s1 @ h'"
      using 1(1) [OF dec life_step_inv [OF flat n(2) plan 1(2) step] closed [OF step 1(3,4) False] h(2), of "Suc k"]
      by blast
    moreover have "life_until stop pick g k s = life_until stop pick g (Suc k) s1"
      using False ne by (subst life_until.simps) (simp add: s1_def split: list.splits)
    ultimately show ?thesis using h(1) by auto
  qed
qed

section \<open>The dispatcher\<close>

text \<open>A call on an object: what it returns or throws, and the object after it; \<open>None\<close> when it never returns.\<close>

type_synonym ('a, 'd) call = "'d \<Rightarrow> ('a result \<times> 'd) option"

record crew_dispatch =
  cd_taskGraph :: "task_graph option"
  cd_runtimeContext :: "runtime_context option"
  cd_registry :: "task_registry option"
  cd_workerPool :: worker_pool
  cd_running :: bool
  cd_life :: life
  cd_steps :: nat
  cd_log :: "TaskId list"

text \<open>\<open>cd_life\<close> holds the atomics, the ready queue, and where the threads are; \<open>cd_steps\<close> and \<open>cd_log\<close> are ghosts: the
  steps taken, and the tasks executed before the last \<open>Initialize\<close>.\<close>

definition crew_executed :: "crew_dispatch \<Rightarrow> TaskId list" where
  "crew_executed d = cd_log d @ concat (map snd (dl_history (cd_life d)))"

definition life_new :: life where
  "life_new = (life_start 0 [])\<lparr>dl_poolRunning := False, dl_control := Shut_down\<rparr>"

definition Crew_new :: crew_dispatch where
  "Crew_new = \<lparr>cd_taskGraph = None, cd_runtimeContext = None, cd_registry = None, cd_workerPool = WorkerPool_new,
     cd_running = False, cd_life = life_new, cd_steps = 0, cd_log = []\<rparr>"

text \<open>New threads at the start of \<open>WorkerLoop\<close>; counters, phase and queue are left as they were.\<close>

definition threads_up :: "nat \<Rightarrow> life \<Rightarrow> life" where
  "threads_up n s = s\<lparr>dl_race := (dl_race s)\<lparr>rs_workers := replicate n Polling\<rparr>, dl_poolRunning := True,
     dl_exited := replicate n False, dl_control := Between_calls, dl_history := []\<rparr>"

definition Crew_Initialize :: "u32 \<Rightarrow> task_graph \<Rightarrow> runtime_context \<Rightarrow> task_registry \<Rightarrow> (bool, crew_dispatch) call" where
  "Crew_Initialize hardware_concurrency graph context registry d =
     Some (if cd_running d then (Inr False, d)
      else case Validate graph registry of
          Inl e \<Rightarrow> (Inl e, d)
        | Inr valid \<Rightarrow>
            if \<not> valid then (Inr False, d)
            else let d1 = d\<lparr>cd_taskGraph := Some graph, cd_runtimeContext := Some context, cd_registry := Some registry\<rparr>;
                     config = \<lparr>pc_executor = True, pc_readyQueue = True, pc_completionSink = True\<rparr>
                 in case WorkerPool_Start hardware_concurrency config (cd_workerPool d1) of
                     Inl e \<Rightarrow> (Inl e, d1)
                   | Inr (ok, pool) \<Rightarrow>
                       if \<not> ok then (Inr False, d1\<lparr>cd_workerPool := pool\<rparr>)
                       else (Inr True, d1\<lparr>cd_workerPool := pool, cd_running := True, cd_log := crew_executed d,
                              cd_life := threads_up (unat (wp_activeWorkerCount pool)) (cd_life d)\<rparr>))"

definition Crew_ExecutePhase :: "scheduler \<Rightarrow> RuntimePhaseId \<Rightarrow> (bool, crew_dispatch) call" where
  "Crew_ExecutePhase pick phaseId d =
     (if \<not> cd_running d then Some (Inr False, d)
      else case deref (cd_taskGraph d) of
          Inl e \<Rightarrow> Some (Inl e, d)
        | Inr g \<Rightarrow>
            Option.bind (life_until (\<lambda>c. c = Between_calls) pick g (cd_steps d) ((cd_life d)\<lparr>dl_control := Set_phase phaseId\<rparr>))
              (\<lambda>(k, s). Some (Inr True, d\<lparr>cd_life := s, cd_steps := k\<rparr>)))"

text \<open>\<open>Join\<close> waits for the threads in the interleaved run; the slots of the pool are then cleared as in
  \<open>WorkerPool_Join\<close>.\<close>

definition Crew_Shutdown :: "scheduler \<Rightarrow> (unit, crew_dispatch) call" where
  "Crew_Shutdown pick d =
     (if \<not> cd_running d then Some (Inr (), d)
      else let d1 = d\<lparr>cd_running := False\<rparr> in
        case deref (cd_taskGraph d1) of
          Inl e \<Rightarrow> Some (Inl e, d1)
        | Inr g \<Rightarrow>
            Option.bind (life_until (\<lambda>c. c = Shut_down) pick g (cd_steps d1) ((cd_life d1)\<lparr>dl_control := Stop_pool\<rparr>))
              (\<lambda>(k, s). case WorkerPool_Join (WorkerPool_Stop (cd_workerPool d1)) of
                  Inl e \<Rightarrow> Some (Inl e, d1\<lparr>cd_life := s, cd_steps := k\<rparr>)
                | Inr pool \<Rightarrow> Some (Inr (), d1\<lparr>cd_life := s, cd_steps := k, cd_workerPool := pool,
                    cd_taskGraph := None, cd_runtimeContext := None, cd_registry := None\<rparr>)))"

section \<open>Between calls\<close>

abbreviation (input) tick_phases :: "RuntimePhaseId list" where
  "tick_phases \<equiv> [Input, Simulation, PostSimulation, Output]"

text \<open>Shut down, or new; and up, with the phases \<open>plan\<close> done since \<open>Initialize\<close>.\<close>

definition crew_down :: "crew_dispatch \<Rightarrow> bool" where
  "crew_down d \<longleftrightarrow> \<not> cd_running d \<and> pool_ok (cd_workerPool d) False 0 \<and> rs_queue (dl_race (cd_life d)) = [] \<and>
     rs_active (dl_race (cd_life d)) = 0 \<and> dl_plan (cd_life d) = []"

definition crew_at :: "task_graph \<Rightarrow> RuntimePhaseId list \<Rightarrow> crew_dispatch \<Rightarrow> bool" where
  "crew_at g plan d \<longleftrightarrow> (\<exists>rank. flat_graph g rank) \<and> cd_running d \<and> cd_taskGraph d = Some g \<and> in_order plan \<and>
     dl_control (cd_life d) = Between_calls \<and> dl_plan (cd_life d) = [] \<and>
     (\<exists>n. 1 \<le> n \<and> n \<le> 32 \<and> pool_ok (cd_workerPool d) True n \<and> life_inv g n plan (cd_life d))"

lemma Crew_new_down: "crew_down Crew_new" "crew_executed Crew_new = []"
  using pool_new_ok by (simp_all add: crew_down_def Crew_new_def life_new_def life_start_def crew_executed_def)

lemma Crew_Initialize_ok:
  assumes flat: "flat_graph g rank" and reg: "\<forall>i \<in> node_ids g. IsRegistered i r" and d: "crew_down d"
  shows "\<exists>d'. Crew_Initialize hw g ctx r d = Some (Inr True, d') \<and> crew_at g [] d' \<and> crew_executed d' = crew_executed d"
proof -
  have shape: "graph_shape g" using flat graph_ok_shape by (auto simp: flat_graph_def)
  have c: "config_complete \<lparr>pc_executor = True, pc_readyQueue = True, pc_completionSink = True\<rparr>"
    by (simp add: config_complete_def)
  obtain p where p: "WorkerPool_Start hw \<lparr>pc_executor = True, pc_readyQueue = True, pc_completionSink = True\<rparr> (cd_workerPool d)
      = Inr (True, p)" "pool_ok p True (worker_count hw)"
    using Start_ok [OF _ c] d by (auto simp: crew_down_def)
  let ?n = "worker_count hw"
  have count: "unat (wp_activeWorkerCount p) = ?n" using p(2) by (simp add: pool_ok_def)
  have "life_inv g ?n [] (threads_up ?n (cd_life d))"
    using d by (auto simp: life_inv_def threads_up_def crew_down_def at_rest_def crew_up_def ready_next_def in_order_def startable_def)
  moreover have "Crew_Initialize hw g ctx r d = Some (Inr True, d\<lparr>cd_taskGraph := Some g, cd_runtimeContext := Some ctx,
      cd_registry := Some r, cd_workerPool := p, cd_running := True, cd_log := crew_executed d,
      cd_life := threads_up ?n (cd_life d)\<rparr>)" (is "_ = Some (Inr True, ?d)")
    using d p(1) reg count by (simp add: Crew_Initialize_def Validate_iff [OF shape] Let_def crew_down_def)
  moreover have "crew_executed ?d = crew_executed d" by (simp add: crew_executed_def threads_up_def)
  ultimately show ?thesis
    using flat p(2) worker_count_range [of hw] d
    by (auto simp: crew_at_def threads_up_def in_order_def crew_down_def)
qed

text \<open>A phase that may come next: the call returns true, and has executed every task of the phase once.\<close>

definition phase_done :: "task_graph \<Rightarrow> RuntimePhaseId \<Rightarrow> TaskId list \<Rightarrow> bool" where
  "phase_done g p xs \<longleftrightarrow> distinct xs \<and> set xs = phase_ids g p"

lemma phase_doneI:
  assumes "graph_ok g rank" and "mset xs = mset (map tn_id (phase_nodes g p))"
  shows "phase_done g p xs"
proof -
  have "distinct (map tn_id (phase_nodes g p))" "set (map tn_id (phase_nodes g p)) = phase_ids g p"
    using assms(1) by (auto simp: graph_ok_def phase_ids_def)
  then show ?thesis
    using mset_eq_imp_distinct_iff [OF assms(2)] mset_eq_setD [OF assms(2)] by (simp add: phase_done_def)
qed

fun in_call :: "control \<Rightarrow> bool" where
  "in_call Between_calls \<longleftrightarrow> True"
| "in_call (Set_phase p) \<longleftrightarrow> True"
| "in_call (Build p ns) \<longleftrightarrow> True"
| "in_call In_phase \<longleftrightarrow> True"
| "in_call _ \<longleftrightarrow> False"

lemma in_call_step:
  "life_step g s s' \<Longrightarrow> in_call (dl_control s) \<Longrightarrow> dl_control s \<noteq> Between_calls \<Longrightarrow> in_call (dl_control s')"
  by (cases rule: life_step.cases)
    (auto simp: owner_step_def work_step_def leave_step_def Let_def split: control.splits list.splits if_splits)

lemma in_shutdown_step:
  "life_step g s s' \<Longrightarrow> \<not> in_call (dl_control s) \<Longrightarrow> \<not> in_call (dl_control s')"
  by (cases rule: life_step.cases)
    (auto simp: owner_step_def work_step_def leave_step_def Let_def split: control.splits list.splits if_splits)

lemma Crew_ExecutePhase_ok:
  assumes d: "crew_at g plan d" and p: "in_order (plan @ [p])"
  shows "\<exists>d' xs. Crew_ExecutePhase pick p d = Some (Inr True, d') \<and> crew_at g (plan @ [p]) d' \<and>
    crew_executed d' = crew_executed d @ xs \<and> phase_done g p xs"
proof -
  let ?s = "(cd_life d)\<lparr>dl_control := Set_phase p\<rparr>"
  obtain rank n where flat: "flat_graph g rank" and n: "1 \<le> n" "n \<le> 32" "pool_ok (cd_workerPool d) True n"
    and inv: "life_inv g n plan (cd_life d)"
    and c: "dl_control (cd_life d) = Between_calls" "dl_plan (cd_life d) = []"
    using d by (auto simp: crew_at_def)
  have done_before: "map fst (dl_history (cd_life d)) = plan" using inv c by (simp add: life_inv_def)
  have "life_inv g n (plan @ [p]) ?s"
    using inv c p done_before by (auto simp: life_inv_def ready_next_def crew_up_def)
  then obtain k s h where run: "life_until (\<lambda>c. c = Between_calls) pick g (cd_steps d) ?s = Some (k, s)"
    and s: "dl_control s = Between_calls" "life_inv g n (plan @ [p]) s" "dl_plan s = []"
      "dl_history s = dl_history (cd_life d) @ h"
    using life_until_returns [OF flat _ _ p, where C = in_call and stop = "\<lambda>c. c = Between_calls" and s = ?s
        and pick = pick and k = "cd_steps d" and n = n] n c in_call_step
    by auto
  have "map fst (dl_history (cd_life d) @ h) = plan @ [p]" using s by (simp add: life_inv_def)
  then have "map fst h = [p]" using done_before by simp
  then obtain xs where h: "h = [(p, xs)]" by (cases h) auto
  then have "mset xs = mset (map tn_id (phase_nodes g p))" using s(2,4) by (auto simp: life_inv_def)
  then have "phase_done g p xs" using flat phase_doneI by (auto simp: flat_graph_def)
  moreover have "Crew_ExecutePhase pick p d = Some (Inr True, d\<lparr>cd_life := s, cd_steps := k\<rparr>)"
    using d run by (simp add: Crew_ExecutePhase_def crew_at_def)
  moreover have "crew_at g (plan @ [p]) (d\<lparr>cd_life := s, cd_steps := k\<rparr>)"
    using d flat n s p by (auto simp: crew_at_def)
  ultimately show ?thesis using s(4) h by (auto simp: crew_executed_def)
qed

lemma Crew_Shutdown_ok:
  assumes d: "crew_at g plan d"
  shows "\<exists>d'. Crew_Shutdown pick d = Some (Inr (), d') \<and> crew_down d' \<and> crew_executed d' = crew_executed d"
proof -
  let ?s = "(cd_life d)\<lparr>dl_control := Stop_pool\<rparr>"
  obtain rank n where flat: "flat_graph g rank" and n: "1 \<le> n" "n \<le> 32" "pool_ok (cd_workerPool d) True n"
    and inv: "life_inv g n plan (cd_life d)" and plan: "in_order plan"
    and c: "dl_control (cd_life d) = Between_calls" "dl_plan (cd_life d) = []"
    using d by (auto simp: crew_at_def)
  have "life_inv g n plan ?s" using inv c by (auto simp: life_inv_def crew_up_def)
  then obtain k s h where run: "life_until (\<lambda>c. c = Shut_down) pick g (cd_steps d) ?s = Some (k, s)"
    and s: "dl_control s = Shut_down" "life_inv g n plan s" "dl_plan s = []" "dl_history s = dl_history (cd_life d) @ h"
    using life_until_returns [OF flat _ _ plan, where C = "\<lambda>c. \<not> in_call c" and stop = "\<lambda>c. c = Shut_down" and s = ?s
        and pick = pick and k = "cd_steps d" and n = n] n c in_shutdown_step
    by auto
  have "h = []" using s inv c by (simp add: life_inv_def)
  have "pool_ok (WorkerPool_Stop (cd_workerPool d)) False n" using n(3) by (simp add: WorkerPool_Stop_def pool_ok_def)
  then obtain p where p: "WorkerPool_Join (WorkerPool_Stop (cd_workerPool d)) = Inr p" "pool_ok p False 0"
    using Join_ok by blast
  let ?d = "d\<lparr>cd_running := False, cd_life := s, cd_steps := k, cd_workerPool := p, cd_taskGraph := None,
      cd_runtimeContext := None, cd_registry := None\<rparr>"
  have "Crew_Shutdown pick d = Some (Inr (), ?d)"
    using d run p(1) by (simp add: Crew_Shutdown_def crew_at_def Let_def)
  moreover have "crew_down ?d" using s p(2) by (simp add: crew_down_def life_inv_def at_rest_def)
  moreover have "crew_executed ?d = crew_executed d" using s(4) \<open>h = []\<close> by (simp add: crew_executed_def)
  ultimately show ?thesis by blast
qed

section \<open>Ticks\<close>

fun crew_phases :: "scheduler \<Rightarrow> RuntimePhaseId list \<Rightarrow> (bool, crew_dispatch) call" where
  "crew_phases pick [] d = Some (Inr True, d)"
| "crew_phases pick (p # ps) d =
     Option.bind (Crew_ExecutePhase pick p d) (\<lambda>(r, d1).
       case r of
         Inl e \<Rightarrow> Some (Inl e, d1)
       | Inr ok \<Rightarrow> if ok then crew_phases pick ps d1 else Some (Inr False, d1))"

lemma crew_phases_ok:
  "crew_at g plan d \<Longrightarrow> in_order (plan @ ps) \<Longrightarrow>
   \<exists>d' xss. crew_phases pick ps d = Some (Inr True, d') \<and> crew_at g (plan @ ps) d' \<and>
     crew_executed d' = crew_executed d @ concat xss \<and> list_all2 (phase_done g) ps xss"
proof (induction ps arbitrary: plan d)
  case Nil
  then show ?case by (intro exI [of _ d] exI [of _ "[]"]) simp
next
  case (Cons p ps)
  have "in_order (plan @ [p])" using Cons.prems(2) in_order_prefix [of "plan @ [p]" ps] by simp
  then obtain d1 xs where 1: "Crew_ExecutePhase pick p d = Some (Inr True, d1)" "crew_at g (plan @ [p]) d1"
    "crew_executed d1 = crew_executed d @ xs" "phase_done g p xs"
    using Crew_ExecutePhase_ok [OF Cons.prems(1)] by blast
  obtain d' xss where "crew_phases pick ps d1 = Some (Inr True, d')" "crew_at g ((plan @ [p]) @ ps) d'"
    "crew_executed d' = crew_executed d1 @ concat xss" "list_all2 (phase_done g) ps xss"
    using Cons.IH [OF 1(2)] Cons.prems(2) by auto
  then show ?case using 1 by (intro exI [of _ d'] exI [of _ "xs # xss"]) simp
qed

lemma crew_tick_ok:
  assumes d: "crew_at g (concat (replicate k tick_phases)) d"
  shows "\<exists>d' xs. crew_phases pick tick_phases d = Some (Inr True, d') \<and> crew_at g (concat (replicate (Suc k) tick_phases)) d' \<and>
    crew_executed d' = crew_executed d @ xs \<and> tick_order g xs"
proof -
  have rep: "concat (replicate (Suc k) tick_phases) = concat (replicate k tick_phases) @ tick_phases"
    using replicate_append_same [of k tick_phases] by (metis concat.simps(1,2) concat_append append_Nil2 replicate_Suc)
  obtain d' xss where d': "crew_phases pick tick_phases d = Some (Inr True, d')" "crew_at g (concat (replicate k tick_phases) @ tick_phases) d'"
    "crew_executed d' = crew_executed d @ concat xss" "list_all2 (phase_done g) tick_phases xss"
    using crew_phases_ok [OF d] pipeline_in_order [of "Suc k"] unfolding rep by blast
  obtain a b c e where xss: "xss = [a, b, c, e]" "phase_done g Input a" "phase_done g Simulation b"
    "phase_done g PostSimulation c" "phase_done g Output e"
    using d'(4) by (auto simp: list_all2_Cons1)
  obtain rank where "flat_graph g rank" using d by (auto simp: crew_at_def)
  then have "tick_order g (concat xss)"
    using flat_tick_order [of g rank a b c e] xss by (simp add: phase_done_def)
  then show ?thesis using d' unfolding rep by blast
qed

fun crew_ticks :: "scheduler \<Rightarrow> nat \<Rightarrow> (bool, crew_dispatch) call" where
  "crew_ticks pick 0 d = Some (Inr True, d)"
| "crew_ticks pick (Suc n) d =
     Option.bind (crew_phases pick tick_phases d) (\<lambda>(r, d1).
       case r of
         Inl e \<Rightarrow> Some (Inl e, d1)
       | Inr ok \<Rightarrow> if ok then crew_ticks pick n d1 else Some (Inr False, d1))"

lemma crew_ticks_ok:
  "crew_at g (concat (replicate k tick_phases)) d \<Longrightarrow>
   \<exists>d' orders. crew_ticks pick n d = Some (Inr True, d') \<and> crew_at g (concat (replicate (k + n) tick_phases)) d' \<and>
     crew_executed d' = crew_executed d @ concat orders \<and> length orders = n \<and> (\<forall>xs \<in> set orders. tick_order g xs)"
proof (induction n arbitrary: k d)
  case 0
  then show ?case by (intro exI [of _ d] exI [of _ "[]"]) simp
next
  case (Suc n)
  obtain d1 xs where 1: "crew_phases pick tick_phases d = Some (Inr True, d1)" "crew_at g (concat (replicate (Suc k) tick_phases)) d1"
    "crew_executed d1 = crew_executed d @ xs" "tick_order g xs"
    using crew_tick_ok [OF Suc.prems] by blast
  obtain d' orders where "crew_ticks pick n d1 = Some (Inr True, d')" "crew_at g (concat (replicate (Suc k + n) tick_phases)) d'"
    "crew_executed d' = crew_executed d1 @ concat orders" "length orders = n" "\<forall>xs \<in> set orders. tick_order g xs"
    using Suc.IH [OF 1(2)] by blast
  then show ?case using 1 by (intro exI [of _ d'] exI [of _ "xs # orders"]) simp
qed

section \<open>Property\<close>

text \<open>C2. The dispatcher's calls under any schedule of its threads, for a well-formed acyclic graph without an
  edge inside a phase whose tasks are all registered (with such an edge C33 and C34 show what goes wrong): a
  dispatcher that is new or was shut down initializes with any number of hardware threads, each of the \<open>n\<close> ticks of the pipeline it is
  then asked for returns and executes every task of the graph exactly once, after all its parents, phase after
  phase, and \<open>Shutdown\<close> returns with every thread joined and the dispatcher as it was before
  \<open>Initialize\<close>, so that it may be initialized again, with another graph.\<close>

theorem every_tick_executes_the_graph:
  assumes "flat_graph g rank" and "\<forall>i \<in> node_ids g. IsRegistered i r" and "crew_down d"
  shows "\<exists>d0 d1 d2 orders. Crew_Initialize hw g ctx r d = Some (Inr True, d0) \<and>
    crew_ticks pick n d0 = Some (Inr True, d1) \<and> Crew_Shutdown pick d1 = Some (Inr (), d2) \<and>
    length orders = n \<and> crew_executed d1 = crew_executed d @ concat orders \<and> (\<forall>xs \<in> set orders. tick_order g xs) \<and>
    crew_executed d2 = crew_executed d1 \<and> crew_down d2 \<and> (\<forall>i < 32. \<not> wt_thread (wp_threads (cd_workerPool d2) ! i))"
proof -
  obtain d0 where 0: "Crew_Initialize hw g ctx r d = Some (Inr True, d0)" "crew_at g (concat (replicate 0 tick_phases)) d0"
    "crew_executed d0 = crew_executed d"
    using Crew_Initialize_ok [OF assms] by auto
  obtain d1 orders where 1: "crew_ticks pick n d0 = Some (Inr True, d1)" "crew_at g (concat (replicate (0 + n) tick_phases)) d1"
    "crew_executed d1 = crew_executed d0 @ concat orders" "length orders = n" "\<forall>xs \<in> set orders. tick_order g xs"
    using crew_ticks_ok [OF 0(2)] by blast
  obtain d2 where 2: "Crew_Shutdown pick d1 = Some (Inr (), d2)" "crew_down d2" "crew_executed d2 = crew_executed d1"
    using Crew_Shutdown_ok [OF 1(2)] by blast
  then have "\<forall>i < 32. \<not> wt_thread (wp_threads (cd_workerPool d2) ! i)" by (simp add: crew_down_def pool_ok_def)
  then show ?thesis using 0 1 2 by auto
qed

text \<open>Three ticks of the diamond, the threads taking turns.\<close>

definition diamond_registry :: task_registry where
  "diamond_registry = replicate 256 (Some tick_task)"

theorem every_tick_executes_the_graph_witness:
  "\<exists>d0 d1 d2 orders. Crew_Initialize 4 diamond RuntimeContext_new diamond_registry Crew_new = Some (Inr True, d0) \<and>
    crew_ticks (\<lambda>k. k + 1) 3 d0 = Some (Inr True, d1) \<and> Crew_Shutdown (\<lambda>k. k + 1) d1 = Some (Inr (), d2) \<and>
    length orders = 3 \<and> crew_executed d1 = concat orders \<and> (\<forall>xs \<in> set orders. tick_order diamond xs) \<and> crew_down d2"
proof -
  have "\<forall>i \<in> node_ids diamond. IsRegistered i diamond_registry"
    using registered_all diamond_ids unfolding diamond_registry_def by blast
  then show ?thesis
    using every_tick_executes_the_graph [OF diamond_flat_graph, of diamond_registry Crew_new 4 RuntimeContext_new "\<lambda>k. k + 1" 3]
      Crew_new_down by auto
qed

end
