(* ===== verification/Pipeline_Executor.thy ===== *)
theory Pipeline_Executor
  imports Job_Crew
begin

text \<open>
  The pipeline executor (\<open>runtime/RuntimePipelineExecutor\<close>) over any \<open>IJobDispatch\<close>: the interface is a
  record of its three operations, each of which may return, throw (\<open>Inl\<close>), leaving the dispatcher changed, or never return
  (\<open>None\<close>); its contract is the locale \<open>phase_dispatcher\<close>, and the dispatcher of theory Job_Crew an
  instance. Dereferencing the executor's references never fails. An exception passes through the executor, which
  keeps what it has stored by then.
\<close>

section \<open>IJobDispatch\<close>

record 'd IJobDispatch =
  ij_Initialize :: "task_graph \<Rightarrow> runtime_context \<Rightarrow> task_registry \<Rightarrow> (bool, 'd) call"
  ij_ExecutePhase :: "RuntimePhaseId \<Rightarrow> (bool, 'd) call"
  ij_Shutdown :: "(unit, 'd) call"

definition JobDispatch_vtable :: "u32 \<Rightarrow> scheduler \<Rightarrow> crew_dispatch IJobDispatch" where
  "JobDispatch_vtable hw pick =
     \<lparr>ij_Initialize = Crew_Initialize hw, ij_ExecutePhase = Crew_ExecutePhase pick, ij_Shutdown = Crew_Shutdown pick\<rparr>"

section \<open>The executor\<close>

datatype RuntimePipelineExecutorState = Ex_Created | Ex_Initialized | Ex_Running | Ex_Stopping | Ex_Stopped

datatype RuntimeExecutionResult = Success | EmptyPipeline | InvalidPipeline | DispatchFailure | Cancelled

record executor_config =
  xc_failFast :: bool
  xc_enableProfiling :: bool
  xc_collectMetrics :: bool

definition RuntimePipelineExecutorConfig_new :: executor_config where
  "RuntimePipelineExecutorConfig_new = \<lparr>xc_failFast = True, xc_enableProfiling = False, xc_collectMetrics = False\<rparr>"

record 'd executor =
  ex_config :: executor_config
  ex_pipeline :: runtime_pipeline
  ex_runtimeContext :: runtime_context
  ex_taskGraph :: task_graph
  ex_taskRegistry :: task_registry
  ex_jobDispatch :: 'd
  ex_state :: RuntimePipelineExecutorState

definition RuntimePipelineExecutor_new :: "executor_config \<Rightarrow> runtime_pipeline \<Rightarrow> runtime_context \<Rightarrow> task_graph
    \<Rightarrow> task_registry \<Rightarrow> 'd \<Rightarrow> 'd executor" where
  "RuntimePipelineExecutor_new config pipeline context graph registry dispatch =
     \<lparr>ex_config = config, ex_pipeline = pipeline, ex_runtimeContext = context, ex_taskGraph = graph,
      ex_taskRegistry = registry, ex_jobDispatch = dispatch, ex_state = Ex_Created\<rparr>"

definition Executor_Initialize :: "'d IJobDispatch \<Rightarrow> (bool, 'd executor) call" where
  "Executor_Initialize ij e =
     (if ex_state e \<noteq> Ex_Created then Some (Inl Logic_error, e)
      else Option.bind (ij_Initialize ij (ex_taskGraph e) (ex_runtimeContext e) (ex_taskRegistry e) (ex_jobDispatch e))
        (\<lambda>(r, d). let e1 = e\<lparr>ex_jobDispatch := d\<rparr> in
          case r of
            Inl err \<Rightarrow> Some (Inl err, e1)
          | Inr ok \<Rightarrow> if \<not> ok then Some (Inr False, e1) else Some (Inr True, e1\<lparr>ex_state := Ex_Initialized\<rparr>)))"

definition Executor_Shutdown :: "'d IJobDispatch \<Rightarrow> (unit, 'd executor) call" where
  "Executor_Shutdown ij e =
     (if ex_state e = Ex_Stopped then Some (Inr (), e)
      else let e1 = e\<lparr>ex_state := Ex_Stopping\<rparr> in
        Option.bind (ij_Shutdown ij (ex_jobDispatch e1)) (\<lambda>(r, d). let e2 = e1\<lparr>ex_jobDispatch := d\<rparr> in
          case r of
            Inl err \<Rightarrow> Some (Inl err, e2)
          | Inr _ \<Rightarrow> Some (Inr (), e2\<lparr>ex_state := Ex_Stopped\<rparr>)))"

definition Executor_ExecutePhase :: "'d IJobDispatch \<Rightarrow> runtime_phase \<Rightarrow> (RuntimeExecutionResult, 'd executor) call" where
  "Executor_ExecutePhase ij phase e =
     Option.bind (ij_ExecutePhase ij (ph_id phase) (ex_jobDispatch e)) (\<lambda>(r, d). let e1 = e\<lparr>ex_jobDispatch := d\<rparr> in
       case r of
         Inl err \<Rightarrow> Some (Inl err, e1)
       | Inr ok \<Rightarrow> Some (Inr (if \<not> ok then DispatchFailure else Success), e1))"

text \<open>The loop over the pipeline, with its early return.\<close>

fun execute_phases :: "'d IJobDispatch \<Rightarrow> runtime_phase list \<Rightarrow> (RuntimeExecutionResult, 'd executor) call" where
  "execute_phases ij [] e = Some (Inr Success, e\<lparr>ex_state := Ex_Initialized\<rparr>)"
| "execute_phases ij (phase # phases) e =
     Option.bind (Executor_ExecutePhase ij phase e) (\<lambda>(r, e1).
       case r of
         Inl err \<Rightarrow> Some (Inl err, e1)
       | Inr res \<Rightarrow>
           if res \<noteq> Success then Some (Inr res, e1\<lparr>ex_state := Ex_Initialized\<rparr>)
           else execute_phases ij phases e1)"

definition ExecutePipeline :: "'d IJobDispatch \<Rightarrow> (RuntimeExecutionResult, 'd executor) call" where
  "ExecutePipeline ij e =
     (if ex_state e = Ex_Created then Some (Inl Logic_error, e)
      else if ex_state e = Ex_Stopped then Some (Inl Logic_error, e)
      else execute_phases ij (rl_phases (ex_pipeline e)) (e\<lparr>ex_state := Ex_Running\<rparr>))"

definition Executor_GetState :: "'d executor \<Rightarrow> RuntimePipelineExecutorState" where
  "Executor_GetState e = ex_state e"

section \<open>Any dispatcher\<close>

text \<open>The phases handed to the dispatcher, up to the first it refuses or throws at.\<close>

fun submit :: "'d IJobDispatch \<Rightarrow> RuntimePhaseId list \<Rightarrow> (bool, 'd) call" where
  "submit ij [] d = Some (Inr True, d)"
| "submit ij (p # ps) d =
     Option.bind (ij_ExecutePhase ij p d) (\<lambda>(r, d1).
       case r of
         Inl err \<Rightarrow> Some (Inl err, d1)
       | Inr ok \<Rightarrow> if ok then submit ij ps d1 else Some (Inr False, d1))"

text \<open>What the executor makes of that.\<close>

fun after_submit :: "'d executor \<Rightarrow> bool result \<times> 'd \<Rightarrow> RuntimeExecutionResult result \<times> 'd executor" where
  "after_submit e (Inl err, d) = (Inl err, e\<lparr>ex_jobDispatch := d\<rparr>)"
| "after_submit e (Inr ok, d) =
     (Inr (if ok then Success else DispatchFailure), e\<lparr>ex_jobDispatch := d, ex_state := Ex_Initialized\<rparr>)"

lemma execute_phases_submit:
  "execute_phases ij phases e = map_option (after_submit e) (submit ij (map ph_id phases) (ex_jobDispatch e))"
proof (induction phases arbitrary: e)
  case Nil
  then show ?case by simp
next
  case (Cons phase phases)
  show ?case
  proof (cases "ij_ExecutePhase ij (ph_id phase) (ex_jobDispatch e)")
    case None
    then show ?thesis by (simp add: Executor_ExecutePhase_def)
  next
    case (Some rd)
    obtain r d where rd: "rd = (r, d)" by (cases rd)
    have "after_submit (e\<lparr>ex_jobDispatch := d\<rparr>) x = after_submit e x" for x
      by (cases "(e, x)" rule: after_submit.cases) simp_all
    then have "after_submit (e\<lparr>ex_jobDispatch := d\<rparr>) = after_submit e" by (rule ext)
    then show ?thesis
      using Cons.IH [of "e\<lparr>ex_jobDispatch := d\<rparr>"] Some rd by (cases r) (auto simp: Executor_ExecutePhase_def)
  qed
qed

lemma ExecutePipeline_submit:
  assumes "ex_state e \<noteq> Ex_Created" and "ex_state e \<noteq> Ex_Stopped"
  shows "ExecutePipeline ij e = map_option (after_submit (e\<lparr>ex_state := Ex_Running\<rparr>))
     (submit ij (map ph_id (rl_phases (ex_pipeline e))) (ex_jobDispatch e))"
  using assms by (simp add: ExecutePipeline_def execute_phases_submit)

text \<open>A sequence of calls by a client that catches what they throw.\<close>

datatype executor_call = Initialize_call | Execute_call | Shutdown_call

datatype executor_answer = Returned bool | Executed RuntimeExecutionResult | Done | Threw cpp_error

definition answer :: "('a \<Rightarrow> executor_answer) \<Rightarrow> 'a result \<times> 'e \<Rightarrow> executor_answer \<times> 'e" where
  "answer f re = (case fst re of Inl err \<Rightarrow> Threw err | Inr x \<Rightarrow> f x, snd re)"

fun executor_step :: "'d IJobDispatch \<Rightarrow> executor_call \<Rightarrow> 'd executor \<Rightarrow> (executor_answer \<times> 'd executor) option" where
  "executor_step ij Initialize_call e = map_option (answer Returned) (Executor_Initialize ij e)"
| "executor_step ij Execute_call e = map_option (answer Executed) (ExecutePipeline ij e)"
| "executor_step ij Shutdown_call e = map_option (answer (\<lambda>_. Done)) (Executor_Shutdown ij e)"

fun prepend :: "executor_answer list \<Rightarrow> (executor_answer list \<times> 'e) option \<Rightarrow> (executor_answer list \<times> 'e) option" where
  "prepend xs None = None"
| "prepend xs (Some (ys, e)) = Some (xs @ ys, e)"

lemma prepend_simps [simp]: "prepend [] r = r" "prepend xs (prepend ys r) = prepend (xs @ ys) r"
  by (cases "(xs, r)" rule: prepend.cases; simp)+

fun executor_run :: "'d IJobDispatch \<Rightarrow> executor_call list \<Rightarrow> 'd executor \<Rightarrow> (executor_answer list \<times> 'd executor) option" where
  "executor_run ij [] e = Some ([], e)"
| "executor_run ij (c # cs) e =
     Option.bind (executor_step ij c e) (\<lambda>(a, e1). prepend [a] (executor_run ij cs e1))"

section \<open>The states an executor can be in\<close>

text \<open>
  The answers a caller may see in each state, and the state they lead to. A dispatcher that throws in a phase
  leaves the executor \<open>Running\<close>, one that throws in \<open>Shutdown\<close> leaves it \<open>Stopping\<close>; in both
  \<open>ExecutePipeline\<close> is accepted, as in \<open>Initialized\<close>.
\<close>

definition accepting :: "RuntimePipelineExecutorState \<Rightarrow> bool" where
  "accepting s \<longleftrightarrow> s \<in> {Ex_Initialized, Ex_Running, Ex_Stopping}"

fun life_cycle :: "RuntimePipelineExecutorState \<Rightarrow> executor_call \<Rightarrow> executor_answer \<Rightarrow> RuntimePipelineExecutorState option" where
  "life_cycle s Initialize_call (Returned b) = (if s = Ex_Created then Some (if b then Ex_Initialized else Ex_Created) else None)"
| "life_cycle s Initialize_call (Threw err) = (if s = Ex_Created \<or> err = Logic_error then Some s else None)"
| "life_cycle s Execute_call (Executed res) =
     (if accepting s \<and> res \<in> {Success, DispatchFailure} then Some Ex_Initialized else None)"
| "life_cycle s Execute_call (Threw err) =
     (if accepting s then Some Ex_Running else if err = Logic_error then Some s else None)"
| "life_cycle s Shutdown_call Done = Some Ex_Stopped"
| "life_cycle s Shutdown_call (Threw err) = (if s = Ex_Stopped then None else Some Ex_Stopping)"
| "life_cycle s _ _ = None"

fun legal :: "RuntimePipelineExecutorState \<Rightarrow> (executor_call \<times> executor_answer) list \<Rightarrow> RuntimePipelineExecutorState option" where
  "legal s [] = Some s"
| "legal s ((c, a) # cas) = Option.bind (life_cycle s c a) (\<lambda>s1. legal s1 cas)"

text \<open>A dispatcher whose calls return or throw, and one whose calls return.\<close>

definition comes_back :: "'d IJobDispatch \<Rightarrow> bool" where
  "comes_back ij \<longleftrightarrow> (\<forall>g c r d. ij_Initialize ij g c r d \<noteq> None) \<and> (\<forall>p d. ij_ExecutePhase ij p d \<noteq> None) \<and>
     (\<forall>d. ij_Shutdown ij d \<noteq> None)"

definition never_throws :: "'d IJobDispatch \<Rightarrow> bool" where
  "never_throws ij \<longleftrightarrow> (\<forall>p d err d'. ij_ExecutePhase ij p d \<noteq> Some (Inl err, d')) \<and>
     (\<forall>d err d'. ij_Shutdown ij d \<noteq> Some (Inl err, d'))"

lemma submit_comes_back:
  assumes "comes_back ij"
  shows "\<exists>r. submit ij ps d = Some r"
proof (induction ps arbitrary: d)
  case (Cons p ps)
  obtain r d1 where "ij_ExecutePhase ij p d = Some (r, d1)"
    using assms unfolding comes_back_def by (metis option.exhaust surj_pair)
  then show ?case using Cons.IH by (cases r) auto
qed simp

lemma submit_never_throws: "never_throws ij \<Longrightarrow> submit ij ps d \<noteq> Some (Inl err, d')"
proof (induction ps arbitrary: d)
  case (Cons p ps)
  then show ?case by (auto simp: bind_eq_Some_conv never_throws_def split: sum.splits if_splits)
qed simp

lemma executor_step_legal:
  assumes cb: "comes_back ij"
  shows "\<exists>a e1. executor_step ij c e = Some (a, e1) \<and> life_cycle (ex_state e) c a = Some (ex_state e1) \<and>
    (never_throws ij \<and> ex_state e \<notin> {Ex_Running, Ex_Stopping} \<longrightarrow> ex_state e1 \<notin> {Ex_Running, Ex_Stopping})"
proof (cases c)
  case Initialize_call
  obtain r d where "ij_Initialize ij (ex_taskGraph e) (ex_runtimeContext e) (ex_taskRegistry e) (ex_jobDispatch e) = Some (r, d)"
    using cb unfolding comes_back_def by (metis option.exhaust surj_pair)
  then show ?thesis using Initialize_call by (cases r) (auto simp: Executor_Initialize_def Let_def answer_def)
next
  case Shutdown_call
  obtain r d where "ij_Shutdown ij (ex_jobDispatch e) = Some (r, d)"
    using cb unfolding comes_back_def by (metis option.exhaust surj_pair)
  then show ?thesis
    using Shutdown_call by (cases r) (auto simp: Executor_Shutdown_def Let_def answer_def never_throws_def)
next
  case Execute_call
  show ?thesis
  proof (cases "accepting (ex_state e)")
    case True
    obtain r d where sub: "submit ij (map ph_id (rl_phases (ex_pipeline e))) (ex_jobDispatch e) = Some (r, d)"
      using submit_comes_back [OF cb] by (metis surj_pair)
    then show ?thesis
      using True Execute_call ExecutePipeline_submit [of e ij] submit_never_throws [of ij]
      by (cases r) (auto simp: accepting_def answer_def)
  next
    case False
    then show ?thesis using Execute_call by (cases "ex_state e") (auto simp: accepting_def ExecutePipeline_def answer_def)
  qed
qed

lemma executor_run_legal:
  assumes cb: "comes_back ij"
  shows "\<exists>as e1. executor_run ij cs e = Some (as, e1) \<and> length as = length cs \<and>
    legal (ex_state e) (zip cs as) = Some (ex_state e1) \<and>
    (never_throws ij \<and> ex_state e \<notin> {Ex_Running, Ex_Stopping} \<longrightarrow> ex_state e1 \<notin> {Ex_Running, Ex_Stopping})"
proof (induction cs arbitrary: e)
  case (Cons c cs)
  obtain a e1 where 1: "executor_step ij c e = Some (a, e1)" "life_cycle (ex_state e) c a = Some (ex_state e1)"
    "never_throws ij \<and> ex_state e \<notin> {Ex_Running, Ex_Stopping} \<longrightarrow> ex_state e1 \<notin> {Ex_Running, Ex_Stopping}"
    using executor_step_legal [OF cb] by blast
  obtain rs e2 where "executor_run ij cs e1 = Some (rs, e2)" "length rs = length cs"
    "legal (ex_state e1) (zip cs rs) = Some (ex_state e2)"
    "never_throws ij \<and> ex_state e1 \<notin> {Ex_Running, Ex_Stopping} \<longrightarrow> ex_state e2 \<notin> {Ex_Running, Ex_Stopping}"
    using Cons.IH by blast
  then show ?case using 1 by (intro exI [of _ "a # rs"] exI [of _ e2]) simp
qed simp

text \<open>C23. Over any dispatcher whose calls return or throw, and for any sequence of calls on a new executor whose client
  catches what is thrown, every call comes back and its answer is one the life cycle \<open>life_cycle\<close> allows in the state the executor
  is in: \<open>Initialize\<close> succeeds once, \<open>ExecutePipeline\<close> is accepted after it and until \<open>Shutdown\<close> has
  returned, a \<open>logic_error\<close> answers everywhere else. After a refused phase the executor is initialized again; after a
  phase that threw it stays \<open>Running\<close>, after a \<open>Shutdown\<close> that threw \<open>Stopping\<close>, and with a
  dispatcher that never throws there it is never left in either.\<close>

theorem executor_lifecycle:
  assumes "comes_back ij"
  shows "\<exists>as e. executor_run ij cs (RuntimePipelineExecutor_new config pl ctx g r d) = Some (as, e) \<and>
    length as = length cs \<and> legal Ex_Created (zip cs as) = Some (ex_state e) \<and>
    (never_throws ij \<longrightarrow> ex_state e \<in> {Ex_Created, Ex_Initialized, Ex_Stopped})"
proof -
  have "s \<notin> {Ex_Running, Ex_Stopping} \<Longrightarrow> s \<in> {Ex_Created, Ex_Initialized, Ex_Stopped}" for s by (cases s) auto
  then show ?thesis
    using executor_run_legal [OF assms, of cs "RuntimePipelineExecutor_new config pl ctx g r d"]
    by (auto simp: RuntimePipelineExecutor_new_def)
qed

text \<open>A dispatcher that refuses the seventh phase and throws at the next one.\<close>

definition six_phases :: "nat IJobDispatch" where
  "six_phases = \<lparr>ij_Initialize = \<lambda>g c r d. Some (Inr True, d),
     ij_ExecutePhase = \<lambda>p d. Some (if d = 7 then Inl Invalid_argument else Inr (d < 6), d + 1),
     ij_Shutdown = \<lambda>d. Some (Inr (), d)\<rparr>"

theorem executor_lifecycle_witness:
  "\<exists>e. executor_run six_phases [Execute_call, Initialize_call, Initialize_call, Execute_call, Execute_call, Execute_call]
      (RuntimePipelineExecutor_new RuntimePipelineExecutorConfig_new RuntimePipeline_new RuntimeContext_new TaskGraph_new
        TaskRegistry_new 0)
    = Some ([Threw Logic_error, Returned True, Threw Logic_error, Executed Success, Executed DispatchFailure,
        Threw Invalid_argument], e) \<and> ex_state e = Ex_Running"
proof -
  have "comes_back six_phases" by (simp add: comes_back_def six_phases_def)
  from executor_lifecycle [OF this, of "[Execute_call, Initialize_call, Initialize_call, Execute_call, Execute_call, Execute_call]"
      RuntimePipelineExecutorConfig_new RuntimePipeline_new RuntimeContext_new TaskGraph_new TaskRegistry_new 0]
  show ?thesis
    by (simp add: six_phases_def RuntimePipelineExecutor_new_def Executor_Initialize_def
        ExecutePipeline_def Executor_ExecutePhase_def RuntimePipeline_new_def Let_def answer_def accepting_def)
qed

text \<open>The first phase the dispatcher refuses ends the tick with \<open>DispatchFailure\<close>: the later phases
  are not submitted, the executor is initialized again, and the configuration, \<open>failFast\<close> included, has
  no influence.\<close>

theorem refused_phase_stops_pipeline:
  assumes "ex_state e = Ex_Initialized" and "map ph_id (rl_phases (ex_pipeline e)) = ps @ p # qs"
    and "submit ij ps (ex_jobDispatch e) = Some (Inr True, d1)" and "ij_ExecutePhase ij p d1 = Some (Inr False, d2)"
  shows "ExecutePipeline ij (e\<lparr>ex_config := c\<rparr>)
    = Some (Inr DispatchFailure, e\<lparr>ex_config := c, ex_jobDispatch := d2, ex_state := Ex_Initialized\<rparr>)"
proof -
  have "submit ij (ps @ p # qs) d = Some (Inr False, d2)" if "submit ij ps d = Some (Inr True, d1)" for d
    using that
  proof (induction ps arbitrary: d)
    case Nil
    then show ?case using assms(4) by simp
  next
    case (Cons q ps)
    obtain r d3 where "ij_ExecutePhase ij q d = Some (r, d3)" using Cons.prems by (auto simp: bind_eq_Some_conv)
    then show ?case using Cons by (cases r) (auto split: if_splits)
  qed
  then show ?thesis
    using assms(1-3) ExecutePipeline_submit [of "e\<lparr>ex_config := c\<rparr>" ij] by simp
qed

theorem refused_phase_stops_pipeline_witness:
  "ExecutePipeline (JobDispatch_vtable 4 id) ((RuntimePipelineExecutor_new RuntimePipelineExecutorConfig_new RuntimePipeline_new
      RuntimeContext_new diamond diamond_registry Crew_new)
        \<lparr>ex_state := Ex_Initialized, ex_config := \<lparr>xc_failFast = False, xc_enableProfiling = False, xc_collectMetrics = False\<rparr>\<rparr>)
    = Some (Inr DispatchFailure, (RuntimePipelineExecutor_new RuntimePipelineExecutorConfig_new RuntimePipeline_new
      RuntimeContext_new diamond diamond_registry Crew_new)
        \<lparr>ex_config := \<lparr>xc_failFast = False, xc_enableProfiling = False, xc_collectMetrics = False\<rparr>,
          ex_jobDispatch := Crew_new, ex_state := Ex_Initialized\<rparr>)"
proof -
  let ?e = "(RuntimePipelineExecutor_new RuntimePipelineExecutorConfig_new RuntimePipeline_new
      RuntimeContext_new diamond diamond_registry Crew_new)\<lparr>ex_state := Ex_Initialized\<rparr>"
  have "ij_ExecutePhase (JobDispatch_vtable 4 id) Input Crew_new = Some (Inr False, Crew_new)"
    by (simp add: JobDispatch_vtable_def Crew_ExecutePhase_def Crew_new_def)
  then show ?thesis
    using refused_phase_stops_pipeline [of ?e "[]" Input "[Simulation, PostSimulation, Output]" "JobDispatch_vtable 4 id"
        Crew_new Crew_new "\<lparr>xc_failFast = False, xc_enableProfiling = False, xc_collectMetrics = False\<rparr>"]
    by (simp add: RuntimePipelineExecutor_new_def RuntimePipeline_new_def)
qed

section \<open>The contract of a dispatcher\<close>

text \<open>
  What the executor's client relies on: a fresh dispatcher accepts a suitable graph, while it is ready
  every tick of the pipeline succeeds and does what \<open>tick\<close> says, and it can be shut down.
\<close>

locale phase_dispatcher =
  fixes ij :: "'d IJobDispatch"
    and fresh :: "'d \<Rightarrow> bool"
    and ready :: "task_graph \<Rightarrow> 'd \<Rightarrow> bool"
    and suitable :: "task_graph \<Rightarrow> task_registry \<Rightarrow> bool"
    and executed :: "'d \<Rightarrow> TaskId list"
    and tick :: "task_graph \<Rightarrow> TaskId list \<Rightarrow> bool"
  assumes initialize: "fresh d \<Longrightarrow> suitable g r \<Longrightarrow>
      \<exists>d'. ij_Initialize ij g c r d = Some (Inr True, d') \<and> ready g d' \<and> executed d' = executed d"
    and phases: "ready g d \<Longrightarrow>
      \<exists>d' xs. submit ij (map ph_id (rl_phases RuntimePipeline_new)) d = Some (Inr True, d') \<and> ready g d'
        \<and> executed d' = executed d @ xs \<and> tick g xs"
    and shutdown: "ready g d \<Longrightarrow> \<exists>d'. ij_Shutdown ij d = Some (Inr (), d') \<and> fresh d' \<and> executed d' = executed d"
begin

lemma pipeline_tick:
  assumes "ready g (ex_jobDispatch e)" and "ex_state e = Ex_Initialized" and "ex_pipeline e = RuntimePipeline_new"
  shows "\<exists>d xs. executor_step ij Execute_call e = Some (Executed Success, e\<lparr>ex_jobDispatch := d\<rparr>) \<and>
    ready g d \<and> executed d = executed (ex_jobDispatch e) @ xs \<and> tick g xs"
proof -
  obtain d xs where d: "submit ij (map ph_id (rl_phases RuntimePipeline_new)) (ex_jobDispatch e) = Some (Inr True, d)"
    "ready g d" "executed d = executed (ex_jobDispatch e) @ xs" "tick g xs"
    using phases [OF assms(1)] by blast
  then have "ExecutePipeline ij e = Some (Inr Success, e\<lparr>ex_jobDispatch := d, ex_state := Ex_Initialized\<rparr>)"
    using ExecutePipeline_submit [of e ij] assms(2,3) by simp
  moreover have "e\<lparr>ex_jobDispatch := d, ex_state := Ex_Initialized\<rparr> = e\<lparr>ex_jobDispatch := d\<rparr>"
    using assms(2) by (cases e) simp
  ultimately show ?thesis using d(2-4) by (auto simp: answer_def)
qed

lemma pipeline_ticks:
  "ready g (ex_jobDispatch e) \<Longrightarrow> ex_state e = Ex_Initialized \<Longrightarrow> ex_pipeline e = RuntimePipeline_new \<Longrightarrow>
   \<exists>d orders. (\<forall>cs. executor_run ij (replicate n Execute_call @ cs) e
        = prepend (replicate n (Executed Success)) (executor_run ij cs (e\<lparr>ex_jobDispatch := d\<rparr>))) \<and>
     ready g d \<and> executed d = executed (ex_jobDispatch e) @ concat orders \<and> length orders = n \<and> (\<forall>xs \<in> set orders. tick g xs)"
proof (induction n arbitrary: e)
  case 0
  then show ?case by (intro exI [of _ "ex_jobDispatch e"] exI [of _ "[]"]) simp
next
  case (Suc n)
  obtain d1 xs where 1: "executor_step ij Execute_call e = Some (Executed Success, e\<lparr>ex_jobDispatch := d1\<rparr>)"
    "ready g d1" "executed d1 = executed (ex_jobDispatch e) @ xs" "tick g xs"
    using pipeline_tick [OF Suc.prems] by blast
  obtain d orders where 2: "\<And>cs. executor_run ij (replicate n Execute_call @ cs) (e\<lparr>ex_jobDispatch := d1\<rparr>)
      = prepend (replicate n (Executed Success)) (executor_run ij cs (e\<lparr>ex_jobDispatch := d\<rparr>))"
    "ready g d" "executed d = executed d1 @ concat orders" "length orders = n" "\<forall>xs \<in> set orders. tick g xs"
    using Suc.IH [of "e\<lparr>ex_jobDispatch := d1\<rparr>"] 1(2) Suc.prems by auto
  have "executor_run ij (replicate (Suc n) Execute_call @ cs) e
      = prepend (replicate (Suc n) (Executed Success)) (executor_run ij cs (e\<lparr>ex_jobDispatch := d\<rparr>))" for cs
    using 1(1) 2(1) [of cs] by (simp del: executor_step.simps)
  then show ?case using 1(3,4) 2(2-5) by (intro exI [of _ d] exI [of _ "xs # orders"]) simp
qed

lemma whole_life:
  assumes "fresh d" and "suitable g r"
  shows "\<exists>e orders. executor_run ij (Initialize_call # replicate n Execute_call @ [Shutdown_call, Execute_call])
      (RuntimePipelineExecutor_new config RuntimePipeline_new c g r d)
    = Some (Returned True # replicate n (Executed Success) @ [Done, Threw Logic_error], e) \<and>
    length orders = n \<and> executed (ex_jobDispatch e) = executed d @ concat orders \<and> (\<forall>xs \<in> set orders. tick g xs) \<and>
    fresh (ex_jobDispatch e)"
proof -
  let ?new = "RuntimePipelineExecutor_new config RuntimePipeline_new c g r d"
  obtain d0 where d0: "ij_Initialize ij g c r d = Some (Inr True, d0)" "ready g d0" "executed d0 = executed d"
    using initialize [OF assms] by blast
  let ?up = "?new\<lparr>ex_jobDispatch := d0, ex_state := Ex_Initialized\<rparr>"
  have 0: "executor_step ij Initialize_call ?new = Some (Returned True, ?up)"
    using d0(1) by (simp add: Executor_Initialize_def RuntimePipelineExecutor_new_def answer_def)
  have "ready g (ex_jobDispatch ?up)" "ex_state ?up = Ex_Initialized" "ex_pipeline ?up = RuntimePipeline_new"
    using d0(2) by (simp_all add: RuntimePipelineExecutor_new_def)
  from pipeline_ticks [OF this, of n]
  obtain d1 orders where 1: "\<And>cs. executor_run ij (replicate n Execute_call @ cs) ?up
      = prepend (replicate n (Executed Success)) (executor_run ij cs (?up\<lparr>ex_jobDispatch := d1\<rparr>))"
    "ready g d1" "executed d1 = executed (ex_jobDispatch ?up) @ concat orders" "length orders = n" "\<forall>xs \<in> set orders. tick g xs"
    by blast
  obtain d2 where d2: "ij_Shutdown ij d1 = Some (Inr (), d2)" "fresh d2" "executed d2 = executed d1"
    using shutdown [OF 1(2)] by blast
  let ?down = "?up\<lparr>ex_jobDispatch := d2, ex_state := Ex_Stopped\<rparr>"
  have down: "executor_run ij [Shutdown_call, Execute_call] (?up\<lparr>ex_jobDispatch := d1\<rparr>) = Some ([Done, Threw Logic_error], ?down)"
    using d2(1) by (simp add: Executor_Shutdown_def ExecutePipeline_def Let_def answer_def)
  have "executor_run ij (Initialize_call # replicate n Execute_call @ [Shutdown_call, Execute_call]) ?new
      = Some (Returned True # replicate n (Executed Success) @ [Done, Threw Logic_error], ?down)"
    using 0 1(1) [of "[Shutdown_call, Execute_call]"] down by (simp del: executor_step.simps executor_run.simps add: executor_run.simps(2) [of _ Initialize_call])
  then show ?thesis using 1(3-5) d0(3) d2(2,3) by (intro exI [of _ ?down] exI [of _ orders]) simp
qed

end

text \<open>The dispatcher of the server is one, whatever its scheduler does.\<close>

lemma submit_crew: "submit (JobDispatch_vtable hw pick) ps = crew_phases pick ps"
proof (induction ps)
  case (Cons p ps)
  have "ij_ExecutePhase (JobDispatch_vtable hw pick) = Crew_ExecutePhase pick" by (simp add: JobDispatch_vtable_def)
  then show ?case unfolding fun_eq_iff submit.simps crew_phases.simps Cons by simp
qed (simp add: fun_eq_iff)

interpretation jd: phase_dispatcher "JobDispatch_vtable hw pick" crew_down
    "\<lambda>g d. \<exists>k. crew_at g (concat (replicate k [Input, Simulation, PostSimulation, Output])) d"
    "\<lambda>g r. (\<exists>rank. flat_graph g rank) \<and> (\<forall>i \<in> node_ids g. IsRegistered i r)"
    crew_executed tick_order
proof unfold_locales
  show "\<exists>d'. ij_Initialize (JobDispatch_vtable hw pick) g c r d = Some (Inr True, d') \<and>
      (\<exists>k. crew_at g (concat (replicate k [Input, Simulation, PostSimulation, Output])) d') \<and> crew_executed d' = crew_executed d"
    if d: "crew_down d" and gr: "(\<exists>rank. flat_graph g rank) \<and> (\<forall>i \<in> node_ids g. IsRegistered i r)" for d g r c
  proof -
    obtain rank where "flat_graph g rank" using gr by blast
    from Crew_Initialize_ok [OF this, of r d hw c] obtain d' where
      "Crew_Initialize hw g c r d = Some (Inr True, d')" "crew_at g [] d'" "crew_executed d' = crew_executed d"
      using d gr by blast
    then show ?thesis
      by (intro exI [of _ d'] conjI exI [of _ 0]) (simp_all add: JobDispatch_vtable_def)
  qed
  show "\<exists>d' xs. submit (JobDispatch_vtable hw pick) (map ph_id (rl_phases RuntimePipeline_new)) d = Some (Inr True, d') \<and>
      (\<exists>k. crew_at g (concat (replicate k [Input, Simulation, PostSimulation, Output])) d') \<and>
      crew_executed d' = crew_executed d @ xs \<and> tick_order g xs"
    if "\<exists>k. crew_at g (concat (replicate k [Input, Simulation, PostSimulation, Output])) d" for g d
    unfolding submit_crew pipeline_phases using crew_tick_ok that by blast
  show "\<exists>d'. ij_Shutdown (JobDispatch_vtable hw pick) d = Some (Inr (), d') \<and> crew_down d' \<and> crew_executed d' = crew_executed d"
    if "\<exists>k. crew_at g (concat (replicate k [Input, Simulation, PostSimulation, Output])) d" for g d
    using Crew_Shutdown_ok [of g _ d pick] that by (auto simp: JobDispatch_vtable_def)
qed

text \<open>C3. The executor over the dispatcher of the server, from construction to shutdown, under any schedule of the
  dispatcher's threads, for a well-formed acyclic graph without an edge inside a phase whose tasks are registered:
  \<open>Initialize\<close> succeeds, each of \<open>n\<close> calls of \<open>ExecutePipeline\<close> succeeds and executes every task of the graph exactly once,
  phase by phase and after its parents, and after \<open>Shutdown\<close> the dispatcher is down and the executor throws.\<close>

theorem executor_runs_the_graph:
  assumes "flat_graph g rank" and "\<forall>i \<in> node_ids g. IsRegistered i r"
  shows "\<exists>e orders. executor_run (JobDispatch_vtable hw pick) (Initialize_call # replicate n Execute_call @ [Shutdown_call, Execute_call])
      (RuntimePipelineExecutor_new config RuntimePipeline_new c g r Crew_new)
    = Some (Returned True # replicate n (Executed Success) @ [Done, Threw Logic_error], e) \<and>
    length orders = n \<and> crew_executed (ex_jobDispatch e) = concat orders \<and> (\<forall>xs \<in> set orders. tick_order g xs) \<and>
    crew_down (ex_jobDispatch e)"
  using jd.whole_life [of Crew_new g r hw pick n config c] Crew_new_down assms by auto

theorem executor_runs_the_graph_witness:
  "\<exists>e orders. executor_run (JobDispatch_vtable 8 (\<lambda>k. 7 * k)) (Initialize_call # replicate 5 Execute_call @ [Shutdown_call, Execute_call])
      (RuntimePipelineExecutor_new RuntimePipelineExecutorConfig_new RuntimePipeline_new RuntimeContext_new diamond
        diamond_registry Crew_new)
    = Some (Returned True # replicate 5 (Executed Success) @ [Done, Threw Logic_error], e) \<and>
    length orders = 5 \<and> crew_executed (ex_jobDispatch e) = concat orders \<and> (\<forall>xs \<in> set orders. tick_order diamond xs)"
proof -
  have "\<forall>i \<in> node_ids diamond. IsRegistered i diamond_registry"
    using registered_all diamond_ids unfolding diamond_registry_def by blast
  then show ?thesis using executor_runs_the_graph [OF diamond_flat_graph] by blast
qed

end
