(* ===== verification/Tick_Scheduler.thy ===== *)
theory Tick_Scheduler
  imports Timer_Queue Task_Graph
begin

text \<open>
  The tick scheduler (\<open>runtime/TickScheduler/TickScheduler.cpp\<close>) with the timer queue it ticks. Clock
  readings are arguments, in nanoseconds; \<open>sleep_until\<close> is an event that carries its deadline; the
  shutdown by another thread falls before the test of the flag or between it and the tick (Tick_Races has every
  access).
\<close>

section \<open>The scheduler\<close>

datatype TickSchedulerState = Ts_Created | Ts_Initialized | Ts_Running | Ts_Stopping | Ts_Stopped

record tick_config =
  tc_tickInterval :: duration

definition TickSchedulerConfig_new :: tick_config where
  "TickSchedulerConfig_new = \<lparr>tc_tickInterval = 50\<rparr>"

record 'cb tick_scheduler =
  ts_config :: tick_config
  ts_context :: runtime_context
  ts_pipeline :: runtime_pipeline
  ts_timerQueue :: "'cb timer_queue"
  ts_state :: TickSchedulerState
  ts_nextTickTime :: time_point
  ts_stopRequested :: bool

definition TickScheduler_new :: "tick_config \<Rightarrow> runtime_pipeline \<Rightarrow> 'cb timer_queue \<Rightarrow> 'cb tick_scheduler" where
  "TickScheduler_new config pipeline timerQueue =
     \<lparr>ts_config = config, ts_context = RuntimeContext_new, ts_pipeline = pipeline, ts_timerQueue = timerQueue,
      ts_state = Ts_Created, ts_nextTickTime = 0, ts_stopRequested = False\<rparr>"

definition UpdateRuntimeContext :: "'cb tick_scheduler \<Rightarrow> 'cb tick_scheduler" where
  "UpdateRuntimeContext s =
     s\<lparr>ts_context := (ts_context s)\<lparr>rc_deltaTimeMs := of_int (tc_tickInterval (ts_config s))\<rparr>\<rparr>"

text \<open>A time point plus a number of milliseconds; signed overflow is undefined.\<close>

definition Scheduler_Initialize :: "time_point \<Rightarrow> 'cb tick_scheduler \<Rightarrow> (bool \<times> 'cb tick_scheduler) result" where
  "Scheduler_Initialize clock_now s =
     (if ts_state s \<noteq> Ts_Created then Inl Logic_error
      else let s1 = s\<lparr>ts_context := (ts_context s)\<lparr>rc_tickId := 0\<rparr>\<rparr>;
               s2 = UpdateRuntimeContext s1;
               s3 = s2\<lparr>ts_context := (ts_context s2)\<lparr>rc_mode := Initializing, rc_workerCount := 0\<rparr>, ts_stopRequested := False\<rparr>
           in and_then (deadline_of clock_now (tc_tickInterval (ts_config s3))) (\<lambda>next.
             Inr (True, s3\<lparr>ts_nextTickTime := next, ts_state := Ts_Initialized\<rparr>)))"

definition Scheduler_Shutdown :: "'cb tick_scheduler \<Rightarrow> 'cb tick_scheduler" where
  "Scheduler_Shutdown s =
     (if ts_state s = Ts_Stopped then s
      else let s1 = s\<lparr>ts_stopRequested := True, ts_context := (ts_context s)\<lparr>rc_mode := Mode_Stopping\<rparr>, ts_state := Ts_Stopping\<rparr>
           in s1\<lparr>ts_context := (ts_context s1)\<lparr>rc_mode := Mode_Stopped\<rparr>, ts_state := Ts_Stopped\<rparr>)"

text \<open>\<open>DispatchPipeline\<close> runs over the phases and does nothing with them.\<close>

fun dispatch_phases :: "runtime_phase list \<Rightarrow> 'cb tick_scheduler \<Rightarrow> 'cb tick_scheduler" where
  "dispatch_phases [] s = s"
| "dispatch_phases (phase # phases) s = dispatch_phases phases s"

definition DispatchPipeline :: "'cb tick_scheduler \<Rightarrow> 'cb tick_scheduler" where
  "DispatchPipeline s = dispatch_phases (rl_phases (ts_pipeline s)) s"

definition AdvanceTick :: "'cb tick_scheduler \<Rightarrow> 'cb tick_scheduler" where
  "AdvanceTick s = s\<lparr>ts_context := (ts_context s)\<lparr>rc_tickId := rc_tickId (ts_context s) + 1\<rparr>\<rparr>"

datatype 'cb tick_event = Timer "'cb timer_event" | Slept_until time_point

definition WaitNextTick :: "'cb tick_scheduler \<Rightarrow> ('cb tick_event list \<times> 'cb tick_scheduler) result" where
  "WaitNextTick s =
     and_then (deadline_of (ts_nextTickTime s) (tc_tickInterval (ts_config s))) (\<lambda>next.
       Inr ([Slept_until (ts_nextTickTime s)], s\<lparr>ts_nextTickTime := next\<rparr>))"

definition RunOneTick :: "'cb script \<Rightarrow> time_point \<Rightarrow> 'cb tick_scheduler
    \<Rightarrow> ('cb tick_event list \<times> 'cb tick_scheduler) result option" where
  "RunOneTick script now s =
     (if ts_state s = Ts_Stopped then Some (Inl Logic_error)
      else if ts_state s = Ts_Created then Some (Inl Logic_error)
      else let s1 = s\<lparr>ts_context := (ts_context s)\<lparr>rc_mode := Mode_Running\<rparr>\<rparr>;
               s2 = (if ts_state s1 = Ts_Initialized then s1\<lparr>ts_state := Ts_Running\<rparr> else s1)
           in Option.bind (Tick script now (ts_timerQueue s2)) (\<lambda>r. Some (
                and_then r (\<lambda>(es, q).
                let s3 = UpdateRuntimeContext (s2\<lparr>ts_timerQueue := q\<rparr>);
                    s4 = AdvanceTick (DispatchPipeline s3)
                in and_then (WaitNextTick s4) (\<lambda>(ws, s5). Inr (map Timer es @ ws, s5))))))"

text \<open>
  What happens in one round of \<open>RunUntilStopped\<close>: whether another thread's \<open>Shutdown\<close> falls before the
  test of the flag, or between it and the tick, and the clock reading of the tick.
\<close>

record loop_round =
  lr_shutdown_before_test :: bool
  lr_shutdown_before_tick :: bool
  lr_now :: time_point

definition meanwhile :: "bool \<Rightarrow> 'cb tick_scheduler \<Rightarrow> 'cb tick_scheduler" where
  "meanwhile b s = (if b then Scheduler_Shutdown s else s)"

text \<open>The loop over given rounds: whether it has returned when they are over.\<close>

fun run_loop :: "'cb script \<Rightarrow> loop_round list \<Rightarrow> 'cb tick_scheduler
    \<Rightarrow> (bool \<times> 'cb tick_event list \<times> 'cb tick_scheduler) result option" where
  "run_loop script [] s = Some (Inr (False, [], s))"
| "run_loop script (r # rs) s =
     (let s1 = meanwhile (lr_shutdown_before_test r) s in
      if ts_stopRequested s1 then Some (Inr (True, [], s1))
      else Option.bind (RunOneTick script (lr_now r) (meanwhile (lr_shutdown_before_tick r) s1)) (\<lambda>x.
        case x of
          Inl e \<Rightarrow> Some (Inl e)
        | Inr (es, s2) \<Rightarrow> Option.bind (run_loop script rs s2) (\<lambda>y. Some (
            and_then y (\<lambda>(b, es', s3). Inr (b, es @ es', s3))))))"

definition RunUntilStopped :: "'cb script \<Rightarrow> loop_round list \<Rightarrow> 'cb tick_scheduler
    \<Rightarrow> (bool \<times> 'cb tick_event list \<times> 'cb tick_scheduler) result option" where
  "RunUntilStopped script rs s =
     (if ts_state s = Ts_Stopped then Some (Inl Logic_error) else run_loop script rs s)"

definition Scheduler_GetState :: "'cb tick_scheduler \<Rightarrow> TickSchedulerState" where
  "Scheduler_GetState s = ts_state s"

definition GetRuntimeContext :: "'cb tick_scheduler \<Rightarrow> runtime_context" where
  "GetRuntimeContext s = ts_context s"

section \<open>Ticks\<close>

lemma DispatchPipeline_id [simp]: "DispatchPipeline s = s"
proof -
  have "dispatch_phases ps s = s" for ps by (induction ps) auto
  then show ?thesis by (simp add: DispatchPipeline_def)
qed

text \<open>The \<open>k\<close>-th deadline after an anchor.\<close>

definition deadline_at :: "time_point \<Rightarrow> duration \<Rightarrow> nat \<Rightarrow> time_point" where
  "deadline_at start interval k = start + int k * (interval * 1000000)"

definition times_ok :: "time_point \<Rightarrow> duration \<Rightarrow> nat \<Rightarrow> bool" where
  "times_ok start interval n \<longleftrightarrow> in_int64 (interval * 1000000) \<and> (\<forall>k \<le> n. in_int64 (deadline_at start interval k))"

fun run_scheduler :: "'cb script \<Rightarrow> time_point list \<Rightarrow> 'cb tick_scheduler
    \<Rightarrow> ('cb tick_event list \<times> 'cb tick_scheduler) result option" where
  "run_scheduler script [] s = Some (Inr ([], s))"
| "run_scheduler script (now # nows) s =
     Option.bind (RunOneTick script now s) (\<lambda>r.
       case r of
         Inl e \<Rightarrow> Some (Inl e)
       | Inr (es, s1) \<Rightarrow> Option.bind (run_scheduler script nows s1) (\<lambda>r'. Some (
           and_then r' (\<lambda>(es', s2). Inr (es @ es', s2)))))"

fun timer_events :: "'cb tick_event list \<Rightarrow> 'cb timer_event list" where
  "timer_events [] = []"
| "timer_events (Timer e # es) = e # timer_events es"
| "timer_events (Slept_until t # es) = timer_events es"

fun sleeps :: "'cb tick_event list \<Rightarrow> time_point list" where
  "sleeps [] = []"
| "sleeps (Timer e # es) = sleeps es"
| "sleeps (Slept_until t # es) = t # sleeps es"

lemma events_append [simp]:
  "timer_events (es @ es') = timer_events es @ timer_events es'" "sleeps (es @ es') = sleeps es @ sleeps es'"
  by (induction es rule: sleeps.induct) auto

lemma events_timers [simp]: "timer_events (map Timer es) = es" "sleeps (map Timer es) = []"
  by (induction es) auto

lemma RunOneTick_ok:
  assumes "ts_state s \<in> {Ts_Initialized, Ts_Running}" and "Tick script now (ts_timerQueue s) = Some (Inr (es, q))"
    and "deadline_of (ts_nextTickTime s) (tc_tickInterval (ts_config s)) = Inr t"
  shows "RunOneTick script now s = Some (Inr (map Timer es @ [Slept_until (ts_nextTickTime s)],
    s\<lparr>ts_timerQueue := q, ts_state := Ts_Running, ts_nextTickTime := t,
      ts_context := (ts_context s)\<lparr>rc_tickId := rc_tickId (ts_context s) + 1,
        rc_deltaTimeMs := of_int (tc_tickInterval (ts_config s)), rc_mode := Mode_Running\<rparr>\<rparr>))"
  using assms by (cases s) (auto simp: RunOneTick_def Let_def UpdateRuntimeContext_def AdvanceTick_def WaitNextTick_def)

lemma deadline_step:
  assumes "times_ok start interval n" and "k < n"
  shows "deadline_of (deadline_at start interval k) interval = Inr (deadline_at start interval (Suc k))"
proof -
  have "deadline_at start interval k + interval * 1000000 = deadline_at start interval (Suc k)"
    by (simp add: deadline_at_def algebra_simps)
  then show ?thesis using assms by (simp add: deadline_of_def times_ok_def)
qed

lemma run_timers_Tick:
  assumes "run_timers script (Tick_op now # ops) q = Some (Inr (es, q'))"
  shows "\<exists>es1 q1 es2. Tick script now q = Some (Inr (es1, q1)) \<and> run_timers script ops q1 = Some (Inr (es2, q')) \<and> es = es1 @ es2"
proof -
  obtain r where r: "Tick script now q = Some r" using assms by (cases "Tick script now q") auto
  obtain es1 q1 where 1: "r = Inr (es1, q1)" using assms r by (cases r) auto
  obtain r2 where r2: "run_timers script ops q1 = Some r2" using assms r 1 by (cases "run_timers script ops q1") auto
  obtain es2 q2 where "r2 = Inr (es2, q2)" using assms r 1 r2 by (cases r2) auto
  then show ?thesis using assms r 1 r2 by auto
qed

lemma run_scheduler_ok:
  assumes "times_ok start interval n"
  shows "run_timers script (map Tick_op nows) (ts_timerQueue s) = Some (Inr (es, q')) \<Longrightarrow> k + length nows < n \<Longrightarrow>
    ts_state s \<in> {Ts_Initialized, Ts_Running} \<Longrightarrow> ts_nextTickTime s = deadline_at start interval k \<Longrightarrow>
    ts_config s = \<lparr>tc_tickInterval = interval\<rparr> \<Longrightarrow> rc_deltaTimeMs (ts_context s) = of_int interval \<Longrightarrow>
    \<exists>evs s'. run_scheduler script nows s = Some (Inr (evs, s')) \<and> timer_events evs = es \<and>
      sleeps evs = map (deadline_at start interval) [k ..< k + length nows] \<and>
      ts_nextTickTime s' = deadline_at start interval (k + length nows) \<and>
      rc_tickId (ts_context s') = rc_tickId (ts_context s) + of_nat (length nows) \<and>
      rc_deltaTimeMs (ts_context s') = of_int interval \<and> ts_timerQueue s' = q' \<and> ts_pipeline s' = ts_pipeline s"
proof (induction nows arbitrary: s es k)
  case Nil
  then show ?case by auto
next
  case (Cons now nows)
  have "run_timers script (Tick_op now # map Tick_op nows) (ts_timerQueue s) = Some (Inr (es, q'))"
    using Cons.prems(1) by (simp only: list.map)
  from run_timers_Tick [OF this]
  obtain es1 q1 es2 where 1: "Tick script now (ts_timerQueue s) = Some (Inr (es1, q1))"
    "run_timers script (map Tick_op nows) q1 = Some (Inr (es2, q'))" "es = es1 @ es2"
    by blast
  have "deadline_of (ts_nextTickTime s) (tc_tickInterval (ts_config s)) = Inr (deadline_at start interval (Suc k))"
    using deadline_step [OF assms, of k] Cons.prems(2,4,5) by simp
  note step = RunOneTick_ok [OF Cons.prems(3) 1(1) this]
  let ?s1 = "s\<lparr>ts_timerQueue := q1, ts_state := Ts_Running, ts_nextTickTime := deadline_at start interval (Suc k),
      ts_context := (ts_context s)\<lparr>rc_tickId := rc_tickId (ts_context s) + 1,
        rc_deltaTimeMs := of_int (tc_tickInterval (ts_config s)), rc_mode := Mode_Running\<rparr>\<rparr>"
  obtain evs s' where 2: "run_scheduler script nows ?s1 = Some (Inr (evs, s'))" "timer_events evs = es2"
    "sleeps evs = map (deadline_at start interval) [Suc k ..< Suc k + length nows]"
    "ts_nextTickTime s' = deadline_at start interval (Suc k + length nows)"
    "rc_tickId (ts_context s') = rc_tickId (ts_context s) + 1 + of_nat (length nows)"
    "rc_deltaTimeMs (ts_context s') = of_int interval" "ts_timerQueue s' = q'" "ts_pipeline s' = ts_pipeline s"
    using Cons.IH [of ?s1 es2 "Suc k"] 1(2) Cons.prems(2,5) by auto
  have "[k ..< k + length (now # nows)] = k # [Suc k ..< Suc k + length nows]" by (simp add: upt_rec)
  then show ?case
    using step 2 1(3) Cons.prems(4) by (intro exI [of _ "map Timer es1 @ [Slept_until (ts_nextTickTime s)] @ evs"] exI [of _ s']) simp
qed

text \<open>C25. An initialized scheduler runs its ticks on a fixed schedule: after \<open>n\<close> ticks the tick identifier
  is \<open>n\<close>, the time step never changed, the timers ran exactly as ticking the timer queue alone would
  run them, and the sleeps were the multiples of the interval after the start, whatever the clock read
  and however long the callbacks took. The pipeline is not executed.\<close>

theorem scheduler_keeps_the_schedule:
  assumes "run_timers script (map Tick_op nows) q = Some (Inr (es, q'))"
    and "times_ok clock_now interval (length nows + 2)"
  shows "\<exists>s0 evs s. Scheduler_Initialize clock_now (TickScheduler_new \<lparr>tc_tickInterval = interval\<rparr> pl q) = Inr (True, s0) \<and>
    run_scheduler script nows s0 = Some (Inr (evs, s)) \<and> timer_events evs = es \<and> ts_timerQueue s = q' \<and>
    sleeps evs = map (deadline_at clock_now interval) [1 ..< Suc (length nows)] \<and>
    rc_tickId (ts_context s) = of_nat (length nows) \<and> rc_deltaTimeMs (ts_context s) = of_int interval \<and>
    ts_pipeline s = pl"
proof -
  have first: "deadline_of clock_now interval = Inr (deadline_at clock_now interval 1)"
    using deadline_step [OF assms(2), of 0] by (simp add: deadline_at_def)
  obtain s0 where s0: "Scheduler_Initialize clock_now (TickScheduler_new \<lparr>tc_tickInterval = interval\<rparr> pl q) = Inr (True, s0)"
    "ts_timerQueue s0 = q" "ts_state s0 = Ts_Initialized" "ts_nextTickTime s0 = deadline_at clock_now interval 1"
    "ts_config s0 = \<lparr>tc_tickInterval = interval\<rparr>" "rc_deltaTimeMs (ts_context s0) = of_int interval"
    "rc_tickId (ts_context s0) = 0" "ts_pipeline s0 = pl"
    using first by (simp add: Scheduler_Initialize_def TickScheduler_new_def Let_def UpdateRuntimeContext_def)
  then show ?thesis
    using run_scheduler_ok [OF assms(2), where s = s0 and k = 1 and nows = nows and es = es and q' = q' and script = script] assms(1) by auto
qed

theorem scheduler_keeps_the_schedule_witness:
  "\<exists>s0 evs s. Scheduler_Initialize 1000 (TickScheduler_new TickSchedulerConfig_new RuntimePipeline_new
      (TimerQueue_new :: nat timer_queue)) = Inr (True, s0) \<and>
    run_scheduler (\<lambda>cb q. []) [2000, 60000000, 160000000] s0 = Some (Inr (evs, s)) \<and>
    sleeps evs = [50001000, 100001000, 150001000] \<and> rc_tickId (ts_context s) = 3"
proof -
  have "DispatchExpired (\<lambda>cb q. []) now (TimerQueue_new :: nat timer_queue) = Some (Inr ([], TimerQueue_new))" for now
    by (subst DispatchExpired.simps) (simp add: pop_expired_def TimerQueue_new_def)
  then have run: "run_timers (\<lambda>cb q. []) (map Tick_op [2000, 60000000, 160000000]) (TimerQueue_new :: nat timer_queue)
      = Some (Inr ([], TimerQueue_new))"
    by (simp add: Tick_def)
  have "\<forall>k \<le> 5. in_int64 (deadline_at 1000 50 k)"
    by (auto simp: in_int64_def deadline_at_def)
  then have times: "times_ok 1000 50 (length [2000, 60000000, 160000000 :: int] + 2)"
    by (simp add: times_ok_def in_int64_def)
  have list: "[1 ..< Suc (length [2000, 60000000, 160000000 :: int])] = [1, 2, 3]" by (simp add: upt_rec)
  have ds: "map (deadline_at 1000 50) [1, 2, 3] = [50001000, 100001000, 150001000]" by (simp add: deadline_at_def)
  show ?thesis
    using scheduler_keeps_the_schedule [OF run times, of RuntimePipeline_new]
    unfolding list ds TickSchedulerConfig_new_def by auto
qed

section \<open>Stopping\<close>

text \<open>\<open>RunUntilStopped\<close> returns when a shutdown by another thread falls before its test of the flag,
  but when the shutdown falls between the test and the tick, the tick finds the scheduler stopped and
  \<open>RunUntilStopped\<close> throws \<open>std::logic_error\<close>.\<close>

theorem shutdown_race_throws:
  assumes "ts_state s \<in> {Ts_Initialized, Ts_Running}" and "\<not> ts_stopRequested s"
  shows "RunUntilStopped script (\<lparr>lr_shutdown_before_test = True, lr_shutdown_before_tick = b, lr_now = now\<rparr> # rs) s
      = Some (Inr (True, [], Scheduler_Shutdown s)) \<and>
    RunUntilStopped script (\<lparr>lr_shutdown_before_test = False, lr_shutdown_before_tick = True, lr_now = now\<rparr> # rs) s
      = Some (Inl Logic_error)"
  using assms by (auto simp: RunUntilStopped_def meanwhile_def Scheduler_Shutdown_def RunOneTick_def Let_def)

theorem shutdown_race_throws_witness:
  "\<exists>s. Scheduler_Initialize 0 (TickScheduler_new TickSchedulerConfig_new RuntimePipeline_new (TimerQueue_new :: nat timer_queue))
      = Inr (True, s) \<and>
    RunUntilStopped (\<lambda>cb q. []) [\<lparr>lr_shutdown_before_test = False, lr_shutdown_before_tick = True, lr_now = 7\<rparr>] s
      = Some (Inl Logic_error)"
proof -
  obtain s where s: "Scheduler_Initialize 0 (TickScheduler_new TickSchedulerConfig_new RuntimePipeline_new
      (TimerQueue_new :: nat timer_queue)) = Inr (True, s)" "ts_state s = Ts_Initialized" "\<not> ts_stopRequested s"
    by (simp add: Scheduler_Initialize_def TickScheduler_new_def TickSchedulerConfig_new_def deadline_of_def in_int64_def
        Let_def UpdateRuntimeContext_def)
  then show ?thesis
    using shutdown_race_throws [of s "\<lambda>cb q. []" True 7 "[]"] by auto
qed

end
