(* ===== verification/Tick_Races.thy ===== *)
theory Tick_Races
  imports Tick_Scheduler
begin

text \<open>
  The tick loop with a shutdown by another thread (\<open>TickScheduler.cpp\<close>): one thread in \<open>RunUntilStopped\<close>, one in
  \<open>Shutdown\<close>, each access to \<open>m_state\<close>, \<open>m_stopRequested\<close> and the context's mode a step. The rest of \<open>RunOneTick\<close> touches nothing
  that \<open>Shutdown\<close> touches and is one step. \<open>m_state\<close> is not atomic, so the program also has a data race here.
\<close>

section \<open>The rest of a tick\<close>

definition tick_body :: "'cb script \<Rightarrow> time_point \<Rightarrow> 'cb tick_scheduler \<Rightarrow> ('cb tick_event list \<times> 'cb tick_scheduler) result option" where
  "tick_body script now s =
     Option.bind (Tick script now (ts_timerQueue s)) (\<lambda>r. Some (
       and_then r (\<lambda>(es, q).
         let s1 = AdvanceTick (DispatchPipeline (UpdateRuntimeContext (s\<lparr>ts_timerQueue := q\<rparr>)))
         in and_then (WaitNextTick s1) (\<lambda>(ws, s2). Inr (map Timer es @ ws, s2)))))"

definition set_mode :: "RuntimeMode \<Rightarrow> 'cb tick_scheduler \<Rightarrow> 'cb tick_scheduler" where
  "set_mode m s = s\<lparr>ts_context := (ts_context s)\<lparr>rc_mode := m\<rparr>\<rparr>"

lemma RunOneTick_in_parts:
  "RunOneTick script now s =
     (if ts_state s = Ts_Stopped \<or> ts_state s = Ts_Created then Some (Inl Logic_error)
      else tick_body script now (let s1 = set_mode Mode_Running s in
        if ts_state s1 = Ts_Initialized then s1\<lparr>ts_state := Ts_Running\<rparr> else s1))"
  by (simp add: RunOneTick_def tick_body_def set_mode_def Let_def)

section \<open>The two threads\<close>

datatype loop_pc = Entering | Testing_flag | Testing_stopped | Testing_created | Setting_mode | Testing_initialized
  | Setting_running | Ticking | Loop_returned | Loop_threw cpp_error

datatype stop_pc = Stop_entering | Storing_flag | Storing_mode_stopping | Storing_stopping | Storing_mode_stopped
  | Storing_stopped | Stop_returned

record 'cb tick_race =
  xs_scheduler :: "'cb tick_scheduler"
  xs_loop :: loop_pc
  xs_stop :: stop_pc
  xs_ticks :: nat
  xs_late :: nat

text \<open>\<open>xs_ticks\<close> counts the ticks, \<open>xs_late\<close> those that ran after \<open>Shutdown\<close> had stored the flag.\<close>

definition tick_race_start :: "'cb tick_scheduler \<Rightarrow> 'cb tick_race" where
  "tick_race_start s = \<lparr>xs_scheduler = s, xs_loop = Entering, xs_stop = Stop_entering, xs_ticks = 0, xs_late = 0\<rparr>"

definition ticker_step :: "'cb script \<Rightarrow> time_point \<Rightarrow> 'cb tick_race \<Rightarrow> 'cb tick_race option" where
  "ticker_step script now x =
     (let s = xs_scheduler x in
      case xs_loop x of
        Entering \<Rightarrow> Some (x\<lparr>xs_loop := if ts_state s = Ts_Stopped then Loop_threw Logic_error else Testing_flag\<rparr>)
      | Testing_flag \<Rightarrow> Some (x\<lparr>xs_loop := if ts_stopRequested s then Loop_returned else Testing_stopped\<rparr>)
      | Testing_stopped \<Rightarrow> Some (x\<lparr>xs_loop := if ts_state s = Ts_Stopped then Loop_threw Logic_error else Testing_created\<rparr>)
      | Testing_created \<Rightarrow> Some (x\<lparr>xs_loop := if ts_state s = Ts_Created then Loop_threw Logic_error else Setting_mode\<rparr>)
      | Setting_mode \<Rightarrow> Some (x\<lparr>xs_loop := Testing_initialized, xs_scheduler := set_mode Mode_Running s\<rparr>)
      | Testing_initialized \<Rightarrow> Some (x\<lparr>xs_loop := if ts_state s = Ts_Initialized then Setting_running else Ticking\<rparr>)
      | Setting_running \<Rightarrow> Some (x\<lparr>xs_loop := Ticking, xs_scheduler := s\<lparr>ts_state := Ts_Running\<rparr>\<rparr>)
      | Ticking \<Rightarrow>
          (case tick_body script now s of
             None \<Rightarrow> None
           | Some (Inl e) \<Rightarrow> Some (x\<lparr>xs_loop := Loop_threw e\<rparr>)
           | Some (Inr (es, s')) \<Rightarrow> Some (x\<lparr>xs_loop := Testing_flag, xs_scheduler := s', xs_ticks := Suc (xs_ticks x),
               xs_late := (if ts_stopRequested s then Suc (xs_late x) else xs_late x)\<rparr>))
      | Loop_returned \<Rightarrow> None
      | Loop_threw e \<Rightarrow> None)"

definition stop_step :: "'cb tick_race \<Rightarrow> 'cb tick_race option" where
  "stop_step x =
     (let s = xs_scheduler x in
      case xs_stop x of
        Stop_entering \<Rightarrow> Some (x\<lparr>xs_stop := if ts_state s = Ts_Stopped then Stop_returned else Storing_flag\<rparr>)
      | Storing_flag \<Rightarrow> Some (x\<lparr>xs_stop := Storing_mode_stopping, xs_scheduler := s\<lparr>ts_stopRequested := True\<rparr>\<rparr>)
      | Storing_mode_stopping \<Rightarrow> Some (x\<lparr>xs_stop := Storing_stopping, xs_scheduler := set_mode Mode_Stopping s\<rparr>)
      | Storing_stopping \<Rightarrow> Some (x\<lparr>xs_stop := Storing_mode_stopped, xs_scheduler := s\<lparr>ts_state := Ts_Stopping\<rparr>\<rparr>)
      | Storing_mode_stopped \<Rightarrow> Some (x\<lparr>xs_stop := Storing_stopped, xs_scheduler := set_mode Mode_Stopped s\<rparr>)
      | Storing_stopped \<Rightarrow> Some (x\<lparr>xs_stop := Stop_returned, xs_scheduler := s\<lparr>ts_state := Ts_Stopped\<rparr>\<rparr>)
      | Stop_returned \<Rightarrow> None)"

inductive tick_race_step :: "'cb script \<Rightarrow> 'cb tick_race \<Rightarrow> 'cb tick_race \<Rightarrow> bool" for script :: "'cb script" where
  loop: "ticker_step script now x = Some x' \<Longrightarrow> tick_race_step script x x'"
| stop: "stop_step x = Some x' \<Longrightarrow> tick_race_step script x x'"

section \<open>After the flag is stored\<close>

lemma tick_body_ok:
  assumes "Tick script now (ts_timerQueue s) = Some (Inr (es, q))"
    and "deadline_of (ts_nextTickTime s) (tc_tickInterval (ts_config s)) = Inr t"
  shows "tick_body script now s = Some (Inr (map Timer es @ [Slept_until (ts_nextTickTime s)],
    (AdvanceTick (UpdateRuntimeContext (s\<lparr>ts_timerQueue := q\<rparr>)))\<lparr>ts_nextTickTime := t\<rparr>))"
  using assms by (simp add: tick_body_def WaitNextTick_def AdvanceTick_def UpdateRuntimeContext_def)

lemma tick_body_keeps:
  assumes "tick_body script now s = Some (Inr (es, s'))"
  shows "ts_stopRequested s' = ts_stopRequested s \<and> ts_state s' = ts_state s"
  using assms by (cases "Tick script now (ts_timerQueue s)")
    (auto simp: tick_body_def WaitNextTick_def AdvanceTick_def UpdateRuntimeContext_def Let_def and_then_Inr_iff
      split: prod.splits)

lemma set_mode_keeps [simp]:
  "ts_stopRequested (set_mode m s) = ts_stopRequested s" "ts_state (set_mode m s) = ts_state s"
  "ts_timerQueue (set_mode m s) = ts_timerQueue s" "ts_nextTickTime (set_mode m s) = ts_nextTickTime s"
  "ts_config (set_mode m s) = ts_config s"
  by (simp_all add: set_mode_def)

fun loop_work :: "loop_pc \<Rightarrow> nat" where
  "loop_work Entering = 2"
| "loop_work Testing_flag = 1"
| "loop_work Testing_stopped = 7"
| "loop_work Testing_created = 6"
| "loop_work Setting_mode = 5"
| "loop_work Testing_initialized = 4"
| "loop_work Setting_running = 3"
| "loop_work Ticking = 2"
| "loop_work Loop_returned = 0"
| "loop_work (Loop_threw e) = 0"

fun stop_work :: "stop_pc \<Rightarrow> nat" where
  "stop_work Stop_entering = 6"
| "stop_work Storing_flag = 5"
| "stop_work Storing_mode_stopping = 4"
| "stop_work Storing_stopping = 3"
| "stop_work Storing_mode_stopped = 2"
| "stop_work Storing_stopped = 1"
| "stop_work Stop_returned = 0"

definition in_tick :: "loop_pc \<Rightarrow> bool" where
  "in_tick pc \<longleftrightarrow> pc \<in> {Testing_stopped, Testing_created, Setting_mode, Testing_initialized, Setting_running, Ticking}"

definition tick_race_ok :: "'cb tick_race \<Rightarrow> bool" where
  "tick_race_ok x \<longleftrightarrow> (let s = xs_scheduler x in
     (ts_stopRequested s \<longleftrightarrow> xs_stop x \<notin> {Stop_entering, Storing_flag}) \<and>
     (\<not> ts_stopRequested s \<longrightarrow> ts_state s \<in> {Ts_Initialized, Ts_Running} \<and> xs_late x = 0) \<and>
     xs_late x + (if in_tick (xs_loop x) then 1 else 0) \<le> 1)"

definition tick_race_work :: "'cb tick_race \<Rightarrow> nat" where
  "tick_race_work x = loop_work (xs_loop x) + stop_work (xs_stop x)"

text \<open>A move of the loop that runs no tick.\<close>

lemma loop_move_ok:
  assumes ok: "tick_race_ok x" and flag: "ts_stopRequested s' = ts_stopRequested (xs_scheduler x)"
    and state: "ts_state s' \<in> {ts_state (xs_scheduler x), Ts_Running}"
    and tick: "in_tick pc \<longrightarrow> in_tick (xs_loop x) \<or> \<not> ts_stopRequested (xs_scheduler x)"
    and work: "ts_stopRequested (xs_scheduler x) \<longrightarrow> loop_work pc < loop_work (xs_loop x)"
    and x': "x' = x\<lparr>xs_loop := pc, xs_scheduler := s'\<rparr>"
  shows "tick_race_ok x' \<and> (ts_stopRequested (xs_scheduler x) \<longrightarrow>
    ts_stopRequested (xs_scheduler x') \<and> tick_race_work x' < tick_race_work x)"
proof (cases "ts_stopRequested (xs_scheduler x)")
  case True
  then show ?thesis
    using assms by (simp add: tick_race_ok_def tick_race_work_def Let_def split: if_splits)
next
  case False
  then show ?thesis
    using ok flag state unfolding x' by (auto simp: tick_race_ok_def Let_def)
qed

lemma ticker_step_ok:
  assumes "ticker_step script now x = Some x'" and "tick_race_ok x"
  shows "tick_race_ok x' \<and> (ts_stopRequested (xs_scheduler x) \<longrightarrow>
    ts_stopRequested (xs_scheduler x') \<and> tick_race_work x' < tick_race_work x)"
proof (cases "xs_loop x")
  case Ticking
  note pc = this
  show ?thesis
  proof (cases "tick_body script now (xs_scheduler x)")
    case None
    then show ?thesis using assms(1) pc by (simp add: ticker_step_def)
  next
    case (Some r)
    show ?thesis
    proof (cases r)
      case (Inl e)
      then show ?thesis
        by (intro loop_move_ok [OF assms(2), where pc = "Loop_threw e" and s' = "xs_scheduler x"])
          (use assms(1) pc Some Inl in \<open>force simp: ticker_step_def in_tick_def\<close>)+
    next
      case (Inr y)
      obtain es s' where y: "y = (es, s')" by (cases y)
      have "x' = x\<lparr>xs_loop := Testing_flag, xs_scheduler := s', xs_ticks := Suc (xs_ticks x),
          xs_late := (if ts_stopRequested (xs_scheduler x) then Suc (xs_late x) else xs_late x)\<rparr>"
        using assms(1) pc Some Inr y by (simp add: ticker_step_def)
      then show ?thesis
        using assms(2) pc tick_body_keeps [of script now "xs_scheduler x" es s'] Some Inr y
        by (simp add: tick_race_ok_def tick_race_work_def in_tick_def Let_def split: if_splits)
    qed
  qed
next
  case Setting_mode
  then show ?thesis
    by (intro loop_move_ok [OF assms(2), where pc = Testing_initialized and s' = "set_mode Mode_Running (xs_scheduler x)"])
      (use assms(1) in \<open>simp_all add: ticker_step_def Let_def in_tick_def\<close>)
next
  case Setting_running
  then show ?thesis
    by (intro loop_move_ok [OF assms(2), where pc = Ticking and s' = "(xs_scheduler x)\<lparr>ts_state := Ts_Running\<rparr>"])
      (use assms(1) in \<open>simp_all add: ticker_step_def Let_def in_tick_def\<close>)
qed (use assms loop_move_ok [OF assms(2), where x' = x' and s' = "xs_scheduler x" and pc = "xs_loop x'"]
  in \<open>force simp: ticker_step_def Let_def in_tick_def split: if_splits\<close>)+

lemma stop_step_ok:
  assumes "stop_step x = Some x'" and "tick_race_ok x"
  shows "tick_race_ok x' \<and> (ts_stopRequested (xs_scheduler x) \<longrightarrow>
    ts_stopRequested (xs_scheduler x') \<and> tick_race_work x' < tick_race_work x)"
  using assms by (cases "xs_stop x") (auto simp: stop_step_def tick_race_ok_def tick_race_work_def Let_def)

lemma tick_race_step_ok:
  "tick_race_step script x x' \<Longrightarrow> tick_race_ok x \<Longrightarrow> tick_race_ok x' \<and> (ts_stopRequested (xs_scheduler x) \<longrightarrow>
    ts_stopRequested (xs_scheduler x') \<and> tick_race_work x' < tick_race_work x)"
  by (induction rule: tick_race_step.induct) (blast dest: ticker_step_ok stop_step_ok)+

lemma tick_race_reachable_ok:
  assumes "(tick_race_step script)\<^sup>*\<^sup>* (tick_race_start s) x" and "ts_state s \<in> {Ts_Initialized, Ts_Running}" and "\<not> ts_stopRequested s"
  shows "tick_race_ok x"
  using assms(1)
proof (induction rule: rtranclp_induct)
  case base
  show ?case using assms(2,3) by (simp add: tick_race_ok_def tick_race_start_def in_tick_def Let_def)
next
  case (step y z)
  then show ?case using tick_race_step_ok by blast
qed

lemma tick_race_bounded:
  "(tick_race_step script ^^ n) x x' \<Longrightarrow> tick_race_ok x \<Longrightarrow> ts_stopRequested (xs_scheduler x) \<Longrightarrow> n \<le> tick_race_work x"
proof (induction n arbitrary: x)
  case (Suc n)
  from Suc.prems(1) obtain y where "tick_race_step script x y" "(tick_race_step script ^^ n) y x'"
    by (blast elim: relpowp_Suc_E2)
  then show ?case using Suc.IH [of y] Suc.prems tick_race_step_ok [of script x y] by auto
qed simp

lemma tick_race_rest:
  assumes "\<And>x'. \<not> tick_race_step script x x'"
  shows "xs_stop x = Stop_returned \<and> (xs_loop x \<in> insert Loop_returned (range Loop_threw)
    \<or> xs_loop x = Ticking \<and> tick_body script now (xs_scheduler x) = None)"
proof -
  have "stop_step x = None" using assms tick_race_step.stop [of x] by (cases "stop_step x") auto
  moreover have "ticker_step script now x = None" using assms tick_race_step.loop [of script now x] by (cases "ticker_step script now x") auto
  ultimately show ?thesis
    by (cases "xs_stop x"; cases "xs_loop x") (auto simp: stop_step_def ticker_step_def Let_def split: option.splits sum.splits)
qed

text \<open>A schedule: \<open>True\<close> for the loop, \<open>False\<close> for \<open>Shutdown\<close>.\<close>

fun run_moves :: "'cb script \<Rightarrow> time_point \<Rightarrow> bool list \<Rightarrow> 'cb tick_race \<Rightarrow> 'cb tick_race option" where
  "run_moves script now [] x = Some x"
| "run_moves script now (m # ms) x =
     (case if m then ticker_step script now x else stop_step x of None \<Rightarrow> None | Some x' \<Rightarrow> run_moves script now ms x')"

lemma run_moves_reachable: "run_moves script now ms x = Some y \<Longrightarrow> (tick_race_step script)\<^sup>*\<^sup>* x y"
proof (induction ms arbitrary: x)
  case (Cons m ms)
  then obtain z where "(if m then ticker_step script now x else stop_step x) = Some z" "run_moves script now ms z = Some y"
    by (auto split: option.splits)
  then have "tick_race_step script x z" by (auto intro: tick_race_step.intros split: if_splits)
  then show ?case using Cons.IH [OF \<open>run_moves script now ms z = Some y\<close>] by (rule converse_rtranclp_into_rtranclp)
qed simp

section \<open>Properties\<close>

text \<open>C29. A shutdown stops the loop whatever the schedule: once \<open>Shutdown\<close> has stored its flag at most one more tick runs and the
  two threads take at most 11 more steps together; and they come to rest only when \<open>Shutdown\<close> has returned and
  \<open>RunUntilStopped\<close> has returned or thrown, or is in a tick whose timers never end.\<close>

theorem shutdown_stops_the_loop:
  assumes "ts_state s \<in> {Ts_Initialized, Ts_Running}" and "\<not> ts_stopRequested s"
    and "(tick_race_step script)\<^sup>*\<^sup>* (tick_race_start s) x"
  shows "xs_late x \<le> 1 \<and>
    (xs_stop x \<notin> {Stop_entering, Storing_flag} \<longrightarrow> (\<forall>n x'. (tick_race_step script ^^ n) x x' \<longrightarrow> n \<le> 11)) \<and>
    ((\<forall>x'. \<not> tick_race_step script x x') \<longrightarrow> xs_stop x = Stop_returned \<and>
      (xs_loop x \<in> insert Loop_returned (range Loop_threw) \<or> xs_loop x = Ticking \<and> tick_body script now (xs_scheduler x) = None))"
proof -
  have ok: "tick_race_ok x" using tick_race_reachable_ok [OF assms(3,1,2)] .
  have "loop_work pc \<le> 7" for pc by (cases pc) simp_all
  moreover have "stop_work pc \<le> 4" if "pc \<notin> {Stop_entering, Storing_flag}" for pc using that by (cases pc) simp_all
  ultimately have "tick_race_work x \<le> 11" if "xs_stop x \<notin> {Stop_entering, Storing_flag}"
    using that add_mono [of "loop_work (xs_loop x)" 7 "stop_work (xs_stop x)" 4] by (simp add: tick_race_work_def)
  then have "n \<le> 11" if "xs_stop x \<notin> {Stop_entering, Storing_flag}" "(tick_race_step script ^^ n) x x'" for n x'
    using tick_race_bounded [OF that(2) ok] ok that(1) by (simp add: tick_race_ok_def Let_def)
  moreover have "xs_late x \<le> 1" using ok by (auto simp: tick_race_ok_def Let_def split: if_splits)
  ultimately show ?thesis using tick_race_rest [of script x now] by blast
qed

text \<open>C39. A shutdown may be undone: when it runs between the loop's test for \<open>Initialized\<close> and its store of \<open>Running\<close>, both calls
  return, and the scheduler stays \<open>Running\<close> for ever, so that \<open>GetState\<close> is wrong and later ticks are not refused.\<close>

theorem shutdown_can_be_overwritten:
  assumes "ts_state s = Ts_Initialized" and "\<not> ts_stopRequested s" and "Tick script now (ts_timerQueue s) = Some (Inr (es, q))"
    and "deadline_of (ts_nextTickTime s) (tc_tickInterval (ts_config s)) = Inr t"
  shows "\<exists>x. (tick_race_step script)\<^sup>*\<^sup>* (tick_race_start s) x \<and> xs_loop x = Loop_returned \<and> xs_stop x = Stop_returned \<and>
    xs_late x = 1 \<and> Scheduler_GetState (xs_scheduler x) = Ts_Running \<and>
    RunOneTick script now' (xs_scheduler x) = tick_body script now' (set_mode Mode_Running (xs_scheduler x))"
proof -
  let ?stopped = "(set_mode Mode_Stopped ((set_mode Mode_Stopping ((set_mode Mode_Running s)\<lparr>ts_stopRequested := True\<rparr>))\<lparr>ts_state := Ts_Stopping\<rparr>))\<lparr>ts_state := Ts_Stopped\<rparr>"
  let ?running = "?stopped\<lparr>ts_state := Ts_Running\<rparr>"
  let ?last = "(AdvanceTick (UpdateRuntimeContext (?running\<lparr>ts_timerQueue := q\<rparr>)))\<lparr>ts_nextTickTime := t\<rparr>"
  let ?x = "\<lparr>xs_scheduler = ?last, xs_loop = Loop_returned, xs_stop = Stop_returned, xs_ticks = 1, xs_late = 1\<rparr>"
  have body: "tick_body script now ?running = Some (Inr (map Timer es @ [Slept_until (ts_nextTickTime s)], ?last))"
    using tick_body_ok [of script now ?running es q t] assms(3,4) by simp
  have end_flag: "ts_stopRequested ?last" "ts_state ?last = Ts_Running" by (simp_all add: AdvanceTick_def UpdateRuntimeContext_def)
  have "run_moves script now (replicate 6 True @ replicate 6 False @ [True]) (tick_race_start s)
      = Some \<lparr>xs_scheduler = ?running, xs_loop = Ticking, xs_stop = Stop_returned, xs_ticks = 0, xs_late = 0\<rparr>"
    using assms(1,2) by (simp add: tick_race_start_def ticker_step_def stop_step_def set_mode_def numeral_eq_Suc)
  moreover have "run_moves script now [True, True]
      \<lparr>xs_scheduler = ?running, xs_loop = Ticking, xs_stop = Stop_returned, xs_ticks = 0, xs_late = 0\<rparr> = Some ?x"
    using body end_flag(1) by (simp add: ticker_step_def Let_def)
  ultimately have "(tick_race_step script)\<^sup>*\<^sup>* (tick_race_start s) ?x"
    using run_moves_reachable by (meson rtranclp_trans)
  moreover have "RunOneTick script now' ?last = tick_body script now' (set_mode Mode_Running ?last)"
    using end_flag(2) by (simp add: RunOneTick_in_parts Let_def)
  ultimately show ?thesis
    using end_flag(2) by (intro exI [of _ ?x]) (simp add: Scheduler_GetState_def)
qed

definition fresh_scheduler :: "nat tick_scheduler" where
  "fresh_scheduler = (let s = TickScheduler_new TickSchedulerConfig_new RuntimePipeline_new TimerQueue_new
     in case Scheduler_Initialize 0 s of Inr (b, s') \<Rightarrow> s' | Inl e \<Rightarrow> s)"

lemma fresh_scheduler_facts:
  "ts_state fresh_scheduler = Ts_Initialized" "\<not> ts_stopRequested fresh_scheduler"
  "Tick (\<lambda>cb q. []) now (ts_timerQueue fresh_scheduler) = Some (Inr ([], TimerQueue_new))"
  "deadline_of (ts_nextTickTime fresh_scheduler) (tc_tickInterval (ts_config fresh_scheduler)) = Inr 100000000"
proof -
  have "DispatchExpired (\<lambda>cb q. []) now (TimerQueue_new :: nat timer_queue) = Some (Inr ([], TimerQueue_new))"
    by (subst DispatchExpired.simps) (simp add: pop_expired_def TimerQueue_new_def)
  then show "Tick (\<lambda>cb q. []) now (ts_timerQueue fresh_scheduler) = Some (Inr ([], TimerQueue_new))"
    by (simp add: Tick_def fresh_scheduler_def TickScheduler_new_def Scheduler_Initialize_def TickSchedulerConfig_new_def
        deadline_of_def in_int64_def Let_def UpdateRuntimeContext_def)
qed (simp_all add: fresh_scheduler_def TickScheduler_new_def Scheduler_Initialize_def TickSchedulerConfig_new_def
      deadline_of_def in_int64_def Let_def UpdateRuntimeContext_def)

theorem shutdown_can_be_overwritten_witness:
  "\<exists>x. (tick_race_step (\<lambda>cb q. []))\<^sup>*\<^sup>* (tick_race_start fresh_scheduler) x \<and> xs_loop x = Loop_returned \<and>
    xs_stop x = Stop_returned \<and> Scheduler_GetState (xs_scheduler x) = Ts_Running"
  using shutdown_can_be_overwritten [OF fresh_scheduler_facts(1,2), of "\<lambda>cb q. []" 7 "[]" TimerQueue_new 100000000]
    fresh_scheduler_facts(3,4) by blast

theorem shutdown_stops_the_loop_witness:
  "\<exists>x. (tick_race_step (\<lambda>cb q. []))\<^sup>*\<^sup>* (tick_race_start fresh_scheduler) x \<and> xs_stop x = Storing_mode_stopping \<and>
    xs_late x \<le> 1 \<and> \<not> (\<exists>x'. (tick_race_step (\<lambda>cb q. []) ^^ 12) x x')"
proof -
  have "\<exists>x. run_moves (\<lambda>cb q. []) 7 [True, True, False, False] (tick_race_start fresh_scheduler) = Some x \<and> xs_stop x = Storing_mode_stopping"
    using fresh_scheduler_facts(1,2) by (simp add: tick_race_start_def ticker_step_def stop_step_def)
  then obtain x where x: "(tick_race_step (\<lambda>cb q. []))\<^sup>*\<^sup>* (tick_race_start fresh_scheduler) x" "xs_stop x = Storing_mode_stopping"
    using run_moves_reachable by blast
  have "ts_state fresh_scheduler \<in> {Ts_Initialized, Ts_Running}" using fresh_scheduler_facts(1) by simp
  note T = shutdown_stops_the_loop [OF this fresh_scheduler_facts(2) x(1)]
  have "\<not> (tick_race_step (\<lambda>cb q. []) ^^ 12) x x'" for x'
    using T [THEN conjunct2, THEN conjunct1] x(2) by fastforce
  then show ?thesis using T x by blast
qed

end
