(* ===== verification/Net_Connection.thy ===== *)
theory Net_Connection
  imports Net_Codec
begin

text \<open>
  A connection of the server (\<open>Net/TcpConnection.cpp\<close>) and the write loop that any thread may enter
  (\<open>NetServer::Impl::StartWriteLoop\<close>), one atomic access or critical section per step. The socket is
  the library's: \<open>Disconnect\<close> leaves it closed, and an \<open>async_write\<close> is an entry of \<open>wl_inflight\<close> until
  its completion handler is called. Under every schedule packets leave in the order in which they were
  accepted, one at a time, none is left behind, and the loop comes to rest.
\<close>

section \<open>TcpConnection\<close>

definition kMaxPendingSendPackets :: nat where
  "kMaxPendingSendPackets = 1024"

record tcp_connection =
  cn_connectionId :: ConnectionId
  cn_socket_open :: bool
  cn_connected :: bool
  cn_receiveBuffer :: byte_buffer
  cn_sendQueue :: "byte_buffer list"
  cn_writeInProgress :: bool

definition TcpConnection_new :: "ConnectionId \<Rightarrow> tcp_connection" where
  "TcpConnection_new i =
     \<lparr>cn_connectionId = i, cn_socket_open = True, cn_connected = True, cn_receiveBuffer = [], cn_sendQueue = [],
      cn_writeInProgress = False\<rparr>"

definition GetId :: "tcp_connection \<Rightarrow> ConnectionId" where
  "GetId c = cn_connectionId c"

definition IsConnected :: "tcp_connection \<Rightarrow> bool" where
  "IsConnected c = cn_connected c"

definition Disconnect :: "tcp_connection \<Rightarrow> tcp_connection" where
  "Disconnect c = (if \<not> cn_connected c then c else c\<lparr>cn_connected := False, cn_socket_open := False\<rparr>)"

lemma Disconnect_fields [simp]:
  "cn_sendQueue (Disconnect c) = cn_sendQueue c" "cn_connected (Disconnect c) \<longleftrightarrow> False"
  "cn_writeInProgress (Disconnect c) = cn_writeInProgress c"
  by (simp_all add: Disconnect_def)

text \<open>The part of \<open>EnqueueSend\<close> under the lock, and the whole.\<close>

definition enqueue_locked :: "byte_buffer \<Rightarrow> tcp_connection \<Rightarrow> bool \<times> tcp_connection" where
  "enqueue_locked packet c =
     (if length (cn_sendQueue c) \<ge> kMaxPendingSendPackets then (False, c)
      else (True, c\<lparr>cn_sendQueue := cn_sendQueue c @ [packet]\<rparr>))"

definition EnqueueSend :: "byte_buffer \<Rightarrow> tcp_connection \<Rightarrow> bool \<times> tcp_connection" where
  "EnqueueSend packet c = (if \<not> cn_connected c then (False, c) else enqueue_locked packet c)"

definition TryPopSend :: "tcp_connection \<Rightarrow> byte_buffer \<Rightarrow> bool \<times> byte_buffer \<times> tcp_connection" where
  "TryPopSend c packet =
     (case cn_sendQueue c of [] \<Rightarrow> (False, packet, c) | p # ps \<Rightarrow> (True, p, c\<lparr>cn_sendQueue := ps\<rparr>))"

definition TryBeginWrite :: "tcp_connection \<Rightarrow> bool \<times> tcp_connection" where
  "TryBeginWrite c = (if cn_writeInProgress c then (False, c) else (True, c\<lparr>cn_writeInProgress := True\<rparr>))"

definition EndWrite :: "tcp_connection \<Rightarrow> tcp_connection" where
  "EndWrite c = c\<lparr>cn_writeInProgress := False\<rparr>"

definition HasPendingSend :: "tcp_connection \<Rightarrow> bool" where
  "HasPendingSend c \<longleftrightarrow> cn_sendQueue c \<noteq> []"

section \<open>The write loop, step by step\<close>

text \<open>
  Where a thread is: outside, at the two halves of \<open>EnqueueSend\<close>, in \<open>StartWriteLoop\<close> (at the begin
  of a write, at the pop, at \<open>async_write\<close>, at the end of an empty write, at the test for pending
  packets), or in a completion handler (the write succeeded; it failed, and then at \<open>EndWrite\<close>).
\<close>

datatype net_pc =
    Outside
  | At_check byte_buffer
  | At_lock byte_buffer
  | At_begin
  | At_pop
  | At_write byte_buffer
  | At_end_empty
  | At_pending
  | Write_done
  | Write_failed
  | At_end_failed

record write_loop =
  wl_conn :: tcp_connection
  wl_inflight :: "byte_buffer list"
  wl_threads :: "net_pc list"
  wl_accepted :: "byte_buffer list"
  wl_written :: "byte_buffer list"

definition write_loop_new :: "ConnectionId \<Rightarrow> nat \<Rightarrow> write_loop" where
  "write_loop_new i n =
     \<lparr>wl_conn = TcpConnection_new i, wl_inflight = [], wl_threads = replicate n Outside, wl_accepted = [], wl_written = []\<rparr>"

definition goto :: "nat \<Rightarrow> net_pc \<Rightarrow> write_loop \<Rightarrow> write_loop" where
  "goto t pc s = s\<lparr>wl_threads := (wl_threads s)[t := pc]\<rparr>"

text \<open>The next step of thread \<open>t\<close>; one outside has none of its own.\<close>

definition thread_step :: "nat \<Rightarrow> write_loop \<Rightarrow> write_loop option" where
  "thread_step t s =
     (if t \<ge> length (wl_threads s) then None
      else let c = wl_conn s in
        case wl_threads s ! t of
          Outside \<Rightarrow> None
        | At_check p \<Rightarrow> Some (goto t (if IsConnected c then At_lock p else Outside) s)
        | At_lock p \<Rightarrow>
            (case enqueue_locked p c of (ok, c') \<Rightarrow>
               if \<not> ok then Some (goto t Outside s)
               else Some (goto t At_begin (s\<lparr>wl_conn := c', wl_accepted := wl_accepted s @ [p]\<rparr>)))
        | At_begin \<Rightarrow>
            (case TryBeginWrite c of (ok, c') \<Rightarrow>
               Some (goto t (if ok then At_pop else Outside) (s\<lparr>wl_conn := c'\<rparr>)))
        | At_pop \<Rightarrow>
            (case TryPopSend c [] of (ok, p, c') \<Rightarrow>
               Some (goto t (if ok then At_write p else At_end_empty) (s\<lparr>wl_conn := c'\<rparr>)))
        | At_write p \<Rightarrow>
            Some (goto t Outside (s\<lparr>wl_inflight := wl_inflight s @ [p], wl_written := wl_written s @ [p]\<rparr>))
        | At_end_empty \<Rightarrow> Some (goto t At_pending (s\<lparr>wl_conn := EndWrite c\<rparr>))
        | At_pending \<Rightarrow> Some (goto t (if HasPendingSend c then At_begin else Outside) s)
        | Write_done \<Rightarrow> Some (goto t At_begin (s\<lparr>wl_conn := EndWrite c\<rparr>))
        | Write_failed \<Rightarrow> Some (goto t At_end_failed (s\<lparr>wl_conn := Disconnect c\<rparr>))
        | At_end_failed \<Rightarrow> Some (goto t Outside (s\<lparr>wl_conn := EndWrite c\<rparr>)))"

text \<open>The steps of the loop, the completion of a write, a new \<open>Send\<close>, and a failed read.\<close>

inductive loop_step :: "write_loop \<Rightarrow> write_loop \<Rightarrow> bool" where
  own: "thread_step t s = Some s' \<Longrightarrow> loop_step s s'"
| completed: "t < length (wl_threads s) \<Longrightarrow> wl_threads s ! t = Outside \<Longrightarrow> wl_inflight s = ps @ p # qs \<Longrightarrow>
    loop_step s (goto t (if ok then Write_done else Write_failed) (s\<lparr>wl_inflight := ps @ qs\<rparr>))"

inductive net_step :: "write_loop \<Rightarrow> write_loop \<Rightarrow> bool" where
  loop: "loop_step s s' \<Longrightarrow> net_step s s'"
| send: "t < length (wl_threads s) \<Longrightarrow> wl_threads s ! t = Outside \<Longrightarrow> net_step s (goto t (At_check p) s)"
| read_failed: "net_step s (s\<lparr>wl_conn := Disconnect (wl_conn s)\<rparr>)"

inductive net_reachable :: "write_loop \<Rightarrow> write_loop \<Rightarrow> bool" for s0 :: write_loop where
  start: "net_reachable s0 s0"
| step: "net_reachable s0 s \<Longrightarrow> net_step s s' \<Longrightarrow> net_reachable s0 s'"

section \<open>The invariant\<close>

text \<open>Whether a thread holds the right to write, and the packet it is about to write.\<close>

fun holds_write :: "net_pc \<Rightarrow> nat" where
  "holds_write At_pop = 1"
| "holds_write (At_write p) = 1"
| "holds_write At_end_empty = 1"
| "holds_write Write_done = 1"
| "holds_write Write_failed = 1"
| "holds_write At_end_failed = 1"
| "holds_write _ = 0"

fun carried :: "net_pc \<Rightarrow> byte_buffer list" where
  "carried (At_write p) = [p]"
| "carried _ = []"

fun looks_again :: "net_pc \<Rightarrow> bool" where
  "looks_again At_begin = True"
| "looks_again At_pending = True"
| "looks_again _ = False"

definition write_inv :: "write_loop \<Rightarrow> bool" where
  "write_inv s \<longleftrightarrow>
     sum_list (map holds_write (wl_threads s)) + length (wl_inflight s) = of_bool (cn_writeInProgress (wl_conn s)) \<and>
     wl_accepted s = wl_written s @ concat (map carried (wl_threads s)) @ cn_sendQueue (wl_conn s) \<and>
     length (cn_sendQueue (wl_conn s)) \<le> kMaxPendingSendPackets \<and>
     (At_end_failed \<in> set (wl_threads s) \<longrightarrow> \<not> cn_connected (wl_conn s)) \<and>
     (cn_sendQueue (wl_conn s) \<noteq> [] \<longrightarrow> cn_writeInProgress (wl_conn s) \<or> (\<exists>pc \<in> set (wl_threads s). looks_again pc)
        \<or> \<not> cn_connected (wl_conn s))"

lemma write_inv_new: "write_inv (write_loop_new i n)"
  by (simp add: write_inv_def write_loop_new_def TcpConnection_new_def sum_list_replicate concat_replicate_trivial)

text \<open>The writing thread is the only one that carries a packet.\<close>

lemma carried_update_same:
  "t < length xs \<Longrightarrow> carried pc = carried (xs ! t) \<Longrightarrow> concat (map carried (xs[t := pc])) = concat (map carried xs)"
  by (simp add: map_update) (metis length_map list_update_id nth_map)

lemma carried_none: "sum_list (map holds_write xs) = 0 \<Longrightarrow> concat (map carried xs) = []"
proof (induction xs)
  case (Cons x xs)
  then show ?case by (cases x) auto
qed simp

lemma carried_one:
  assumes "t < length xs" and "sum_list (map holds_write xs) = holds_write (xs ! t)"
  shows "concat (map carried (xs[t := pc])) = carried pc"
proof -
  have "xs = take t xs @ xs ! t # drop (Suc t) xs" using assms(1) by (rule id_take_nth_drop)
  then have "sum_list (map holds_write xs)
      = sum_list (map holds_write (take t xs)) + holds_write (xs ! t) + sum_list (map holds_write (drop (Suc t) xs))"
    by (metis list.simps(9) map_append sum_list.Cons sum_list.append add.assoc)
  then have none: "concat (map carried (take t xs)) = []" "concat (map carried (drop (Suc t) xs)) = []"
    using assms(2) by (intro carried_none; linarith)+
  show ?thesis by (simp add: upd_conv_take_nth_drop [OF assms(1)] none del: concat_eq_Nil_conv)
qed

lemma looks_update:
  "t < length xs \<Longrightarrow> \<exists>pc \<in> set xs. looks_again pc \<Longrightarrow> looks_again pc' \<or> \<not> looks_again (xs ! t) \<Longrightarrow>
   \<exists>pc \<in> set (xs[t := pc']). looks_again pc"
  by (metis in_set_conv_nth length_list_update nth_list_update)

lemma threads_goto [simp]: "wl_threads (goto t pc s) = (wl_threads s)[t := pc]" "wl_conn (goto t pc s) = wl_conn s"
  "wl_inflight (goto t pc s) = wl_inflight s" "wl_accepted (goto t pc s) = wl_accepted s" "wl_written (goto t pc s) = wl_written s"
  by (simp_all add: goto_def)

lemma holder_bound: "t < length xs \<Longrightarrow> holds_write (xs ! t) \<le> sum_list (map holds_write xs)"
  by (intro member_le_sum_list) auto

text \<open>One thread moves.\<close>

lemma write_inv_move:
  assumes inv: "write_inv s" and t: "t < length (wl_threads s)" and s': "wl_threads s' = (wl_threads s)[t := pc]"
    and holds: "holds_write pc + length (wl_inflight s') + of_bool (cn_writeInProgress (wl_conn s))
      = holds_write (wl_threads s ! t) + length (wl_inflight s) + of_bool (cn_writeInProgress (wl_conn s'))"
    and data: "carried pc = carried (wl_threads s ! t) \<and> cn_sendQueue (wl_conn s') = cn_sendQueue (wl_conn s)
        \<and> wl_accepted s' = wl_accepted s \<and> wl_written s' = wl_written s
      \<or> (holds_write (wl_threads s ! t) = 1 \<and> wl_accepted s' = wl_accepted s \<and>
         wl_written s' @ carried pc @ cn_sendQueue (wl_conn s') = wl_written s @ carried (wl_threads s ! t) @ cn_sendQueue (wl_conn s))
      \<or> (carried pc = carried (wl_threads s ! t) \<and> wl_written s' = wl_written s \<and>
         (\<exists>p. wl_accepted s' = wl_accepted s @ [p] \<and> cn_sendQueue (wl_conn s') = cn_sendQueue (wl_conn s) @ [p]))"
    and bound: "length (cn_sendQueue (wl_conn s')) \<le> kMaxPendingSendPackets"
    and failed: "cn_connected (wl_conn s') \<longrightarrow> cn_connected (wl_conn s) \<and> pc \<noteq> At_end_failed"
    and again: "cn_sendQueue (wl_conn s') \<noteq> [] \<longrightarrow> cn_writeInProgress (wl_conn s') \<or> looks_again pc \<or> \<not> cn_connected (wl_conn s')
      \<or> (\<not> looks_again (wl_threads s ! t) \<and> cn_sendQueue (wl_conn s) \<noteq> [] \<and> \<not> cn_writeInProgress (wl_conn s))"
  shows "write_inv s'"
proof -
  let ?xs = "wl_threads s"
  have I: "sum_list (map holds_write ?xs) + length (wl_inflight s) = of_bool (cn_writeInProgress (wl_conn s))"
    "wl_accepted s = wl_written s @ concat (map carried ?xs) @ cn_sendQueue (wl_conn s)"
    "At_end_failed \<in> set ?xs \<longrightarrow> \<not> cn_connected (wl_conn s)"
    "cn_sendQueue (wl_conn s) \<noteq> [] \<longrightarrow> cn_writeInProgress (wl_conn s) \<or> (\<exists>pc \<in> set ?xs. looks_again pc) \<or> \<not> cn_connected (wl_conn s)"
    using inv by (simp_all add: write_inv_def)
  have sums: "sum_list (map holds_write (?xs[t := pc])) + length (wl_inflight s') = of_bool (cn_writeInProgress (wl_conn s'))"
    using sum_list_update_plus [OF t, of holds_write pc] holds I(1) by linarith
  have fifo: "wl_accepted s' = wl_written s' @ concat (map carried (?xs[t := pc])) @ cn_sendQueue (wl_conn s')"
    using data
  proof (elim disjE)
    assume "holds_write (?xs ! t) = 1 \<and> wl_accepted s' = wl_accepted s \<and>
      wl_written s' @ carried pc @ cn_sendQueue (wl_conn s') = wl_written s @ carried (?xs ! t) @ cn_sendQueue (wl_conn s)"
    moreover from this have "sum_list (map holds_write ?xs) = holds_write (?xs ! t)"
      using holder_bound [OF t] I(1) by (cases "cn_writeInProgress (wl_conn s)") (auto simp del: sum_list_eq_0_iff)
    ultimately show ?thesis
      using carried_one [OF t, of pc] carried_one [OF t, of "?xs ! t"] I(2) by simp
  qed (use carried_update_same [OF t, of pc] I(2) in auto)
  have "At_end_failed \<in> set (?xs[t := pc]) \<longrightarrow> \<not> cn_connected (wl_conn s')"
    using failed I(3) set_update_subset_insert [of ?xs t pc] by auto
  moreover have "cn_sendQueue (wl_conn s') \<noteq> [] \<longrightarrow> cn_writeInProgress (wl_conn s') \<or> (\<exists>pc \<in> set (?xs[t := pc]). looks_again pc)
      \<or> \<not> cn_connected (wl_conn s')"
    using again failed I(4) looks_update [OF t, of pc] set_update_memI [OF t, of pc] by blast
  ultimately show ?thesis using sums fifo bound s' by (simp add: write_inv_def)
qed

lemma write_inv_bound: "write_inv s \<Longrightarrow> length (cn_sendQueue (wl_conn s)) \<le> kMaxPendingSendPackets"
  by (simp add: write_inv_def)

lemma write_inv_holder:
  assumes "write_inv s" and "t < length (wl_threads s)" and "holds_write (wl_threads s ! t) = 1"
  shows "cn_writeInProgress (wl_conn s)" and "wl_inflight s = []"
proof -
  have I: "sum_list (map holds_write (wl_threads s)) + length (wl_inflight s) = of_bool (cn_writeInProgress (wl_conn s))"
    using assms(1) by (simp add: write_inv_def)
  have "1 \<le> sum_list (map holds_write (wl_threads s))" using holder_bound [OF assms(2)] assms(3) by simp
  then have "cn_writeInProgress (wl_conn s) \<and> length (wl_inflight s) = 0"
    using I by (cases "cn_writeInProgress (wl_conn s)") (simp_all del: sum_list_eq_0_iff length_0_conv)
  then show "cn_writeInProgress (wl_conn s)" and "wl_inflight s = []" by simp_all
qed

lemma thread_step_inv:
  assumes inv: "write_inv s" and step: "thread_step t s = Some s'"
  shows "write_inv s'"
proof -
  have t: "t < length (wl_threads s)" using step by (simp add: thread_step_def split: if_splits)
  note move = write_inv_move [OF inv t] and bound = write_inv_bound [OF inv] and holder = write_inv_holder [OF inv t]
  note step = step [unfolded thread_step_def Let_def]
  show ?thesis
  proof (cases "wl_threads s ! t")
    case Outside
    then show ?thesis using step t by simp
  next
    case (At_check p)
    then show ?thesis
      using step t bound by (intro move [where pc = "if IsConnected (wl_conn s) then At_lock p else Outside"]) auto
  next
    case (At_lock p)
    show ?thesis
    proof (cases "length (cn_sendQueue (wl_conn s)) < kMaxPendingSendPackets")
      case True
      then show ?thesis
        using step t At_lock by (intro move [where pc = At_begin]) (auto simp: enqueue_locked_def)
    next
      case False
      then show ?thesis
        using step t At_lock bound by (intro move [where pc = Outside]) (auto simp: enqueue_locked_def)
    qed
  next
    case At_begin
    show ?thesis
    proof (cases "cn_writeInProgress (wl_conn s)")
      case True
      then show ?thesis
        using step t At_begin bound by (intro move [where pc = Outside]) (auto simp: TryBeginWrite_def)
    next
      case False
      then show ?thesis
        using step t At_begin bound by (intro move [where pc = At_pop]) (auto simp: TryBeginWrite_def)
    qed
  next
    case At_pop
    show ?thesis
    proof (cases "cn_sendQueue (wl_conn s)")
      case Nil
      then show ?thesis
        using step t At_pop by (intro move [where pc = At_end_empty]) (auto simp: TryPopSend_def)
    next
      case (Cons p ps)
      then show ?thesis
        using step t At_pop bound holder by (intro move [where pc = "At_write p"]) (auto simp: TryPopSend_def)
    qed
  next
    case (At_write p)
    then show ?thesis
      using step t bound holder by (intro move [where pc = Outside]) auto
  next
    case At_end_empty
    then show ?thesis
      using step t bound holder by (intro move [where pc = At_pending]) (auto simp: EndWrite_def)
  next
    case At_pending
    then show ?thesis
      using step t bound by (intro move [where pc = "if HasPendingSend (wl_conn s) then At_begin else Outside"]) (auto simp: HasPendingSend_def)
  next
    case Write_done
    then show ?thesis
      using step t bound holder by (intro move [where pc = At_begin]) (auto simp: EndWrite_def)
  next
    case Write_failed
    then show ?thesis
      using step t bound holder by (intro move [where pc = At_end_failed]) auto
  next
    case At_end_failed
    then have "\<not> cn_connected (wl_conn s)" using inv t nth_mem [OF t] by (simp add: write_inv_def)
    then show ?thesis
      using step t bound holder At_end_failed by (intro move [where pc = Outside]) (auto simp: EndWrite_def)
  qed
qed

lemma net_step_inv:
  assumes "net_step s s'" and inv: "write_inv s"
  shows "write_inv s'"
  using assms(1)
proof cases
  case loop
  then show ?thesis
  proof cases
    case (own t)
    then show ?thesis by (rule thread_step_inv [OF inv])
  next
    case (completed t ps p qs ok)
    then have "cn_writeInProgress (wl_conn s)"
      using inv by (cases "cn_writeInProgress (wl_conn s)") (auto simp: write_inv_def)
    then show ?thesis
      using completed write_inv_bound [OF inv]
      by (intro write_inv_move [OF inv completed(2), where pc = "if ok then Write_done else Write_failed"]) auto
  qed
next
  case (send t p)
  then show ?thesis
    using write_inv_bound [OF inv] by (intro write_inv_move [OF inv send(2), where pc = "At_check p"]) auto
next
  case read_failed
  then show ?thesis using inv by (auto simp: write_inv_def)
qed

lemma net_reachable_inv: "net_reachable (write_loop_new i n) s \<Longrightarrow> write_inv s"
  by (induction rule: net_reachable.induct) (auto intro: write_inv_new net_step_inv)

lemma of_bool_le: "of_bool b \<le> (1::nat)"
  by simp

text \<open>Whatever the threads that send, the completions and the failures: at most one \<open>async_write\<close> is
  outstanding on a connection, and the packets accepted by \<open>EnqueueSend\<close> are those given to
  \<open>async_write\<close>, in the same order, then the one a thread is about to write, then the queue, which
  never exceeds its limit.\<close>

theorem writes_one_at_a_time_in_order:
  assumes "net_reachable (write_loop_new i n) s"
  shows "length (wl_inflight s) \<le> 1 \<and> length (cn_sendQueue (wl_conn s)) \<le> kMaxPendingSendPackets \<and>
    (\<exists>ps. length ps \<le> 1 \<and> wl_accepted s = wl_written s @ ps @ cn_sendQueue (wl_conn s) \<and>
      (wl_inflight s \<noteq> [] \<longrightarrow> ps = []))"
proof -
  note inv = net_reachable_inv [OF assms]
  have I: "sum_list (map holds_write (wl_threads s)) + length (wl_inflight s) = of_bool (cn_writeInProgress (wl_conn s))"
    "wl_accepted s = wl_written s @ concat (map carried (wl_threads s)) @ cn_sendQueue (wl_conn s)"
    using inv by (simp_all add: write_inv_def)
  have "length (concat (map carried xs)) \<le> sum_list (map holds_write xs)" for xs
  proof (induction xs)
    case (Cons x xs)
    then show ?case by (cases x) auto
  qed simp
  from this [of "wl_threads s"] have "length (concat (map carried (wl_threads s))) + length (wl_inflight s) \<le> 1"
    using I(1) of_bool_le [of "cn_writeInProgress (wl_conn s)"] by linarith
  moreover obtain ps where ps: "concat (map carried (wl_threads s)) = ps" by blast
  ultimately show ?thesis
    using I(2) write_inv_bound [OF inv] unfolding ps
    by (intro conjI exI [of _ ps]; cases "wl_inflight s") auto
qed

section \<open>The loop comes to rest\<close>

fun wants_send :: "net_pc \<Rightarrow> nat" where
  "wants_send (At_check p) = 2"
| "wants_send (At_lock p) = 2"
| "wants_send _ = 0"

text \<open>How far a thread is from leaving the loop, by whether packets wait.\<close>

fun distance :: "bool \<Rightarrow> net_pc \<Rightarrow> nat" where
  "distance b Outside = 0"
| "distance b (At_check p) = 1"
| "distance b (At_lock p) = 0"
| "distance b At_begin = (if b then 2 else 4)"
| "distance b At_pop = (if b then 1 else 3)"
| "distance b (At_write p) = 7"
| "distance b At_end_empty = (if b then 4 else 2)"
| "distance b At_pending = (if b then 3 else 1)"
| "distance b Write_done = 5"
| "distance b Write_failed = 2"
| "distance b At_end_failed = 1"

definition packets_left :: "write_loop \<Rightarrow> nat" where
  "packets_left s = sum_list (map wants_send (wl_threads s)) + length (cn_sendQueue (wl_conn s))"

definition loop_distance :: "write_loop \<Rightarrow> nat" where
  "loop_distance s = sum_list (map (distance (cn_sendQueue (wl_conn s) \<noteq> [])) (wl_threads s)) + 6 * length (wl_inflight s)"

lemma loop_move:
  assumes t: "t < length (wl_threads s)" and s': "wl_threads s' = (wl_threads s)[t := pc]"
    and less: "wants_send pc + length (cn_sendQueue (wl_conn s')) < wants_send (wl_threads s ! t) + length (cn_sendQueue (wl_conn s))
      \<or> (wants_send pc = wants_send (wl_threads s ! t) \<and> cn_sendQueue (wl_conn s') = cn_sendQueue (wl_conn s) \<and>
         distance (cn_sendQueue (wl_conn s) \<noteq> []) pc + 6 * length (wl_inflight s')
           < distance (cn_sendQueue (wl_conn s) \<noteq> []) (wl_threads s ! t) + 6 * length (wl_inflight s))"
  shows "(s', s) \<in> measures [packets_left, loop_distance]"
proof -
  note sums = sum_list_update_plus [OF t, of wants_send pc]
    sum_list_update_plus [OF t, of "distance (cn_sendQueue (wl_conn s) \<noteq> [])" pc]
  show ?thesis using less
  proof
    assume "wants_send pc + length (cn_sendQueue (wl_conn s')) < wants_send (wl_threads s ! t) + length (cn_sendQueue (wl_conn s))"
    then have "packets_left s' < packets_left s" unfolding packets_left_def s' using sums(1) by linarith
    then show ?thesis by simp
  next
    assume d: "wants_send pc = wants_send (wl_threads s ! t) \<and> cn_sendQueue (wl_conn s') = cn_sendQueue (wl_conn s) \<and>
      distance (cn_sendQueue (wl_conn s) \<noteq> []) pc + 6 * length (wl_inflight s')
        < distance (cn_sendQueue (wl_conn s) \<noteq> []) (wl_threads s ! t) + 6 * length (wl_inflight s)"
    then have "packets_left s' = packets_left s" unfolding packets_left_def s' using sums(1) by simp
    moreover have "loop_distance s' < loop_distance s"
      unfolding loop_distance_def s' using d sums(2) by simp
    ultimately show ?thesis by simp
  qed
qed

lemma loop_step_decreases:
  assumes "loop_step s s'"
  shows "(s', s) \<in> measures [packets_left, loop_distance]"
  using assms
proof cases
  case (completed t ps p qs ok)
  then show ?thesis by (intro loop_move [OF completed(2), where pc = "if ok then Write_done else Write_failed"]) auto
next
  case (own t)
  then have t: "t < length (wl_threads s)" by (simp add: thread_step_def split: if_splits)
  note step = own [unfolded thread_step_def Let_def] and move = loop_move [OF t]
  show ?thesis
  proof (cases "wl_threads s ! t")
    case Outside
    then show ?thesis using step t by simp
  next
    case (At_check p)
    then show ?thesis using step t by (intro move [where pc = "if IsConnected (wl_conn s) then At_lock p else Outside"]) auto
  next
    case (At_lock p)
    show ?thesis
    proof (cases "length (cn_sendQueue (wl_conn s)) < kMaxPendingSendPackets")
      case True
      then show ?thesis using step t At_lock by (intro move [where pc = At_begin]) (auto simp: enqueue_locked_def)
    next
      case False
      then show ?thesis using step t At_lock by (intro move [where pc = Outside]) (auto simp: enqueue_locked_def)
    qed
  next
    case At_begin
    then show ?thesis
      using step t by (intro move [where pc = "if cn_writeInProgress (wl_conn s) then Outside else At_pop"]) (auto simp: TryBeginWrite_def)
  next
    case At_pop
    show ?thesis
    proof (cases "cn_sendQueue (wl_conn s)")
      case Nil
      then show ?thesis using step t At_pop by (intro move [where pc = At_end_empty]) (auto simp: TryPopSend_def)
    next
      case (Cons p ps)
      then show ?thesis using step t At_pop by (intro move [where pc = "At_write p"]) (auto simp: TryPopSend_def)
    qed
  next
    case (At_write p)
    then show ?thesis using step t by (intro move [where pc = Outside]) auto
  next
    case At_end_empty
    then show ?thesis using step t by (intro move [where pc = At_pending]) (auto simp: EndWrite_def)
  next
    case At_pending
    then show ?thesis
      using step t by (intro move [where pc = "if HasPendingSend (wl_conn s) then At_begin else Outside"]) (auto simp: HasPendingSend_def)
  next
    case Write_done
    then show ?thesis using step t by (intro move [where pc = At_begin]) (auto simp: EndWrite_def)
  next
    case Write_failed
    then show ?thesis using step t by (intro move [where pc = At_end_failed]) auto
  next
    case At_end_failed
    then show ?thesis using step t by (intro move [where pc = Outside]) (auto simp: EndWrite_def)
  qed
qed

lemma loop_step_wf: "wf {(s', s). loop_step s s'}"
  by (rule wf_subset [OF wf_measures]) (auto intro: loop_step_decreases simp del: in_measures)

lemma thread_can_step: "t < length (wl_threads s) \<Longrightarrow> wl_threads s ! t \<noteq> Outside \<Longrightarrow> \<exists>s'. thread_step t s = Some s'"
  by (cases "wl_threads s ! t") (auto simp: thread_step_def Let_def split: prod.splits)

text \<open>From every reachable state the loop comes to rest: there is no infinite run of its steps and
  completions without a new send, and when none is left, on a connection still up, every accepted packet
  was written and completed; no packet waits for a wake-up that nobody will give.\<close>

theorem write_loop_comes_to_rest:
  assumes "net_reachable (write_loop_new i n) s" and "0 < n"
  shows "wf {(s', s). loop_step s s'} \<and>
    ((\<nexists>s'. loop_step s s') \<and> cn_connected (wl_conn s) \<longrightarrow>
      wl_written s = wl_accepted s \<and> wl_inflight s = [] \<and> cn_sendQueue (wl_conn s) = [] \<and> \<not> cn_writeInProgress (wl_conn s))"
proof (rule conjI, rule loop_step_wf, rule impI)
  assume rest: "(\<nexists>s'. loop_step s s') \<and> cn_connected (wl_conn s)"
  note inv = net_reachable_inv [OF assms(1)]
  have len: "length (wl_threads s) = n"
    using assms(1)
  proof induction
    case start
    then show ?case by (simp add: write_loop_new_def)
  next
    case (step s s')
    have "length (wl_threads s') = length (wl_threads s)" if "thread_step t s = Some s'" for t
      using that by (auto simp: thread_step_def Let_def split: if_splits net_pc.splits prod.splits)
    then show ?case using step by (auto elim!: net_step.cases loop_step.cases)
  qed
  have out: "wl_threads s ! t = Outside" if "t < n" for t
    using rest thread_can_step [of t s] len that by (metis loop_step.own)
  have "wl_inflight s = []"
  proof (rule ccontr)
    assume "wl_inflight s \<noteq> []"
    then obtain p ps where "wl_inflight s = [] @ p # ps" by (cases "wl_inflight s") auto
    then show False using rest loop_step.completed [of 0 s "[]" p ps True] out assms(2) len by auto
  qed
  have threads: "wl_threads s = replicate n Outside" using out len by (intro nth_equalityI) auto
  have "sum_list (map holds_write (replicate n Outside)) = 0" by (simp add: sum_list_replicate)
  then have "of_bool (cn_writeInProgress (wl_conn s)) = (0 :: nat)"
    using inv \<open>wl_inflight s = []\<close> unfolding write_inv_def threads by (simp add: sum_list_replicate)
  then have idle: "\<not> cn_writeInProgress (wl_conn s)" by simp
  then have empty: "cn_sendQueue (wl_conn s) = []" using inv rest unfolding write_inv_def threads by auto
  have "wl_accepted s = wl_written s @ concat (map carried (replicate n Outside)) @ cn_sendQueue (wl_conn s)"
    using inv unfolding write_inv_def threads by blast
  then show "wl_written s = wl_accepted s \<and> wl_inflight s = [] \<and> cn_sendQueue (wl_conn s) = [] \<and> \<not> cn_writeInProgress (wl_conn s)"
    using \<open>wl_inflight s = []\<close> idle empty by (simp add: concat_replicate_trivial)
qed

section \<open>A run\<close>

text \<open>Two threads send while a third completes the writes.\<close>

datatype loop_event = Own nat | Finish nat bool

definition event_step :: "loop_event \<Rightarrow> write_loop \<Rightarrow> write_loop option" where
  "event_step e s =
     (case e of
        Own t \<Rightarrow> thread_step t s
      | Finish t ok \<Rightarrow>
          if t < length (wl_threads s) \<and> wl_threads s ! t = Outside \<and> wl_inflight s \<noteq> []
          then Some (goto t (if ok then Write_done else Write_failed) (s\<lparr>wl_inflight := tl (wl_inflight s)\<rparr>))
          else None)"

fun run_events :: "loop_event list \<Rightarrow> write_loop \<Rightarrow> write_loop option" where
  "run_events [] s = Some s"
| "run_events (e # es) s = Option.bind (event_step e s) (run_events es)"

lemma event_step_loop: "event_step e s = Some s' \<Longrightarrow> loop_step s s'"
proof (cases e)
  case (Finish t ok)
  assume "event_step e s = Some s'"
  then show ?thesis
    using Finish loop_step.completed [of t s "[]" "hd (wl_inflight s)" "tl (wl_inflight s)" ok]
    by (auto simp: event_step_def split: if_splits)
qed (auto simp: event_step_def intro: loop_step.own)

lemma run_events_reachable: "net_reachable s0 s \<Longrightarrow> run_events es s = Some s' \<Longrightarrow> net_reachable s0 s'"
proof (induction es arbitrary: s)
  case (Cons e es)
  then obtain s1 where "event_step e s = Some s1" "run_events es s1 = Some s'" by (cases "event_step e s") auto
  then show ?case using Cons by (meson event_step_loop net_step.loop net_reachable.step)
qed simp

definition two_senders :: write_loop where
  "two_senders = goto 1 (At_check [2]) (goto 0 (At_check [1]) (write_loop_new 7 3))"

lemma two_senders_reachable: "net_reachable (write_loop_new 7 3) two_senders"
proof -
  have "net_step (write_loop_new 7 3) (goto 0 (At_check [1]) (write_loop_new 7 3))"
    by (rule net_step.send) (simp_all add: write_loop_new_def)
  moreover have "net_step (goto 0 (At_check [1]) (write_loop_new 7 3)) two_senders"
    unfolding two_senders_def by (rule net_step.send) (simp_all add: write_loop_new_def)
  ultimately show ?thesis by (meson net_reachable.start net_reachable.step)
qed

definition first_write :: "loop_event list" where
  "first_write = map Own [0, 1, 1, 0, 1, 0, 1, 1]"

definition both_writes :: "loop_event list" where
  "both_writes = first_write @ [Finish 2 True] @ replicate 4 (Own 2) @ [Finish 0 True] @ replicate 5 (Own 0)"

lemma two_senders_run:
  "case run_events first_write two_senders of
     None \<Rightarrow> False
   | Some s \<Rightarrow> wl_inflight s = [[2]] \<and> wl_accepted s = [[2], [1]]"
  "case run_events both_writes two_senders of
     None \<Rightarrow> False
   | Some s \<Rightarrow> wl_inflight s = [] \<and> wl_accepted s = [[2], [1]] \<and> wl_threads s = replicate 3 Outside \<and> cn_connected (wl_conn s)"
  by code_simp+

lemma two_senders_reach:
  assumes "case run_events es two_senders of None \<Rightarrow> False | Some s \<Rightarrow> P s"
  shows "\<exists>s. net_reachable (write_loop_new 7 3) s \<and> P s"
  using assms run_events_reachable [OF two_senders_reachable, of es] by (cases "run_events es two_senders") auto

theorem writes_one_at_a_time_in_order_witness:
  "\<exists>s. net_reachable (write_loop_new 7 3) s \<and> wl_accepted s = [[2], [1]] \<and> wl_inflight s = [[2]] \<and>
    length (wl_inflight s) \<le> 1 \<and> (\<exists>ps. wl_accepted s = wl_written s @ ps @ cn_sendQueue (wl_conn s))"
  using two_senders_reach [OF two_senders_run(1)] writes_one_at_a_time_in_order [of 7 3] by blast

theorem write_loop_comes_to_rest_witness:
  "\<exists>s. net_reachable (write_loop_new 7 3) s \<and> (\<nexists>s'. loop_step s s') \<and> wl_accepted s = [[2], [1]] \<and>
    wl_written s = [[2], [1]] \<and> cn_sendQueue (wl_conn s) = []"
proof -
  obtain s where s: "net_reachable (write_loop_new 7 3) s" "wl_inflight s = []" "wl_accepted s = [[2], [1]]"
    "wl_threads s = replicate 3 Outside" "cn_connected (wl_conn s)"
    using two_senders_reach [OF two_senders_run(2)] by blast
  have "thread_step t s = None" for t using s(4) by (simp add: thread_step_def Let_def)
  then have rest: "\<nexists>s'. loop_step s s'" using s(2) by (auto elim!: loop_step.cases)
  have "0 < (3 :: nat)" by simp
  then show ?thesis using write_loop_comes_to_rest [OF s(1)] rest s(1,3,5) by auto
qed

end
