(* ===== verification/Net_Server.thy ===== *)
theory Net_Server
  imports Net_Connection Ring_Queue
begin

text \<open>
  The server (\<open>Net/NetServer.cpp\<close>): its state with the connection objects, the calls of the game
  thread, and the completion handlers that the library calls with an error or with data, each run as a
  whole; theories Net_Connection and Net_Races interleave their steps. \<open>boost::asio\<close> is a record of
  operations on an unknown \<open>io_context\<close>. Connection identifiers are taken from a 64-bit counter and
  name the objects.
\<close>

section \<open>The library\<close>

record 'io io_library =
  lib_make_work_guard :: "'io \<Rightarrow> 'io"
  lib_drop_work_guard :: "'io \<Rightarrow> 'io"
  lib_open_acceptor :: "u16 \<Rightarrow> 'io \<Rightarrow> 'io option"
  lib_close_acceptor :: "'io \<Rightarrow> 'io"
  lib_async :: "'io \<Rightarrow> 'io"
  lib_stop :: "'io \<Rightarrow> 'io"
  lib_stopped :: "'io \<Rightarrow> bool"

text \<open>
  What \<open>boost::asio\<close> documents: \<open>stop\<close> leaves the context stopped, so that \<open>run\<close> returns without
  calling a handler, and only \<open>restart\<close> ends that; the other operations do not.
\<close>

definition stays_stopped :: "'io io_library \<Rightarrow> bool" where
  "stays_stopped lib \<longleftrightarrow> (\<forall>c. lib_stopped lib (lib_stop lib c)) \<and>
     (\<forall>c. lib_stopped lib c \<longrightarrow> lib_stopped lib (lib_make_work_guard lib c) \<and> lib_stopped lib (lib_drop_work_guard lib c) \<and>
        lib_stopped lib (lib_close_acceptor lib c) \<and> lib_stopped lib (lib_async lib c) \<and>
        (\<forall>port c'. lib_open_acceptor lib port c = Some c' \<longrightarrow> lib_stopped lib c'))"

section \<open>State\<close>

record outbound_packet =
  op_connectionId :: ConnectionId
  op_packetId :: u16
  op_payload :: byte_buffer

definition kInboundQueueCapacity :: nat where
  "kInboundQueueCapacity = 65536"

record 'io net_server =
  ns_running :: bool
  ns_ioContext :: 'io
  ns_workGuard :: bool
  ns_acceptor :: "bool option"
  ns_ioThread :: bool
  ns_nextConnectionId :: ConnectionId
  ns_objects :: "ConnectionId \<rightharpoonup> tcp_connection"
  ns_connections :: "ConnectionId set"
  ns_inboundQueue :: "received_packet ring"
  ns_accepting :: bool
  ns_reading :: "ConnectionId set"
  ns_writing :: "(ConnectionId \<times> byte_buffer) list"

definition NetServer_new :: "'io \<Rightarrow> 'io net_server" where
  "NetServer_new io =
     \<lparr>ns_running = False, ns_ioContext = io, ns_workGuard = False, ns_acceptor = None, ns_ioThread = False,
      ns_nextConnectionId = 1, ns_objects = Map.empty, ns_connections = {},
      ns_inboundQueue = ring_new kInboundQueueCapacity ReceivedPacket_new,
      ns_accepting = False, ns_reading = {}, ns_writing = []\<rparr>"

definition RemoveConnection :: "ConnectionId \<Rightarrow> 'io net_server \<Rightarrow> 'io net_server" where
  "RemoveConnection i s = s\<lparr>ns_connections := ns_connections s - {i}\<rparr>"

definition update_object :: "ConnectionId \<Rightarrow> tcp_connection \<Rightarrow> 'io net_server \<Rightarrow> 'io net_server" where
  "update_object i c s = s\<lparr>ns_objects := (ns_objects s)(i \<mapsto> c)\<rparr>"

section \<open>Accepting and reading\<close>

definition StartAccept :: "'io io_library \<Rightarrow> 'io net_server \<Rightarrow> 'io net_server" where
  "StartAccept lib s = s\<lparr>ns_ioContext := lib_async lib (ns_ioContext s), ns_accepting := True\<rparr>"

definition StartReadLoop :: "'io io_library \<Rightarrow> ConnectionId \<Rightarrow> 'io net_server \<Rightarrow> 'io net_server" where
  "StartReadLoop lib i s = s\<lparr>ns_ioContext := lib_async lib (ns_ioContext s), ns_reading := insert i (ns_reading s)\<rparr>"

datatype accept_result = Accepted | Accept_aborted | Accept_error

definition on_accept :: "'io io_library \<Rightarrow> accept_result \<Rightarrow> 'io net_server \<Rightarrow> 'io net_server" where
  "on_accept lib ec s0 =
     (let s = s0\<lparr>ns_accepting := False\<rparr> in
      if ec = Accept_aborted then s
      else let s1 = (if ec = Accepted
                     then let i = ns_nextConnectionId s;
                              s' = update_object i (TcpConnection_new i) (s\<lparr>ns_nextConnectionId := i + 1\<rparr>);
                              s'' = s'\<lparr>ns_connections := insert i (ns_connections s')\<rparr>
                          in StartReadLoop lib i s''
                     else s)
           in if ns_acceptor s1 = Some True then StartAccept lib s1 else s1)"

text \<open>A packet that finds the queue full is dropped.\<close>

fun enqueue_inbound :: "received_packet list \<Rightarrow> received_packet ring \<Rightarrow> received_packet ring result" where
  "enqueue_inbound [] q = Inr q"
| "enqueue_inbound (p # ps) q =
     (case MPSC_Enqueue q p of None \<Rightarrow> Inl Diverged | Some (ok, q') \<Rightarrow> enqueue_inbound ps q')"

definition on_read :: "'io io_library \<Rightarrow> ConnectionId \<Rightarrow> bool \<Rightarrow> u8 list \<Rightarrow> 'io net_server \<Rightarrow> 'io net_server result" where
  "on_read lib i ec chunk s0 =
     (let s = s0\<lparr>ns_reading := ns_reading s0 - {i}\<rparr> in
      and_then (deref (ns_objects s i)) (\<lambda>c.
        if ec then Inr (RemoveConnection i (update_object i (Disconnect c) s))
        else and_then (receive_chunk (GetId c) (cn_receiveBuffer c) chunk) (\<lambda>(buf, ps).
          and_then (enqueue_inbound ps (ns_inboundQueue s)) (\<lambda>q.
            Inr (StartReadLoop lib i (update_object i (c\<lparr>cn_receiveBuffer := buf\<rparr>) (s\<lparr>ns_inboundQueue := q\<rparr>)))))))"

section \<open>Writing\<close>

text \<open>The connection after \<open>StartWriteLoop\<close>, and the packet given to \<open>async_write\<close>.\<close>

partial_function (option) write_next :: "tcp_connection \<Rightarrow> (tcp_connection \<times> byte_buffer option) option" where
  "write_next c =
     (case TryBeginWrite c of (ok, c1) \<Rightarrow>
        if \<not> ok then Some (c1, None)
        else case TryPopSend c1 [] of (popped, packet, c2) \<Rightarrow>
          if \<not> popped
          then let c3 = EndWrite c2 in if HasPendingSend c3 then write_next c3 else Some (c3, None)
          else Some (c2, Some packet))"

definition StartWriteLoop :: "'io io_library \<Rightarrow> ConnectionId \<Rightarrow> 'io net_server \<Rightarrow> 'io net_server result" where
  "StartWriteLoop lib i s =
     and_then (deref (ns_objects s i)) (\<lambda>c.
       case write_next c of
         None \<Rightarrow> Inl Diverged
       | Some (c', None) \<Rightarrow> Inr (update_object i c' s)
       | Some (c', Some packet) \<Rightarrow>
           Inr (update_object i c' (s\<lparr>ns_ioContext := lib_async lib (ns_ioContext s), ns_writing := ns_writing s @ [(i, packet)]\<rparr>)))"

definition on_write :: "'io io_library \<Rightarrow> ConnectionId \<Rightarrow> byte_buffer \<Rightarrow> bool \<Rightarrow> 'io net_server \<Rightarrow> 'io net_server result" where
  "on_write lib i packet ec s0 =
     (let s = s0\<lparr>ns_writing := remove1 (i, packet) (ns_writing s0)\<rparr> in
      and_then (deref (ns_objects s i)) (\<lambda>c.
        if ec then Inr (RemoveConnection i (update_object i (EndWrite (Disconnect c)) s))
        else StartWriteLoop lib i (update_object i (EndWrite c) s)))"

definition Send :: "'io io_library \<Rightarrow> outbound_packet \<Rightarrow> 'io net_server \<Rightarrow> (bool \<times> 'io net_server) result" where
  "Send lib packet s =
     (let i = op_connectionId packet in
      if i \<notin> ns_connections s then Inr (False, s)
      else and_then (deref (ns_objects s i)) (\<lambda>c.
        and_then (Encode (op_packetId packet) (op_payload packet)) (\<lambda>bytes.
          case EnqueueSend bytes c of (ok, c') \<Rightarrow>
            if \<not> ok then Inr (False, s)
            else and_then (StartWriteLoop lib i (update_object i c' s)) (\<lambda>s'. Inr (True, s')))))"

section \<open>The game thread's calls\<close>

definition PollPacket :: "received_packet \<Rightarrow> 'io net_server \<Rightarrow> bool \<times> received_packet \<times> 'io net_server" where
  "PollPacket packet s =
     (case MPSC_Dequeue (ns_inboundQueue s) packet of (ok, p, q) \<Rightarrow> (ok, p, s\<lparr>ns_inboundQueue := q\<rparr>))"

definition ConnectionCount :: "'io net_server \<Rightarrow> usize" where
  "ConnectionCount s = of_nat (card (ns_connections s))"

definition IsRunning :: "'io net_server \<Rightarrow> bool" where
  "IsRunning s = ns_running s"

text \<open>\<open>spawned\<close>: whether the constructor of \<open>std::thread\<close> returned.\<close>

definition NetServer_Start :: "'io io_library \<Rightarrow> bool \<Rightarrow> u16 \<Rightarrow> 'io net_server \<Rightarrow> (bool \<times> 'io net_server) result" where
  "NetServer_Start lib spawned port s =
     (if ns_running s then Inr (False, s)
      else let s1 = s\<lparr>ns_ioContext := lib_make_work_guard lib (ns_ioContext s), ns_workGuard := True\<rparr>;
               refused = (\<lambda>s. (False, s\<lparr>ns_ioContext := lib_drop_work_guard lib (ns_ioContext s), ns_workGuard := False\<rparr>))
           in case lib_open_acceptor lib port (ns_ioContext s1) of
                None \<Rightarrow> Inr (refused s1)
              | Some io \<Rightarrow>
                  let s2 = StartAccept lib (s1\<lparr>ns_ioContext := io, ns_acceptor := Some True\<rparr>) in
                  if \<not> spawned then Inr (refused s2)
                  else if ns_ioThread s2 then Inl Terminated
                  else Inr (True, s2\<lparr>ns_ioThread := True, ns_running := True\<rparr>))"

partial_function (option) drain :: "received_packet ring \<Rightarrow> received_packet ring option" where
  "drain q = (case MPSC_Dequeue q ReceivedPacket_new of (ok, p, q') \<Rightarrow> if ok then drain q' else Some q')"

definition disconnect_all :: "'io net_server \<Rightarrow> 'io net_server" where
  "disconnect_all s =
     s\<lparr>ns_objects := (\<lambda>i. if i \<in> ns_connections s then map_option Disconnect (ns_objects s i) else ns_objects s i),
       ns_connections := {}\<rparr>"

definition NetServer_Stop :: "'io io_library \<Rightarrow> 'io net_server \<Rightarrow> 'io net_server option" where
  "NetServer_Stop lib s =
     (if \<not> ns_running s then Some s
      else let s1 = s\<lparr>ns_running := False, ns_ioContext := lib_drop_work_guard lib (ns_ioContext s), ns_workGuard := False\<rparr>;
               s2 = (if ns_acceptor s1 = Some True
                     then s1\<lparr>ns_ioContext := lib_close_acceptor lib (ns_ioContext s1), ns_acceptor := Some False\<rparr> else s1);
               s3 = s2\<lparr>ns_ioContext := lib_stop lib (ns_ioContext s2), ns_ioThread := False\<rparr>;
               s4 = disconnect_all s3
           in map_option (\<lambda>q. s4\<lparr>ns_inboundQueue := q\<rparr>) (drain (ns_inboundQueue s4)))"

section \<open>The inbound queue\<close>

lemma decode_loop_total: "\<exists>buf' ps. decode_loop cid buf = Inr (buf', ps) \<and> (\<forall>p \<in> set ps. rp_connectionId p = cid)"
proof (induction cid buf rule: decode_loop.induct)
  case (1 cid buf)
  obtain ok buf' p where d: "Decode buf ReceivedPacket_new = Inr (ok, buf', p)" using Decode_total by blast
  show ?case
  proof (cases ok)
    case True
    then obtain b ps where "decode_loop cid buf' = Inr (b, ps)" "\<forall>p \<in> set ps. rp_connectionId p = cid"
      using 1 [OF d refl refl] by auto
    then show ?thesis using d True by (subst decode_loop.simps) simp
  next
    case False
    then show ?thesis using d by (subst decode_loop.simps) simp
  qed
qed

lemma take_take_append: "take n (take n xs @ ys) = take n (xs @ ys)"
  by (cases "length xs \<le> n") simp_all

lemma enqueue_inbound_ok:
  "ring_ok q \<Longrightarrow> \<exists>q'. enqueue_inbound ps q = Inr q' \<and> ring_ok q' \<and> ring_capacity q' = ring_capacity q \<and>
     ring_contents q' = take (ring_capacity q) (ring_contents q @ ps)"
proof (induction ps arbitrary: q)
  case Nil
  then show ?case using mpsc.items_bound [OF Nil] by simp
next
  case (Cons p ps)
  obtain ok q1 where q1: "MPSC_Enqueue q p = Some (ok, q1)" "ring_ok q1" "ring_capacity q1 = ring_capacity q"
    "ring_contents q1 = take (ring_capacity q) (ring_contents q @ [p])"
  proof (cases "length (ring_contents q) < ring_capacity q")
    case True
    from mpsc.enqueue_room [OF Cons.prems True, of p]
    obtain q' where "MPSC_Enqueue q p = Some (True, q')" "ring_ok q'" "ring_capacity q' = ring_capacity q"
      "ring_contents q' = ring_contents q @ [p]" by blast
    then show ?thesis using that [of True q'] True by simp
  next
    case False
    then show ?thesis
      using mpsc.enqueue_full [OF Cons.prems False, of p] mpsc.items_bound [OF Cons.prems] that [of False q] Cons.prems by simp
  qed
  then show ?case
    using Cons.IH [OF q1(2)] take_take_append [of "ring_capacity q" "ring_contents q @ [p]" ps] by auto
qed

text \<open>The chunks read from a connection.\<close>

definition chunks_of :: "ConnectionId \<Rightarrow> (ConnectionId \<times> u8 list) list \<Rightarrow> u8 list list" where
  "chunks_of i rs = map snd (filter (\<lambda>(j, _). j = i) rs)"

lemma chunks_of_simps [simp]:
  "chunks_of i [] = []" "chunks_of i ((j, c) # rs) = (if j = i then c # chunks_of i rs else chunks_of i rs)"
  by (simp_all add: chunks_of_def)

fun poll_all :: "nat \<Rightarrow> 'io net_server \<Rightarrow> received_packet list \<times> 'io net_server" where
  "poll_all 0 s = ([], s)"
| "poll_all (Suc k) s =
     (case PollPacket ReceivedPacket_new s of (ok, p, s1) \<Rightarrow>
        if ok then (case poll_all k s1 of (ps, s2) \<Rightarrow> (p # ps, s2)) else ([], s1))"

lemma poll_all_ok:
  "ring_ok (ns_inboundQueue s) \<Longrightarrow> fst (poll_all k s) = take k (ring_contents (ns_inboundQueue s))"
proof (induction k arbitrary: s)
  case (Suc k)
  show ?case
  proof (cases "ring_contents (ns_inboundQueue s)")
    case Nil
    then show ?thesis using mpsc.dequeue_empty [OF Suc.prems Nil, of ReceivedPacket_new] by (simp add: PollPacket_def)
  next
    case (Cons p ps)
    from mpsc.dequeue_item [OF Suc.prems Cons, of ReceivedPacket_new]
    obtain q where q: "MPSC_Dequeue (ns_inboundQueue s) ReceivedPacket_new = (True, p, q)" "ring_ok q" "ring_contents q = ps"
      by auto
    then show ?thesis
      using Suc.IH [of "s\<lparr>ns_inboundQueue := q\<rparr>"] Cons
      by (cases "poll_all k (s\<lparr>ns_inboundQueue := q\<rparr>)") (simp add: PollPacket_def)
  qed
qed simp

section \<open>The server as a whole\<close>

text \<open>What can happen to a running server; a handler is called for an outstanding operation only.\<close>

datatype server_event =
    Ev_accept accept_result
  | Ev_read ConnectionId bool "u8 list"
  | Ev_write ConnectionId bool
  | Ev_send outbound_packet
  | Ev_poll

fun handle_event :: "'io io_library \<Rightarrow> server_event \<Rightarrow> 'io net_server \<Rightarrow> 'io net_server result" where
  "handle_event lib (Ev_accept ec) s = Inr (if ns_accepting s then on_accept lib ec s else s)"
| "handle_event lib (Ev_read i ec chunk) s = (if i \<in> ns_reading s then on_read lib i ec chunk s else Inr s)"
| "handle_event lib (Ev_write i ec) s =
     (case map_of (ns_writing s) i of None \<Rightarrow> Inr s | Some packet \<Rightarrow> on_write lib i packet ec s)"
| "handle_event lib (Ev_send packet) s = and_then (Send lib packet s) (\<lambda>(ok, s'). Inr s')"
| "handle_event lib Ev_poll s = Inr (snd (snd (PollPacket ReceivedPacket_new s)))"

fun handle_events :: "'io io_library \<Rightarrow> server_event list \<Rightarrow> 'io net_server \<Rightarrow> 'io net_server result" where
  "handle_events lib [] s = Inr s"
| "handle_events lib (e # es) s = and_then (handle_event lib e s) (handle_events lib es)"

text \<open>A connection object and the packet it has in flight.\<close>

definition conn_ok :: "ConnectionId \<Rightarrow> (ConnectionId \<times> byte_buffer) list \<Rightarrow> tcp_connection \<Rightarrow> bool" where
  "conn_ok i ws c \<longleftrightarrow> cn_connectionId c = i \<and> (cn_writeInProgress c \<longleftrightarrow> i \<in> fst ` set ws) \<and>
     (cn_sendQueue c \<noteq> [] \<longrightarrow> cn_writeInProgress c \<or> \<not> cn_connected c)"

definition server_ok :: "'io net_server \<Rightarrow> bool" where
  "server_ok s \<longleftrightarrow> ring_ok (ns_inboundQueue s) \<and> ring_capacity (ns_inboundQueue s) = kInboundQueueCapacity \<and>
     ns_connections s \<subseteq> dom (ns_objects s) \<and> ns_reading s \<subseteq> dom (ns_objects s) \<and>
     fst ` set (ns_writing s) \<subseteq> dom (ns_objects s) \<and> distinct (map fst (ns_writing s)) \<and>
     (\<forall>i c. ns_objects s i = Some c \<longrightarrow> conn_ok i (ns_writing s) c \<and> unat i < unat (ns_nextConnectionId s))"

lemma write_next_eq:
  "write_next c = (if cn_writeInProgress c then Some (c, None)
     else case cn_sendQueue c of [] \<Rightarrow> Some (c, None)
       | p # ps \<Rightarrow> Some (c\<lparr>cn_writeInProgress := True, cn_sendQueue := ps\<rparr>, Some p))"
  by (subst write_next.simps)
    (auto simp: TryBeginWrite_def TryPopSend_def EndWrite_def HasPendingSend_def Let_def split: list.splits)

lemma StartWriteLoop_ok:
  assumes ok: "server_ok (update_object i c0 s)" and c: "ns_objects s i = Some c"
    and c0: "c0 = c\<lparr>cn_sendQueue := [], cn_connected := False\<rparr>"
  shows "\<exists>s'. StartWriteLoop lib i s = Inr s' \<and> server_ok s' \<and> ns_nextConnectionId s' = ns_nextConnectionId s"
proof -
  have c0_ok: "conn_ok i (ns_writing s) c0" using ok by (simp add: server_ok_def update_object_def)
  then have free: "cn_writeInProgress c \<longleftrightarrow> i \<in> fst ` set (ns_writing s)" "cn_connectionId c = i"
    using c0 by (simp_all add: conn_ok_def)
  have rest: "conn_ok j (ns_writing s) d" "unat j < unat (ns_nextConnectionId s)" if "ns_objects s j = Some d" "j \<noteq> i" for j d
    using ok that by (simp_all add: server_ok_def update_object_def)
  have i: "unat i < unat (ns_nextConnectionId s)" using ok by (simp add: server_ok_def update_object_def)
  show ?thesis
  proof (cases "cn_writeInProgress c \<or> cn_sendQueue c = []")
    case True
    then have "write_next c = Some (c, None)" by (auto simp: write_next_eq)
    then have "StartWriteLoop lib i s = Inr (update_object i c s)" using c by (simp add: StartWriteLoop_def)
    moreover have "conn_ok i (ns_writing s) c" using free True by (auto simp: conn_ok_def)
    then have "server_ok (update_object i c s)" using ok c rest i by (auto simp: server_ok_def update_object_def)
    ultimately show ?thesis by (simp add: update_object_def)
  next
    case False
    then obtain p ps where q: "cn_sendQueue c = p # ps" "\<not> cn_writeInProgress c" by (cases "cn_sendQueue c") auto
    let ?c = "c\<lparr>cn_writeInProgress := True, cn_sendQueue := ps\<rparr>"
    let ?s = "update_object i ?c (s\<lparr>ns_ioContext := lib_async lib (ns_ioContext s), ns_writing := ns_writing s @ [(i, p)]\<rparr>)"
    have "StartWriteLoop lib i s = Inr ?s" using c q by (simp add: StartWriteLoop_def write_next_eq)
    moreover have "i \<notin> fst ` set (ns_writing s)" using free(1) q(2) by simp
    moreover have "conn_ok i (ns_writing s @ [(i, p)]) ?c" using free(2) by (simp add: conn_ok_def)
    moreover have "conn_ok j (ns_writing s @ [(i, p)]) d" if "ns_objects s j = Some d" "j \<noteq> i" for j d
      using rest(1) [OF that] that(2) by (auto simp: conn_ok_def)
    ultimately have "server_ok ?s" using ok c rest(2) i by (auto simp: server_ok_def update_object_def)
    then show ?thesis using \<open>StartWriteLoop lib i s = Inr ?s\<close> by (auto simp: update_object_def)
  qed
qed

lemma server_ok_object: "server_ok s \<Longrightarrow> ns_objects s i = Some c \<Longrightarrow> conn_ok i (ns_writing s) c \<and> unat i < unat (ns_nextConnectionId s)"
  unfolding server_ok_def by blast

lemma Send_ok:
  assumes ok: "server_ok s"
  shows "\<exists>b s'. Send lib packet s = Inr (b, s') \<and> server_ok s' \<and> ns_nextConnectionId s' = ns_nextConnectionId s"
proof (cases "op_connectionId packet \<in> ns_connections s")
  case False
  then show ?thesis using ok by (intro exI [of _ False] exI [of _ s]) (simp add: Send_def Let_def)
next
  case True
  let ?i = "op_connectionId packet"
  obtain c where c: "ns_objects s ?i = Some c" using True ok unfolding server_ok_def by blast
  obtain b c' where e: "EnqueueSend (packet_bytes (op_packetId packet) (op_payload packet)) c = (b, c')"
    by (cases "EnqueueSend (packet_bytes (op_packetId packet) (op_payload packet)) c")
  show ?thesis
  proof (cases b)
    case False
    then show ?thesis using ok True c e by (intro exI [of _ False] exI [of _ s]) (simp add: Send_def Let_def Encode_eq)
  next
    case b: True
    then have c': "c' = c\<lparr>cn_sendQueue := cn_sendQueue c'\<rparr>"
      using e by (auto simp: EnqueueSend_def enqueue_locked_def split: if_splits)
    let ?s = "update_object ?i c' s" and ?c0 = "c'\<lparr>cn_sendQueue := [], cn_connected := False\<rparr>"
    have "cn_connectionId c' = cn_connectionId c" "cn_writeInProgress c' = cn_writeInProgress c"
      by (subst c', simp)+
    then have "conn_ok ?i (ns_writing s) ?c0" using server_ok_object [OF ok c] by (simp add: conn_ok_def)
    then have "server_ok (update_object ?i ?c0 ?s)"
      using ok c server_ok_object [OF ok c] by (auto simp: server_ok_def update_object_def)
    from StartWriteLoop_ok [OF this _ refl, of lib] obtain s'
      where "StartWriteLoop lib ?i ?s = Inr s'" "server_ok s'" "ns_nextConnectionId s' = ns_nextConnectionId ?s"
      by (auto simp: update_object_def)
    then show ?thesis
      using True c e b by (intro exI [of _ True] exI [of _ s']) (simp add: Send_def Let_def Encode_eq update_object_def)
  qed
qed

lemma on_write_ok:
  assumes ok: "server_ok s" and p: "map_of (ns_writing s) i = Some packet"
  shows "\<exists>s'. on_write lib i packet ec s = Inr s' \<and> server_ok s' \<and> ns_nextConnectionId s' = ns_nextConnectionId s"
proof -
  let ?ws = "remove1 (i, packet) (ns_writing s)" and ?s = "s\<lparr>ns_writing := remove1 (i, packet) (ns_writing s)\<rparr>"
  have mem: "(i, packet) \<in> set (ns_writing s)" by (rule map_of_SomeD [OF p])
  have dist: "distinct (map fst (ns_writing s))" using ok by (simp add: server_ok_def)
  have ws: "fst ` set ?ws = fst ` set (ns_writing s) - {i}" "distinct (map fst ?ws)"
  proof -
    have split: "\<exists>xs ys. ns_writing s = xs @ (i, packet) # ys \<and> (i, packet) \<notin> set xs" by (rule split_list_first [OF mem])
    then obtain xs ys where xy: "ns_writing s = xs @ (i, packet) # ys" "(i, packet) \<notin> set xs" by blast
    then have "?ws = xs @ ys" by (simp add: remove1_append)
    then show "fst ` set ?ws = fst ` set (ns_writing s) - {i}" "distinct (map fst ?ws)" using xy(1) dist by auto
  qed
  obtain c where c: "ns_objects s i = Some c" using mem ok unfolding server_ok_def by force
  have others: "conn_ok j ?ws d" if "ns_objects s j = Some d" "j \<noteq> i" for j d
    using server_ok_object [OF ok that(1)] that(2) ws(1) by (auto simp: conn_ok_def)
  have good: "server_ok (update_object i c1 ?s)" if "conn_ok i ?ws c1" for c1
    using ok c that others ws server_ok_object [OF ok] by (auto simp: server_ok_def update_object_def)
  have id: "cn_connectionId c = i" using server_ok_object [OF ok c] by (simp add: conn_ok_def)
  show ?thesis
  proof (cases ec)
    case True
    have "conn_ok i ?ws (EndWrite (Disconnect c))"
      using ws(1) id by (auto simp: conn_ok_def EndWrite_def Disconnect_def)
    from good [OF this] have "server_ok (RemoveConnection i (update_object i (EndWrite (Disconnect c)) ?s))"
      by (auto simp: server_ok_def RemoveConnection_def)
    then show ?thesis using True c by (simp add: on_write_def Let_def RemoveConnection_def update_object_def)
  next
    case False
    let ?c0 = "(EndWrite c)\<lparr>cn_sendQueue := [], cn_connected := False\<rparr>"
    have "conn_ok i ?ws ?c0" using ws(1) id by (auto simp: conn_ok_def EndWrite_def)
    from good [OF this] have "server_ok (update_object i ?c0 (update_object i (EndWrite c) ?s))"
      by (simp add: update_object_def)
    from StartWriteLoop_ok [OF this _ refl, of lib] obtain s'
      where "StartWriteLoop lib i (update_object i (EndWrite c) ?s) = Inr s'" "server_ok s'"
        "ns_nextConnectionId s' = ns_nextConnectionId s"
      by (auto simp: update_object_def)
    then show ?thesis using False c by (simp add: on_write_def Let_def)
  qed
qed

lemma on_read_ok:
  assumes ok: "server_ok s" and i: "i \<in> ns_reading s"
  shows "\<exists>s'. on_read lib i ec chunk s = Inr s' \<and> server_ok s' \<and> ns_nextConnectionId s' = ns_nextConnectionId s"
proof -
  obtain c where c: "ns_objects s i = Some c" using ok i unfolding server_ok_def by blast
  note obj = server_ok_object [OF ok c]
  have good: "server_ok (update_object i c1 (s\<lparr>ns_reading := ns_reading s - {i}, ns_inboundQueue := q\<rparr>))"
    if "conn_ok i (ns_writing s) c1" "ring_ok q" "ring_capacity q = kInboundQueueCapacity" for c1 q
    using ok c that obj by (auto simp: server_ok_def update_object_def)
  have ring: "ring_ok (ns_inboundQueue s)" "ring_capacity (ns_inboundQueue s) = kInboundQueueCapacity"
    using ok by (simp_all add: server_ok_def)
  show ?thesis
  proof (cases ec)
    case True
    have "conn_ok i (ns_writing s) (Disconnect c)" using obj by (auto simp: conn_ok_def Disconnect_def)
    from good [OF this ring] have "server_ok (RemoveConnection i (update_object i (Disconnect c) (s\<lparr>ns_reading := ns_reading s - {i}\<rparr>)))"
      by (auto simp: server_ok_def RemoveConnection_def update_object_def)
    then show ?thesis using True c by (simp add: on_read_def Let_def RemoveConnection_def update_object_def)
  next
    case False
    obtain buf ps where d: "decode_loop (GetId c) (cn_receiveBuffer c @ chunk) = Inr (buf, ps)" using decode_loop_total by blast
    obtain q where q: "enqueue_inbound ps (ns_inboundQueue s) = Inr q" "ring_ok q" "ring_capacity q = kInboundQueueCapacity"
      using enqueue_inbound_ok [OF ring(1)] ring(2) by fastforce
    have "conn_ok i (ns_writing s) (c\<lparr>cn_receiveBuffer := buf\<rparr>)" using obj by (auto simp: conn_ok_def)
    from good [OF this q(2,3)]
    have "server_ok (StartReadLoop lib i (update_object i (c\<lparr>cn_receiveBuffer := buf\<rparr>)
        (s\<lparr>ns_reading := ns_reading s - {i}, ns_inboundQueue := q\<rparr>)))"
      by (auto simp: server_ok_def StartReadLoop_def update_object_def)
    then show ?thesis
      using False c d q(1) by (simp add: on_read_def Let_def receive_chunk_def StartReadLoop_def update_object_def)
  qed
qed

text \<open>The parts of the state that \<open>server_ok\<close> does not speak of.\<close>

lemma server_ok_cong:
  "ns_inboundQueue s' = ns_inboundQueue s \<Longrightarrow> ns_connections s' = ns_connections s \<Longrightarrow> ns_objects s' = ns_objects s \<Longrightarrow>
   ns_reading s' = ns_reading s \<Longrightarrow> ns_writing s' = ns_writing s \<Longrightarrow> ns_nextConnectionId s' = ns_nextConnectionId s \<Longrightarrow>
   server_ok s' = server_ok s"
  by (simp add: server_ok_def)

lemma StartAccept_ok:
  "server_ok (StartAccept lib s) = server_ok s" "ns_nextConnectionId (StartAccept lib s) = ns_nextConnectionId s"
  by (rule server_ok_cong) (simp_all add: StartAccept_def)

lemma on_accept_ok:
  assumes ok: "server_ok s" and room: "unat (ns_nextConnectionId s) + 1 < 2 ^ 64"
  shows "server_ok (on_accept lib ec s) \<and> unat (ns_nextConnectionId (on_accept lib ec s)) \<le> unat (ns_nextConnectionId s) + 1"
proof -
  let ?i = "ns_nextConnectionId s"
  let ?new = "s\<lparr>ns_accepting := False, ns_nextConnectionId := ?i + 1, ns_objects := (ns_objects s)(?i \<mapsto> TcpConnection_new ?i),
    ns_connections := insert ?i (ns_connections s), ns_ioContext := lib_async lib (ns_ioContext s), ns_reading := insert ?i (ns_reading s)\<rparr>"
  have next_id: "unat (?i + 1) = unat ?i + 1" using room by (simp add: unat_add_nowrap)
  have fresh: "?i \<notin> dom (ns_objects s)" using ok by (auto simp: server_ok_def)
  then have "?i \<notin> fst ` set (ns_writing s)" using ok by (auto simp: server_ok_def)
  then have "conn_ok ?i (ns_writing s) (TcpConnection_new ?i)" by (simp add: conn_ok_def TcpConnection_new_def)
  then have new: "server_ok ?new"
    using ok next_id by (auto simp: server_ok_def less_Suc_eq)
  have same: "server_ok (s\<lparr>ns_accepting := False\<rparr>)" using ok server_ok_cong [of "s\<lparr>ns_accepting := False\<rparr>" s] by simp
  show ?thesis
  proof (cases ec)
    case Accepted
    then have "on_accept lib ec s = (if ns_acceptor s = Some True then StartAccept lib ?new else ?new)"
      by (simp add: on_accept_def Let_def update_object_def StartReadLoop_def)
    then show ?thesis using new next_id by (simp add: StartAccept_ok)
  next
    case Accept_aborted
    then show ?thesis using same by (simp add: on_accept_def Let_def)
  next
    case Accept_error
    then show ?thesis using same by (simp add: on_accept_def Let_def StartAccept_ok)
  qed
qed

lemma poll_ok: "server_ok s \<Longrightarrow> server_ok (snd (snd (PollPacket p s))) \<and> ns_nextConnectionId (snd (snd (PollPacket p s))) = ns_nextConnectionId s"
proof -
  assume ok: "server_ok s"
  then have r: "ring_ok (ns_inboundQueue s)" by (simp add: server_ok_def)
  obtain b x q where q: "MPSC_Dequeue (ns_inboundQueue s) p = (b, x, q)" "ring_ok q" "ring_capacity q = ring_capacity (ns_inboundQueue s)"
  proof (cases "ring_contents (ns_inboundQueue s)")
    case Nil
    then show ?thesis using mpsc.dequeue_empty [OF r Nil, of p] r that by auto
  next
    case (Cons y ys)
    then show ?thesis using mpsc.dequeue_item [OF r Cons, of p] that by auto
  qed
  then show ?thesis using ok by (simp add: PollPacket_def server_ok_def)
qed

lemma handle_event_ok:
  assumes ok: "server_ok s" and room: "unat (ns_nextConnectionId s) + 1 < 2 ^ 64"
  shows "\<exists>s'. handle_event lib e s = Inr s' \<and> server_ok s' \<and> unat (ns_nextConnectionId s') \<le> unat (ns_nextConnectionId s) + 1"
proof (cases e)
  case (Ev_accept ec)
  then show ?thesis using ok on_accept_ok [OF ok room] by simp
next
  case (Ev_read i ec chunk)
  then show ?thesis using ok on_read_ok [OF ok, of i lib ec chunk] by auto
next
  case (Ev_write i ec)
  then show ?thesis using ok on_write_ok [OF ok, of i _ lib ec] by (cases "map_of (ns_writing s) i") auto
next
  case (Ev_send packet)
  then show ?thesis using ok Send_ok [OF ok, of lib packet] by auto
next
  case Ev_poll
  then show ?thesis using poll_ok [OF ok] by simp
qed

lemma handle_events_ok:
  "server_ok s \<Longrightarrow> unat (ns_nextConnectionId s) + length es < 2 ^ 64 \<Longrightarrow> \<exists>s'. handle_events lib es s = Inr s' \<and> server_ok s'"
proof (induction es arbitrary: s)
  case (Cons e es)
  obtain s1 where s1: "handle_event lib e s = Inr s1" "server_ok s1" "unat (ns_nextConnectionId s1) \<le> unat (ns_nextConnectionId s) + 1"
    using handle_event_ok [OF Cons.prems(1), of lib e] Cons.prems(2) by auto
  then show ?case using Cons.IH [OF s1(2)] Cons.prems(2) by simp
qed simp

lemma NetServer_new_ok: "server_ok (NetServer_new io)" "ring_contents (ns_inboundQueue (NetServer_new io)) = []"
proof -
  have "capacity_ok kInboundQueueCapacity"
    unfolding capacity_ok_def kInboundQueueCapacity_def by (intro exI [of _ 16]) simp
  then show "server_ok (NetServer_new io)" "ring_contents (ns_inboundQueue (NetServer_new io)) = []"
    using ring_new_ok [of kInboundQueueCapacity ReceivedPacket_new]
    by (simp_all add: server_ok_def NetServer_new_def ring_new_def)
qed

lemma NetServer_Start_ok: "NetServer_Start lib spawned port s = Inr (b, s') \<Longrightarrow> server_ok s \<Longrightarrow>
    server_ok s' \<and> ns_nextConnectionId s' = ns_nextConnectionId s"
proof -
  assume start: "NetServer_Start lib spawned port s = Inr (b, s')" and ok: "server_ok s"
  have "ns_inboundQueue s' = ns_inboundQueue s \<and> ns_connections s' = ns_connections s \<and> ns_objects s' = ns_objects s \<and>
      ns_reading s' = ns_reading s \<and> ns_writing s' = ns_writing s \<and> ns_nextConnectionId s' = ns_nextConnectionId s"
    using start by (auto simp: NetServer_Start_def Let_def StartAccept_def split: if_splits option.splits)
  then show ?thesis using ok server_ok_cong [of s' s] by simp
qed

text \<open>Whatever sequence of completions, sends and polls happens to a started server (fewer than
  \<open>2^64\<close> of them), no handler finds a null connection, every connection has at most one write
  outstanding, and a connection that is up and has packets waiting has a write outstanding, whose
  completion will take the next packet.\<close>

theorem server_survives_every_event:
  assumes "NetServer_Start lib spawned port (NetServer_new io) = Inr (b, s)" and "length es < 2 ^ 64 - 1"
  shows "\<exists>s'. handle_events lib es s = Inr s' \<and> distinct (map fst (ns_writing s')) \<and>
    ns_connections s' \<union> ns_reading s' \<subseteq> dom (ns_objects s') \<and>
    (\<forall>i c. ns_objects s' i = Some c \<and> cn_connected c \<and> cn_sendQueue c \<noteq> [] \<longrightarrow> i \<in> fst ` set (ns_writing s'))"
proof -
  have s: "server_ok s" "ns_nextConnectionId s = 1"
    using NetServer_Start_ok [OF assms(1) NetServer_new_ok(1)] by (auto simp: NetServer_new_def)
  obtain s' where s': "handle_events lib es s = Inr s'" "server_ok s'"
    using handle_events_ok [OF s(1), of es lib] s(2) assms(2) by auto
  have "i \<in> fst ` set (ns_writing s')" if "ns_objects s' i = Some c \<and> cn_connected c \<and> cn_sendQueue c \<noteq> []" for i c
    using server_ok_object [OF s'(2), of i c] that unfolding conn_ok_def by blast
  moreover have "distinct (map fst (ns_writing s'))" "ns_connections s' \<union> ns_reading s' \<subseteq> dom (ns_objects s')"
    using s'(2) unfolding server_ok_def by (simp, blast)
  ultimately show ?thesis using s'(1) by (intro exI [of _ s']) blast
qed

section \<open>Delivery to the game thread\<close>

text \<open>What an event adds to the reads, to the packets decoded and to the packets polled.\<close>

record server_trace =
  tr_read :: "(ConnectionId \<times> u8 list) list"
  tr_decoded :: "received_packet list"
  tr_polled :: "received_packet list"

definition receive_buffer :: "'io net_server \<Rightarrow> ConnectionId \<Rightarrow> byte_buffer" where
  "receive_buffer s i = (case ns_objects s i of None \<Rightarrow> [] | Some c \<Rightarrow> cn_receiveBuffer c)"

definition silent :: server_trace where
  "silent = \<lparr>tr_read = [], tr_decoded = [], tr_polled = []\<rparr>"

definition then_trace :: "server_trace \<Rightarrow> server_trace \<Rightarrow> server_trace" where
  "then_trace a b =
     \<lparr>tr_read = tr_read a @ tr_read b, tr_decoded = tr_decoded a @ tr_decoded b, tr_polled = tr_polled a @ tr_polled b\<rparr>"

fun observe :: "server_event \<Rightarrow> 'io net_server \<Rightarrow> server_trace" where
  "observe (Ev_read i ec chunk) s =
     (if i \<notin> ns_reading s \<or> ec then silent
      else case receive_chunk i (receive_buffer s i) chunk of
        Inl e \<Rightarrow> silent
      | Inr (buf, ps) \<Rightarrow> silent\<lparr>tr_read := [(i, chunk)], tr_decoded := ps\<rparr>)"
| "observe Ev_poll s =
     (case PollPacket ReceivedPacket_new s of (ok, p, s') \<Rightarrow> if ok then silent\<lparr>tr_polled := [p]\<rparr> else silent)"
| "observe e s = silent"

fun traced_events :: "'io io_library \<Rightarrow> server_event list \<Rightarrow> 'io net_server \<Rightarrow> (server_trace \<times> 'io net_server) result" where
  "traced_events lib [] s = Inr (silent, s)"
| "traced_events lib (e # es) s =
     and_then (handle_event lib e s) (\<lambda>s1.
       and_then (traced_events lib es s1) (\<lambda>(tr, s2). Inr (then_trace (observe e s) tr, s2)))"

lemma trace_simps [simp]:
  "tr_read silent = []" "tr_decoded silent = []" "tr_polled silent = []"
  "tr_read (then_trace a b) = tr_read a @ tr_read b" "tr_decoded (then_trace a b) = tr_decoded a @ tr_decoded b"
  "tr_polled (then_trace a b) = tr_polled a @ tr_polled b"
  by (simp_all add: silent_def then_trace_def)

text \<open>What an event that is neither a read nor a poll leaves alone.\<close>

definition keeps_inbound :: "'io net_server \<Rightarrow> 'io net_server \<Rightarrow> bool" where
  "keeps_inbound s s' \<longleftrightarrow> ns_inboundQueue s' = ns_inboundQueue s \<and> receive_buffer s' = receive_buffer s"

lemma receive_buffer_update [simp]:
  "receive_buffer (update_object i c s) = (receive_buffer s)(i := cn_receiveBuffer c)"
  by (auto simp: receive_buffer_def update_object_def)

lemma receive_buffer_cong: "ns_objects s' = ns_objects s \<Longrightarrow> receive_buffer s' = receive_buffer s"
  by (rule ext) (simp add: receive_buffer_def)

lemma keeps_update:
  "ns_objects s i = Some c \<Longrightarrow> cn_receiveBuffer c' = cn_receiveBuffer c \<Longrightarrow> ns_objects s' = ns_objects s \<Longrightarrow>
   ns_inboundQueue s' = ns_inboundQueue s \<Longrightarrow> keeps_inbound s (update_object i c' s')"
  by (auto simp: keeps_inbound_def receive_buffer_def update_object_def)

lemma write_next_buffer: "write_next c = Some (c', p) \<Longrightarrow> cn_receiveBuffer c' = cn_receiveBuffer c"
  by (auto simp: write_next_eq split: if_splits list.splits)

lemma StartWriteLoop_keeps:
  assumes "StartWriteLoop lib i s = Inr s'"
  shows "keeps_inbound s s'"
proof -
  obtain c where c: "ns_objects s i = Some c" using assms by (cases "ns_objects s i") (auto simp: StartWriteLoop_def)
  obtain c' p where w: "write_next c = Some (c', p)" using assms c by (cases "write_next c") (auto simp: StartWriteLoop_def)
  have "s' = update_object i c' (case p of None \<Rightarrow> s
      | Some packet \<Rightarrow> s\<lparr>ns_ioContext := lib_async lib (ns_ioContext s), ns_writing := ns_writing s @ [(i, packet)]\<rparr>)"
    using assms c w by (auto simp: StartWriteLoop_def split: option.splits)
  moreover have "keeps_inbound s \<dots>" by (rule keeps_update [OF c write_next_buffer [OF w]]) (simp_all split: option.splits)
  ultimately show ?thesis by simp
qed

lemma Send_keeps: "Send lib packet s = Inr (ok, s') \<Longrightarrow> keeps_inbound s s'"
proof (cases "op_connectionId packet \<in> ns_connections s")
  case True
  assume send: "Send lib packet s = Inr (ok, s')"
  let ?i = "op_connectionId packet"
  obtain c where c0: "ns_objects s ?i = Some c" using send True by (cases "ns_objects s ?i") (auto simp: Send_def Let_def)
  obtain b c' where c: "ns_objects s ?i = Some c" "EnqueueSend (packet_bytes (op_packetId packet) (op_payload packet)) c = (b, c')"
    using c0 by fastforce
  have "cn_receiveBuffer c' = cn_receiveBuffer c" using c(2) by (auto simp: EnqueueSend_def enqueue_locked_def split: if_splits)
  then have one: "keeps_inbound s (update_object ?i c' s)" by (rule keeps_update [OF c(1)]) simp_all
  then have two: "StartWriteLoop lib ?i (update_object ?i c' s) = Inr s' \<Longrightarrow> keeps_inbound s s'"
    using StartWriteLoop_keeps [of lib ?i "update_object ?i c' s" s'] by (simp add: keeps_inbound_def)
  show ?thesis
    using send True c two by (auto simp: Send_def Let_def Encode_eq and_then_Inr_iff keeps_inbound_def split: if_splits)
qed (simp add: Send_def Let_def keeps_inbound_def)

lemma on_write_keeps: "on_write lib i packet ec s = Inr s' \<Longrightarrow> keeps_inbound s s'"
proof -
  assume w: "on_write lib i packet ec s = Inr s'"
  let ?s = "s\<lparr>ns_writing := remove1 (i, packet) (ns_writing s)\<rparr>"
  obtain c where c: "ns_objects s i = Some c" using w by (cases "ns_objects s i") (auto simp: on_write_def Let_def)
  have k: "keeps_inbound s (update_object i (EndWrite (Disconnect c)) ?s)" "keeps_inbound s (update_object i (EndWrite c) ?s)"
    by (rule keeps_update [OF c], simp_all add: EndWrite_def Disconnect_def)+
  show ?thesis
  proof (cases ec)
    case True
    then have "s' = RemoveConnection i (update_object i (EndWrite (Disconnect c)) ?s)"
      using w c by (simp add: on_write_def Let_def)
    then show ?thesis using k(1) receive_buffer_cong [of s' "update_object i (EndWrite (Disconnect c)) ?s"]
      by (simp add: keeps_inbound_def RemoveConnection_def)
  next
    case False
    then have "StartWriteLoop lib i (update_object i (EndWrite c) ?s) = Inr s'" using w c by (simp add: on_write_def Let_def)
    from StartWriteLoop_keeps [OF this] show ?thesis using k(2) by (simp add: keeps_inbound_def)
  qed
qed

lemma on_accept_keeps:
  assumes "server_ok s"
  shows "keeps_inbound s (on_accept lib ec s)"
proof -
  have fresh: "ns_objects s (ns_nextConnectionId s) = None"
    using assms by (cases "ns_objects s (ns_nextConnectionId s)") (auto simp: server_ok_def)
  have "ns_inboundQueue (on_accept lib ec s) = ns_inboundQueue s"
    by (simp add: on_accept_def Let_def StartAccept_def StartReadLoop_def update_object_def)
  moreover have "receive_buffer (on_accept lib ec s) i = receive_buffer s i" for i
    using fresh by (simp add: on_accept_def Let_def StartAccept_def StartReadLoop_def update_object_def receive_buffer_def TcpConnection_new_def)
  ultimately show ?thesis by (auto simp: keeps_inbound_def)
qed

text \<open>A read adds the packets it completes to the queue, those for which there is room.\<close>

lemma on_read_inbound:
  assumes ok: "server_ok s" and i: "ns_objects s i = Some c"
  shows "\<exists>s' buf ps. on_read lib i False chunk s = Inr s' \<and> receive_chunk i (receive_buffer s i) chunk = Inr (buf, ps) \<and>
    (\<forall>p \<in> set ps. rp_connectionId p = i) \<and> receive_buffer s' = (receive_buffer s)(i := buf) \<and>
    ring_contents (ns_inboundQueue s') = take kInboundQueueCapacity (ring_contents (ns_inboundQueue s) @ ps)"
proof -
  have id: "cn_connectionId c = i" using server_ok_object [OF ok i] by (simp add: conn_ok_def)
  obtain buf ps where d: "decode_loop i (cn_receiveBuffer c @ chunk) = Inr (buf, ps)" "\<forall>p \<in> set ps. rp_connectionId p = i"
    using decode_loop_total by blast
  obtain q where q: "enqueue_inbound ps (ns_inboundQueue s) = Inr q"
    "ring_contents q = take kInboundQueueCapacity (ring_contents (ns_inboundQueue s) @ ps)"
    using enqueue_inbound_ok [of "ns_inboundQueue s" ps] ok by (auto simp: server_ok_def)
  let ?s1 = "StartReadLoop lib i (update_object i (c\<lparr>cn_receiveBuffer := buf\<rparr>)
    (s\<lparr>ns_reading := ns_reading s - {i}, ns_inboundQueue := q\<rparr>))"
  have "on_read lib i False chunk s = Inr ?s1"
    using i d(1) q(1) id by (simp add: on_read_def Let_def receive_chunk_def GetId_def)
  moreover have "receive_chunk i (receive_buffer s i) chunk = Inr (buf, ps)"
    using i d(1) by (simp add: receive_buffer_def receive_chunk_def)
  moreover have "receive_buffer ?s1 = (receive_buffer s)(i := buf)" "ns_inboundQueue ?s1 = q"
    by (auto simp: StartReadLoop_def update_object_def receive_buffer_def)
  ultimately show ?thesis using d(2) q(2) by (intro exI [of _ ?s1] exI [of _ buf] exI [of _ ps]) simp
qed

lemma PollPacket_inbound:
  assumes "server_ok s"
  shows "case PollPacket p s of (ok, x, s') \<Rightarrow> receive_buffer s' = receive_buffer s \<and>
    (if ok then ring_contents (ns_inboundQueue s) = x # ring_contents (ns_inboundQueue s')
     else ring_contents (ns_inboundQueue s) = [] \<and> ring_contents (ns_inboundQueue s') = [])"
proof (cases "ring_contents (ns_inboundQueue s)")
  case Nil
  then show ?thesis using assms mpsc.dequeue_empty [of "ns_inboundQueue s" p]
    by (auto simp: server_ok_def PollPacket_def intro: receive_buffer_cong)
next
  case (Cons y ys)
  then show ?thesis using assms mpsc.dequeue_item [of "ns_inboundQueue s" y ys p]
    by (auto simp: server_ok_def PollPacket_def intro: receive_buffer_cong)
qed

text \<open>What one event does to the buffers and to the queue, with the event's part of the trace.\<close>

definition accounted :: "'io net_server \<Rightarrow> server_trace \<Rightarrow> 'io net_server \<Rightarrow> bool" where
  "accounted s tr s' \<longleftrightarrow>
     (\<forall>i. receive_chunks i (receive_buffer s i) (chunks_of i (tr_read tr))
        = Inr (receive_buffer s' i, filter (\<lambda>p. rp_connectionId p = i) (tr_decoded tr)))"

definition lossless :: "'io net_server \<Rightarrow> server_trace \<Rightarrow> 'io net_server \<Rightarrow> bool" where
  "lossless s tr s' \<longleftrightarrow>
     ring_contents (ns_inboundQueue s) @ tr_decoded tr = tr_polled tr @ ring_contents (ns_inboundQueue s')"

lemma keeps_accounted: "keeps_inbound s s' \<Longrightarrow> accounted s silent s' \<and> lossless s silent s'"
  by (simp add: keeps_inbound_def accounted_def lossless_def)

lemma handle_event_accounted:
  assumes ok: "server_ok s" and step: "handle_event lib e s = Inr s'"
  shows "accounted s (observe e s) s' \<and>
    (length (ring_contents (ns_inboundQueue s) @ tr_decoded (observe e s)) \<le> kInboundQueueCapacity \<longrightarrow> lossless s (observe e s) s')"
proof (cases e)
  case (Ev_accept ec)
  then have "keeps_inbound s s'" using step on_accept_keeps [OF ok] by (auto simp: keeps_inbound_def split: if_splits)
  then show ?thesis using Ev_accept by (simp add: keeps_accounted)
next
  case (Ev_read i ec chunk)
  show ?thesis
  proof (cases "i \<notin> ns_reading s \<or> ec")
    case True
    then have "keeps_inbound s s'"
    proof (cases "i \<in> ns_reading s")
      case i: True
      then obtain c where c: "ns_objects s i = Some c" using ok by (auto simp: server_ok_def)
      have "s' = RemoveConnection i (update_object i (Disconnect c) (s\<lparr>ns_reading := ns_reading s - {i}\<rparr>))"
        using True i c step Ev_read by (simp add: on_read_def Let_def)
      moreover have "keeps_inbound s (update_object i (Disconnect c) (s\<lparr>ns_reading := ns_reading s - {i}\<rparr>))"
        by (rule keeps_update [OF c]) (simp_all add: Disconnect_def)
      ultimately show ?thesis
        using receive_buffer_cong [of s' "update_object i (Disconnect c) (s\<lparr>ns_reading := ns_reading s - {i}\<rparr>)"]
        by (simp add: keeps_inbound_def RemoveConnection_def)
    qed (use step Ev_read in \<open>simp add: keeps_inbound_def\<close>)
    then show ?thesis using True Ev_read by (simp add: keeps_accounted)
  next
    case False
    then obtain c where c: "ns_objects s i = Some c" using ok by (auto simp: server_ok_def)
    from on_read_inbound [OF ok c, of lib chunk] obtain buf ps where r:
      "receive_chunk i (receive_buffer s i) chunk = Inr (buf, ps)" "\<forall>p \<in> set ps. rp_connectionId p = i"
      "receive_buffer s' = (receive_buffer s)(i := buf)"
      "ring_contents (ns_inboundQueue s') = take kInboundQueueCapacity (ring_contents (ns_inboundQueue s) @ ps)"
      using step False Ev_read by auto
    have o: "observe e s = silent\<lparr>tr_read := [(i, chunk)], tr_decoded := ps\<rparr>" using False Ev_read r(1) by simp
    have "filter (\<lambda>p. rp_connectionId p = j) ps = (if j = i then ps else [])" for j
      using r(2) by (auto simp: filter_empty_conv intro: filter_True)
    then have "accounted s (observe e s) s'" using r(1,3) by (simp add: o accounted_def)
    then show ?thesis using r(4) by (simp add: o lossless_def)
  qed
next
  case (Ev_write i ec)
  then have "keeps_inbound s s'" using step on_write_keeps by (cases "map_of (ns_writing s) i") (simp add: keeps_inbound_def, auto)
  then show ?thesis using Ev_write by (simp add: keeps_accounted)
next
  case (Ev_send packet)
  then have "keeps_inbound s s'" using step by (auto simp: and_then_Inr_iff dest: Send_keeps)
  then show ?thesis using Ev_send by (simp add: keeps_accounted)
next
  case Ev_poll
  then show ?thesis using step PollPacket_inbound [OF ok, of ReceivedPacket_new]
    by (auto simp: accounted_def lossless_def split: prod.splits if_splits)
qed

text \<open>The packets decoded and not yet polled never exceed the capacity of the queue.\<close>

definition never_full :: "'io io_library \<Rightarrow> server_event list \<Rightarrow> 'io net_server \<Rightarrow> bool" where
  "never_full lib es s \<longleftrightarrow>
     (\<forall>k \<le> length es. \<forall>tr s'. traced_events lib (take k es) s = Inr (tr, s') \<longrightarrow>
        length (ring_contents (ns_inboundQueue s)) + length (tr_decoded tr) \<le> kInboundQueueCapacity + length (tr_polled tr))"

lemma chunks_of_append: "chunks_of i (rs @ rs') = chunks_of i rs @ chunks_of i rs'"
  by (simp add: chunks_of_def)

lemma accounted_then: "accounted s a s1 \<Longrightarrow> accounted s1 b s2 \<Longrightarrow> accounted s (then_trace a b) s2"
  by (simp add: accounted_def chunks_of_append receive_chunks_append)

lemma lossless_then: "lossless s a s1 \<Longrightarrow> lossless s1 b s2 \<Longrightarrow> lossless s (then_trace a b) s2"
  unfolding lossless_def trace_simps by (metis append.assoc)

lemma never_full_first:
  "never_full lib (e # es) s \<Longrightarrow> handle_event lib e s = Inr s1 \<Longrightarrow>
   length (ring_contents (ns_inboundQueue s)) + length (tr_decoded (observe e s)) \<le> kInboundQueueCapacity + length (tr_polled (observe e s))"
  unfolding never_full_def by (drule spec [of _ 1]) (simp add: Let_def)

lemma never_full_rest:
  assumes "never_full lib (e # es) s" and "handle_event lib e s = Inr s1" and "lossless s (observe e s) s1"
  shows "never_full lib es s1"
  unfolding never_full_def
proof (intro allI impI)
  fix k tr s'
  assume k: "k \<le> length es" "traced_events lib (take k es) s1 = Inr (tr, s')"
  have "traced_events lib (take (Suc k) (e # es)) s = Inr (then_trace (observe e s) tr, s')" using assms(2) k(2) by simp
  then have "length (ring_contents (ns_inboundQueue s)) + length (tr_decoded (then_trace (observe e s) tr))
      \<le> kInboundQueueCapacity + length (tr_polled (then_trace (observe e s) tr))"
    using assms(1) k(1) unfolding never_full_def by fastforce
  moreover have "length (ring_contents (ns_inboundQueue s)) + length (tr_decoded (observe e s))
      = length (tr_polled (observe e s)) + length (ring_contents (ns_inboundQueue s1))"
    using arg_cong [OF assms(3) [unfolded lossless_def], of length] by simp
  ultimately show "length (ring_contents (ns_inboundQueue s1)) + length (tr_decoded tr) \<le> kInboundQueueCapacity + length (tr_polled tr)"
    by simp
qed

lemma traced_events_ok:
  "server_ok s \<Longrightarrow> unat (ns_nextConnectionId s) + length es < 2 ^ 64 \<Longrightarrow> never_full lib es s \<Longrightarrow>
   \<exists>tr s'. traced_events lib es s = Inr (tr, s') \<and> handle_events lib es s = Inr s' \<and> server_ok s' \<and> accounted s tr s' \<and> lossless s tr s'"
proof (induction es arbitrary: s)
  case Nil
  then show ?case using keeps_accounted [of s s] by (simp add: keeps_inbound_def)
next
  case (Cons e es)
  obtain s1 where s1: "handle_event lib e s = Inr s1" "server_ok s1" "unat (ns_nextConnectionId s1) \<le> unat (ns_nextConnectionId s) + 1"
    using handle_event_ok [OF Cons.prems(1), of lib e] Cons.prems(2) by auto
  have acc: "accounted s (observe e s) s1" by (rule handle_event_accounted [OF Cons.prems(1) s1(1), THEN conjunct1])
  have less: "lossless s (observe e s) s1"
  proof (cases e)
    case Ev_poll
    then show ?thesis using PollPacket_inbound [OF Cons.prems(1), of ReceivedPacket_new] s1(1)
      by (auto simp: lossless_def split: prod.splits if_splits)
  next
    case (Ev_read i ec chunk)
    then have "tr_polled (observe e s) = []" by (simp split: sum.splits)
    then show ?thesis using handle_event_accounted [OF Cons.prems(1) s1(1)] never_full_first [OF Cons.prems(3) s1(1)] by simp
  qed (use handle_event_accounted [OF Cons.prems(1) s1(1)] never_full_first [OF Cons.prems(3) s1(1)] in simp_all)
  have "unat (ns_nextConnectionId s1) + length es < 2 ^ 64" using s1(3) Cons.prems(2) by simp
  from Cons.IH [OF s1(2) this never_full_rest [OF Cons.prems(3) s1(1) less]] obtain tr s2 where
    rest: "traced_events lib es s1 = Inr (tr, s2)" "handle_events lib es s1 = Inr s2" "server_ok s2" "accounted s1 tr s2" "lossless s1 tr s2"
    by blast
  then show ?case
    using s1(1) accounted_then [OF acc rest(4)] lossless_then [OF less rest(5)] by simp
qed

lemma NetServer_Start_fresh: "NetServer_Start lib spawned port s = Inr (b, s') \<Longrightarrow>
    ns_inboundQueue s' = ns_inboundQueue s \<and> ns_objects s' = ns_objects s"
  by (auto simp: NetServer_Start_def Let_def StartAccept_def split: if_splits option.splits)

text \<open>C1. What the clients sent reaches \<open>PollPacket\<close>. Take a started server and any sequence of accepts, reads, ends of writes,
  sends and polls, in which at no time more than 65536 packets are decoded and not yet polled, and clients whose payloads
  are of at most 64 KiB. However TCP cuts the streams and however the connections interleave, nothing is dropped: the packets
  polled, followed by those that polling on yields, are the packets decoded, and those of a connection are the packets its
  client sent, in order, with its identifier: all of them, when the reads brought its whole stream.\<close>

theorem server_delivers_every_packet:
  assumes "NetServer_Start lib spawned port (NetServer_new io) = Inr (b, s)" and "length es < 2 ^ 64 - 1"
    and "never_full lib es s"
  shows "\<exists>tr s'. traced_events lib es s = Inr (tr, s') \<and> handle_events lib es s = Inr s' \<and>
    tr_polled tr @ fst (poll_all kInboundQueueCapacity s') = tr_decoded tr \<and>
    (\<forall>i sent rest. concat (chunks_of i (tr_read tr)) @ rest = stream sent \<and> deliverable sent \<longrightarrow>
      (\<exists>k. filter (\<lambda>p. rp_connectionId p = i) (tr_decoded tr) = map (received i) (take k sent) \<and>
        (rest = [] \<longrightarrow> take k sent = sent)))"
proof -
  have s: "server_ok s" "ns_nextConnectionId s = 1"
    using NetServer_Start_ok [OF assms(1) NetServer_new_ok(1)] by (auto simp: NetServer_new_def)
  have new: "ns_inboundQueue s = ns_inboundQueue (NetServer_new io)" "ns_objects s = Map.empty"
    using NetServer_Start_fresh [OF assms(1)] by (simp_all add: NetServer_new_def)
  have empty: "ring_contents (ns_inboundQueue s) = []" "receive_buffer s i = []" for i
    using NetServer_new_ok(2) [of io] by (simp_all add: new receive_buffer_def)
  obtain tr s' where t: "traced_events lib es s = Inr (tr, s')" "handle_events lib es s = Inr s'" "server_ok s'"
    "accounted s tr s'" "lossless s tr s'"
    using traced_events_ok [OF s(1) _ assms(3)] s(2) assms(2) by auto
  have "tr_polled tr @ fst (poll_all kInboundQueueCapacity s') = tr_decoded tr"
  proof -
    have "ring_ok (ns_inboundQueue s')" "ring_capacity (ns_inboundQueue s') = kInboundQueueCapacity"
      using t(3) by (simp_all add: server_ok_def)
    then have "fst (poll_all kInboundQueueCapacity s') = ring_contents (ns_inboundQueue s')"
      using poll_all_ok [of s' kInboundQueueCapacity] mpsc.items_bound [of "ns_inboundQueue s'"] by simp
    then show ?thesis using t(5) empty(1) by (simp add: lossless_def)
  qed
  moreover have "\<exists>k. filter (\<lambda>p. rp_connectionId p = i) (tr_decoded tr) = map (received i) (take k sent) \<and>
      (rest = [] \<longrightarrow> take k sent = sent)"
    if sent: "concat (chunks_of i (tr_read tr)) @ rest = stream sent \<and> deliverable sent" for i sent rest
  proof -
    have bytes: "[] @ concat (chunks_of i (tr_read tr)) @ rest = stream sent" and small: "deliverable sent" using sent by simp_all
    from receive_chunks_prefix [OF bytes incomplete_nil small, of i] obtain k partial where
      k: "receive_chunks i [] (chunks_of i (tr_read tr)) = Inr (partial, map (received i) (take k sent))"
      "partial @ rest = stream (drop k sent)" "incomplete partial (drop k sent)" by blast
    have "filter (\<lambda>p. rp_connectionId p = i) (tr_decoded tr) = map (received i) (take k sent)"
      using t(4) [unfolded accounted_def, rule_format, of i] empty(2) k(1) by simp
    moreover have "rest = [] \<longrightarrow> take k sent = sent" using incomplete_all [OF k(3)] k(2) by auto
    ultimately show ?thesis by blast
  qed
  ultimately show ?thesis using t(1,2) by blast
qed

text \<open>Traffic that is too small to fill the queue.\<close>

fun event_bytes :: "server_event \<Rightarrow> nat" where
  "event_bytes (Ev_read i ec chunk) = length chunk"
| "event_bytes e = 0"

lemma observe_at_most:
  assumes "\<forall>i. length (receive_buffer s i) \<le> m"
  shows "length (tr_decoded (observe e s)) \<le> m + event_bytes e"
    and "length (concat (chunks_of i (tr_read (observe e s)))) \<le> event_bytes e"
proof -
  have "length ps \<le> m + length chunk" if "receive_chunk j (receive_buffer s j) chunk = Inr (buf, ps)" for j chunk buf ps
    using decode_loop_at_most [of j "receive_buffer s j @ chunk" buf ps] that assms [rule_format, of j]
    by (simp add: receive_chunk_def)
  then show "length (tr_decoded (observe e s)) \<le> m + event_bytes e"
    by (cases e) (auto split: sum.split prod.split)
  show "length (concat (chunks_of i (tr_read (observe e s)))) \<le> event_bytes e"
    by (cases e) (auto split: sum.split prod.split)
qed

lemma traced_events_at_most:
  "traced_events lib es s = Inr (tr, s') \<Longrightarrow> server_ok s \<Longrightarrow> unat (ns_nextConnectionId s) + length es < 2 ^ 64 \<Longrightarrow>
   \<forall>i. length (receive_buffer s i) \<le> m \<Longrightarrow> length (tr_decoded tr) \<le> length es * (m + sum_list (map event_bytes es))"
proof (induction es arbitrary: s tr m)
  case (Cons e es)
  obtain s1 where s1: "handle_event lib e s = Inr s1" "server_ok s1" "unat (ns_nextConnectionId s1) \<le> unat (ns_nextConnectionId s) + 1"
    using handle_event_ok [OF Cons.prems(2), of lib e] Cons.prems(3) by auto
  then obtain tr1 where tr1: "traced_events lib es s1 = Inr (tr1, s')" "tr = then_trace (observe e s) tr1"
    using Cons.prems(1) by (auto simp: and_then_Inr_iff)
  have buf: "length (receive_buffer s1 i) \<le> m + event_bytes e" for i
    using handle_event_accounted [OF Cons.prems(2) s1(1)] receive_chunks_at_most [of i "receive_buffer s i"]
      observe_at_most(2) [OF Cons.prems(4), of i e] Cons.prems(4) [rule_format, of i] by (fastforce simp: accounted_def)
  have "length (tr_decoded tr1) \<le> length es * (m + event_bytes e + sum_list (map event_bytes es))"
    using Cons.IH [OF tr1(1) s1(2), of "m + event_bytes e"] buf s1(3) Cons.prems(3) by simp
  then show ?case using tr1(2) observe_at_most(1) [OF Cons.prems(4), of e] by (simp add: add.assoc)
qed simp

lemma small_traffic_fits:
  assumes "NetServer_Start lib spawned port (NetServer_new io) = Inr (b, s)" and "length es < 2 ^ 64 - 1"
    and "length es * sum_list (map event_bytes es) \<le> kInboundQueueCapacity"
  shows "never_full lib es s"
  unfolding never_full_def
proof (intro allI impI)
  fix k tr s'
  assume k: "k \<le> length es" "traced_events lib (take k es) s = Inr (tr, s')"
  have s: "server_ok s" "ns_nextConnectionId s = 1"
    using NetServer_Start_ok [OF assms(1) NetServer_new_ok(1)] by (auto simp: NetServer_new_def)
  have new: "ring_contents (ns_inboundQueue s) = []" "receive_buffer s i = []" for i
    using NetServer_Start_fresh [OF assms(1)] NetServer_new_ok(2) [of io] by (simp_all add: NetServer_new_def receive_buffer_def)
  have "length (tr_decoded tr) \<le> k * sum_list (map event_bytes (take k es))"
    using traced_events_at_most [OF k(2) s(1), of 0] new(2) s(2) k(1) assms(2) by simp
  also have "\<dots> \<le> length es * sum_list (map event_bytes es)"
    by (rule mult_le_mono [OF k(1)])
      (metis append_take_drop_id le_add1 map_append sum_list_append)
  finally show "length (ring_contents (ns_inboundQueue s)) + length (tr_decoded tr) \<le> kInboundQueueCapacity + length (tr_polled tr)"
    using assms(3) new(1) by simp
qed

section \<open>Stop and start again\<close>

lemma drain_ok: "ring_ok q \<Longrightarrow> \<exists>q'. drain q = Some q' \<and> ring_ok q' \<and> ring_capacity q' = ring_capacity q \<and> ring_contents q' = []"
proof (induction "ring_contents q" arbitrary: q)
  case Nil
  then have "drain q = Some q"
    using mpsc.dequeue_empty [of q ReceivedPacket_new] by (subst drain.simps) simp
  then show ?case using Nil by simp
next
  case (Cons p ps)
  obtain q1 where q1: "MPSC_Dequeue q ReceivedPacket_new = (True, p, q1)" "ring_ok q1" "ring_capacity q1 = ring_capacity q"
    "ring_contents q1 = ps"
    using mpsc.dequeue_item [OF Cons.prems Cons.hyps(2) [symmetric], of ReceivedPacket_new] by auto
  have "drain q = drain q1" using q1(1) by (subst drain.simps) simp
  then show ?case using Cons.hyps(1) [of q1] q1 by auto
qed

text \<open>C36. \<open>Stop\<close> returns with every connection closed and the inbound queue empty; but a server that is
  started again reports success and runs on an \<open>io_context\<close> that is still stopped, whatever is done
  with it: the I/O thread returns at once, and no connection is accepted, read or written.\<close>

theorem restarted_server_is_deaf:
  assumes "stays_stopped lib" and "ns_running s" and "ring_ok (ns_inboundQueue s)"
  shows "\<exists>s1. NetServer_Stop lib s = Some s1 \<and> \<not> IsRunning s1 \<and> ns_connections s1 = {} \<and>
    (\<forall>i \<in> ns_connections s. \<forall>c. ns_objects s1 i = Some c \<longrightarrow> \<not> cn_connected c) \<and>
    ring_contents (ns_inboundQueue s1) = [] \<and>
    (\<forall>spawned port s2. NetServer_Start lib spawned port s1 = Inr (True, s2) \<longrightarrow> IsRunning s2 \<and> lib_stopped lib (ns_ioContext s2))"
proof -
  obtain q where q: "drain (ns_inboundQueue s) = Some q" "ring_contents q = []" using drain_ok [OF assms(3)] by blast
  have stop: "lib_stopped lib (lib_stop lib c)" for c using assms(1) by (simp add: stays_stopped_def)
  have guard: "lib_stopped lib c \<Longrightarrow> lib_stopped lib (lib_make_work_guard lib c)"
    and opened: "lib_stopped lib c \<Longrightarrow> lib_open_acceptor lib port c = Some c' \<Longrightarrow> lib_stopped lib c'"
    and async: "lib_stopped lib c \<Longrightarrow> lib_stopped lib (lib_async lib c)" for c port c'
    using assms(1) unfolding stays_stopped_def by blast+
  obtain s1 where s1: "NetServer_Stop lib s = Some s1" "ns_inboundQueue s1 = q" "\<not> ns_running s1" "ns_connections s1 = {}"
    "\<forall>i. ns_objects s1 i = (if i \<in> ns_connections s then map_option Disconnect (ns_objects s i) else ns_objects s i)"
    "lib_stopped lib (ns_ioContext s1)"
    using assms(2) q(1) stop by (cases "ns_acceptor s = Some True") (simp_all add: NetServer_Stop_def Let_def disconnect_all_def cong: if_cong)
  have "IsRunning s2 \<and> lib_stopped lib (ns_ioContext s2)" if "NetServer_Start lib spawned port s1 = Inr (True, s2)" for spawned port s2
    using that s1(3,6) guard opened async
    by (auto simp: NetServer_Start_def Let_def StartAccept_def IsRunning_def split: if_splits option.splits
        intro!: async dest: opened [OF guard [OF s1(6)]])
  then show ?thesis using s1 q(2) by (auto simp: IsRunning_def)
qed

section \<open>Witnesses\<close>

text \<open>An \<open>io_context\<close> reduced to its stopped flag.\<close>

definition flag_library :: "bool io_library" where
  "flag_library =
     \<lparr>lib_make_work_guard = id, lib_drop_work_guard = id, lib_open_acceptor = (\<lambda>port c. if port = 0 then None else Some c),
      lib_close_acceptor = id, lib_async = id, lib_stop = (\<lambda>c. True), lib_stopped = id\<rparr>"

lemma flag_library_laws: "stays_stopped flag_library"
  by (auto simp: stays_stopped_def flag_library_def)

lemma flag_start: "\<exists>s. NetServer_Start flag_library True 7777 (NetServer_new False) = Inr (True, s) \<and> ns_running s \<and>
    ns_accepting s \<and> ns_inboundQueue s = ns_inboundQueue (NetServer_new False) \<and> ns_objects s = Map.empty \<and>
    ns_acceptor s = Some True \<and> ns_nextConnectionId s = 1"
  by (simp add: NetServer_Start_def NetServer_new_def flag_library_def Let_def StartAccept_def)

theorem restarted_server_is_deaf_witness:
  "\<exists>s s1 s2. NetServer_Start flag_library True 7777 (NetServer_new False) = Inr (True, s) \<and>
    NetServer_Stop flag_library s = Some s1 \<and> NetServer_Start flag_library True 7777 s1 = Inr (True, s2) \<and>
    IsRunning s2 \<and> lib_stopped flag_library (ns_ioContext s2)"
proof -
  obtain s where s: "NetServer_Start flag_library True 7777 (NetServer_new False) = Inr (True, s)" "ns_running s"
    "ns_inboundQueue s = ns_inboundQueue (NetServer_new False)"
    using flag_start by blast
  have ring: "ring_ok (ns_inboundQueue s)" using NetServer_new_ok(1) [of False] s(3) by (simp add: server_ok_def)
  obtain s1 where s1: "NetServer_Stop flag_library s = Some s1" "\<not> IsRunning s1"
    "\<forall>spawned port s2. NetServer_Start flag_library spawned port s1 = Inr (True, s2) \<longrightarrow> IsRunning s2 \<and> lib_stopped flag_library (ns_ioContext s2)"
    using restarted_server_is_deaf [OF flag_library_laws s(2) ring] by blast
  have "\<not> ns_ioThread s1"
    using s1(1) s(2) by (auto simp: NetServer_Stop_def Let_def disconnect_all_def split: if_splits)
  then obtain s2 where "NetServer_Start flag_library True 7777 s1 = Inr (True, s2)"
    using s1(2) by (simp add: NetServer_Start_def Let_def StartAccept_def flag_library_def IsRunning_def)
  then show ?thesis using s(1) s1(1,3) by blast
qed

definition sample_events :: "server_event list" where
  "sample_events = [Ev_accept Accepted, Ev_read 1 False [1, 0, 0, 0, 9, 0, 65],
     Ev_send \<lparr>op_connectionId = 1, op_packetId = 2, op_payload = [3]\<rparr>,
     Ev_send \<lparr>op_connectionId = 1, op_packetId = 4, op_payload = []\<rparr>, Ev_write 1 False, Ev_poll, Ev_read 1 True []]"

theorem server_survives_every_event_witness:
  "\<exists>s s'. NetServer_Start flag_library True 7777 (NetServer_new False) = Inr (True, s) \<and>
    handle_events flag_library sample_events s = Inr s' \<and> distinct (map fst (ns_writing s'))"
proof -
  obtain s where s: "NetServer_Start flag_library True 7777 (NetServer_new False) = Inr (True, s)"
    using flag_start by blast
  have "length sample_events < 2 ^ 64 - 1" by (simp add: sample_events_def)
  then show ?thesis using server_survives_every_event [OF s, of sample_events] s by blast
qed

text \<open>Two connections whose reads interleave in the middle of a frame, and polls in between.\<close>

definition two_streams :: "server_event list" where
  "two_streams = [Ev_read 1 False [1, 0, 0], Ev_read 2 False [0, 0, 0, 0, 4], Ev_poll, Ev_read 1 False [0, 9, 0, 65], Ev_poll,
     Ev_read 2 False [0, 0, 0, 0, 0, 5, 0]]"

definition two_sent :: "ConnectionId \<Rightarrow> (u16 \<times> byte_buffer) list" where
  "two_sent i = (if i = 1 then [(9, [65])] else [(4, []), (5, [])])"

text \<open>While only polls and successful reads happen, every connection goes on being read.\<close>

fun reads_in :: "server_event list \<Rightarrow> (ConnectionId \<times> u8 list) list" where
  "reads_in [] = []"
| "reads_in (Ev_read i ec chunk # es) = (i, chunk) # reads_in es"
| "reads_in (e # es) = reads_in es"

fun reads_or_polls :: "ConnectionId set \<Rightarrow> server_event \<Rightarrow> bool" where
  "reads_or_polls ids (Ev_read i ec chunk) = (i \<in> ids \<and> \<not> ec)"
| "reads_or_polls ids e = (e = Ev_poll)"

lemma on_read_reading: "on_read lib i False chunk s = Inr s' \<Longrightarrow> ns_reading s' = insert i (ns_reading s)"
  by (auto simp: on_read_def Let_def and_then_Inr_iff StartReadLoop_def update_object_def)

lemma traced_reads:
  "traced_events lib es s = Inr (tr, s') \<Longrightarrow> list_all (reads_or_polls ids) es \<Longrightarrow> ids \<subseteq> ns_reading s \<Longrightarrow> server_ok s \<Longrightarrow>
   tr_read tr = reads_in es"
proof (induction es arbitrary: s tr)
  case (Cons e es)
  obtain s1 tr1 where s1: "handle_event lib e s = Inr s1" "traced_events lib es s1 = Inr (tr1, s')" "tr = then_trace (observe e s) tr1"
    using Cons.prems(1) by (auto simp: and_then_Inr_iff)
  show ?case
  proof (cases e)
    case (Ev_read i ec chunk)
    then have i: "i \<in> ids" "\<not> ec" using Cons.prems(2) by simp_all
    then obtain c where c: "ns_objects s i = Some c" using Cons.prems(3,4) by (auto simp: server_ok_def)
    have r: "on_read lib i False chunk s = Inr s1" using s1(1) Ev_read i Cons.prems(3) by auto
    have "server_ok s1" using on_read_ok [OF Cons.prems(4), of i lib False chunk] r i Cons.prems(3) by auto
    moreover have "ids \<subseteq> ns_reading s1" using on_read_reading [OF r] Cons.prems(3) by auto
    moreover have "tr_read (observe e s) = [(i, chunk)]"
      using on_read_inbound [OF Cons.prems(4) c, of lib chunk] i Ev_read Cons.prems(3) by auto
    ultimately show ?thesis using Cons.IH [OF s1(2)] Cons.prems(2) s1(3) Ev_read by simp
  next
    case Ev_poll
    have "server_ok s1" "ns_reading s1 = ns_reading s"
      using s1(1) Ev_poll poll_ok [OF Cons.prems(4), of ReceivedPacket_new] by (auto simp: PollPacket_def split: prod.splits)
    moreover have "tr_read (observe e s) = []" using Ev_poll by (simp split: prod.split)
    ultimately show ?thesis using Cons.IH [OF s1(2)] Cons.prems(2,3) s1(3) Ev_poll by simp
  qed (use Cons.prems(2) in simp_all)
qed simp

theorem server_delivers_every_packet_witness:
  "\<exists>s tr s'. NetServer_Start flag_library True 7777 (NetServer_new False) = Inr (True, s) \<and>
    traced_events flag_library (Ev_accept Accepted # Ev_accept Accepted # two_streams) s = Inr (tr, s') \<and>
    tr_polled tr @ fst (poll_all kInboundQueueCapacity s') = tr_decoded tr \<and>
    filter (\<lambda>p. rp_connectionId p = 1) (tr_decoded tr) = map (received 1) (two_sent 1) \<and>
    filter (\<lambda>p. rp_connectionId p = 2) (tr_decoded tr) = map (received 2) (two_sent 2)"
proof -
  let ?es = "Ev_accept Accepted # Ev_accept Accepted # two_streams"
  obtain s where s: "NetServer_Start flag_library True 7777 (NetServer_new False) = Inr (True, s)" "ns_accepting s"
    "ns_acceptor s = Some True" "ns_nextConnectionId s = 1"
    using flag_start by blast
  have "length ?es < 2 ^ 64 - 1" "never_full flag_library ?es s"
    by (simp add: two_streams_def) (rule small_traffic_fits [OF s(1)], simp_all add: two_streams_def kInboundQueueCapacity_def)
  from server_delivers_every_packet [OF s(1) this] obtain tr s' where t: "traced_events flag_library ?es s = Inr (tr, s')"
    "tr_polled tr @ fst (poll_all kInboundQueueCapacity s') = tr_decoded tr"
    "\<forall>i sent rest. concat (chunks_of i (tr_read tr)) @ rest = stream sent \<and> deliverable sent \<longrightarrow>
      (\<exists>k. filter (\<lambda>p. rp_connectionId p = i) (tr_decoded tr) = map (received i) (take k sent) \<and> (rest = [] \<longrightarrow> take k sent = sent))"
    by blast
  let ?s1 = "on_accept flag_library Accepted s" and ?s2 = "on_accept flag_library Accepted (on_accept flag_library Accepted s)"
  have s_ok: "server_ok s" using NetServer_Start_ok [OF s(1) NetServer_new_ok(1)] by simp
  have s1: "ns_accepting ?s1" "ns_acceptor ?s1 = Some True" "ns_nextConnectionId ?s1 = 2" "1 \<in> ns_reading ?s1"
    using s by (simp_all add: on_accept_def Let_def StartAccept_def StartReadLoop_def update_object_def)
  have s2: "{1, 2} \<subseteq> ns_reading ?s2"
    using s1 by (simp add: on_accept_def [of _ _ ?s1] Let_def StartAccept_def StartReadLoop_def update_object_def)
  have "server_ok ?s1" "server_ok ?s2"
    using on_accept_ok [OF s_ok, of flag_library Accepted] on_accept_ok [of ?s1 flag_library Accepted] s(4) s1(3) by simp_all
  moreover obtain tr2 where tr2: "traced_events flag_library two_streams ?s2 = Inr (tr2, s')" "tr_read tr = tr_read tr2"
    using t(1) s s1 by (auto simp: and_then_Inr_iff)
  ultimately have "tr_read tr = reads_in two_streams"
    using traced_reads [OF tr2(1) _ s2] by (simp add: two_streams_def)
  then have "concat (chunks_of 1 (tr_read tr)) = stream (two_sent 1)" "concat (chunks_of 2 (tr_read tr)) = stream (two_sent 2)"
    by (simp, code_simp)+
  moreover have "deliverable (two_sent i)" for i by (simp add: two_sent_def)
  ultimately show ?thesis
    using t(3) [rule_format, of 1 "[]" "two_sent 1"] t(3) [rule_format, of 2 "[]" "two_sent 2"] t(1,2) s(1) by auto
qed

end
