(* ===== verification/Net_Races.thy ===== *)
theory Net_Races
  imports Net_Server
begin

text \<open>
  The server with its threads interleaved (\<open>Net/NetServer.cpp\<close>): the I/O thread, which runs one
  completion handler at a time, and any number of threads in \<open>Send\<close>, \<open>PollPacket\<close> and
  \<open>Stop\<close>. Each critical section under \<open>connectionMutex\<close>, each access to an atomic or to the
  library and each operation on the inbound queue (one step, by Ring_Consumer, while one thread at a time polls or
  drains) is a step. A connection is a \<open>write_loop\<close> of Net_Connection over the same threads, so inside
  \<open>EnqueueSend\<close> and \<open>StartWriteLoop\<close> a thread takes the steps of that theory; the receive
  buffers, which only the I/O thread touches, are kept beside it. Thread 0 is the I/O thread.
\<close>

section \<open>Threads\<close>

text \<open>
  Where a thread is: between calls; in \<open>Send\<close> at the lookup; in code of a connection (its \<open>write_loop\<close> tells where);
  in \<open>RemoveConnection\<close> of a failed write or of a failed read; in the accept handler at the insertion; at
  \<open>async_read_some\<close> (from the accept handler or not); at the end of the accept handler; in the read handler with decoded
  packets to enqueue, or at \<open>Disconnect\<close>; and at the accesses of \<open>Stop\<close>.
\<close>

datatype server_pc =
    Away
  | Looking_up outbound_packet
  | In_connection ConnectionId
  | Removing_writer ConnectionId
  | Removing ConnectionId
  | Adding ConnectionId
  | Start_reading ConnectionId bool
  | Accept_again
  | Delivering ConnectionId "received_packet list"
  | Read_failed ConnectionId
  | Stop_testing
  | Stop_clearing
  | Stop_closing
  | Stop_io
  | Stop_join
  | Stop_lock
  | Stop_disconnecting "ConnectionId list"
  | Stop_draining

text \<open>\<open>sx_locked\<close>: whether \<open>Stop\<close> holds \<open>connectionMutex\<close>, its only section of several steps. The last fields record how many
  connections were made, what was read, the packets decoded, those dropped because the queue was full, and those
  taken from it.\<close>

record server_race =
  sx_running :: bool
  sx_acceptor_open :: bool
  sx_stopped :: bool
  sx_locked :: bool
  sx_nextId :: ConnectionId
  sx_loops :: "ConnectionId \<rightharpoonup> write_loop"
  sx_connections :: "ConnectionId list"
  sx_receive :: "ConnectionId \<Rightarrow> byte_buffer"
  sx_accepting :: bool
  sx_reading :: "ConnectionId set"
  sx_inbound :: "received_packet list"
  sx_threads :: "server_pc list"
  sx_made :: nat
  sx_read :: "(ConnectionId \<times> u8 list) list"
  sx_decoded :: "received_packet list"
  sx_dropped :: nat
  sx_taken :: "received_packet list"

text \<open>A started server: it runs, and the first \<open>async_accept\<close> is outstanding.\<close>

definition server_race_new :: "nat \<Rightarrow> server_race" where
  "server_race_new n =
     \<lparr>sx_running = True, sx_acceptor_open = True, sx_stopped = False, sx_locked = False, sx_nextId = 1,
      sx_loops = Map.empty, sx_connections = [], sx_receive = (\<lambda>i. []), sx_accepting = True, sx_reading = {},
      sx_inbound = [], sx_threads = replicate n Away, sx_made = 0, sx_read = [], sx_decoded = [], sx_dropped = 0, sx_taken = []\<rparr>"

definition moves :: "nat \<Rightarrow> server_pc \<Rightarrow> server_race \<Rightarrow> server_race" where
  "moves t pc s = s\<lparr>sx_threads := (sx_threads s)[t := pc]\<rparr>"

definition set_loop :: "ConnectionId \<Rightarrow> write_loop \<Rightarrow> server_race \<Rightarrow> server_race" where
  "set_loop i w s = s\<lparr>sx_loops := (sx_loops s)(i \<mapsto> w)\<rparr>"

definition erase :: "ConnectionId \<Rightarrow> server_race \<Rightarrow> server_race" where
  "erase i s = s\<lparr>sx_connections := filter (\<lambda>j. j \<noteq> i) (sx_connections s)\<rparr>"

definition disconnect_loop :: "write_loop \<Rightarrow> write_loop" where
  "disconnect_loop w = w\<lparr>wl_conn := Disconnect (wl_conn w)\<rparr>"

definition enqueue_one :: "received_packet \<Rightarrow> server_race \<Rightarrow> server_race" where
  "enqueue_one p s =
     (if length (sx_inbound s) < kInboundQueueCapacity then s\<lparr>sx_inbound := sx_inbound s @ [p]\<rparr>
      else s\<lparr>sx_dropped := Suc (sx_dropped s)\<rparr>)"

definition dequeue_one :: "server_race \<Rightarrow> server_race" where
  "dequeue_one s =
     (case sx_inbound s of [] \<Rightarrow> s | p # ps \<Rightarrow> s\<lparr>sx_inbound := ps, sx_taken := sx_taken s @ [p]\<rparr>)"

text \<open>A step of a thread in code of connection \<open>i\<close>. After the \<open>Disconnect\<close> of a failed write comes \<open>RemoveConnection\<close>.\<close>

definition connection_step :: "nat \<Rightarrow> ConnectionId \<Rightarrow> server_race \<Rightarrow> server_race option" where
  "connection_step t i s =
     (case sx_loops s i of
        None \<Rightarrow> None
      | Some w \<Rightarrow>
          (case thread_step t w of
             None \<Rightarrow> None
           | Some w' \<Rightarrow> Some (moves t
               (if wl_threads w ! t = Write_failed then Removing_writer i
                else if wl_threads w' ! t = Outside then Away else In_connection i) (set_loop i w' s))))"

text \<open>\<open>None\<close>: the thread is between calls, or waits (for the mutex, or in \<open>join\<close> for the handler that is running).\<close>

definition server_step :: "nat \<Rightarrow> server_race \<Rightarrow> server_race option" where
  "server_step t s =
     (if t \<ge> length (sx_threads s) then None
      else case sx_threads s ! t of
          Away \<Rightarrow> None
        | Looking_up packet \<Rightarrow>
            if sx_locked s then None
            else if op_connectionId packet \<notin> set (sx_connections s) then Some (moves t Away s)
            else (case sx_loops s (op_connectionId packet) of
                None \<Rightarrow> None
              | Some w \<Rightarrow>
                  (case Encode (op_packetId packet) (op_payload packet) of
                     Inl e \<Rightarrow> None
                   | Inr bytes \<Rightarrow> Some (moves t (In_connection (op_connectionId packet))
                       (set_loop (op_connectionId packet) (goto t (At_check bytes) w) s))))
        | In_connection i \<Rightarrow> connection_step t i s
        | Removing_writer i \<Rightarrow> if sx_locked s then None else Some (moves t (In_connection i) (erase i s))
        | Removing i \<Rightarrow> if sx_locked s then None else Some (moves t Away (erase i s))
        | Adding i \<Rightarrow>
            if sx_locked s then None
            else Some (moves t (Start_reading i True) (s\<lparr>sx_connections := sx_connections s @ [i]\<rparr>))
        | Start_reading i accepts \<Rightarrow>
            Some (moves t (if accepts then Accept_again else Away) (s\<lparr>sx_reading := insert i (sx_reading s)\<rparr>))
        | Accept_again \<Rightarrow> Some (moves t Away (s\<lparr>sx_accepting := sx_acceptor_open s\<rparr>))
        | Delivering i [] \<Rightarrow> Some (moves t (Start_reading i False) s)
        | Delivering i (p # ps) \<Rightarrow> Some (moves t (Delivering i ps) (enqueue_one p s))
        | Read_failed i \<Rightarrow>
            (case sx_loops s i of
               None \<Rightarrow> None
             | Some w \<Rightarrow> Some (moves t (Removing i) (set_loop i (disconnect_loop w) s)))
        | Stop_testing \<Rightarrow> Some (moves t (if sx_running s then Stop_clearing else Away) s)
        | Stop_clearing \<Rightarrow> Some (moves t Stop_closing (s\<lparr>sx_running := False\<rparr>))
        | Stop_closing \<Rightarrow> Some (moves t Stop_io (s\<lparr>sx_acceptor_open := False\<rparr>))
        | Stop_io \<Rightarrow> Some (moves t Stop_join (s\<lparr>sx_stopped := True\<rparr>))
        | Stop_join \<Rightarrow> if sx_threads s ! 0 = Away then Some (moves t Stop_lock s) else None
        | Stop_lock \<Rightarrow>
            if sx_locked s then None else Some (moves t (Stop_disconnecting (sx_connections s)) (s\<lparr>sx_locked := True\<rparr>))
        | Stop_disconnecting [] \<Rightarrow> Some (moves t Stop_draining (s\<lparr>sx_connections := [], sx_locked := False\<rparr>))
        | Stop_disconnecting (i # js) \<Rightarrow>
            (case sx_loops s i of
               None \<Rightarrow> None
             | Some w \<Rightarrow> Some (moves t (Stop_disconnecting js) (set_loop i (disconnect_loop w) s)))
        | Stop_draining \<Rightarrow> Some (if sx_inbound s = [] then moves t Away s else dequeue_one s))"

text \<open>What the library reports to the I/O thread when that is in \<open>run\<close>: an accept, the bytes of a read or its failure, the end
  of a write. A stopped \<open>io_context\<close> calls no handler.\<close>

datatype io_event = Accept_done accept_result | Read_done ConnectionId "u8 list option" | Write_end ConnectionId bool

definition io_step :: "io_event \<Rightarrow> server_race \<Rightarrow> server_race option" where
  "io_step e s =
     (if sx_threads s = [] \<or> sx_threads s ! 0 \<noteq> Away \<or> sx_stopped s then None
      else case e of
          Accept_done r \<Rightarrow>
            if \<not> sx_accepting s then None
            else let s1 = s\<lparr>sx_accepting := False\<rparr> in
              (case r of
                 Accept_aborted \<Rightarrow> Some s1
               | Accept_error \<Rightarrow> Some (moves 0 Accept_again s1)
               | Accepted \<Rightarrow>
                   let i = sx_nextId s1 in
                   Some (moves 0 (Adding i) (set_loop i (write_loop_new i (length (sx_threads s1)))
                     (s1\<lparr>sx_nextId := i + 1, sx_made := Suc (sx_made s1)\<rparr>))))
        | Read_done i result \<Rightarrow>
            if i \<notin> sx_reading s then None
            else let s1 = s\<lparr>sx_reading := sx_reading s - {i}\<rparr> in
              (case result of
                 None \<Rightarrow> Some (moves 0 (Read_failed i) s1)
               | Some chunk \<Rightarrow>
                   (case receive_chunk i (sx_receive s1 i) chunk of
                      Inl e \<Rightarrow> None
                    | Inr (buf, ps) \<Rightarrow> Some (moves 0 (Delivering i ps) (s1\<lparr>sx_receive := (sx_receive s1)(i := buf),
                        sx_read := sx_read s1 @ [(i, chunk)], sx_decoded := sx_decoded s1 @ ps\<rparr>))))
        | Write_end i ok \<Rightarrow>
            (case sx_loops s i of
               None \<Rightarrow> None
             | Some w \<Rightarrow>
                 if wl_inflight w = [] then None
                 else Some (moves 0 (In_connection i)
                   (set_loop i (goto 0 (if ok then Write_done else Write_failed) (w\<lparr>wl_inflight := tl (wl_inflight w)\<rparr>)) s))))"

text \<open>The calls of the other threads.\<close>

datatype server_call = Send_call outbound_packet | Poll_call | Stop_call

definition call_step :: "nat \<Rightarrow> server_call \<Rightarrow> server_race \<Rightarrow> server_race option" where
  "call_step t c s =
     (if t = 0 \<or> t \<ge> length (sx_threads s) \<or> sx_threads s ! t \<noteq> Away then None
      else case c of
          Send_call packet \<Rightarrow> Some (moves t (Looking_up packet) s)
        | Poll_call \<Rightarrow> Some (dequeue_one s)
        | Stop_call \<Rightarrow> Some (moves t Stop_testing s))"

datatype server_label = Thread nat | Io io_event | Call nat server_call

fun label_step :: "server_label \<Rightarrow> server_race \<Rightarrow> server_race option" where
  "label_step (Thread t) s = server_step t s"
| "label_step (Io e) s = io_step e s"
| "label_step (Call t c) s = call_step t c s"

inductive server_reachable :: "nat \<Rightarrow> server_race \<Rightarrow> bool" for n :: nat where
  start: "server_reachable n (server_race_new n)"
| step: "server_reachable n s \<Longrightarrow> label_step l s = Some s' \<Longrightarrow> server_reachable n s'"

section \<open>The invariant\<close>

fun loop_of :: "server_pc \<Rightarrow> ConnectionId option" where
  "loop_of (In_connection i) = Some i"
| "loop_of (Removing_writer i) = Some i"
| "loop_of pc = None"

text \<open>The connections a thread still refers to.\<close>

fun pc_ids :: "server_pc \<Rightarrow> ConnectionId set" where
  "pc_ids (In_connection i) = {i}"
| "pc_ids (Removing_writer i) = {i}"
| "pc_ids (Removing i) = {i}"
| "pc_ids (Adding i) = {i}"
| "pc_ids (Start_reading i b) = {i}"
| "pc_ids (Delivering i ps) = {i}"
| "pc_ids (Read_failed i) = {i}"
| "pc_ids (Stop_disconnecting is) = set is"
| "pc_ids pc = {}"

fun io_only :: "server_pc \<Rightarrow> bool" where
  "io_only (Removing i) = True"
| "io_only (Adding i) = True"
| "io_only (Start_reading i b) = True"
| "io_only Accept_again = True"
| "io_only (Delivering i ps) = True"
| "io_only (Read_failed i) = True"
| "io_only pc = False"

fun holds_mutex :: "server_pc \<Rightarrow> bool" where
  "holds_mutex (Stop_disconnecting is) = True"
| "holds_mutex pc = False"

fun after_stop :: "server_pc \<Rightarrow> bool" where
  "after_stop Stop_join = True"
| "after_stop Stop_lock = True"
| "after_stop (Stop_disconnecting is) = True"
| "after_stop Stop_draining = True"
| "after_stop pc = False"

fun stopping :: "server_pc \<Rightarrow> bool" where
  "stopping Stop_testing = True"
| "stopping Stop_clearing = True"
| "stopping Stop_closing = True"
| "stopping Stop_io = True"
| "stopping pc = after_stop pc"

definition role_ok :: "nat \<Rightarrow> server_pc \<Rightarrow> bool" where
  "role_ok t pc \<longleftrightarrow> (io_only pc \<longrightarrow> t = 0) \<and> (stopping pc \<longrightarrow> t \<noteq> 0)"

definition loop_ok :: "nat \<Rightarrow> server_pc list \<Rightarrow> ConnectionId \<Rightarrow> write_loop \<Rightarrow> bool" where
  "loop_ok n pcs i w \<longleftrightarrow> net_reachable (write_loop_new i n) w \<and> length (wl_threads w) = n \<and>
     (\<forall>t < n. (wl_threads w ! t \<noteq> Outside) = (loop_of (pcs ! t) = Some i))"

definition server_inv :: "nat \<Rightarrow> server_race \<Rightarrow> bool" where
  "server_inv n s \<longleftrightarrow> length (sx_threads s) = n \<and>
     (\<forall>i w. sx_loops s i = Some w \<longrightarrow> loop_ok n (sx_threads s) i w) \<and>
     (\<forall>t < n. pc_ids (sx_threads s ! t) \<subseteq> dom (sx_loops s) \<and> role_ok t (sx_threads s ! t) \<and>
        (after_stop (sx_threads s ! t) \<longrightarrow> sx_stopped s)) \<and>
     set (sx_connections s) \<union> sx_reading s \<subseteq> dom (sx_loops s) \<and> finite (dom (sx_loops s)) \<and>
     sx_nextId s = of_nat (Suc (sx_made s)) \<and> (\<forall>i \<in> dom (sx_loops s). unat i \<le> sx_made s) \<and>
     (sx_locked s \<longrightarrow> (\<exists>t < n. holds_mutex (sx_threads s ! t)))"

lemma server_inv_new: "server_inv n (server_race_new n)"
  by (simp add: server_inv_def server_race_new_def role_ok_def)

lemma moves_simps [simp]:
  "sx_threads (moves t pc s) = (sx_threads s)[t := pc]" "sx_loops (moves t pc s) = sx_loops s"
  "sx_connections (moves t pc s) = sx_connections s" "sx_reading (moves t pc s) = sx_reading s"
  "sx_nextId (moves t pc s) = sx_nextId s" "sx_made (moves t pc s) = sx_made s" "sx_locked (moves t pc s) = sx_locked s"
  "sx_stopped (moves t pc s) = sx_stopped s" "sx_inbound (moves t pc s) = sx_inbound s" "sx_taken (moves t pc s) = sx_taken s"
  "sx_decoded (moves t pc s) = sx_decoded s" "sx_dropped (moves t pc s) = sx_dropped s" "sx_read (moves t pc s) = sx_read s"
  "sx_receive (moves t pc s) = sx_receive s" "sx_running (moves t pc s) = sx_running s"
  by (simp_all add: moves_def)

lemma set_loop_simps [simp]:
  "sx_threads (set_loop i w s) = sx_threads s" "sx_loops (set_loop i w s) = (sx_loops s)(i \<mapsto> w)"
  "sx_connections (set_loop i w s) = sx_connections s" "sx_reading (set_loop i w s) = sx_reading s"
  "sx_nextId (set_loop i w s) = sx_nextId s" "sx_made (set_loop i w s) = sx_made s" "sx_locked (set_loop i w s) = sx_locked s"
  "sx_stopped (set_loop i w s) = sx_stopped s" "sx_inbound (set_loop i w s) = sx_inbound s" "sx_taken (set_loop i w s) = sx_taken s"
  "sx_decoded (set_loop i w s) = sx_decoded s" "sx_dropped (set_loop i w s) = sx_dropped s" "sx_read (set_loop i w s) = sx_read s"
  "sx_receive (set_loop i w s) = sx_receive s"
  by (simp_all add: set_loop_def)

lemma queue_simps [simp]:
  "sx_threads (enqueue_one p s) = sx_threads s" "sx_loops (enqueue_one p s) = sx_loops s"
  "sx_connections (enqueue_one p s) = sx_connections s" "sx_reading (enqueue_one p s) = sx_reading s"
  "sx_nextId (enqueue_one p s) = sx_nextId s" "sx_made (enqueue_one p s) = sx_made s" "sx_locked (enqueue_one p s) = sx_locked s"
  "sx_stopped (enqueue_one p s) = sx_stopped s"
  "sx_threads (dequeue_one s) = sx_threads s" "sx_loops (dequeue_one s) = sx_loops s"
  "sx_connections (dequeue_one s) = sx_connections s" "sx_reading (dequeue_one s) = sx_reading s"
  "sx_nextId (dequeue_one s) = sx_nextId s" "sx_made (dequeue_one s) = sx_made s" "sx_locked (dequeue_one s) = sx_locked s"
  "sx_stopped (dequeue_one s) = sx_stopped s"
  by (simp_all add: enqueue_one_def dequeue_one_def split: list.split)

lemma loop_ok_other:
  "loop_ok n pcs i w \<Longrightarrow> t < n \<Longrightarrow> length pcs = n \<Longrightarrow> (loop_of pc = Some i) = (loop_of (pcs ! t) = Some i) \<Longrightarrow> loop_ok n (pcs[t := pc]) i w"
  by (simp add: loop_ok_def nth_list_update)

text \<open>A thread moves, and at most one connection \<open>i\<close> takes a step with it.\<close>

lemma server_inv_move:
  assumes inv: "server_inv n s" and t: "t < n" and pcs: "sx_threads s' = (sx_threads s)[t := pc]"
    and loops: "dom (sx_loops s') = dom (sx_loops s)"
      "\<And>i w. sx_loops s' i = Some w \<Longrightarrow> loop_ok n (sx_threads s') i w"
    and ids: "pc_ids pc \<subseteq> dom (sx_loops s)" "set (sx_connections s') \<subseteq> dom (sx_loops s)" "sx_reading s' \<subseteq> dom (sx_loops s)"
    and role: "role_ok t pc" and stop: "sx_stopped s \<longrightarrow> sx_stopped s'" "after_stop pc \<longrightarrow> sx_stopped s'"
    and count: "sx_nextId s' = sx_nextId s" "sx_made s' = sx_made s"
    and lock: "sx_locked s' \<longrightarrow> holds_mutex pc \<or> sx_locked s \<and> \<not> holds_mutex (sx_threads s ! t)"
  shows "server_inv n s'"
proof -
  have len: "length (sx_threads s) = n" using inv by (simp add: server_inv_def)
  have "\<exists>u < n. holds_mutex (sx_threads s' ! u)" if locked: "sx_locked s'"
  proof (cases "holds_mutex pc")
    case True
    then show ?thesis using t len pcs by auto
  next
    case False
    then obtain u where "u < n" "holds_mutex (sx_threads s ! u)" "u \<noteq> t"
      using inv lock locked by (auto simp: server_inv_def)
    then show ?thesis using pcs by auto
  qed
  moreover have "pc_ids (sx_threads s' ! u) \<subseteq> dom (sx_loops s') \<and> role_ok u (sx_threads s' ! u) \<and>
      (after_stop (sx_threads s' ! u) \<longrightarrow> sx_stopped s')" if u: "u < n" for u
    using inv u t len pcs ids(1) role stop loops(1) by (cases "u = t") (auto simp: server_inv_def)
  ultimately show ?thesis
    using inv loops ids len pcs count by (simp add: server_inv_def)
qed

text \<open>A thread moves outside the connections, or between places at the same one.\<close>

lemma server_inv_plain:
  assumes inv: "server_inv n s" and t: "t < n" and pcs: "sx_threads s' = (sx_threads s)[t := pc]"
    and loops: "sx_loops s' = sx_loops s" and same: "loop_of pc = loop_of (sx_threads s ! t)"
    and rest: "pc_ids pc \<subseteq> dom (sx_loops s)" "set (sx_connections s') \<subseteq> dom (sx_loops s)" "sx_reading s' \<subseteq> dom (sx_loops s)"
      "role_ok t pc" "sx_stopped s \<longrightarrow> sx_stopped s'" "after_stop pc \<longrightarrow> sx_stopped s'"
      "sx_nextId s' = sx_nextId s" "sx_made s' = sx_made s"
      "sx_locked s' \<longrightarrow> holds_mutex pc \<or> sx_locked s \<and> \<not> holds_mutex (sx_threads s ! t)"
  shows "server_inv n s'"
proof -
  have "loop_ok n (sx_threads s') i w" if "sx_loops s' i = Some w" for i w
    using inv that t same loops unfolding pcs by (intro loop_ok_other) (auto simp: server_inv_def)
  then show ?thesis using server_inv_move [OF inv t pcs _ _ rest] loops by simp
qed

text \<open>A thread moves with connection \<open>i\<close>.\<close>

lemma server_inv_loop:
  assumes inv: "server_inv n s" and t: "t < n" and s': "s' = moves t pc (set_loop i w' s0)"
    and s0: "s0 = s \<or> (\<exists>ids. s0 = s\<lparr>sx_reading := ids\<rparr> \<and> ids \<subseteq> sx_reading s)"
    and w: "sx_loops s i = Some w" and step: "net_step w w'" and ws: "wl_threads w' = (wl_threads w)[t := npc]"
    and at: "(npc \<noteq> Outside) = (loop_of pc = Some i)" "loop_of pc \<in> {None, Some i}" "loop_of (sx_threads s ! t) \<in> {None, Some i}"
    and rest: "pc_ids pc \<subseteq> dom (sx_loops s)" "role_ok t pc" "after_stop pc \<longrightarrow> sx_stopped s"
      "holds_mutex pc = holds_mutex (sx_threads s ! t)"
  shows "server_inv n s'"
proof -
  have len: "length (sx_threads s) = n" using inv by (simp add: server_inv_def)
  have ok: "loop_ok n (sx_threads s) j v" if "sx_loops s j = Some v" for j v using inv that by (simp add: server_inv_def)
  have "net_reachable (write_loop_new i n) w'" using ok [OF w] net_reachable.step [OF _ step] by (simp add: loop_ok_def)
  then have "loop_ok n ((sx_threads s)[t := pc]) i w'"
    using ok [OF w] t len ws at(1) by (simp add: loop_ok_def nth_list_update)
  moreover have "loop_ok n ((sx_threads s)[t := pc]) j v" if "sx_loops s j = Some v" "j \<noteq> i" for j v
    using loop_ok_other [OF ok [OF that(1)] t len] at(2,3) that(2) by auto
  ultimately have loops: "loop_ok n (sx_threads s') j v" if "sx_loops s' j = Some v" for j v
    using that s0 unfolding s' by (auto split: if_splits)
  have "sx_threads s' = (sx_threads s)[t := pc]" "dom (sx_loops s') = dom (sx_loops s)"
    "set (sx_connections s') \<subseteq> dom (sx_loops s)" "sx_reading s' \<subseteq> dom (sx_loops s)" "sx_stopped s' = sx_stopped s"
    "sx_nextId s' = sx_nextId s" "sx_made s' = sx_made s" "sx_locked s' = sx_locked s"
    using s0 w inv unfolding s' by (auto simp: server_inv_def)
  then show ?thesis
    using inv rest by (intro server_inv_move [OF inv t _ _ loops, where pc = pc]) (auto simp: server_inv_def)
qed

lemma thread_step_threads:
  "thread_step t w = Some w' \<Longrightarrow> t < length (wl_threads w) \<and> wl_threads w ! t \<noteq> Outside \<and> (\<exists>pc. wl_threads w' = (wl_threads w)[t := pc])"
  by (auto simp: thread_step_def Let_def split: if_splits net_pc.splits prod.splits)

lemma server_inv_facts:
  assumes "server_inv n s" and "t < n"
  shows "length (sx_threads s) = n" "pc_ids (sx_threads s ! t) \<subseteq> dom (sx_loops s)" "role_ok t (sx_threads s ! t)"
    "after_stop (sx_threads s ! t) \<longrightarrow> sx_stopped s" "set (sx_connections s) \<subseteq> dom (sx_loops s)" "sx_reading s \<subseteq> dom (sx_loops s)"
    "sx_loops s i = Some w \<Longrightarrow> (wl_threads w ! t \<noteq> Outside) = (loop_of (sx_threads s ! t) = Some i)"
    "sx_loops s i = Some w \<Longrightarrow> length (wl_threads w) = n"
  using assms by (auto simp: server_inv_def loop_ok_def)

lemma write_failed_stays: "thread_step t w = Some w' \<Longrightarrow> wl_threads w ! t = Write_failed \<Longrightarrow> wl_threads w' ! t = At_end_failed"
  by (auto simp: thread_step_def Let_def split: if_splits)

lemma connection_step_inv:
  assumes inv: "server_inv n s" and t: "t < n" and pc: "sx_threads s ! t = In_connection i" and step: "connection_step t i s = Some s'"
  shows "server_inv n s'"
proof -
  obtain w w' where w: "sx_loops s i = Some w" "thread_step t w = Some w'"
    and s': "s' = moves t (if wl_threads w ! t = Write_failed then Removing_writer i
      else if wl_threads w' ! t = Outside then Away else In_connection i) (set_loop i w' s)"
    using step by (auto simp: connection_step_def split: option.splits)
  obtain npc where npc: "wl_threads w' = (wl_threads w)[t := npc]" "t < length (wl_threads w)"
    using thread_step_threads [OF w(2)] by blast
  have ws: "wl_threads w' = (wl_threads w)[t := wl_threads w' ! t]" using npc by simp
  show ?thesis
    by (rule server_inv_loop [OF inv t s' _ w(1) net_step.loop [OF loop_step.own [OF w(2)]] ws])
      (use write_failed_stays [OF w(2)] pc w(1) in \<open>auto simp: role_ok_def\<close>)
qed

lemma disconnect_net_step: "net_step w (disconnect_loop w)"
  unfolding disconnect_loop_def by (rule net_step.read_failed)

lemma disconnect_loop_inv:
  assumes inv: "server_inv n s" and t: "t < n" and w: "sx_loops s i = Some w" and s': "s' = moves t pc (set_loop i (disconnect_loop w) s)"
    and pc: "loop_of (sx_threads s ! t) = None" "loop_of pc = None" "pc_ids pc \<subseteq> pc_ids (sx_threads s ! t)" "role_ok t pc"
      "after_stop pc \<longrightarrow> after_stop (sx_threads s ! t)" "holds_mutex pc = holds_mutex (sx_threads s ! t)"
  shows "server_inv n s'"
proof -
  have out: "wl_threads w ! t = Outside" using server_inv_facts(7) [OF inv t w] pc(1) by simp
  have ws: "wl_threads (disconnect_loop w) = (wl_threads w)[t := Outside]"
    using out list_update_id [of "wl_threads w" t] by (simp add: disconnect_loop_def)
  show ?thesis
    by (rule server_inv_loop [OF inv t s' _ w disconnect_net_step ws])
      (use pc server_inv_facts(2,4) [OF inv t] in auto)
qed

text \<open>The steps of a thread, one by one.\<close>

lemma server_step_cases:
  assumes "server_step t s = Some s'"
  obtains
    (gone) packet where "sx_threads s ! t = Looking_up packet" "s' = moves t Away s"
  | (found) packet w bytes where "sx_threads s ! t = Looking_up packet" "sx_loops s (op_connectionId packet) = Some w"
      "s' = moves t (In_connection (op_connectionId packet))
        (set_loop (op_connectionId packet) (goto t (At_check bytes) w) s)"
  | (inside) i w w' pc where "sx_threads s ! t = In_connection i" "sx_loops s i = Some w" "thread_step t w = Some w'"
      "pc = (if wl_threads w ! t = Write_failed then Removing_writer i
        else if wl_threads w' ! t = Outside then Away else In_connection i)" "s' = moves t pc (set_loop i w' s)"
  | (writer) i where "sx_threads s ! t = Removing_writer i" "s' = moves t (In_connection i) (erase i s)"
  | (remove) i where "sx_threads s ! t = Removing i" "s' = moves t Away (erase i s)"
  | (add) i where "sx_threads s ! t = Adding i" "\<not> sx_locked s"
      "s' = moves t (Start_reading i True) (s\<lparr>sx_connections := sx_connections s @ [i]\<rparr>)"
  | (read) i b where "sx_threads s ! t = Start_reading i b"
      "s' = moves t (if b then Accept_again else Away) (s\<lparr>sx_reading := insert i (sx_reading s)\<rparr>)"
  | (accept) "sx_threads s ! t = Accept_again" "s' = moves t Away (s\<lparr>sx_accepting := sx_acceptor_open s\<rparr>)"
  | (delivered) i where "sx_threads s ! t = Delivering i []" "s' = moves t (Start_reading i False) s"
  | (deliver) i p ps where "sx_threads s ! t = Delivering i (p # ps)" "s' = moves t (Delivering i ps) (enqueue_one p s)"
  | (failed) i w where "sx_threads s ! t = Read_failed i" "sx_loops s i = Some w"
      "s' = moves t (Removing i) (set_loop i (disconnect_loop w) s)"
  | (test) "sx_threads s ! t = Stop_testing" "s' = moves t (if sx_running s then Stop_clearing else Away) s"
  | (clear) "sx_threads s ! t = Stop_clearing" "s' = moves t Stop_closing (s\<lparr>sx_running := False\<rparr>)"
  | (close) "sx_threads s ! t = Stop_closing" "s' = moves t Stop_io (s\<lparr>sx_acceptor_open := False\<rparr>)"
  | (stop) "sx_threads s ! t = Stop_io" "s' = moves t Stop_join (s\<lparr>sx_stopped := True\<rparr>)"
  | (join) "sx_threads s ! t = Stop_join" "sx_threads s ! 0 = Away" "s' = moves t Stop_lock s"
  | (lock) "sx_threads s ! t = Stop_lock" "\<not> sx_locked s"
      "s' = moves t (Stop_disconnecting (sx_connections s)) (s\<lparr>sx_locked := True\<rparr>)"
  | (unlock) "sx_threads s ! t = Stop_disconnecting []" "s' = moves t Stop_draining (s\<lparr>sx_connections := [], sx_locked := False\<rparr>)"
  | (disconnect) i js w where "sx_threads s ! t = Stop_disconnecting (i # js)" "sx_loops s i = Some w"
      "s' = moves t (Stop_disconnecting js) (set_loop i (disconnect_loop w) s)"
  | (drained) "sx_threads s ! t = Stop_draining" "s' = moves t Away s"
  | (drain) p ps where "sx_threads s ! t = Stop_draining" "sx_inbound s = p # ps" "s' = dequeue_one s"
proof -
  note step = assms [unfolded server_step_def connection_step_def]
  show thesis
  proof (cases "sx_threads s ! t")
    case (Looking_up packet)
    then show ?thesis using step gone found by (auto split: if_splits option.splits sum.splits)
  next
    case (In_connection i)
    then show ?thesis using step inside by (auto split: if_splits option.splits)
  next
    case (Delivering i ps)
    then show ?thesis using step delivered deliver by (cases ps) (auto split: if_splits)
  next
    case (Stop_disconnecting ids)
    then show ?thesis using step unlock disconnect by (cases ids) (auto split: if_splits option.splits)
  next
    case Stop_draining
    then show ?thesis using step drained drain by (cases "sx_inbound s") (auto split: if_splits)
  qed (use step writer remove add read accept failed test clear close stop join lock in \<open>auto split: if_splits option.splits\<close>)
qed

lemma server_step_thread: "server_step t s = Some s' \<Longrightarrow> t < length (sx_threads s) \<and> sx_threads s ! t \<noteq> Away"
  by (auto simp: server_step_def split: if_splits)

lemma server_step_inv:
  assumes inv: "server_inv n s" and step: "server_step t s = Some s'"
  shows "server_inv n s'"
proof -
  have len: "length (sx_threads s) = n" and t: "t < n" using inv server_step_thread [OF step] by (simp_all add: server_inv_def)
  note facts = server_inv_facts [OF inv t] and plain = server_inv_plain [OF inv t] and loop = disconnect_loop_inv [OF inv t]
  have role: "role_ok t (sx_threads s ! t)" by (rule facts)
  from step show ?thesis
  proof (cases rule: server_step_cases)
    case (gone packet)
    then show ?thesis using facts by (intro plain [where pc = Away]) (auto simp: role_ok_def)
  next
    case (found packet w bytes)
    have out: "t < length (wl_threads w)" "wl_threads w ! t = Outside" using facts(7,8) [OF found(2)] t found(1) by auto
    show ?thesis
      by (rule server_inv_loop [OF inv t found(3) _ found(2) net_step.send [OF out] threads_goto(1)])
        (use found in \<open>auto simp: role_ok_def\<close>)
  next
    case (inside i w w' pc)
    then show ?thesis using connection_step_inv [OF inv t inside(1)] by (simp add: connection_step_def)
  next
    case (writer i)
    then show ?thesis using facts by (intro plain [where pc = "In_connection i"]) (auto simp: role_ok_def erase_def)
  next
    case (remove i)
    then show ?thesis using facts by (intro plain [where pc = Away]) (auto simp: role_ok_def erase_def)
  next
    case (add i)
    then show ?thesis using facts by (intro plain [where pc = "Start_reading i True"]) (auto simp: role_ok_def)
  next
    case (read i b)
    then show ?thesis using facts by (intro plain [where pc = "if b then Accept_again else Away"]) (auto simp: role_ok_def)
  next
    case accept
    then show ?thesis using facts by (intro plain [where pc = Away]) (auto simp: role_ok_def)
  next
    case (delivered i)
    then show ?thesis using facts by (intro plain [where pc = "Start_reading i False"]) (auto simp: role_ok_def)
  next
    case (deliver i p ps)
    then show ?thesis using facts by (intro plain [where pc = "Delivering i ps"]) (auto simp: role_ok_def)
  next
    case (failed i w)
    then show ?thesis using role by (intro loop [OF failed(2,3)]) (simp_all add: role_ok_def)
  next
    case test
    then show ?thesis using facts by (intro plain [where pc = "if sx_running s then Stop_clearing else Away"]) (auto simp: role_ok_def)
  next
    case clear
    then show ?thesis using facts by (intro plain [where pc = Stop_closing]) (auto simp: role_ok_def)
  next
    case close
    then show ?thesis using facts by (intro plain [where pc = Stop_io]) (auto simp: role_ok_def)
  next
    case stop
    then show ?thesis using facts by (intro plain [where pc = Stop_join]) (auto simp: role_ok_def)
  next
    case join
    then show ?thesis using facts by (intro plain [where pc = Stop_lock]) (auto simp: role_ok_def)
  next
    case lock
    then show ?thesis using facts by (intro plain [where pc = "Stop_disconnecting (sx_connections s)"]) (auto simp: role_ok_def)
  next
    case unlock
    then show ?thesis using facts by (intro plain [where pc = Stop_draining]) (auto simp: role_ok_def)
  next
    case (disconnect i js w)
    then show ?thesis using role by (intro loop [OF disconnect(2,3)]) (auto simp: role_ok_def)
  next
    case drained
    then show ?thesis using facts by (intro plain [where pc = Away]) (auto simp: role_ok_def)
  next
    case (drain p ps)
    then show ?thesis
      using facts list_update_id [of "sx_threads s" t] by (intro plain [where pc = Stop_draining]) (auto simp: role_ok_def)
  qed
qed

lemma loop_of_ids: "loop_of pc = Some i \<Longrightarrow> i \<in> pc_ids pc"
  by (cases pc) auto

lemma nextId_fresh:
  assumes inv: "server_inv n s" and room: "Suc (sx_made s) < 2 ^ 64"
  shows "unat (sx_nextId s) = Suc (sx_made s) \<and> sx_nextId s \<notin> dom (sx_loops s)"
proof -
  have "sx_nextId s = of_nat (Suc (sx_made s))" using inv by (simp add: server_inv_def)
  then have new: "unat (sx_nextId s) = Suc (sx_made s)" using room by (simp add: unat_of_nat64 del: of_nat_Suc)
  have "unat j \<le> sx_made s" if "j \<in> dom (sx_loops s)" for j using inv that unfolding server_inv_def by blast
  then show ?thesis using new by fastforce
qed

lemma accept_inv:
  assumes inv: "server_inv n s" and n: "0 < n" and away: "sx_threads s ! 0 = Away" and room: "Suc (sx_made s) < 2 ^ 64"
    and s': "s' = moves 0 (Adding (sx_nextId s)) (set_loop (sx_nextId s) (write_loop_new (sx_nextId s) n)
      (s\<lparr>sx_accepting := False, sx_nextId := sx_nextId s + 1, sx_made := Suc (sx_made s)\<rparr>))"
  shows "server_inv n s'"
proof -
  let ?i = "sx_nextId s"
  have len: "length (sx_threads s) = n" and i: "?i = of_nat (Suc (sx_made s))" using inv by (simp_all add: server_inv_def)
  have new: "unat ?i = Suc (sx_made s)" and fresh: "?i \<notin> dom (sx_loops s)" using nextId_fresh [OF inv room] by blast+
  have bound: "unat j \<le> sx_made s" if "j \<in> dom (sx_loops s)" for j
    using inv that unfolding server_inv_def by blast
  have away_all: "loop_of (sx_threads s ! u) \<noteq> Some ?i" if "u < n" for u
    using server_inv_facts(2) [OF inv that] fresh loop_of_ids [of "sx_threads s ! u" ?i] by blast
  have "loop_ok n ((sx_threads s)[0 := Adding ?i]) ?i (write_loop_new ?i n)"
  proof -
    have "wl_threads (write_loop_new ?i n) = replicate n Outside" by (simp add: write_loop_new_def)
    moreover have "loop_of ((sx_threads s)[0 := Adding ?i] ! u) \<noteq> Some ?i" if "u < n" for u
      using away_all [OF that] len n by (cases "u = 0") simp_all
    ultimately show ?thesis unfolding loop_ok_def using net_reachable.start by auto
  qed
  moreover have "loop_ok n ((sx_threads s)[0 := Adding ?i]) j w" if "sx_loops s j = Some w" for j w
    using inv that n len away by (intro loop_ok_other) (auto simp: server_inv_def)
  ultimately have loops: "loop_ok n (sx_threads s') j w" if "sx_loops s' j = Some w" for j w
    using that unfolding s' by (auto split: if_splits)
  have "pc_ids (sx_threads s' ! u) \<subseteq> dom (sx_loops s') \<and> role_ok u (sx_threads s' ! u) \<and>
      (after_stop (sx_threads s' ! u) \<longrightarrow> sx_stopped s')" if "u < n" for u
    using server_inv_facts(2-4) [OF inv that] n len unfolding s' by (cases "u = 0") (auto simp: role_ok_def)
  moreover have "\<exists>u < n. holds_mutex (sx_threads s' ! u)" if locked: "sx_locked s'"
  proof -
    obtain u where "u < n" "holds_mutex (sx_threads s ! u)" using inv locked unfolding s' by (auto simp: server_inv_def)
    then show ?thesis using away unfolding s' by (intro exI [of _ u]) (cases "u = 0"; simp)
  qed
  moreover have "sx_nextId s' = of_nat (Suc (sx_made s'))" unfolding s' using i by simp
  moreover have "unat j \<le> sx_made s'" if "j \<in> dom (sx_loops s')" for j
  proof -
    have "j = ?i \<or> j \<in> dom (sx_loops s)" using that unfolding s' by auto
    then have "unat j \<le> Suc (sx_made s)" using bound [of j] new by (metis le_SucI order_refl)
    then show ?thesis unfolding s' by simp
  qed
  moreover have "set (sx_connections s') \<union> sx_reading s' \<subseteq> dom (sx_loops s')" "finite (dom (sx_loops s'))" "length (sx_threads s') = n"
    using inv len unfolding s' by (auto simp: server_inv_def)
  ultimately show ?thesis using loops unfolding server_inv_def by blast
qed

text \<open>The reports of the library, one by one.\<close>

lemma io_step_cases:
  assumes "io_step e s = Some s'"
  obtains
    (aborted) "s' = s\<lparr>sx_accepting := False\<rparr>"
  | (refused) "s' = moves 0 Accept_again (s\<lparr>sx_accepting := False\<rparr>)"
  | (accepted) "s' = moves 0 (Adding (sx_nextId s)) (set_loop (sx_nextId s) (write_loop_new (sx_nextId s) (length (sx_threads s)))
      (s\<lparr>sx_accepting := False, sx_nextId := sx_nextId s + 1, sx_made := Suc (sx_made s)\<rparr>))"
  | (failed) i where "i \<in> sx_reading s" "s' = moves 0 (Read_failed i) (s\<lparr>sx_reading := sx_reading s - {i}\<rparr>)"
  | (bytes) i chunk buf ps where "i \<in> sx_reading s" "receive_chunk i (sx_receive s i) chunk = Inr (buf, ps)"
      "s' = moves 0 (Delivering i ps) (s\<lparr>sx_reading := sx_reading s - {i}, sx_receive := (sx_receive s)(i := buf),
        sx_read := sx_read s @ [(i, chunk)], sx_decoded := sx_decoded s @ ps\<rparr>)"
  | (written) i ok w where "e = Write_end i ok" "sx_loops s i = Some w" "wl_inflight w \<noteq> []"
      "s' = moves 0 (In_connection i)
        (set_loop i (goto 0 (if ok then Write_done else Write_failed) (w\<lparr>wl_inflight := tl (wl_inflight w)\<rparr>)) s)"
proof -
  note step = assms [unfolded io_step_def Let_def]
  show thesis
  proof (cases e)
    case (Accept_done r)
    then show ?thesis using step aborted refused accepted by (cases r) (auto split: if_splits)
  next
    case (Read_done i result)
    then show ?thesis using step failed bytes by (cases result) (auto split: if_splits sum.splits prod.splits)
  next
    case (Write_end i ok)
    then show ?thesis using step written by (auto split: if_splits option.splits)
  qed
qed

lemma io_step_thread: "io_step e s = Some s' \<Longrightarrow> 0 < length (sx_threads s) \<and> sx_threads s ! 0 = Away \<and> \<not> sx_stopped s"
  by (auto simp: io_step_def split: if_splits)

lemma io_step_inv:
  assumes inv: "server_inv n s" and step: "io_step e s = Some s'" and room: "sx_made s' < 2 ^ 64 - 1"
  shows "server_inv n s'"
proof -
  have len: "length (sx_threads s) = n" using inv by (simp add: server_inv_def)
  have n: "0 < n" and away: "sx_threads s ! 0 = Away" using io_step_thread [OF step] len by simp_all
  note facts = server_inv_facts [OF inv n] and plain = server_inv_plain [OF inv n]
  from step show ?thesis
  proof (cases rule: io_step_cases)
    case aborted
    then show ?thesis
      using facts away list_update_id [of "sx_threads s" 0] by (intro plain [where pc = Away]) (auto simp: role_ok_def)
  next
    case refused
    then show ?thesis using facts away by (intro plain [where pc = Accept_again]) (auto simp: role_ok_def)
  next
    case accepted
    have "Suc (sx_made s) < 2 ^ 64" using room by (simp add: accepted)
    from accept_inv [OF inv n away this] accepted len show ?thesis by simp
  next
    case (failed i)
    then show ?thesis using facts away by (intro plain [where pc = "Read_failed i"]) (auto simp: role_ok_def)
  next
    case (bytes i chunk buf ps)
    then show ?thesis using facts away by (intro plain [where pc = "Delivering i ps"]) (auto simp: role_ok_def)
  next
    case (written i ok w)
    have out: "0 < length (wl_threads w)" "wl_threads w ! 0 = Outside" using facts(7,8) [OF written(2)] n away by auto
    have "wl_inflight w = [] @ hd (wl_inflight w) # tl (wl_inflight w)" using written(3) by simp
    from net_step.loop [OF loop_step.completed [OF out this, of ok]]
    have ends: "net_step w (goto 0 (if ok then Write_done else Write_failed) (w\<lparr>wl_inflight := tl (wl_inflight w)\<rparr>))" by simp
    show ?thesis
      by (rule server_inv_loop [OF inv n written(4) _ written(2) ends, where npc = "if ok then Write_done else Write_failed"])
        (use written away in \<open>auto simp: role_ok_def\<close>)
  qed
qed

lemma call_step_inv:
  assumes inv: "server_inv n s" and step: "call_step t c s = Some s'"
  shows "server_inv n s'"
proof -
  have len: "length (sx_threads s) = n" using inv by (simp add: server_inv_def)
  have t: "t < n" "t \<noteq> 0" "sx_threads s ! t = Away" using step len by (auto simp: call_step_def split: if_splits)
  note facts = server_inv_facts [OF inv t(1)] and plain = server_inv_plain [OF inv t(1)]
  show ?thesis
  proof (cases c)
    case (Send_call packet)
    then have "s' = moves t (Looking_up packet) s" using step t len by (simp add: call_step_def)
    then show ?thesis using facts t by (intro plain [where pc = "Looking_up packet"]) (auto simp: role_ok_def)
  next
    case Poll_call
    then have "s' = dequeue_one s" using step t len by (simp add: call_step_def)
    then show ?thesis
      using facts t list_update_id [of "sx_threads s" t] by (intro plain [where pc = Away]) (auto simp: role_ok_def)
  next
    case Stop_call
    then have "s' = moves t Stop_testing s" using step t len by (simp add: call_step_def)
    then show ?thesis using facts t by (intro plain [where pc = Stop_testing]) (auto simp: role_ok_def)
  qed
qed

lemma server_step_made: "server_step t s = Some s' \<Longrightarrow> sx_made s' = sx_made s"
  by (auto simp: server_step_def connection_step_def erase_def split: if_splits server_pc.splits option.splits sum.splits list.splits)

lemma call_step_made: "call_step t c s = Some s' \<Longrightarrow> sx_made s' = sx_made s"
  by (auto simp: call_step_def split: if_splits server_call.splits)

lemma io_step_made: "io_step e s = Some s' \<Longrightarrow> sx_made s \<le> sx_made s'"
  by (auto simp: io_step_def Let_def split: if_splits io_event.splits accept_result.splits option.splits sum.splits prod.splits)

lemma server_reachable_inv:
  "server_reachable n s \<Longrightarrow> sx_made s < 2 ^ 64 - 1 \<Longrightarrow> server_inv n s"
proof (induction rule: server_reachable.induct)
  case start
  then show ?case by (simp add: server_inv_new)
next
  case (step s l s')
  have "sx_made s \<le> sx_made s'"
    using step.hyps(2) by (cases l) (auto dest: server_step_made call_step_made io_step_made)
  then have "server_inv n s" using step by simp
  then show ?case
    using step.hyps(2) step.prems by (cases l) (auto intro: server_step_inv io_step_inv call_step_inv)
qed

section \<open>Progress\<close>

fun wants_mutex :: "server_pc \<Rightarrow> bool" where
  "wants_mutex (Looking_up packet) = True"
| "wants_mutex (Removing_writer i) = True"
| "wants_mutex (Removing i) = True"
| "wants_mutex (Adding i) = True"
| "wants_mutex Stop_lock = True"
| "wants_mutex pc = False"

lemma server_progress:
  assumes inv: "server_inv n s" and t: "t < n" and pc: "sx_threads s ! t \<noteq> Away"
  shows "server_step t s \<noteq> None \<or> sx_locked s \<and> wants_mutex (sx_threads s ! t) \<or>
    sx_threads s ! t = Stop_join \<and> sx_threads s ! 0 \<noteq> Away"
proof -
  note facts = server_inv_facts [OF inv t]
  have len: "\<not> t \<ge> length (sx_threads s)" using facts t by simp
  have known: "\<exists>w. sx_loops s i = Some w" if "i \<in> pc_ids (sx_threads s ! t) \<union> set (sx_connections s)" for i
    using facts(2,5) that by auto
  show ?thesis
  proof (cases "sx_threads s ! t")
    case (Looking_up packet)
    then show ?thesis using len known [of "op_connectionId packet"] by (auto simp: server_step_def Encode_eq)
  next
    case (In_connection i)
    then obtain w where w: "sx_loops s i = Some w" using known by auto
    then have "t < length (wl_threads w)" "wl_threads w ! t \<noteq> Outside" using facts(7,8) [OF w] t In_connection by auto
    then show ?thesis
      using thread_can_step [of t w] w len In_connection by (auto simp: server_step_def connection_step_def)
  next
    case (Delivering i ps)
    then show ?thesis using len by (cases ps) (auto simp: server_step_def)
  next
    case (Read_failed i)
    then show ?thesis using len known [of i] by (auto simp: server_step_def)
  next
    case (Stop_disconnecting ids)
    show ?thesis
    proof (cases ids)
      case (Cons i js)
      then obtain w where "sx_loops s i = Some w" using known [of i] Stop_disconnecting by auto
      then show ?thesis using len Stop_disconnecting Cons by (simp add: server_step_def)
    qed (use len Stop_disconnecting in \<open>simp add: server_step_def\<close>)
  qed (use pc len in \<open>auto simp: server_step_def\<close>)
qed

end
