(* ===== verification/Net_Delivery.thy ===== *)
theory Net_Delivery
  imports Net_Races "HOL-Library.Sublist"
begin

text \<open>
  What the interleaved server of Net_Races does with packets (\<open>Net/NetServer.cpp\<close>): those that come in are decoded,
  queued and polled in the order of their connection, and each connection writes in the order in which \<open>EnqueueSend\<close>
  accepted. At the end a run of three threads.
\<close>

section \<open>Packets that come in\<close>

fun pending :: "server_pc \<Rightarrow> received_packet list" where
  "pending (Delivering i ps) = ps"
| "pending pc = []"

definition delivery_inv :: "server_race \<Rightarrow> bool" where
  "delivery_inv s \<longleftrightarrow>
     (\<forall>i. receive_chunks i [] (chunks_of i (sx_read s))
        = Inr (sx_receive s i, filter (\<lambda>p. rp_connectionId p = i) (sx_decoded s))) \<and>
     subseq (sx_taken s @ sx_inbound s @ pending (sx_threads s ! 0)) (sx_decoded s) \<and>
     length (sx_taken s @ sx_inbound s @ pending (sx_threads s ! 0)) + sx_dropped s = length (sx_decoded s)"

lemma receive_chunks_snoc:
  "receive_chunks i buf cs = Inr (buf1, ps) \<Longrightarrow> receive_chunk i buf1 c = Inr (buf2, qs) \<Longrightarrow>
   receive_chunks i buf (cs @ [c]) = Inr (buf2, ps @ qs)"
  using receive_chunks_append [of i buf cs buf1 ps "[c]" buf2 qs] by simp

lemma chunks_of_snoc: "chunks_of i (rs @ [(j, c)]) = (if j = i then chunks_of i rs @ [c] else chunks_of i rs)"
  by (simp add: chunks_of_def)

lemma delivery_cong:
  assumes "delivery_inv s" and "sx_read s' = sx_read s" "sx_receive s' = sx_receive s" "sx_decoded s' = sx_decoded s"
    and "sx_taken s' @ sx_inbound s' @ pending (sx_threads s' ! 0) = sx_taken s @ sx_inbound s @ pending (sx_threads s ! 0)"
    and "sx_dropped s' = sx_dropped s"
  shows "delivery_inv s'"
  using assms unfolding delivery_inv_def by simp

lemma dequeue_one_same: "sx_taken (dequeue_one s) @ sx_inbound (dequeue_one s) = sx_taken s @ sx_inbound s"
  "sx_read (dequeue_one s) = sx_read s" "sx_receive (dequeue_one s) = sx_receive s" "sx_decoded (dequeue_one s) = sx_decoded s"
  "sx_dropped (dequeue_one s) = sx_dropped s"
  by (simp_all add: dequeue_one_def split: list.split)

lemma deliver_one:
  assumes d: "delivery_inv s" and pc: "sx_threads s ! 0 = Delivering i (p # ps)" "sx_threads s \<noteq> []"
  shows "delivery_inv (moves 0 (Delivering i ps) (enqueue_one p s))"
proof -
  let ?s' = "moves 0 (Delivering i ps) (enqueue_one p s)" and ?all = "sx_taken s @ sx_inbound s @ p # ps"
  have D: "subseq ?all (sx_decoded s)" "length ?all + sx_dropped s = length (sx_decoded s)"
    "\<forall>i. receive_chunks i [] (chunks_of i (sx_read s)) = Inr (sx_receive s i, filter (\<lambda>p. rp_connectionId p = i) (sx_decoded s))"
    using d pc by (simp_all add: delivery_inv_def)
  have same: "sx_read ?s' = sx_read s" "sx_receive ?s' = sx_receive s" "sx_decoded ?s' = sx_decoded s" "sx_taken ?s' = sx_taken s"
    "pending (sx_threads ?s' ! 0) = ps"
    using pc by (simp_all add: enqueue_one_def)
  show ?thesis
  proof (cases "length (sx_inbound s) < kInboundQueueCapacity")
    case True
    then have "sx_inbound ?s' = sx_inbound s @ [p]" "sx_dropped ?s' = sx_dropped s" by (simp_all add: enqueue_one_def)
    then show ?thesis using D same unfolding delivery_inv_def by simp
  next
    case False
    then have full: "sx_inbound ?s' = sx_inbound s" "sx_dropped ?s' = Suc (sx_dropped s)" by (simp_all add: enqueue_one_def)
    have "subseq (sx_taken s @ sx_inbound s @ ps) ?all" by (simp add: subseq_append' list_emb_Cons)
    then show ?thesis using D same full subseq_order.trans [OF _ D(1)] unfolding delivery_inv_def by simp
  qed
qed

lemma server_step_delivery:
  assumes inv: "server_inv n s" and d: "delivery_inv s" and step: "server_step t s = Some s'"
  shows "delivery_inv s'"
proof -
  have t: "t < n" "length (sx_threads s) = n" using inv server_step_thread [OF step] by (simp_all add: server_inv_def)
  have role: "role_ok t (sx_threads s ! t)" by (rule server_inv_facts(3) [OF inv t(1)])
  have same: "pending ((sx_threads s)[t := pc] ! 0) = pending (sx_threads s ! 0)" if "pending pc = pending (sx_threads s ! t)" for pc
    using that t by (cases "t = 0") simp_all
  from step show ?thesis
  proof (cases rule: server_step_cases)
    case (deliver i p ps)
    then have "t = 0" using role by (simp add: role_ok_def)
    then show ?thesis using deliver deliver_one [OF d] t by auto
  next
    case (drain p ps)
    then show ?thesis by (intro delivery_cong [OF d]) (simp_all add: dequeue_one_same flip: append_assoc)
  qed (auto intro!: delivery_cong [OF d] simp: same erase_def split: if_splits)
qed

lemma bytes_delivery:
  assumes d: "delivery_inv s" and away: "sx_threads s ! 0 = Away" "sx_threads s \<noteq> []"
    and r: "receive_chunk i (sx_receive s i) chunk = Inr (buf, ps)"
    and s': "s' = moves 0 (Delivering i ps) (s\<lparr>sx_reading := sx_reading s - {i}, sx_receive := (sx_receive s)(i := buf),
      sx_read := sx_read s @ [(i, chunk)], sx_decoded := sx_decoded s @ ps\<rparr>)"
  shows "delivery_inv s'"
proof -
  have ids: "\<forall>p \<in> set ps. rp_connectionId p = i"
    using decode_loop_total [of i "sx_receive s i @ chunk"] r by (auto simp: receive_chunk_def)
  have "receive_chunks j [] (chunks_of j (sx_read s')) = Inr (sx_receive s' j, filter (\<lambda>p. rp_connectionId p = j) (sx_decoded s'))" for j
  proof (cases "j = i")
    case True
    have "filter (\<lambda>p. rp_connectionId p = i) ps = ps" using ids by simp
    then show ?thesis
      using receive_chunks_snoc [OF _ r] d unfolding s' True delivery_inv_def by (simp add: chunks_of_snoc)
  next
    case False
    then have "filter (\<lambda>p. rp_connectionId p = j) ps = []" using ids by (simp add: filter_empty_conv)
    then show ?thesis using d False unfolding s' delivery_inv_def by (simp add: chunks_of_snoc)
  qed
  moreover have "subseq (sx_taken s @ sx_inbound s @ ps) (sx_decoded s @ ps)"
    using d away unfolding delivery_inv_def by (simp flip: append_assoc)
  moreover have "length (sx_taken s @ sx_inbound s @ ps) + sx_dropped s = length (sx_decoded s @ ps)"
    using d away unfolding delivery_inv_def by simp
  ultimately show ?thesis using away(2) unfolding delivery_inv_def by (simp add: s')
qed

lemma io_step_delivery:
  assumes d: "delivery_inv s" and step: "io_step e s = Some s'"
  shows "delivery_inv s'"
proof -
  have away: "sx_threads s ! 0 = Away" "sx_threads s \<noteq> []" using io_step_thread [OF step] by auto
  from step show ?thesis
  proof (cases rule: io_step_cases)
    case (bytes i chunk buf ps)
    then show ?thesis using bytes_delivery [OF d away] by blast
  qed (use away in \<open>auto intro!: delivery_cong [OF d]\<close>)
qed

lemma call_step_delivery:
  assumes d: "delivery_inv s" and step: "call_step t c s = Some s'"
  shows "delivery_inv s'"
proof (cases "c = Poll_call")
  case True
  then have "s' = dequeue_one s" using step by (auto simp: call_step_def split: if_splits)
  then show ?thesis by (intro delivery_cong [OF d]) (simp_all add: dequeue_one_same flip: append_assoc)
next
  case False
  then show ?thesis using step by (intro delivery_cong [OF d]) (auto simp: call_step_def split: if_splits server_call.splits)
qed

lemma server_reachable_delivery: "server_reachable n s \<Longrightarrow> sx_made s < 2 ^ 64 - 1 \<Longrightarrow> 0 < n \<Longrightarrow> delivery_inv s"
proof (induction rule: server_reachable.induct)
  case start
  then show ?case by (simp add: delivery_inv_def server_race_new_def chunks_of_def)
next
  case (step s l s')
  have "sx_made s \<le> sx_made s'"
    using step.hyps(2) by (cases l) (auto dest: server_step_made call_step_made io_step_made)
  then have "delivery_inv s" "server_inv n s" using step server_reachable_inv by simp_all
  then show ?case
    using step.hyps(2) by (cases l) (auto intro: server_step_delivery io_step_delivery call_step_delivery)
qed

text \<open>C15. Whatever the other threads do: what was decoded from a connection are the first packets of the stream its
  client sent, all of them once the stream is in; and the packets polled, those in the queue and those the read
  handler still has to enqueue are, in this order, the packets decoded without those dropped on a full queue.\<close>

theorem server_delivers_under_interleaving:
  assumes "server_reachable n s" and "sx_made s < 2 ^ 64 - 1" and "0 < n"
    and "concat (chunks_of i (sx_read s)) @ rest = stream sent" and "deliverable sent"
  shows "\<exists>k ps. ps = sx_taken s @ sx_inbound s @ pending (sx_threads s ! 0) \<and>
    subseq ps (sx_decoded s) \<and> length ps + sx_dropped s = length (sx_decoded s) \<and>
    filter (\<lambda>p. rp_connectionId p = i) (sx_decoded s) = map (received i) (take k sent) \<and>
    (rest = [] \<longrightarrow> take k sent = sent) \<and>
    (sx_dropped s = 0 \<longrightarrow> filter (\<lambda>p. rp_connectionId p = i) ps = map (received i) (take k sent))"
proof -
  let ?ps = "sx_taken s @ sx_inbound s @ pending (sx_threads s ! 0)"
  have d: "receive_chunks i [] (chunks_of i (sx_read s)) = Inr (sx_receive s i, filter (\<lambda>p. rp_connectionId p = i) (sx_decoded s))"
    "subseq ?ps (sx_decoded s)" "length ?ps + sx_dropped s = length (sx_decoded s)"
    using server_reachable_delivery [OF assms(1-3)] unfolding delivery_inv_def by blast+
  obtain k partial where k: "receive_chunks i [] (chunks_of i (sx_read s)) = Inr (partial, map (received i) (take k sent))"
    "partial @ rest = stream (drop k sent)" "incomplete partial (drop k sent)"
    using receive_chunks_prefix [of "[]" "chunks_of i (sx_read s)" rest sent i] assms(4,5) incomplete_nil by auto
  have "rest = [] \<longrightarrow> take k sent = sent" using incomplete_all [OF k(3)] k(2) by auto
  moreover have "sx_dropped s = 0 \<longrightarrow> ?ps = sx_decoded s" using subseq_same_length [OF d(2)] d(3) by simp
  ultimately show ?thesis using d k(1) by (intro exI [of _ k] exI [of _ ?ps]) auto
qed

section \<open>Each connection keeps its order\<close>

text \<open>C14. Every connection of the server is one of the machines of Net_Connection, whatever the other threads do: at most
  one of its writes is outstanding, and the packets that \<open>EnqueueSend\<close> accepted are those written, in order, then the one
  about to be written, then its queue.\<close>

theorem server_keeps_every_connection_in_order:
  assumes "server_reachable n s" and "sx_made s < 2 ^ 64 - 1" and "sx_loops s i = Some w"
  shows "net_reachable (write_loop_new i n) w \<and> length (wl_inflight w) \<le> 1 \<and>
    length (cn_sendQueue (wl_conn w)) \<le> kMaxPendingSendPackets \<and>
    (\<exists>ps. length ps \<le> 1 \<and> wl_accepted w = wl_written w @ ps @ cn_sendQueue (wl_conn w) \<and> (wl_inflight w \<noteq> [] \<longrightarrow> ps = []))"
proof -
  have "net_reachable (write_loop_new i n) w"
    using server_reachable_inv [OF assms(1,2)] assms(3) by (simp add: server_inv_def loop_ok_def)
  with writes_one_at_a_time_in_order [OF this] show ?thesis by blast
qed

section \<open>A run\<close>

fun run_labels :: "server_label list \<Rightarrow> server_race \<Rightarrow> server_race option" where
  "run_labels [] s = Some s"
| "run_labels (l # ls) s = (case label_step l s of None \<Rightarrow> None | Some s' \<Rightarrow> run_labels ls s')"

lemma run_labels_reachable: "run_labels ls s = Some s' \<Longrightarrow> server_reachable n s \<Longrightarrow> server_reachable n s'"
  by (induction ls arbitrary: s) (auto split: option.splits intro: server_reachable.step)

text \<open>A client connects and sends a packet in two pieces; thread 1 answers while the second piece comes in, and thread 2
  polls the packet.\<close>

definition accept_one :: "server_label list" where
  "accept_one = [Io (Accept_done Accepted), Thread 0, Thread 0, Thread 0]"

definition hello :: outbound_packet where
  "hello = \<lparr>op_connectionId = 1, op_packetId = 7, op_payload = [1, 2]\<rparr>"

definition first_piece :: "u8 list" where
  "first_piece = take 3 (packet_bytes 9 [5])"

definition second_piece :: "u8 list" where
  "second_piece = drop 3 (packet_bytes 9 [5])"

definition read_and_answer :: "server_label list" where
  "read_and_answer = accept_one @
     [Io (Read_done 1 (Some first_piece)), Thread 0, Call 1 (Send_call hello), Thread 1, Thread 0, Thread 1,
      Io (Read_done 1 (Some second_piece)), Thread 1, Thread 0, Thread 1, Call 2 Poll_call, Thread 1, Thread 1]"

lemmas run_defs = server_step_def connection_step_def io_step_def call_step_def moves_def set_loop_def erase_def enqueue_one_def
  dequeue_one_def disconnect_loop_def thread_step_def goto_def write_loop_new_def TcpConnection_new_def server_race_new_def
  enqueue_locked_def TryBeginWrite_def TryPopSend_def EndWrite_def HasPendingSend_def IsConnected_def Disconnect_def
  kMaxPendingSendPackets_def

lemma hello_encode [simp]: "Encode 7 [1, 2] = Inr (packet_bytes 7 [1, 2])" by (rule Encode_eq)

lemma pieces:
  "receive_chunk 1 [] first_piece = Inr (first_piece, [])"
  "receive_chunk 1 first_piece second_piece = Inr ([], [received 1 (9, [5])])"
  by code_simp+

lemma three_threads: "replicate 3 x = [x, x, x]"
  by (simp add: numeral_3_eq_3)

lemma read_and_answer_run:
  "\<exists>s w. run_labels read_and_answer (server_race_new 3) = Some s \<and> sx_made s = 1 \<and> sx_loops s 1 = Some w \<and>
    sx_read s = [(1, first_piece), (1, second_piece)] \<and>
    sx_taken s = [received 1 (9, [5])] \<and> sx_inbound s = [] \<and> sx_dropped s = 0 \<and> sx_threads s = [Delivering 1 [], Away, Away] \<and>
    wl_accepted w = [packet_bytes 7 [1, 2]] \<and> wl_written w = [packet_bytes 7 [1, 2]] \<and> wl_inflight w = [packet_bytes 7 [1, 2]]"
  by (simp add: read_and_answer_def accept_one_def run_defs kInboundQueueCapacity_def pieces hello_def three_threads Let_def)

theorem server_delivers_under_interleaving_witness:
  "\<exists>s. run_labels read_and_answer (server_race_new 3) = Some s \<and> sx_taken s = map (received 1) [(9, [5])] \<and>
    filter (\<lambda>p. rp_connectionId p = 1) (sx_decoded s) = map (received 1) [(9, [5])]"
proof -
  obtain s where s: "run_labels read_and_answer (server_race_new 3) = Some s" "sx_made s = 1"
    "sx_read s = [(1, first_piece), (1, second_piece)]" "sx_taken s = [received 1 (9, [5])]"
    using read_and_answer_run by blast
  have reach: "server_reachable 3 s" by (rule run_labels_reachable [OF s(1) server_reachable.start])
  have bytes: "concat (chunks_of 1 (sx_read s)) @ [] = stream [(9, [5])]" "deliverable [(9, [5])]"
    using s(3) by (simp_all add: chunks_of_def first_piece_def second_piece_def)
  have "sx_made s < 2 ^ 64 - 1" "(0::nat) < 3" using s(2) by simp_all
  from server_delivers_under_interleaving [OF reach this bytes] show ?thesis using s(1,4) by auto
qed

theorem server_keeps_every_connection_in_order_witness:
  "\<exists>s w. run_labels read_and_answer (server_race_new 3) = Some s \<and> sx_loops s 1 = Some w \<and>
    wl_written w = [packet_bytes 7 [1, 2]] \<and> net_reachable (write_loop_new 1 3) w \<and> length (wl_inflight w) \<le> 1"
proof -
  obtain s w where s: "run_labels read_and_answer (server_race_new 3) = Some s" "sx_made s = 1" "sx_loops s 1 = Some w"
    "wl_written w = [packet_bytes 7 [1, 2]]"
    using read_and_answer_run by blast
  have reach: "server_reachable 3 s" by (rule run_labels_reachable [OF s(1) server_reachable.start])
  have "sx_made s < 2 ^ 64 - 1" using s(2) by simp
  from server_keeps_every_connection_in_order [OF reach this s(3)] show ?thesis using s(1,3,4) by blast
qed

end
