(* ===== verification/Net_Rest.thy ===== *)
theory Net_Rest
  imports Net_Delivery
begin

text \<open>
  The interleaved server of Net_Races comes to rest: a measure that every step of its own decreases, the sweep of \<open>Stop\<close>,
  which leaves no connection up, and what holds when no step is left. At the end the objects of the library that two
  threads may use at once.
\<close>

section \<open>A measure of the work left\<close>

text \<open>The steps of \<open>Stop\<close> left, what a thread still has to send or to deliver, and its other steps.\<close>

fun stop_stage :: "server_pc \<Rightarrow> nat" where
  "stop_stage Stop_testing = 8"
| "stop_stage Stop_clearing = 7"
| "stop_stage Stop_closing = 6"
| "stop_stage Stop_io = 5"
| "stop_stage Stop_join = 4"
| "stop_stage Stop_lock = 3"
| "stop_stage (Stop_disconnecting ids) = 2"
| "stop_stage Stop_draining = 1"
| "stop_stage pc = 0"

fun packets_held :: "server_pc \<Rightarrow> nat" where
  "packets_held (Looking_up packet) = 3"
| "packets_held (Delivering i ps) = 2 * length ps"
| "packets_held pc = 0"

fun steps_held :: "server_pc \<Rightarrow> nat" where
  "steps_held (Removing_writer i) = 1"
| "steps_held (Removing i) = 1"
| "steps_held (Adding i) = 4"
| "steps_held (Start_reading i b) = 3"
| "steps_held Accept_again = 1"
| "steps_held (Delivering i ps) = 4"
| "steps_held (Read_failed i) = 2"
| "steps_held (Stop_disconnecting ids) = length ids"
| "steps_held pc = 0"

definition over_loops :: "(write_loop \<Rightarrow> nat) \<Rightarrow> server_race \<Rightarrow> nat" where
  "over_loops f s = (\<Sum>i \<in> dom (sx_loops s). f (the (sx_loops s i)))"

definition stops_left :: "server_race \<Rightarrow> nat" where
  "stops_left s = sum_list (map stop_stage (sx_threads s))"

definition deliveries_left :: "server_race \<Rightarrow> nat" where
  "deliveries_left s = over_loops packets_left s + sum_list (map packets_held (sx_threads s)) + length (sx_inbound s)"

definition steps_left :: "server_race \<Rightarrow> nat" where
  "steps_left s = 2 * over_loops loop_distance s + sum_list (map steps_held (sx_threads s))"

lemma over_loops_update:
  assumes "finite (dom (sx_loops s))" and "sx_loops s i = Some w" and "sx_loops s' = (sx_loops s)(i \<mapsto> w')"
  shows "over_loops f s' + f w = over_loops f s + f w'"
proof -
  have d: "dom (sx_loops s') = dom (sx_loops s)" "i \<in> dom (sx_loops s)" using assms(2,3) by auto
  have rest: "(\<Sum>j \<in> dom (sx_loops s) - {i}. f (the (sx_loops s' j))) = (\<Sum>j \<in> dom (sx_loops s) - {i}. f (the (sx_loops s j)))"
    unfolding assms(3) by (intro sum.cong) auto
  have "over_loops f s' = f w' + (\<Sum>j \<in> dom (sx_loops s) - {i}. f (the (sx_loops s' j)))"
    unfolding over_loops_def d(1) using sum.remove [OF assms(1) d(2), of "\<lambda>j. f (the (sx_loops s' j))"] assms(3) by simp
  moreover have "over_loops f s = f w + (\<Sum>j \<in> dom (sx_loops s) - {i}. f (the (sx_loops s j)))"
    unfolding over_loops_def using sum.remove [OF assms(1) d(2), of "\<lambda>j. f (the (sx_loops s j))"] assms(2) by simp
  ultimately show ?thesis using rest by simp
qed

text \<open>A thread moves, and the two sums over the connections change from \<open>p, d\<close> to \<open>p', d'\<close>.\<close>

lemma work_move:
  assumes t: "t < length (sx_threads s)" and pcs: "sx_threads s' = (sx_threads s)[t := pc]"
    and sums: "over_loops packets_left s' + p = over_loops packets_left s + p'" "over_loops loop_distance s' + d = over_loops loop_distance s + d'"
    and less: "stop_stage pc < stop_stage (sx_threads s ! t) \<or> stop_stage pc = stop_stage (sx_threads s ! t) \<and>
      (p' + packets_held pc + length (sx_inbound s') < p + packets_held (sx_threads s ! t) + length (sx_inbound s) \<or>
       p' + packets_held pc + length (sx_inbound s') = p + packets_held (sx_threads s ! t) + length (sx_inbound s) \<and>
       2 * d' + steps_held pc < 2 * d + steps_held (sx_threads s ! t))"
  shows "(s', s) \<in> measures [stops_left, deliveries_left, steps_left]"
proof -
  note upd = sum_list_update_plus [OF t, of stop_stage pc] sum_list_update_plus [OF t, of packets_held pc]
    sum_list_update_plus [OF t, of steps_held pc]
  have c: "stops_left s' + stop_stage (sx_threads s ! t) = stops_left s + stop_stage pc"
    unfolding stops_left_def pcs by (rule upd(1))
  have a: "deliveries_left s' + (p + packets_held (sx_threads s ! t) + length (sx_inbound s))
      = deliveries_left s + (p' + packets_held pc + length (sx_inbound s'))"
    unfolding deliveries_left_def pcs using upd(2) sums(1) by linarith
  have b: "steps_left s' + (2 * d + steps_held (sx_threads s ! t)) = steps_left s + (2 * d' + steps_held pc)"
    unfolding steps_left_def pcs using upd(3) sums(2) by linarith
  have "stops_left s' < stops_left s \<or> stops_left s' = stops_left s \<and>
      (deliveries_left s' < deliveries_left s \<or> deliveries_left s' = deliveries_left s \<and> steps_left s' < steps_left s)"
    using less a b c by linarith
  then show ?thesis by auto
qed

lemma work_plain:
  assumes "t < length (sx_threads s)" and "sx_threads s' = (sx_threads s)[t := pc]" and "sx_loops s' = sx_loops s"
    and "stop_stage pc < stop_stage (sx_threads s ! t) \<or> stop_stage pc = stop_stage (sx_threads s ! t) \<and>
      (packets_held pc + length (sx_inbound s') < packets_held (sx_threads s ! t) + length (sx_inbound s) \<or>
       packets_held pc + length (sx_inbound s') = packets_held (sx_threads s ! t) + length (sx_inbound s) \<and>
       steps_held pc < steps_held (sx_threads s ! t))"
  shows "(s', s) \<in> measures [stops_left, deliveries_left, steps_left]"
  using assms(4) by (intro work_move [OF assms(1,2), of 0 0 0 0]) (auto simp: over_loops_def assms(3))

lemma work_loop:
  assumes "finite (dom (sx_loops s))" and "sx_loops s i = Some w" and "t < length (sx_threads s)"
    and "s' = moves t pc (set_loop i w' s)"
    and "stop_stage pc = stop_stage (sx_threads s ! t)"
    and "packets_left w' + packets_held pc < packets_left w + packets_held (sx_threads s ! t) \<or>
      packets_left w' + packets_held pc = packets_left w + packets_held (sx_threads s ! t) \<and>
      2 * loop_distance w' + steps_held pc < 2 * loop_distance w + steps_held (sx_threads s ! t)"
  shows "(s', s) \<in> measures [stops_left, deliveries_left, steps_left]"
proof -
  have l: "sx_loops s' = (sx_loops s)(i \<mapsto> w')" "sx_threads s' = (sx_threads s)[t := pc]" "sx_inbound s' = sx_inbound s"
    using assms(4) by simp_all
  show ?thesis
    by (rule work_move [OF assms(3) l(2) over_loops_update [OF assms(1,2) l(1)] over_loops_update [OF assms(1,2) l(1)]])
      (use assms(5,6) l(3) in auto)
qed

lemma disconnect_loop_measure [simp]:
  "packets_left (disconnect_loop w) = packets_left w" "loop_distance (disconnect_loop w) = loop_distance w"
  by (simp_all add: disconnect_loop_def packets_left_def loop_distance_def)

lemma packets_left_send:
  assumes "t < length (wl_threads w)" and "wl_threads w ! t = Outside"
  shows "packets_left (goto t (At_check p) w) = packets_left w + 2"
  using sum_list_update_plus [OF assms(1), of wants_send "At_check p"] assms(2) by (simp add: packets_left_def)

lemma server_step_decreases:
  assumes inv: "server_inv n s" and step: "server_step t s = Some s'"
  shows "(s', s) \<in> measures [stops_left, deliveries_left, steps_left]"
proof -
  have t: "t < length (sx_threads s)" "t < n" and fin: "finite (dom (sx_loops s))"
    using inv server_step_thread [OF step] by (simp_all add: server_inv_def)
  note plain = work_plain [OF t(1)] and loop = work_loop [OF fin _ t(1)] and facts = server_inv_facts(7,8) [OF inv t(2)]
  from step show ?thesis
  proof (cases rule: server_step_cases)
    case (gone packet)
    then show ?thesis by (intro plain [where pc = Away]) simp_all
  next
    case (found packet w bytes)
    have out: "t < length (wl_threads w)" "wl_threads w ! t = Outside" using facts [OF found(2)] t(2) found(1) by auto
    show ?thesis by (rule loop [OF found(2,3)]) (use packets_left_send [OF out] found(1) in simp_all)
  next
    case (inside i w w' pc)
    show ?thesis by (rule loop [OF inside(2,5)]) (use loop_step_decreases [OF loop_step.own [OF inside(3)]] inside(1,4) in auto)
  next
    case (writer i)
    then show ?thesis by (intro plain [where pc = "In_connection i"]) (simp_all add: erase_def)
  next
    case (remove i)
    then show ?thesis by (intro plain [where pc = Away]) (simp_all add: erase_def)
  next
    case (add i)
    then show ?thesis by (intro plain [where pc = "Start_reading i True"]) simp_all
  next
    case (read i b)
    then show ?thesis by (intro plain [where pc = "if b then Accept_again else Away"]) simp_all
  next
    case accept
    then show ?thesis by (intro plain [where pc = Away]) simp_all
  next
    case (delivered i)
    then show ?thesis by (intro plain [where pc = "Start_reading i False"]) simp_all
  next
    case (deliver i p ps)
    then show ?thesis by (intro plain [where pc = "Delivering i ps"]) (simp_all add: enqueue_one_def)
  next
    case (failed i w)
    show ?thesis by (rule loop [OF failed(2,3)]) (use failed(1) in simp_all)
  next
    case test
    then show ?thesis by (intro plain [where pc = "if sx_running s then Stop_clearing else Away"]) simp_all
  next
    case clear
    then show ?thesis by (intro plain [where pc = Stop_closing]) simp_all
  next
    case close
    then show ?thesis by (intro plain [where pc = Stop_io]) simp_all
  next
    case stop
    then show ?thesis by (intro plain [where pc = Stop_join]) simp_all
  next
    case join
    then show ?thesis by (intro plain [where pc = Stop_lock]) simp_all
  next
    case lock
    then show ?thesis by (intro plain [where pc = "Stop_disconnecting (sx_connections s)"]) simp_all
  next
    case unlock
    then show ?thesis by (intro plain [where pc = Stop_draining]) simp_all
  next
    case (disconnect i js w)
    show ?thesis by (rule loop [OF disconnect(2,3)]) (use disconnect(1) in simp_all)
  next
    case drained
    then show ?thesis by (intro plain [where pc = Away]) simp_all
  next
    case (drain p ps)
    then show ?thesis
      using list_update_id [of "sx_threads s" t] by (intro plain [where pc = Stop_draining]) (simp_all add: dequeue_one_def)
  qed
qed

lemma write_end_decreases:
  assumes inv: "server_inv n s" and step: "io_step (Write_end i ok) s = Some s'"
  shows "(s', s) \<in> measures [stops_left, deliveries_left, steps_left]"
proof -
  have away: "0 < length (sx_threads s)" "sx_threads s ! 0 = Away" using io_step_thread [OF step] by simp_all
  obtain w where w: "sx_loops s i = Some w" "wl_inflight w \<noteq> []"
    and s': "s' = moves 0 (In_connection i)
      (set_loop i (goto 0 (if ok then Write_done else Write_failed) (w\<lparr>wl_inflight := tl (wl_inflight w)\<rparr>)) s)"
    using step by (auto simp: io_step_def split: if_splits option.splits)
  have n: "0 < n" and fin: "finite (dom (sx_loops s))" using inv away by (auto simp: server_inv_def)
  have out: "0 < length (wl_threads w)" "wl_threads w ! 0 = Outside" using server_inv_facts(7,8) [OF inv n w(1)] n away by auto
  have "wl_inflight w = [] @ hd (wl_inflight w) # tl (wl_inflight w)" using w(2) by simp
  from loop_step_decreases [OF loop_step.completed [OF out this, of ok]]
  show ?thesis by (intro work_loop [OF fin w(1) away(1) s']) (use away in auto)
qed

text \<open>What the server does without a new call, a new connection or new bytes.\<close>

inductive server_own :: "server_race \<Rightarrow> server_race \<Rightarrow> bool" where
  thread: "server_step t s = Some s' \<Longrightarrow> server_own s s'"
| write_end: "io_step (Write_end i ok) s = Some s' \<Longrightarrow> server_own s s'"

lemma server_own_made: "server_own s s' \<Longrightarrow> sx_made s' = sx_made s"
  by (cases rule: server_own.cases) (auto simp: server_step_made io_step_def split: if_splits option.splits)

lemma server_own_decreases: "server_inv n s \<Longrightarrow> server_own s s' \<Longrightarrow> (s', s) \<in> measures [stops_left, deliveries_left, steps_left]"
  by (elim server_own.cases) (blast intro: server_step_decreases write_end_decreases)+

lemma server_own_reachable: "server_own s s' \<Longrightarrow> server_reachable n s \<Longrightarrow> server_reachable n s'"
  by (elim server_own.cases) (metis label_step.simps server_reachable.step)+

section \<open>Stop closes every connection\<close>

definition up :: "server_race \<Rightarrow> ConnectionId set" where
  "up s = {i. \<exists>w. sx_loops s i = Some w \<and> cn_connected (wl_conn w)}"

fun adding :: "server_pc \<Rightarrow> ConnectionId set" where
  "adding (Adding i) = {i}"
| "adding pc = {}"

fun removing :: "server_pc \<Rightarrow> ConnectionId set" where
  "removing (Removing_writer i) = {i}"
| "removing (Removing i) = {i}"
| "removing pc = {}"

fun joined :: "server_pc \<Rightarrow> bool" where
  "joined Stop_lock = True"
| "joined (Stop_disconnecting ids) = True"
| "joined Stop_draining = True"
| "joined pc = False"

fun sweeping :: "server_pc \<Rightarrow> bool" where
  "sweeping Stop_join = True"
| "sweeping Stop_lock = True"
| "sweeping (Stop_disconnecting ids) = True"
| "sweeping pc = False"

definition swept :: "server_race \<Rightarrow> bool" where
  "swept s \<longleftrightarrow> sx_threads s ! 0 = Away \<and> sx_connections s = [] \<and> up s = {}"

definition sweep_inv :: "nat \<Rightarrow> server_race \<Rightarrow> bool" where
  "sweep_inv n s \<longleftrightarrow>
     up s \<subseteq> set (sx_connections s) \<union> adding (sx_threads s ! 0) \<and>
     (\<forall>t < n. removing (sx_threads s ! t) \<inter> up s = {}) \<and>
     (\<forall>t < n. holds_mutex (sx_threads s ! t) \<longrightarrow> sx_locked s \<and> (\<forall>u < n. holds_mutex (sx_threads s ! u) \<longrightarrow> u = t)) \<and>
     (\<forall>t < n. \<forall>js. sx_threads s ! t = Stop_disconnecting js \<longrightarrow> set (sx_connections s) \<inter> up s \<subseteq> set js) \<and>
     (\<forall>t < n. joined (sx_threads s ! t) \<longrightarrow> sx_threads s ! 0 = Away) \<and>
     (sx_stopped s \<longrightarrow> (\<exists>t < n. sweeping (sx_threads s ! t)) \<or> swept s)"

lemma sweep_inv_new: "sweep_inv n (server_race_new n)"
  by (simp add: sweep_inv_def server_race_new_def up_def)

lemma joined_stopped: "server_inv n s \<Longrightarrow> t < n \<Longrightarrow> joined (sx_threads s ! t) \<Longrightarrow> sx_stopped s"
  using server_inv_facts(4) [of n s t] by (cases "sx_threads s ! t") auto

text \<open>A thread moves and no connection comes up.\<close>

lemma sweep_move:
  assumes sw: "sweep_inv n s" and inv: "server_inv n s" and t: "t < n" and pcs: "sx_threads s' = (sx_threads s)[t := pc]"
    and up: "up s' \<subseteq> up s" and moved: "t = 0 \<longrightarrow> sx_threads s ! 0 \<noteq> Away \<or> \<not> sx_stopped s"
    and listed: "up s' \<subseteq> set (sx_connections s') \<union> adding (sx_threads s' ! 0)"
    and down: "removing pc \<inter> up s' = {}"
    and mutex: "holds_mutex pc \<longrightarrow> sx_locked s' \<and> (holds_mutex (sx_threads s ! t) \<or> \<not> sx_locked s)"
      "sx_locked s \<and> \<not> holds_mutex (sx_threads s ! t) \<longrightarrow> sx_locked s'"
    and left: "\<And>js. pc = Stop_disconnecting js \<Longrightarrow> set (sx_connections s') \<inter> up s' \<subseteq> set js"
      "set (sx_connections s') \<subseteq> set (sx_connections s) \<or> \<not> sx_locked s"
    and join: "joined pc \<longrightarrow> sx_threads s' ! 0 = Away"
    and stop: "sx_stopped s' \<longrightarrow> sx_stopped s \<and> \<not> sweeping (sx_threads s ! t) \<or> sweeping pc \<or> swept s'"
      "sx_connections s = [] \<longrightarrow> up s = {} \<longrightarrow> sx_stopped s \<longrightarrow> sx_threads s ! 0 = Away \<longrightarrow> sx_connections s' = []"
  shows "sweep_inv n s'"
proof -
  have len: "length (sx_threads s) = n" using inv by (simp add: server_inv_def)
  have at: "sx_threads s' ! u = (if u = t then pc else sx_threads s ! u)" if "u < n" for u
    using pcs len that by (simp add: nth_list_update)
  have S: "\<And>u. u < n \<Longrightarrow> removing (sx_threads s ! u) \<inter> up s = {}"
    "\<And>u v. u < n \<Longrightarrow> v < n \<Longrightarrow> holds_mutex (sx_threads s ! u) \<Longrightarrow> holds_mutex (sx_threads s ! v) \<Longrightarrow> u = v"
    "\<And>u. u < n \<Longrightarrow> holds_mutex (sx_threads s ! u) \<Longrightarrow> sx_locked s"
    "\<And>u js. u < n \<Longrightarrow> sx_threads s ! u = Stop_disconnecting js \<Longrightarrow> set (sx_connections s) \<inter> up s \<subseteq> set js"
    "\<And>u. u < n \<Longrightarrow> joined (sx_threads s ! u) \<Longrightarrow> sx_threads s ! 0 = Away"
    "sx_stopped s \<Longrightarrow> (\<exists>u < n. sweeping (sx_threads s ! u)) \<or> swept s"
    using sw by (simp_all add: sweep_inv_def)
  have still: "sx_threads s' ! 0 = Away" if "sx_threads s ! 0 = Away" "sx_stopped s"
    using that moved len pcs by (cases "t = 0") simp_all
  have 1: "removing (sx_threads s' ! u) \<inter> up s' = {}" if "u < n" for u
    using at [OF that] S(1) [OF that] down up by auto
  have 2: "sx_locked s' \<and> (\<forall>v < n. holds_mutex (sx_threads s' ! v) \<longrightarrow> v = u)" if u: "u < n" "holds_mutex (sx_threads s' ! u)" for u
    using at u S(2,3) t mutex by (smt (verit))
  have 3: "set (sx_connections s') \<inter> up s' \<subseteq> set js" if u: "u < n" "sx_threads s' ! u = Stop_disconnecting js" for u js
  proof (cases "u = t")
    case True
    then show ?thesis using left(1) u at [OF u(1)] by simp
  next
    case False
    then have "sx_threads s ! u = Stop_disconnecting js" using u at by simp
    then show ?thesis using S(3,4) [OF u(1)] left(2) up by auto
  qed
  have 4: "sx_threads s' ! 0 = Away" if u: "u < n" "joined (sx_threads s' ! u)" for u
    using at [OF u(1)] u join S(5) [OF u(1)] joined_stopped [OF inv u(1)] still by (auto split: if_splits)
  have 5: "(\<exists>u < n. sweeping (sx_threads s' ! u)) \<or> swept s'" if stopped: "sx_stopped s'"
  proof (cases "sweeping pc \<or> swept s'")
    case True
    then show ?thesis using at [OF t] t by auto
  next
    case False
    then have was: "sx_stopped s" "\<not> sweeping (sx_threads s ! t)" using stop(1) stopped by auto
    from S(6) [OF was(1)] show ?thesis
    proof
      assume "\<exists>u < n. sweeping (sx_threads s ! u)"
      then show ?thesis using was(2) at by metis
    next
      assume "swept s"
      then show ?thesis using still was(1) stop(2) up unfolding swept_def by auto
    qed
  qed
  show ?thesis unfolding sweep_inv_def using listed 1 2 3 4 5 by blast
qed

text \<open>A thread moves outside the sections that change the map.\<close>

lemma sweep_plain:
  assumes sw: "sweep_inv n s" and inv: "server_inv n s" and t: "t < n" and pcs: "sx_threads s' = (sx_threads s)[t := pc]"
    and up: "up s' \<subseteq> up s" and same: "sx_connections s' = sx_connections s" "sx_locked s' = sx_locked s" "sx_stopped s' = sx_stopped s"
    and was: "sx_threads s ! t \<noteq> Away" "adding (sx_threads s ! t) = {}" "\<not> holds_mutex (sx_threads s ! t)" "\<not> sweeping (sx_threads s ! t)"
    and "removing pc \<inter> up s' = {}" and "\<not> holds_mutex pc" and "joined pc \<longrightarrow> joined (sx_threads s ! t)"
  shows "sweep_inv n s'"
proof -
  have len: "length (sx_threads s) = n" using inv by (simp add: server_inv_def)
  have "up s \<subseteq> set (sx_connections s) \<union> adding (sx_threads s ! 0)" using sw unfolding sweep_inv_def by blast
  then have "up s' \<subseteq> set (sx_connections s') \<union> adding (sx_threads s' ! 0)"
    using up was(2) len t unfolding pcs same by (cases "t = 0") auto
  moreover have "sx_threads s' ! 0 = Away" if "joined pc"
  proof -
    have "sx_threads s ! 0 = Away" using sw assms(15) that t by (auto simp: sweep_inv_def)
    then show ?thesis using was(1) unfolding pcs by (cases "t = 0") auto
  qed
  ultimately show ?thesis
    using assms by (intro sweep_move [OF sw inv t pcs up]) auto
qed

lemma up_same: "sx_loops s' = sx_loops s \<Longrightarrow> up s' = up s"
  by (simp add: up_def)

lemma up_simps [simp]:
  "up (moves t pc s) = up s" "up (erase i s) = up s" "up (enqueue_one p s) = up s" "up (dequeue_one s) = up s"
  "up (s\<lparr>sx_connections := ids\<rparr>) = up s" "up (s\<lparr>sx_locked := b\<rparr>) = up s" "up (s\<lparr>sx_stopped := b\<rparr>) = up s"
  by (rule up_same, simp add: erase_def)+

lemma erase_simps [simp]:
  "sx_threads (erase i s) = sx_threads s" "sx_connections (erase i s) = filter (\<lambda>j. j \<noteq> i) (sx_connections s)"
  "sx_locked (erase i s) = sx_locked s" "sx_stopped (erase i s) = sx_stopped s" "sx_loops (erase i s) = sx_loops s"
  by (simp_all add: erase_def)

lemma up_loop:
  assumes "sx_loops s i = Some w" and "sx_loops s' = (sx_loops s)(i \<mapsto> w')" and "cn_connected (wl_conn w') \<longrightarrow> cn_connected (wl_conn w)"
  shows "up s' \<subseteq> up s" and "\<not> cn_connected (wl_conn w') \<Longrightarrow> up s' \<subseteq> up s - {i}"
  using assms by (auto simp: up_def split: if_splits)

lemma thread_step_down:
  assumes "thread_step t w = Some w'"
  shows "cn_connected (wl_conn w') \<longrightarrow> cn_connected (wl_conn w)" "wl_threads w ! t = Write_failed \<Longrightarrow> \<not> cn_connected (wl_conn w')"
  using assms
  by (auto simp: thread_step_def Let_def enqueue_locked_def TryBeginWrite_def TryPopSend_def EndWrite_def goto_def
      split: if_splits net_pc.splits list.splits)

lemma sweep_facts:
  assumes "sweep_inv n s" and "t < n"
  shows "up s \<subseteq> set (sx_connections s) \<union> adding (sx_threads s ! 0)" "removing (sx_threads s ! t) \<inter> up s = {}"
    "holds_mutex (sx_threads s ! t) \<longrightarrow> sx_locked s"
    "sx_threads s ! t = Stop_disconnecting js \<Longrightarrow> set (sx_connections s) \<inter> up s \<subseteq> set js"
    "joined (sx_threads s ! t) \<Longrightarrow> sx_threads s ! 0 = Away"
  using assms by (simp_all add: sweep_inv_def)

lemma up_disconnect:
  assumes "sx_loops s i = Some w"
  shows "up (moves t pc (set_loop i (disconnect_loop w) s)) \<subseteq> up s - {i}"
  by (rule up_loop(2) [OF assms, of _ "disconnect_loop w"]) (simp_all add: disconnect_loop_def)

lemma server_step_sweep:
  assumes sw: "sweep_inv n s" and inv: "server_inv n s" and step: "server_step t s = Some s'"
  shows "sweep_inv n s'"
proof -
  have t: "t < n" "length (sx_threads s) = n" using inv server_step_thread [OF step] by (simp_all add: server_inv_def)
  have moved: "t = 0 \<longrightarrow> sx_threads s ! 0 \<noteq> Away \<or> \<not> sx_stopped s" using server_step_thread [OF step] by (cases "t = 0") simp_all
  note facts = sweep_facts [OF sw t(1)] and move = sweep_move [OF sw inv t(1) _ _ moved] and plain = sweep_plain [OF sw inv t(1)]
  have listed: "up s \<subseteq> set (sx_connections s) \<union> adding ((sx_threads s)[t := pc'] ! 0)" if "adding (sx_threads s ! t) = {}" for pc'
    using facts(1) that t by (cases "t = 0") auto
  have idle: "t \<noteq> 0 \<and> sx_threads s ! 0 = Away" if "joined (sx_threads s ! t)"
    using facts(5) [OF that] that by (cases "t = 0") simp_all
  have off: "sweep_inv n s'" if "sx_threads s ! t \<in> {Removing_writer i, Removing i}" "s' = moves t pc (erase i s)" "pc \<in> {In_connection i, Away}" for i pc
  proof -
    have "up s \<subseteq> set (sx_connections s) \<union> adding ((sx_threads s)[t := pc] ! 0)" "i \<notin> up s"
      using listed [of pc] facts(2) that(1) by auto
    then have "up s' \<subseteq> set (sx_connections s') \<union> adding (sx_threads s' ! 0)" unfolding that(2) by auto
    then show ?thesis using that by (intro move [where pc = pc]) auto
  qed
  from step show ?thesis
  proof (cases rule: server_step_cases)
    case (gone packet)
    then show ?thesis by (intro plain [where pc = Away]) (simp_all add: up_def)
  next
    case (found packet w bytes)
    have "up s' \<subseteq> up s" by (rule up_loop(1) [OF found(2), of _ "goto t (At_check bytes) w"]) (simp_all add: found(3))
    then show ?thesis using found by (intro plain [where pc = "In_connection (op_connectionId packet)"]) simp_all
  next
    case (inside i w w' pc)
    note down = thread_step_down [OF inside(3)] and ups = up_loop [OF inside(2), of s' w']
    have up: "up s' \<subseteq> up s" by (rule ups(1)) (use down in \<open>simp_all add: inside(5)\<close>)
    have removed: "i \<notin> up s'" if "wl_threads w ! t = Write_failed" using ups(2) down that by (auto simp: inside(5))
    have fields: "sx_threads s' = (sx_threads s)[t := pc]" "sx_connections s' = sx_connections s" "sx_locked s' = sx_locked s"
      "sx_stopped s' = sx_stopped s"
      unfolding inside(5) by simp_all
    show ?thesis by (rule plain [OF fields(1) up fields(2-4)]) (use inside(1,4) removed in auto)
  next
    case (writer i)
    then show ?thesis by (intro off [of i "In_connection i"]) simp_all
  next
    case (remove i)
    then show ?thesis by (intro off [of i Away]) simp_all
  next
    case (add i)
    have zero: "t = 0" using server_inv_facts(3) [OF inv t(1)] add(1) by (simp add: role_ok_def)
    have "up s' \<subseteq> set (sx_connections s') \<union> adding (sx_threads s' ! 0)" using facts(1) add zero by auto
    then show ?thesis using add zero by (intro move [where pc = "Start_reading i True"]) simp_all
  next
    case (read i b)
    then show ?thesis by (intro plain [where pc = "if b then Accept_again else Away"]) (simp_all add: up_def)
  next
    case accept
    then show ?thesis by (intro plain [where pc = Away]) (simp_all add: up_def)
  next
    case (delivered i)
    then show ?thesis by (intro plain [where pc = "Start_reading i False"]) (simp_all add: up_def)
  next
    case (deliver i p ps)
    then show ?thesis by (intro plain [where pc = "Delivering i ps"]) (simp_all add: up_def)
  next
    case (failed i w)
    then show ?thesis using up_disconnect [OF failed(2), of t "Removing i"] by (intro plain [where pc = "Removing i"]) auto
  next
    case test
    then show ?thesis by (intro plain [where pc = "if sx_running s then Stop_clearing else Away"]) (simp_all add: up_def)
  next
    case clear
    then show ?thesis by (intro plain [where pc = Stop_closing]) (simp_all add: up_def)
  next
    case close
    then show ?thesis by (intro plain [where pc = Stop_io]) (simp_all add: up_def)
  next
    case stop
    show ?thesis using listed [of Stop_join] stop by (intro move [where pc = Stop_join]) simp_all
  next
    case join
    have "t \<noteq> 0" using join by (cases "t = 0") simp_all
    then show ?thesis using listed [of Stop_lock] join by (intro move [where pc = Stop_lock]) simp_all
  next
    case lock
    show ?thesis
      using listed [of "Stop_disconnecting (sx_connections s)"] lock idle
      by (intro move [where pc = "Stop_disconnecting (sx_connections s)"]) simp_all
  next
    case unlock
    have none: "up s = {}" using facts(4) [OF unlock(1)] facts(1) unlock(1) idle by auto
    have "up s' = {}" using none by (simp add: up_def unlock(2))
    then show ?thesis using unlock idle none by (intro move [where pc = Stop_draining]) (simp_all, simp_all add: swept_def)
  next
    case (disconnect i js w)
    have up: "up s' \<subseteq> up s - {i}" unfolding disconnect(3) by (rule up_disconnect [OF disconnect(2)])
    moreover have "set (sx_connections s) \<inter> up s \<subseteq> insert i (set js)" using facts(4) [OF disconnect(1)] by simp
    ultimately have "set (sx_connections s) \<inter> up s' \<subseteq> set js" "up s' \<subseteq> up s"
      "up s' \<subseteq> set (sx_connections s) \<union> adding ((sx_threads s)[t := Stop_disconnecting js] ! 0)"
      using listed [of "Stop_disconnecting js"] disconnect(1) by auto
    then show ?thesis using disconnect idle facts(3) by (intro move [where pc = "Stop_disconnecting js"]) simp_all
  next
    case drained
    then show ?thesis by (intro plain [where pc = Away]) (simp_all add: up_def)
  next
    case (drain p ps)
    then show ?thesis
      using list_update_id [of "sx_threads s" t] by (intro plain [where pc = Stop_draining]) (simp_all add: up_def)
  qed
qed

lemma sweep_away:
  assumes sw: "sweep_inv n s" and inv: "server_inv n s" and t: "t < n" and pcs: "sx_threads s' = (sx_threads s)[t := pc]"
    and away: "sx_threads s ! t = Away" "t = 0 \<longrightarrow> \<not> sx_stopped s" and up: "up s' \<subseteq> up s"
    and same: "sx_connections s' = sx_connections s" "sx_locked s' = sx_locked s" "sx_stopped s' = sx_stopped s"
    and pc: "removing pc = {}" "\<not> holds_mutex pc" "\<not> joined pc" "adding pc = {}"
  shows "sweep_inv n s'"
proof -
  have "up s' \<subseteq> set (sx_connections s') \<union> adding (sx_threads s' ! 0)"
    using sweep_facts(1) [OF sw t] up away(1) t inv unfolding pcs same by (cases "t = 0") (auto simp: server_inv_def)
  then show ?thesis
    using away pc same by (intro sweep_move [OF sw inv t pcs up]) auto
qed

lemma accept_sweep:
  assumes sw: "sweep_inv n s" and inv: "server_inv n s" and n: "0 < n" and away: "sx_threads s ! 0 = Away" "\<not> sx_stopped s"
    and room: "Suc (sx_made s) < 2 ^ 64"
    and s': "s' = moves 0 (Adding (sx_nextId s)) (set_loop (sx_nextId s) (write_loop_new (sx_nextId s) n)
      (s\<lparr>sx_accepting := False, sx_nextId := sx_nextId s + 1, sx_made := Suc (sx_made s)\<rparr>))"
  shows "sweep_inv n s'"
proof -
  let ?i = "sx_nextId s"
  have fresh: "?i \<notin> dom (sx_loops s)" using nextId_fresh [OF inv room] by blast
  have len: "length (sx_threads s) = n" using inv by (simp add: server_inv_def)
  have at: "sx_threads s' ! u = (if u = 0 then Adding ?i else sx_threads s ! u)" if "u < n" for u
    using len that unfolding s' by (simp add: nth_list_update)
  have up: "up s' \<subseteq> insert ?i (up s)" unfolding s' by (auto simp: up_def)
  have same: "sx_connections s' = sx_connections s" "sx_locked s' = sx_locked s" "sx_stopped s' = sx_stopped s" unfolding s' by simp_all
  have still: "\<not> joined (sx_threads s ! u)" if "u < n" for u using joined_stopped [OF inv that] away(2) by blast
  have no: "?i \<notin> removing (sx_threads s ! u)" if "u < n" for u
    using server_inv_facts(2) [OF inv that] fresh by (cases "sx_threads s ! u") auto
  have "up s' \<subseteq> set (sx_connections s') \<union> adding (sx_threads s' ! 0)"
    using up sweep_facts(1) [OF sw n] away(1) at [OF n] unfolding same by auto
  moreover have "removing (sx_threads s' ! u) \<inter> up s' = {}" if "u < n" for u
    using at [OF that] up no [OF that] sweep_facts(2) [OF sw that] by auto
  moreover have "sx_locked s' \<and> (\<forall>v < n. holds_mutex (sx_threads s' ! v) \<longrightarrow> v = u)"
    if u: "u < n" "holds_mutex (sx_threads s' ! u)" for u
    using u at still [OF u(1)] by (cases "sx_threads s ! u") (auto split: if_splits)
  moreover have "sx_threads s' ! u \<noteq> Stop_disconnecting js" "\<not> joined (sx_threads s' ! u)" if "u < n" for u js
    using at [OF that] still [OF that] by (auto split: if_splits)
  ultimately show ?thesis unfolding sweep_inv_def using away(2) same by auto
qed

lemma io_step_sweep:
  assumes sw: "sweep_inv n s" and inv: "server_inv n s" and step: "io_step e s = Some s'" and room: "sx_made s' < 2 ^ 64 - 1"
  shows "sweep_inv n s'"
proof -
  have len: "length (sx_threads s) = n" using inv by (simp add: server_inv_def)
  have n: "0 < n" and away: "sx_threads s ! 0 = Away" "\<not> sx_stopped s" using io_step_thread [OF step] len by simp_all
  note plain = sweep_away [OF sw inv n]
  from step show ?thesis
  proof (cases rule: io_step_cases)
    case aborted
    then show ?thesis using away list_update_id [of "sx_threads s" 0] by (intro plain [where pc = Away]) (simp_all add: up_def)
  next
    case refused
    then show ?thesis using away by (intro plain [where pc = Accept_again]) (simp_all add: up_def)
  next
    case accepted
    have "Suc (sx_made s) < 2 ^ 64" using room by (simp add: accepted)
    from accept_sweep [OF sw inv n away this] accepted len show ?thesis by simp
  next
    case (failed i)
    then show ?thesis using away by (intro plain [where pc = "Read_failed i"]) (simp_all add: up_def)
  next
    case (bytes i chunk buf ps)
    then show ?thesis using away by (intro plain [where pc = "Delivering i ps"]) (simp_all add: up_def)
  next
    case (written i ok w)
    let ?w' = "goto 0 (if ok then Write_done else Write_failed) (w\<lparr>wl_inflight := tl (wl_inflight w)\<rparr>)"
    have "up s' \<subseteq> up s" by (rule up_loop(1) [OF written(2), of _ ?w']) (simp_all add: written(4))
    then show ?thesis using away written by (intro plain [where pc = "In_connection i"]) simp_all
  qed
qed

lemma call_step_sweep:
  assumes sw: "sweep_inv n s" and inv: "server_inv n s" and step: "call_step t c s = Some s'"
  shows "sweep_inv n s'"
proof -
  have len: "length (sx_threads s) = n" using inv by (simp add: server_inv_def)
  have t: "t < n" "t \<noteq> 0" "sx_threads s ! t = Away" using step len by (auto simp: call_step_def split: if_splits)
  let ?pc = "case c of Send_call packet \<Rightarrow> Looking_up packet | Poll_call \<Rightarrow> Away | Stop_call \<Rightarrow> Stop_testing"
  have s': "sx_threads s' = (sx_threads s)[t := ?pc]" "sx_loops s' = sx_loops s" "sx_connections s' = sx_connections s"
    "sx_locked s' = sx_locked s" "sx_stopped s' = sx_stopped s"
    using step t len list_update_id [of "sx_threads s" t] by (auto simp: call_step_def split: server_call.splits)
  have "up s' = up s" by (rule up_same) (simp add: s')
  then show ?thesis using t s' by (intro sweep_away [OF sw inv t(1) s'(1)]) (simp_all split: server_call.split)
qed

lemma server_reachable_sweep: "server_reachable n s \<Longrightarrow> sx_made s < 2 ^ 64 - 1 \<Longrightarrow> sweep_inv n s"
proof (induction rule: server_reachable.induct)
  case start
  then show ?case by (simp add: sweep_inv_new)
next
  case (step s l s')
  have "sx_made s \<le> sx_made s'"
    using step.hyps(2) by (cases l) (auto dest: server_step_made call_step_made io_step_made)
  then have "sweep_inv n s" "server_inv n s" using step server_reachable_inv by simp_all
  then show ?case
    using step.hyps(2) step.prems by (cases l) (auto intro: server_step_sweep io_step_sweep call_step_sweep)
qed

section \<open>The server comes to rest\<close>

lemma rest_threads:
  assumes inv: "server_inv n s" and sw: "sweep_inv n s" and n: "0 < n" and rest: "\<nexists>s'. server_own s s'" and t: "t < n"
  shows "sx_threads s ! t = Away"
proof -
  have stuck: "server_step u s = None" for u using rest server_own.thread by (metis not_None_eq)
  have free: "\<not> sx_locked s"
  proof
    assume "sx_locked s"
    then obtain u where u: "u < n" "holds_mutex (sx_threads s ! u)" using inv by (auto simp: server_inv_def)
    then show False
      using server_progress [OF inv u(1)] stuck [of u] by (cases "sx_threads s ! u") auto
  qed
  have at: "sx_threads s ! u = Away \<or> sx_threads s ! u = Stop_join \<and> sx_threads s ! 0 \<noteq> Away" if "u < n" for u
    using server_progress [OF inv that] stuck [of u] free by blast
  have "sx_threads s ! 0 \<noteq> Stop_join" using server_inv_facts(3) [OF inv n] by (auto simp: role_ok_def)
  then have "sx_threads s ! 0 = Away" using at [OF n] by blast
  then show ?thesis using at [OF t] by blast
qed

lemma rest_loop:
  assumes inv: "server_inv n s" and n: "0 < n" and rest: "\<nexists>s'. server_own s s'" and w: "sx_loops s i = Some w"
    and away: "\<forall>t < n. sx_threads s ! t = Away" and running: "\<not> sx_stopped s"
  shows "wl_inflight w = [] \<and> (cn_connected (wl_conn w) \<longrightarrow> wl_written w = wl_accepted w \<and> cn_sendQueue (wl_conn w) = [])"
proof -
  have reach: "net_reachable (write_loop_new i n) w" and len: "length (wl_threads w) = n" "length (sx_threads s) = n"
    and out: "\<forall>t < n. wl_threads w ! t = Outside"
    using inv w away by (auto simp: server_inv_def loop_ok_def)
  have quiet: "wl_inflight w = []"
  proof (rule ccontr)
    assume "wl_inflight w \<noteq> []"
    then have "io_step (Write_end i True) s \<noteq> None" using w away n len running by (auto simp: io_step_def)
    then show False using rest server_own.write_end by blast
  qed
  have "\<nexists>w'. loop_step w w'"
  proof
    assume "\<exists>w'. loop_step w w'"
    then obtain w' where "loop_step w w'" by blast
    then show False
    proof cases
      case (own t)
      then show ?thesis using thread_step_threads [OF own] out len(1) by auto
    next
      case (completed t ps p qs ok)
      then show ?thesis using quiet by simp
    qed
  qed
  with write_loop_comes_to_rest [OF reach n] quiet show ?thesis by blast
qed

text \<open>C13. Without a new call, a new connection or new bytes no schedule of the server goes on for ever: no thread waits
  for ever, for the mutex or in \<open>join\<close>. When nothing is left to do, every thread has returned; on every connection that is
  up each accepted packet was written and completed; and after a \<open>Stop\<close> the map is empty and no connection is up.\<close>

theorem server_comes_to_rest:
  assumes "server_reachable n s" and "sx_made s < 2 ^ 64 - 1" and "0 < n"
  shows "(\<nexists>f. f 0 = s \<and> (\<forall>k. server_own (f k) (f (Suc k)))) \<and>
    ((\<nexists>s'. server_own s s') \<longrightarrow> (\<forall>t < n. sx_threads s ! t = Away) \<and>
      (if sx_stopped s then sx_connections s = [] \<and> up s = {}
       else \<forall>i w. sx_loops s i = Some w \<longrightarrow> wl_inflight w = [] \<and>
         (cn_connected (wl_conn w) \<longrightarrow> wl_written w = wl_accepted w \<and> cn_sendQueue (wl_conn w) = [])))"
proof (intro conjI notI impI)
  assume "\<exists>f. f 0 = s \<and> (\<forall>k. server_own (f k) (f (Suc k)))"
  then obtain f where f: "f 0 = s" "\<And>k. server_own (f k) (f (Suc k))" by blast
  have "server_reachable n (f k) \<and> sx_made (f k) = sx_made s" for k
    by (induction k) (use f assms(1) server_own_reachable server_own_made in \<open>auto, metis\<close>)
  then have "server_inv n (f k)" for k using server_reachable_inv assms(2) by metis
  then have "(f (Suc k), f k) \<in> measures [stops_left, deliveries_left, steps_left]" for k
    using server_own_decreases f(2) by blast
  then show False using wf_measures [of "[stops_left, deliveries_left, steps_left]"] unfolding wf_iff_no_infinite_down_chain by blast
next
  assume rest: "\<nexists>s'. server_own s s'"
  have inv: "server_inv n s" "sweep_inv n s" using server_reachable_inv server_reachable_sweep assms by blast+
  show away: "\<forall>t < n. sx_threads s ! t = Away" using rest_threads [OF inv assms(3) rest] by blast
  show "if sx_stopped s then sx_connections s = [] \<and> up s = {}
    else \<forall>i w. sx_loops s i = Some w \<longrightarrow> wl_inflight w = [] \<and>
      (cn_connected (wl_conn w) \<longrightarrow> wl_written w = wl_accepted w \<and> cn_sendQueue (wl_conn w) = [])"
  proof (cases "sx_stopped s")
    case True
    then have "(\<exists>t < n. sweeping (sx_threads s ! t)) \<or> swept s" using inv(2) unfolding sweep_inv_def by blast
    then show ?thesis using True away by (auto simp: swept_def)
  next
    case False
    then show ?thesis using rest_loop [OF inv(1) assms(3) rest _ away] by simp
  qed
qed

text \<open>Thread 1 sends a packet, whose write ends; then thread 2 stops the server.\<close>

definition answer_once :: "server_label list" where
  "answer_once = accept_one @ [Call 1 (Send_call hello), Thread 1, Thread 1, Thread 1, Thread 1, Thread 1, Thread 1,
     Io (Write_end 1 True), Thread 0, Thread 0, Thread 0, Thread 0, Thread 0]"

definition then_stop :: "server_label list" where
  "then_stop = [Call 2 Stop_call, Thread 2, Thread 2, Thread 2, Thread 2, Thread 2, Thread 2, Thread 2, Thread 2, Thread 2]"

lemma answer_once_run:
  "\<exists>s w. run_labels answer_once (server_race_new 3) = Some s \<and> sx_made s = 1 \<and> \<not> sx_stopped s \<and> sx_threads s = [Away, Away, Away] \<and>
    sx_loops s = [1 \<mapsto> w] \<and> wl_inflight w = [] \<and> cn_connected (wl_conn w) \<and> wl_accepted w = [packet_bytes 7 [1, 2]]"
  by (simp add: answer_once_def accept_one_def run_defs hello_def three_threads Let_def) (rule exI, rule conjI, rule refl, simp)

lemma then_stop_run:
  "\<exists>s. run_labels (answer_once @ then_stop) (server_race_new 3) = Some s \<and> sx_made s = 1 \<and> sx_stopped s \<and> sx_threads s = [Away, Away, Away]"
  by (simp add: answer_once_def then_stop_def accept_one_def run_defs hello_def three_threads Let_def)

lemma all_away_rest:
  assumes "sx_threads s = [Away, Away, Away]" and "\<And>i w. sx_loops s i = Some w \<Longrightarrow> \<not> sx_stopped s \<Longrightarrow> wl_inflight w = []"
  shows "\<nexists>s'. server_own s s'"
proof
  assume "\<exists>s'. server_own s s'"
  then obtain s' where "server_own s s'" by blast
  then show False
  proof cases
    case (thread t)
    then have "t < 3" "sx_threads s ! t \<noteq> Away" using assms(1) by (auto simp: server_step_def split: if_splits)
    then show ?thesis using assms(1) by (auto simp: numeral_3_eq_3 less_Suc_eq)
  next
    case (write_end i ok)
    then show ?thesis using assms by (auto simp: io_step_def split: if_splits option.splits)
  qed
qed

theorem server_comes_to_rest_witness:
  "(\<exists>s w. run_labels answer_once (server_race_new 3) = Some s \<and> sx_loops s = [1 \<mapsto> w] \<and> wl_written w = [packet_bytes 7 [1, 2]]) \<and>
   (\<exists>s. run_labels (answer_once @ then_stop) (server_race_new 3) = Some s \<and> sx_connections s = [] \<and> up s = {})"
proof (rule conjI)
  obtain s w where s: "run_labels answer_once (server_race_new 3) = Some s" "sx_made s = 1" "\<not> sx_stopped s"
    "sx_threads s = [Away, Away, Away]" "sx_loops s = [1 \<mapsto> w]" "wl_inflight w = []" "cn_connected (wl_conn w)"
    "wl_accepted w = [packet_bytes 7 [1, 2]]"
    using answer_once_run by blast
  have reach: "server_reachable 3 s" by (rule run_labels_reachable [OF s(1) server_reachable.start])
  have rest: "\<nexists>s'. server_own s s'" by (rule all_away_rest [OF s(4)]) (use s(5,6) in \<open>auto split: if_splits\<close>)
  have "wl_written w = wl_accepted w" using server_comes_to_rest [OF reach] rest s by auto
  then show "\<exists>s w. run_labels answer_once (server_race_new 3) = Some s \<and> sx_loops s = [1 \<mapsto> w] \<and> wl_written w = [packet_bytes 7 [1, 2]]"
    using s by auto
next
  obtain s where s: "run_labels (answer_once @ then_stop) (server_race_new 3) = Some s" "sx_made s = 1" "sx_stopped s"
    "sx_threads s = [Away, Away, Away]"
    using then_stop_run by blast
  have reach: "server_reachable 3 s" by (rule run_labels_reachable [OF s(1) server_reachable.start])
  have rest: "\<nexists>s'. server_own s s'" by (rule all_away_rest [OF s(4)]) (use s(3) in simp)
  have "sx_connections s = [] \<and> up s = {}" using server_comes_to_rest [OF reach] rest s by simp
  then show "\<exists>s. run_labels (answer_once @ then_stop) (server_race_new 3) = Some s \<and> sx_connections s = [] \<and> up s = {}"
    using s(1) by blast
qed

section \<open>What the threads share without a lock\<close>















end
