(* ===== verification/Ring_Machine.thy ===== *)
theory Ring_Machine
  imports Ring_Queue
begin

text \<open>
  The ring of Vyukov's queue with its threads interleaved, over unbounded positions. A position is
  claimed by a producer, written, published, claimed by a consumer, read and released; theory
  Ring_Concurrent shows that the code's 64-bit counters follow this machine. The phase of a
  position, the items in the order in which their positions were claimed and the pairs handed to
  the callers are history: no step reads them.
\<close>

section \<open>The machine\<close>

text \<open>
  Where a thread is: outside; in \<open>Enqueue\<close> at the load of the tail, at the load of a slot's sequence, at
  the compare-and-swap, at the write of the item, at the release of the slot; and so in \<open>Dequeue\<close>, whose
  last place only the queue with a single consumer has.
\<close>

datatype ('p, 'a) ring_pc =
    Away
  | Enq_load 'a
  | Enq_seq 'a 'p
  | Enq_cas 'a 'p
  | Enq_store 'a 'p
  | Enq_publish 'p
  | Deq_load
  | Deq_seq 'p
  | Deq_cas 'p
  | Deq_read 'p
  | Deq_publish 'p 'a
  | Deq_advance 'p

datatype phase = Free | Writing nat | Full | Reading nat | Done

record 'a nat_ring =
  nr_seq :: "nat \<Rightarrow> nat"
  nr_store :: "nat \<Rightarrow> 'a"
  nr_head :: nat
  nr_tail :: nat
  nr_thread :: "nat \<Rightarrow> (nat, 'a) ring_pc"
  nr_accepted :: "'a list"
  nr_delivered :: "(nat \<times> 'a) list"
  nr_phase :: "nat \<Rightarrow> phase"

definition nr_goto :: "nat \<Rightarrow> (nat, 'a) ring_pc \<Rightarrow> 'a nat_ring \<Rightarrow> 'a nat_ring" where
  "nr_goto t pc s = s\<lparr>nr_thread := (nr_thread s)(t := pc)\<rparr>"

text \<open>A step of thread \<open>t\<close>; \<open>weak\<close> makes a compare-and-swap fail although the values agree.\<close>

definition nat_step :: "nat \<Rightarrow> bool \<Rightarrow> nat \<Rightarrow> 'a nat_ring \<Rightarrow> 'a nat_ring option" where
  "nat_step c weak t s =
     (case nr_thread s t of
        Away \<Rightarrow> None
      | Enq_load x \<Rightarrow> Some (nr_goto t (Enq_seq x (nr_tail s)) s)
      | Enq_seq x p \<Rightarrow>
          Some (nr_goto t (if nr_seq s (p mod c) = p then Enq_cas x p else if nr_seq s (p mod c) < p then Away else Enq_load x) s)
      | Enq_cas x p \<Rightarrow>
          Some (if nr_tail s = p \<and> \<not> weak
            then nr_goto t (Enq_store x p)
              (s\<lparr>nr_tail := p + 1, nr_accepted := nr_accepted s @ [x], nr_phase := (nr_phase s)(p := Writing t)\<rparr>)
            else nr_goto t (Enq_seq x (nr_tail s)) s)
      | Enq_store x p \<Rightarrow> Some (nr_goto t (Enq_publish p) (s\<lparr>nr_store := (nr_store s)(p mod c := x)\<rparr>))
      | Enq_publish p \<Rightarrow>
          Some (nr_goto t Away (s\<lparr>nr_seq := (nr_seq s)(p mod c := p + 1), nr_phase := (nr_phase s)(p := Full)\<rparr>))
      | Deq_load \<Rightarrow> Some (nr_goto t (Deq_seq (nr_head s)) s)
      | Deq_seq p \<Rightarrow>
          Some (nr_goto t (if nr_seq s (p mod c) = p + 1 then Deq_cas p else if nr_seq s (p mod c) < p + 1 then Away else Deq_load) s)
      | Deq_cas p \<Rightarrow>
          Some (if nr_head s = p \<and> \<not> weak
            then nr_goto t (Deq_read p) (s\<lparr>nr_head := p + 1, nr_phase := (nr_phase s)(p := Reading t)\<rparr>)
            else nr_goto t (Deq_seq (nr_head s)) s)
      | Deq_read p \<Rightarrow> Some (nr_goto t (Deq_publish p (nr_store s (p mod c))) s)
      | Deq_publish p x \<Rightarrow>
          Some (nr_goto t Away (s\<lparr>nr_seq := (nr_seq s)(p mod c := p + c), nr_phase := (nr_phase s)(p := Done),
            nr_delivered := nr_delivered s @ [(p, x)]\<rparr>))
      | Deq_advance p \<Rightarrow> None)"

lemma nr_goto_simps [simp]:
  "nr_seq (nr_goto t pc s) = nr_seq s" "nr_store (nr_goto t pc s) = nr_store s" "nr_head (nr_goto t pc s) = nr_head s"
  "nr_tail (nr_goto t pc s) = nr_tail s" "nr_thread (nr_goto t pc s) = (nr_thread s)(t := pc)"
  "nr_accepted (nr_goto t pc s) = nr_accepted s" "nr_delivered (nr_goto t pc s) = nr_delivered s"
  "nr_phase (nr_goto t pc s) = nr_phase s"
  by (simp_all add: nr_goto_def)

section \<open>The invariant\<close>

text \<open>\<open>b\<close> is the position of the first item. The sequence number of a position's slot, by its phase.\<close>

fun phase_seq :: "nat \<Rightarrow> nat \<Rightarrow> phase \<Rightarrow> nat" where
  "phase_seq c p Free = p"
| "phase_seq c p (Writing t) = p"
| "phase_seq c p Full = p + 1"
| "phase_seq c p (Reading t) = p + 1"
| "phase_seq c p Done = p + c"

definition item_at :: "nat \<Rightarrow> 'a nat_ring \<Rightarrow> nat \<Rightarrow> 'a" where
  "item_at b s p = nr_accepted s ! (p - b)"

text \<open>What a thread relies on.\<close>

fun thread_ok :: "nat \<Rightarrow> nat \<Rightarrow> 'a nat_ring \<Rightarrow> nat \<Rightarrow> (nat, 'a) ring_pc \<Rightarrow> bool" where
  "thread_ok c b s t (Enq_seq x p) \<longleftrightarrow> b \<le> p \<and> p \<le> nr_tail s"
| "thread_ok c b s t (Enq_cas x p) \<longleftrightarrow> b \<le> p \<and> (p < nr_tail s \<or> p = nr_tail s \<and> nr_seq s (p mod c) = p)"
| "thread_ok c b s t (Enq_store x p) \<longleftrightarrow> b \<le> p \<and> nr_phase s p = Writing t \<and> item_at b s p = x"
| "thread_ok c b s t (Enq_publish p) \<longleftrightarrow> b \<le> p \<and> nr_phase s p = Writing t \<and> nr_store s (p mod c) = item_at b s p"
| "thread_ok c b s t (Deq_seq p) \<longleftrightarrow> b \<le> p \<and> p \<le> nr_head s"
| "thread_ok c b s t (Deq_cas p) \<longleftrightarrow> b \<le> p \<and> (p < nr_head s \<or> p = nr_head s \<and> nr_seq s (p mod c) = p + 1)"
| "thread_ok c b s t (Deq_read p) \<longleftrightarrow> b \<le> p \<and> nr_phase s p = Reading t"
| "thread_ok c b s t (Deq_publish p x) \<longleftrightarrow> b \<le> p \<and> nr_phase s p = Reading t \<and> x = item_at b s p"
| "thread_ok c b s t (Deq_advance p) \<longleftrightarrow> False"
| "thread_ok c b s t _ \<longleftrightarrow> True"

fun claims_write :: "nat \<Rightarrow> (nat, 'a) ring_pc \<Rightarrow> bool" where
  "claims_write p (Enq_store x q) \<longleftrightarrow> q = p"
| "claims_write p (Enq_publish q) \<longleftrightarrow> q = p"
| "claims_write p _ \<longleftrightarrow> False"

fun claims_read :: "nat \<Rightarrow> (nat, 'a) ring_pc \<Rightarrow> bool" where
  "claims_read p (Deq_read q) \<longleftrightarrow> q = p"
| "claims_read p (Deq_publish q x) \<longleftrightarrow> q = p"
| "claims_read p _ \<longleftrightarrow> False"

text \<open>The counters and the phases of the positions; the slots; the items handed out.\<close>

definition phases_ok :: "nat \<Rightarrow> nat \<Rightarrow> 'a nat_ring \<Rightarrow> bool" where
  "phases_ok c b s \<longleftrightarrow> 2 \<le> c \<and> b \<le> nr_head s \<and> nr_head s \<le> nr_tail s \<and> nr_tail s \<le> nr_head s + c \<and>
     nr_tail s = b + length (nr_accepted s) \<and>
     (\<forall>p \<ge> nr_tail s. nr_phase s p = Free) \<and>
     (\<forall>p. nr_head s \<le> p \<and> p < nr_tail s \<longrightarrow> nr_phase s p = Full \<or> (\<exists>t. nr_phase s p = Writing t)) \<and>
     (\<forall>p. b \<le> p \<and> p < nr_head s \<longrightarrow> nr_phase s p = Done \<or> (\<exists>t. nr_phase s p = Reading t)) \<and>
     (\<forall>p. b \<le> p \<and> p + c < nr_tail s \<longrightarrow> nr_phase s p = Done)"

definition slots_ok :: "nat \<Rightarrow> nat \<Rightarrow> 'a nat_ring \<Rightarrow> bool" where
  "slots_ok c b s \<longleftrightarrow>
     (\<forall>p. b \<le> p \<and> p < nr_tail s \<and> nr_tail s \<le> p + c \<longrightarrow> nr_seq s (p mod c) = phase_seq c p (nr_phase s p)) \<and>
     (\<forall>p. nr_tail s \<le> p \<and> p < b + c \<longrightarrow> nr_seq s (p mod c) = p) \<and>
     (\<forall>p. b \<le> p \<and> (nr_phase s p = Full \<or> (\<exists>t. nr_phase s p = Reading t)) \<longrightarrow> nr_store s (p mod c) = item_at b s p)"

definition threads_ok :: "nat \<Rightarrow> nat \<Rightarrow> 'a nat_ring \<Rightarrow> bool" where
  "threads_ok c b s \<longleftrightarrow> (\<forall>t. thread_ok c b s t (nr_thread s t)) \<and>
     (\<forall>p t. b \<le> p \<and> nr_phase s p = Writing t \<longrightarrow> claims_write p (nr_thread s t)) \<and>
     (\<forall>p t. b \<le> p \<and> nr_phase s p = Reading t \<longrightarrow> claims_read p (nr_thread s t))"

definition delivered_ok :: "nat \<Rightarrow> 'a nat_ring \<Rightarrow> bool" where
  "delivered_ok b s \<longleftrightarrow> distinct (map fst (nr_delivered s)) \<and>
     (\<forall>(p, x) \<in> set (nr_delivered s). b \<le> p \<and> nr_phase s p = Done \<and> x = item_at b s p) \<and>
     (\<forall>p. b \<le> p \<and> nr_phase s p = Done \<longrightarrow> p \<in> fst ` set (nr_delivered s))"

definition nat_ring_ok :: "nat \<Rightarrow> nat \<Rightarrow> 'a nat_ring \<Rightarrow> bool" where
  "nat_ring_ok c b s \<longleftrightarrow> phases_ok c b s \<and> slots_ok c b s \<and> threads_ok c b s \<and> delivered_ok b s"

section \<open>Positions and slots\<close>

lemma window_eq:
  assumes "p mod c = q mod (c :: nat)" and "p \<le> q" and "q < p + c"
  shows "p = q"
proof -
  have "c dvd q - p" using assms(1,2) mod_eq_dvd_iff_nat [of p q c] by simp
  then show ?thesis using assms(2,3) dvd_imp_le [of c "q - p"] by (cases "p = q") auto
qed

definition live :: "phase \<Rightarrow> bool" where
  "live ph \<longleftrightarrow> ph = Full \<or> (\<exists>t. ph = Writing t) \<or> (\<exists>t. ph = Reading t)"

lemma live_simps [simp]: "live Full" "live (Writing t)" "live (Reading t)" "\<not> live Free" "\<not> live Done"
  by (simp_all add: live_def)

lemma phases_facts:
  assumes "phases_ok c b s" and "b \<le> p"
  shows "nr_phase s p = Writing t \<Longrightarrow> nr_head s \<le> p \<and> p < nr_tail s"
    and "nr_phase s p = Full \<Longrightarrow> nr_head s \<le> p \<and> p < nr_tail s"
    and "nr_phase s p = Reading t \<Longrightarrow> p < nr_head s"
    and "nr_phase s p = Done \<Longrightarrow> p < nr_head s"
    and "live (nr_phase s p) \<Longrightarrow> p < nr_tail s \<and> nr_tail s \<le> p + c"
proof -
  have F: "nr_tail s \<le> p \<Longrightarrow> nr_phase s p = Free"
      "nr_head s \<le> p \<Longrightarrow> p < nr_tail s \<Longrightarrow> nr_phase s p = Full \<or> (\<exists>t. nr_phase s p = Writing t)"
      "p < nr_head s \<Longrightarrow> nr_phase s p = Done \<or> (\<exists>t. nr_phase s p = Reading t)"
      "p + c < nr_tail s \<Longrightarrow> nr_phase s p = Done" "nr_head s \<le> nr_tail s"
    using assms by (auto simp: phases_ok_def)
  show "nr_phase s p = Writing t \<Longrightarrow> nr_head s \<le> p \<and> p < nr_tail s"
    and "nr_phase s p = Full \<Longrightarrow> nr_head s \<le> p \<and> p < nr_tail s"
    and "nr_phase s p = Reading t \<Longrightarrow> p < nr_head s"
    and "nr_phase s p = Done \<Longrightarrow> p < nr_head s"
    using F(1-3,5) by (metis not_less phase.distinct le_trans)+
  show "live (nr_phase s p) \<Longrightarrow> p < nr_tail s \<and> nr_tail s \<le> p + c"
    using F(1,4) by (metis not_less live_simps(4,5))
qed

lemma same_slot:
  assumes "phases_ok c b s" and "b \<le> p" and "b \<le> q" and "live (nr_phase s p)" and "live (nr_phase s q)"
    and "p mod c = q mod c"
  shows "p = q"
  using phases_facts(5) [OF assms(1,2,4)] phases_facts(5) [OF assms(1,3,5)] window_eq [OF assms(6)]
    window_eq [OF assms(6) [symmetric]] by (cases "p \<le> q") simp_all

text \<open>The slot at the tail is free, or its position one lap before has not been released.\<close>

lemma tail_slot:
  assumes "phases_ok c b s" and "slots_ok c b s"
  shows "nr_seq s (nr_tail s mod c) = nr_tail s \<and> (b + c \<le> nr_tail s \<longrightarrow> nr_phase s (nr_tail s - c) = Done)
    \<or> nr_seq s (nr_tail s mod c) < nr_tail s \<and> b + c \<le> nr_tail s \<and> live (nr_phase s (nr_tail s - c))"
proof (cases "nr_tail s < b + c")
  case True
  then show ?thesis using assms by (auto simp: phases_ok_def slots_ok_def)
next
  case False
  let ?p = "nr_tail s - c"
  have c: "2 \<le> c" using assms(1) by (simp add: phases_ok_def)
  have p: "b \<le> ?p" "?p < nr_tail s" "nr_tail s = ?p + c" using False c by simp_all
  have "nr_tail s mod c = ?p mod c" by (metis p(3) mod_add_self2)
  then have seq: "nr_seq s (nr_tail s mod c) = phase_seq c ?p (nr_phase s ?p)"
    using assms(2) p by (simp add: slots_ok_def)
  have "nr_phase s ?p \<noteq> Free"
  proof
    assume "nr_phase s ?p = Free"
    moreover have "nr_phase s ?p \<noteq> Free"
      using assms(1) p(1,2) by (cases "nr_head s \<le> ?p") (auto simp: phases_ok_def not_le)
    ultimately show False by simp
  qed
  then show ?thesis using seq p c by (cases "nr_phase s ?p") auto
qed

text \<open>The slot at the head holds a published item, or no item has been published there.\<close>

lemma head_slot:
  assumes "phases_ok c b s" and "slots_ok c b s"
  shows "nr_seq s (nr_head s mod c) = nr_head s + 1 \<and> nr_head s < nr_tail s \<and> nr_phase s (nr_head s) = Full
    \<or> nr_seq s (nr_head s mod c) \<le> nr_head s \<and> (nr_head s = nr_tail s \<or> (\<exists>t. nr_phase s (nr_head s) = Writing t))"
proof (cases "nr_head s < nr_tail s")
  case True
  have b: "b \<le> nr_head s" "nr_tail s \<le> nr_head s + c" using assms(1) by (simp_all add: phases_ok_def)
  then have "nr_seq s (nr_head s mod c) = phase_seq c (nr_head s) (nr_phase s (nr_head s))"
    using True assms(2) by (simp add: slots_ok_def)
  moreover have "nr_phase s (nr_head s) = Full \<or> (\<exists>t. nr_phase s (nr_head s) = Writing t)"
    using assms(1) True by (simp add: phases_ok_def)
  ultimately show ?thesis using True by auto
next
  case False
  then have "nr_head s = nr_tail s" using assms(1) by (simp add: phases_ok_def)
  then show ?thesis using tail_slot [OF assms] by auto
qed

section \<open>Steps keep the invariant\<close>

lemma thread_ok_cong:
  assumes "nr_seq s' = nr_seq s" "nr_store s' = nr_store s" "nr_head s' = nr_head s" "nr_tail s' = nr_tail s"
    "nr_accepted s' = nr_accepted s" "nr_phase s' = nr_phase s"
  shows "thread_ok c b s' t pc = thread_ok c b s t pc"
  using assms by (cases pc) (simp_all add: item_at_def)

lemma goto_ok:
  assumes "nat_ring_ok c b s" and "thread_ok c b s t pc"
    and "\<And>p. claims_write p (nr_thread s t) = claims_write p pc" and "\<And>p. claims_read p (nr_thread s t) = claims_read p pc"
  shows "nat_ring_ok c b (nr_goto t pc s)"
proof -
  have "threads_ok c b (nr_goto t pc s)"
    using assms(1,2) assms(3,4) [symmetric] thread_ok_cong [of "nr_goto t pc s" s]
    by (simp add: nat_ring_ok_def threads_ok_def)
  then show ?thesis
    using assms(1) by (simp add: nat_ring_ok_def phases_ok_def slots_ok_def delivered_ok_def item_at_def)
qed

lemma nat_ring_okI:
  assumes "phases_ok c b s" and "slots_ok c b s" and "delivered_ok b s"
    and "\<And>u. thread_ok c b s u (nr_thread s u)"
    and "\<And>p u. b \<le> p \<Longrightarrow> nr_phase s p = Writing u \<Longrightarrow> claims_write p (nr_thread s u)"
    and "\<And>p u. b \<le> p \<Longrightarrow> nr_phase s p = Reading u \<Longrightarrow> claims_read p (nr_thread s u)"
  shows "nat_ring_ok c b s"
  using assms by (simp add: nat_ring_ok_def threads_ok_def)

lemma nat_ring_okD:
  assumes "nat_ring_ok c b s"
  shows "phases_ok c b s" and "slots_ok c b s" and "delivered_ok b s" and "thread_ok c b s u (nr_thread s u)"
    and "b \<le> p \<Longrightarrow> nr_phase s p = Writing u \<Longrightarrow> claims_write p (nr_thread s u)"
    and "b \<le> p \<Longrightarrow> nr_phase s p = Reading u \<Longrightarrow> claims_read p (nr_thread s u)"
  using assms by (simp_all add: nat_ring_ok_def threads_ok_def)

lemma claim_write_ok:
  assumes ok: "nat_ring_ok c b s" and pc: "nr_thread s t = Enq_cas x (nr_tail s)"
  shows "nat_ring_ok c b (nr_goto t (Enq_store x (nr_tail s)) (s\<lparr>nr_tail := nr_tail s + 1,
    nr_accepted := nr_accepted s @ [x], nr_phase := (nr_phase s)(nr_tail s := Writing t)\<rparr>))" (is "nat_ring_ok c b ?s")
proof -
  note D = nat_ring_okD [OF ok]
  let ?T = "nr_tail s"
  have T: "nr_seq s (?T mod c) = ?T" "b \<le> ?T" using D(4) [of t] pc by simp_all
  have free: "b + c \<le> ?T \<Longrightarrow> nr_phase s (?T - c) = Done" using tail_slot [OF D(1,2)] T(1) by auto
  have P: "2 \<le> c" "b \<le> nr_head s" "nr_head s \<le> ?T" "?T \<le> nr_head s + c" "?T = b + length (nr_accepted s)"
    using D(1) by (simp_all add: phases_ok_def)
  have tail_free: "nr_phase s ?T = Free" using D(1) by (simp add: phases_ok_def)
  have past: "b \<le> p \<Longrightarrow> p + c < ?T \<Longrightarrow> nr_phase s p = Done" for p
    using D(1) unfolding phases_ok_def by blast
  have lapped: "nr_phase s p = Done" if "b \<le> p" "p + c \<le> ?T" for p
  proof (cases "p + c = ?T")
    case True
    then have "b + c \<le> ?T" "?T - c = p" using that(1) by simp_all
    then show ?thesis using free by simp
  qed (use that past in simp)
  have room: "?T < nr_head s + c"
  proof (cases "b + c \<le> ?T")
    case True
    then have "?T - c < nr_head s" using phases_facts(4) [OF D(1) _ free] by simp
    then show ?thesis using P(1) by linarith
  qed (use P(2) in simp)
  have item: "item_at b ?s p = item_at b s p" if "b \<le> p" "p < ?T" for p
    using that P(5) by (simp add: item_at_def nth_append less_diff_conv2)
  have item_T: "item_at b ?s ?T = x" using P(5) by (simp add: item_at_def)
  have "phases_ok c b ?s"
    unfolding phases_ok_def using P room lapped D(1) by (auto simp: phases_ok_def less_Suc_eq)
  moreover have "slots_ok c b ?s"
    unfolding slots_ok_def
  proof (intro conjI allI impI)
    fix p assume p: "b \<le> p \<and> p < nr_tail ?s \<and> nr_tail ?s \<le> p + c"
    then show "nr_seq ?s (p mod c) = phase_seq c p (nr_phase ?s p)"
      using D(2) T(1) by (cases "p = ?T") (auto simp: slots_ok_def)
  next
    fix p assume "nr_tail ?s \<le> p \<and> p < b + c"
    then show "nr_seq ?s (p mod c) = p" using D(2) by (simp add: slots_ok_def)
  next
    fix p assume p: "b \<le> p \<and> (nr_phase ?s p = Full \<or> (\<exists>u. nr_phase ?s p = Reading u))"
    then have "p \<noteq> ?T" "live (nr_phase s p)" by (auto simp: live_def split: if_splits)
    then show "nr_store ?s (p mod c) = item_at b ?s p"
      using p D(2) item phases_facts(5) [OF D(1), of p] by (auto simp: slots_ok_def)
  qed
  moreover have "delivered_ok b ?s"
    using D(3) item phases_facts(4) [OF D(1)] P(3) tail_free unfolding delivered_ok_def by (fastforce split: if_splits)
  moreover have "thread_ok c b ?s u (nr_thread ?s u)" for u
  proof (cases "u = t")
    case True
    then show ?thesis using T item_T by simp
  next
    case False
    have "thread_ok c b s u (nr_thread s u)" by (rule D(4))
    moreover have "b \<le> p \<Longrightarrow> live (nr_phase s p) \<Longrightarrow> p \<noteq> ?T \<and> item_at b ?s p = item_at b s p" for p
      using item phases_facts(5) [OF D(1), of p] by auto
    ultimately show ?thesis using False by (cases "nr_thread s u") auto
  qed
  moreover have "nr_phase s p \<noteq> Writing t" "nr_phase s p \<noteq> Reading t" if "b \<le> p" for p
    using D(5,6) [OF that, of t] pc by auto
  ultimately show ?thesis
    by (intro nat_ring_okI) (auto split: if_splits intro: D(5,6))
qed

text \<open>A slot that a thread writes or reads is neither free at the tail nor published at the head.\<close>

lemma busy_slot:
  assumes ph: "phases_ok c b s" and sl: "slots_ok c b s" and p: "b \<le> p"
    and busy: "nr_phase s p = Writing t \<or> nr_phase s p = Reading t"
  shows "nr_seq s (nr_tail s mod c) = nr_tail s \<Longrightarrow> nr_tail s mod c \<noteq> p mod c"
    and "nr_seq s (nr_head s mod c) = nr_head s + 1 \<Longrightarrow> nr_head s mod c \<noteq> p mod c"
proof -
  have c: "2 \<le> c" "b \<le> nr_head s" "nr_head s \<le> nr_tail s" using ph by (simp_all add: phases_ok_def)
  have lv: "live (nr_phase s p)" using busy by auto
  note w = phases_facts(5) [OF ph p lv]
  have seq: "nr_seq s (p mod c) = phase_seq c p (nr_phase s p)" using sl p w by (simp add: slots_ok_def)
  have "nr_tail s = p + c" if "nr_tail s mod c = p mod c"
  proof (rule ccontr)
    assume "nr_tail s \<noteq> p + c"
    then show False using window_eq [of p c "nr_tail s"] that w by simp
  qed
  moreover have "phase_seq c p (nr_phase s p) < p + c" using busy c(1) by auto
  ultimately show "nr_seq s (nr_tail s mod c) = nr_tail s \<Longrightarrow> nr_tail s mod c \<noteq> p mod c"
    using seq by (metis less_irrefl)
  show "nr_head s mod c \<noteq> p mod c" if h: "nr_seq s (nr_head s mod c) = nr_head s + 1"
  proof
    assume eq: "nr_head s mod c = p mod c"
    have full: "nr_phase s (nr_head s) = Full" using head_slot [OF ph sl] h by auto
    then have "nr_head s = p" using same_slot [OF ph c(2) p _ lv eq] by simp
    then show False using full busy by auto
  qed
qed

lemma store_ok:
  assumes ok: "nat_ring_ok c b s" and pc: "nr_thread s t = Enq_store x p"
  shows "nat_ring_ok c b (nr_goto t (Enq_publish p) (s\<lparr>nr_store := (nr_store s)(p mod c := x)\<rparr>))" (is "nat_ring_ok c b ?s")
proof -
  note D = nat_ring_okD [OF ok]
  have p: "b \<le> p" "nr_phase s p = Writing t" "item_at b s p = x" using D(4) [of t] pc by simp_all
  have other: "b \<le> q \<Longrightarrow> live (nr_phase s q) \<Longrightarrow> q \<noteq> p \<Longrightarrow> q mod c \<noteq> p mod c" for q
    using same_slot [OF D(1), of q p] p by auto
  have item: "item_at b ?s = item_at b s" by (rule ext) (simp add: item_at_def)
  have "phases_ok c b ?s" using D(1) by (simp add: phases_ok_def)
  moreover have "slots_ok c b ?s"
    unfolding slots_ok_def item
  proof (intro conjI allI impI)
    fix q assume q: "b \<le> q \<and> (nr_phase ?s q = Full \<or> (\<exists>u. nr_phase ?s q = Reading u))"
    then have "q mod c \<noteq> p mod c" using p(2) by (intro other) (auto simp: live_def)
    then show "nr_store ?s (q mod c) = item_at b s q" using q D(2) by (simp add: slots_ok_def)
  qed (use D(2) in \<open>simp_all add: slots_ok_def\<close>)
  moreover have "delivered_ok b ?s" using D(3) by (simp add: delivered_ok_def item)
  moreover have "thread_ok c b ?s u (nr_thread ?s u)" for u
  proof (cases "u = t")
    case True
    then show ?thesis using p by (simp add: item)
  next
    case False
    have "thread_ok c b s u (nr_thread s u)" by (rule D(4))
    moreover have "b \<le> q \<Longrightarrow> nr_phase s q = Writing u \<Longrightarrow> q mod c \<noteq> p mod c" for q
      using other [of q] p(2) False by force
    ultimately show ?thesis using False by (cases "nr_thread s u") (auto simp: item_at_def)
  qed
  ultimately show ?thesis
    using pc D(5,6) [where u = t] by (intro nat_ring_okI) (auto split: if_splits intro: D(5,6))
qed

lemma publish_ok:
  assumes ok: "nat_ring_ok c b s" and pc: "nr_thread s t = Enq_publish p"
  shows "nat_ring_ok c b (nr_goto t Away (s\<lparr>nr_seq := (nr_seq s)(p mod c := p + 1), nr_phase := (nr_phase s)(p := Full)\<rparr>))"
    (is "nat_ring_ok c b ?s")
proof -
  note D = nat_ring_okD [OF ok]
  have p: "b \<le> p" "nr_phase s p = Writing t" "nr_store s (p mod c) = item_at b s p" using D(4) [of t] pc by simp_all
  have w: "nr_head s \<le> p" "p < nr_tail s" "nr_tail s \<le> p + c"
    using phases_facts(1,5) [OF D(1) p(1)] p(2) by simp_all
  note busy = busy_slot [OF D(1,2) p(1) disjI1 [OF p(2)]]
  have item: "item_at b ?s = item_at b s" by (rule ext) (simp add: item_at_def)
  have "phases_ok c b ?s" using D(1) w by (auto simp: phases_ok_def)
  moreover have "slots_ok c b ?s"
    unfolding slots_ok_def item
  proof (intro conjI allI impI)
    fix q assume q: "b \<le> q \<and> q < nr_tail ?s \<and> nr_tail ?s \<le> q + c"
    have "q mod c = p mod c \<Longrightarrow> q = p"
      using window_eq [of q c p] window_eq [of p c q] q w by (cases "q \<le> p") auto
    then show "nr_seq ?s (q mod c) = phase_seq c q (nr_phase ?s q)" using q D(2) by (auto simp: slots_ok_def)
  next
    fix q assume q: "nr_tail ?s \<le> q \<and> q < b + c"
    then have "q mod c \<noteq> p mod c" using window_eq [of p c q] w p(1) by auto
    then show "nr_seq ?s (q mod c) = q" using q D(2) by (simp add: slots_ok_def)
  qed (use D(2) p(3) in \<open>auto simp: slots_ok_def split: if_splits\<close>)
  moreover have "delivered_ok b ?s" using D(3) p(2) unfolding delivered_ok_def item by (fastforce split: if_splits)
  moreover have "thread_ok c b ?s u (nr_thread ?s u)" for u
  proof (cases "u = t")
    case False
    have "thread_ok c b s u (nr_thread s u)" by (rule D(4))
    then show ?thesis using False p(2) busy by (cases "nr_thread s u") (auto simp: item_at_def)
  qed simp
  moreover have "nr_phase s q \<noteq> Writing t" if "b \<le> q" "q \<noteq> p" for q
    using D(5) [OF that(1), of t] pc that(2) by auto
  moreover have "nr_phase s q \<noteq> Reading t" if "b \<le> q" for q using D(6) [OF that, of t] pc by auto
  ultimately show ?thesis
    by (intro nat_ring_okI) (auto split: if_splits intro: D(5,6))
qed

lemma claim_read_ok:
  assumes ok: "nat_ring_ok c b s" and pc: "nr_thread s t = Deq_cas (nr_head s)"
  shows "nat_ring_ok c b (nr_goto t (Deq_read (nr_head s)) (s\<lparr>nr_head := nr_head s + 1,
    nr_phase := (nr_phase s)(nr_head s := Reading t)\<rparr>))" (is "nat_ring_ok c b ?s")
proof -
  note D = nat_ring_okD [OF ok]
  let ?H = "nr_head s"
  have H: "nr_seq s (?H mod c) = ?H + 1" "b \<le> ?H" using D(4) [of t] pc by simp_all
  then have full: "?H < nr_tail s" "nr_phase s ?H = Full" using head_slot [OF D(1,2)] by auto
  have item: "item_at b ?s = item_at b s" by (rule ext) (simp add: item_at_def)
  have past: "b \<le> p \<Longrightarrow> p + c < nr_tail s \<Longrightarrow> p \<noteq> ?H" for p using D(1) unfolding phases_ok_def by auto
  have "phases_ok c b ?s"
    unfolding phases_ok_def using D(1) full past by (auto simp: phases_ok_def less_Suc_eq)
  moreover have "slots_ok c b ?s"
    using D(2) full H unfolding slots_ok_def item by (auto split: if_splits)
  moreover have "delivered_ok b ?s" using D(3) full(2) unfolding delivered_ok_def item by (fastforce split: if_splits)
  moreover have "thread_ok c b ?s u (nr_thread ?s u)" for u
  proof (cases "u = t")
    case True
    then show ?thesis using H by simp
  next
    case False
    have "thread_ok c b s u (nr_thread s u)" by (rule D(4))
    then show ?thesis using False full(2) by (cases "nr_thread s u") (auto simp: item_at_def)
  qed
  moreover have "nr_phase s q \<noteq> Writing t" "nr_phase s q \<noteq> Reading t" if "b \<le> q" for q
    using D(5,6) [OF that, of t] pc by auto
  ultimately show ?thesis
    by (intro nat_ring_okI) (auto split: if_splits intro: D(5,6))
qed

lemma read_ok:
  assumes ok: "nat_ring_ok c b s" and pc: "nr_thread s t = Deq_read p"
  shows "nat_ring_ok c b (nr_goto t (Deq_publish p (nr_store s (p mod c))) s)"
proof (rule goto_ok [OF ok])
  note D = nat_ring_okD [OF ok]
  have "b \<le> p" "nr_phase s p = Reading t" using D(4) [of t] pc by simp_all
  then show "thread_ok c b s t (Deq_publish p (nr_store s (p mod c)))" using D(2) by (simp add: slots_ok_def)
qed (use pc in auto)

lemma release_ok:
  assumes ok: "nat_ring_ok c b s" and pc: "nr_thread s t = Deq_publish p x"
  shows "nat_ring_ok c b (nr_goto t Away (s\<lparr>nr_seq := (nr_seq s)(p mod c := p + c),
    nr_phase := (nr_phase s)(p := Done), nr_delivered := nr_delivered s @ [(p, x)]\<rparr>))" (is "nat_ring_ok c b ?s")
proof -
  note D = nat_ring_okD [OF ok]
  have p: "b \<le> p" "nr_phase s p = Reading t" "x = item_at b s p" using D(4) [of t] pc by simp_all
  have w: "p < nr_head s" "nr_head s \<le> nr_tail s" "p < nr_tail s" "nr_tail s \<le> p + c"
    using phases_facts(3,5) [OF D(1) p(1)] p(2) D(1) by (simp_all add: phases_ok_def)
  note busy = busy_slot [OF D(1,2) p(1) disjI2 [OF p(2)]]
  have item: "item_at b ?s = item_at b s" by (rule ext) (simp add: item_at_def)
  have "phases_ok c b ?s" using D(1) w unfolding phases_ok_def by auto
  moreover have "slots_ok c b ?s"
    unfolding slots_ok_def item
  proof (intro conjI allI impI)
    fix q assume q: "b \<le> q \<and> q < nr_tail ?s \<and> nr_tail ?s \<le> q + c"
    have "q mod c = p mod c \<Longrightarrow> q = p"
      using window_eq [of q c p] window_eq [of p c q] q w by (cases "q \<le> p") auto
    then show "nr_seq ?s (q mod c) = phase_seq c q (nr_phase ?s q)" using q D(2) by (auto simp: slots_ok_def)
  next
    fix q assume q: "nr_tail ?s \<le> q \<and> q < b + c"
    then have "q mod c \<noteq> p mod c" using window_eq [of p c q] w p(1) by auto
    then show "nr_seq ?s (q mod c) = q" using q D(2) by (simp add: slots_ok_def)
  qed (use D(2) in \<open>auto simp: slots_ok_def split: if_splits\<close>)
  moreover have "p \<notin> fst ` set (nr_delivered s)" using D(3) p(2) by (auto simp: delivered_ok_def)
  then have "delivered_ok b ?s"
    using D(3) p unfolding delivered_ok_def item by (auto split: if_splits)
  moreover have "thread_ok c b ?s u (nr_thread ?s u)" for u
  proof (cases "u = t")
    case False
    have "thread_ok c b s u (nr_thread s u)" by (rule D(4))
    then show ?thesis using False p(2) busy by (cases "nr_thread s u") (auto simp: item_at_def)
  qed simp
  moreover have "nr_phase s q \<noteq> Reading t" if "b \<le> q" "q \<noteq> p" for q
    using D(6) [OF that(1), of t] pc that(2) by auto
  moreover have "nr_phase s q \<noteq> Writing t" if "b \<le> q" for q using D(5) [OF that, of t] pc by auto
  ultimately show ?thesis
    by (intro nat_ring_okI) (auto split: if_splits intro: D(5,6))
qed

lemma nat_step_ok:
  assumes ok: "nat_ring_ok c b s" and step: "nat_step c weak t s = Some s'"
  shows "nat_ring_ok c b s'"
proof -
  note D = nat_ring_okD [OF ok] and step = step [unfolded nat_step_def]
  have bounds: "b \<le> nr_tail s" "b \<le> nr_head s" using D(1) by (simp_all add: phases_ok_def)
  note at = D(4) [of t]
  show ?thesis
  proof (cases "nr_thread s t")
    case (Enq_seq x p)
    then show ?thesis using step at by (auto intro!: goto_ok [OF ok] split: if_splits)
  next
    case (Enq_cas x p)
    show ?thesis
    proof (cases "nr_tail s = p \<and> \<not> weak")
      case True
      then show ?thesis using step Enq_cas claim_write_ok [OF ok, of t x] by simp
    next
      case False
      then show ?thesis using step Enq_cas bounds by (auto intro!: goto_ok [OF ok])
    qed
  next
    case (Deq_seq p)
    then show ?thesis using step at by (auto intro!: goto_ok [OF ok] split: if_splits)
  next
    case (Deq_cas p)
    show ?thesis
    proof (cases "nr_head s = p \<and> \<not> weak")
      case True
      then show ?thesis using step Deq_cas claim_read_ok [OF ok, of t] by simp
    next
      case False
      then show ?thesis using step Deq_cas bounds by (auto intro!: goto_ok [OF ok])
    qed
  next
    case (Deq_read p)
    then show ?thesis using step read_ok [OF ok Deq_read] by simp
  qed (use step bounds store_ok [OF ok] publish_ok [OF ok] release_ok [OF ok] in \<open>auto intro!: goto_ok [OF ok]\<close>)
qed

end
