(* ===== verification/Ring_Concurrent.thy ===== *)
theory Ring_Concurrent
  imports Ring_Machine "HOL-Library.Multiset"
begin

text \<open>
  \<open>MPMCQueue\<close> and \<open>MPSCQueue\<close> with the calls of any number of threads interleaved, one atomic access or
  one access to a slot's storage per step. The steps follow the machine of theory Ring_Machine as long
  as fewer than \<open>2^62\<close> items have been accepted since the ring was last at rest; its counters may stand
  anywhere and wrap around. Executions are sequentially consistent: the weaker orders that the code's
  memory-order arguments allow are not modelled.
\<close>

section \<open>The steps of MPMCQueue\<close>

text \<open>\<open>cq_accepted\<close> and \<open>cq_delivered\<close> are history: items in the order of the successful
  compare-and-swaps of the tail, and positions with the items given to the callers of \<open>Dequeue\<close>.\<close>

record 'a concurrent_queue =
  cq_ring :: "'a ring"
  cq_threads :: "(QueueSequence, 'a) ring_pc list"
  cq_accepted :: "'a list"
  cq_delivered :: "(QueueSequence \<times> 'a) list"

definition cq_new :: "'a ring \<Rightarrow> nat \<Rightarrow> 'a concurrent_queue" where
  "cq_new q n = \<lparr>cq_ring = q, cq_threads = replicate n Away, cq_accepted = ring_contents q, cq_delivered = []\<rparr>"

definition cq_goto :: "nat \<Rightarrow> (QueueSequence, 'a) ring_pc \<Rightarrow> 'a concurrent_queue \<Rightarrow> 'a concurrent_queue" where
  "cq_goto t pc m = m\<lparr>cq_threads := (cq_threads m)[t := pc]\<rparr>"

text \<open>The producers' side, the same code in both queues. A weak compare-and-swap may fail although the
  values agree; when it fails it loads the counter into \<open>pos\<close>.\<close>

definition enqueue_step :: "bool \<Rightarrow> nat \<Rightarrow> 'a concurrent_queue \<Rightarrow> 'a concurrent_queue option" where
  "enqueue_step weak t m =
     (let q = cq_ring m in
      case cq_threads m ! t of
        Enq_load item \<Rightarrow> Some (cq_goto t (Enq_seq item (rg_tail q)) m)
      | Enq_seq item pos \<Rightarrow>
          let diff = seq_diff (qs_sequence (ring_slot q pos)) pos in
          Some (cq_goto t (if diff = 0 then Enq_cas item pos else if diff < 0 then Away else Enq_load item) m)
      | Enq_cas item pos \<Rightarrow>
          Some (if rg_tail q = pos \<and> \<not> weak
            then cq_goto t (Enq_store item pos) (m\<lparr>cq_ring := q\<lparr>rg_tail := pos + 1\<rparr>, cq_accepted := cq_accepted m @ [item]\<rparr>)
            else cq_goto t (Enq_seq item (rg_tail q)) m)
      | Enq_store item pos \<Rightarrow>
          Some (cq_goto t (Enq_publish pos) (m\<lparr>cq_ring := ring_set q pos ((ring_slot q pos)\<lparr>qs_storage := item\<rparr>)\<rparr>))
      | Enq_publish pos \<Rightarrow>
          Some (cq_goto t Away (m\<lparr>cq_ring := ring_set q pos ((ring_slot q pos)\<lparr>qs_sequence := pos + 1\<rparr>)\<rparr>))
      | _ \<Rightarrow> None)"

definition mpmc_dequeue_step :: "bool \<Rightarrow> nat \<Rightarrow> 'a concurrent_queue \<Rightarrow> 'a concurrent_queue option" where
  "mpmc_dequeue_step weak t m =
     (let q = cq_ring m in
      case cq_threads m ! t of
        Deq_load \<Rightarrow> Some (cq_goto t (Deq_seq (rg_head q)) m)
      | Deq_seq pos \<Rightarrow>
          let diff = seq_diff (qs_sequence (ring_slot q pos)) (pos + 1) in
          Some (cq_goto t (if diff = 0 then Deq_cas pos else if diff < 0 then Away else Deq_load) m)
      | Deq_cas pos \<Rightarrow>
          Some (if rg_head q = pos \<and> \<not> weak
            then cq_goto t (Deq_read pos) (m\<lparr>cq_ring := q\<lparr>rg_head := pos + 1\<rparr>\<rparr>)
            else cq_goto t (Deq_seq (rg_head q)) m)
      | Deq_read pos \<Rightarrow> Some (cq_goto t (Deq_publish pos (qs_storage (ring_slot q pos))) m)
      | Deq_publish pos out \<Rightarrow>
          Some (cq_goto t Away (m\<lparr>cq_ring := ring_set q pos ((ring_slot q pos)\<lparr>qs_sequence := pos + of_nat (ring_capacity q)\<rparr>),
            cq_delivered := cq_delivered m @ [(pos, out)]\<rparr>))
      | _ \<Rightarrow> None)"

definition mpmc_step :: "bool \<Rightarrow> nat \<Rightarrow> 'a concurrent_queue \<Rightarrow> 'a concurrent_queue option" where
  "mpmc_step weak t m =
     (if t \<ge> length (cq_threads m) then None
      else case enqueue_step weak t m of Some m' \<Rightarrow> Some m' | None \<Rightarrow> mpmc_dequeue_step weak t m)"

text \<open>The executions: a thread steps, or a thread outside begins a call.\<close>

inductive mpmc_reachable :: "'a ring \<Rightarrow> nat \<Rightarrow> 'a concurrent_queue \<Rightarrow> bool" for q0 :: "'a ring" and n :: nat where
  start: "mpmc_reachable q0 n (cq_new q0 n)"
| step: "mpmc_reachable q0 n m \<Longrightarrow> mpmc_step weak t m = Some m' \<Longrightarrow> mpmc_reachable q0 n m'"
| call_enqueue: "mpmc_reachable q0 n m \<Longrightarrow> t < n \<Longrightarrow> cq_threads m ! t = Away \<Longrightarrow>
    mpmc_reachable q0 n (cq_goto t (Enq_load x) m)"
| call_dequeue: "mpmc_reachable q0 n m \<Longrightarrow> t < n \<Longrightarrow> cq_threads m ! t = Away \<Longrightarrow>
    mpmc_reachable q0 n (cq_goto t Deq_load m)"

section \<open>The counters follow the machine\<close>

definition follows :: "nat \<Rightarrow> nat \<Rightarrow> 'a nat_ring \<Rightarrow> 'a concurrent_queue \<Rightarrow> bool" where
  "follows n c s m \<longleftrightarrow> ring_capacity (cq_ring m) = c \<and>
     (\<forall>i < c. rg_slots (cq_ring m) ! i = \<lparr>qs_sequence = of_nat (nr_seq s i), qs_storage = nr_store s i\<rparr>) \<and>
     rg_head (cq_ring m) = of_nat (nr_head s) \<and> rg_tail (cq_ring m) = of_nat (nr_tail s) \<and>
     length (cq_threads m) = n \<and> (\<forall>t < n. cq_threads m ! t = map_ring_pc of_nat id (nr_thread s t)) \<and>
     (\<forall>t \<ge> n. nr_thread s t = Away) \<and>
     cq_accepted m = nr_accepted s \<and> cq_delivered m = map (map_prod of_nat id) (nr_delivered s)"

lemma slot_index_of_nat: "capacity_ok c \<Longrightarrow> slot_index c (of_nat p) = p mod c"
  using capacity_dvd [of c] by (simp add: slot_index_mod unat_of_nat take_bit_eq_mod mod_mod_cancel)

lemma follows_slot:
  assumes "follows n c s m" and "capacity_ok c"
  shows "ring_slot (cq_ring m) (of_nat p) = \<lparr>qs_sequence = of_nat (nr_seq s (p mod c)), qs_storage = nr_store s (p mod c)\<rparr>"
    and "ring_set (cq_ring m) (of_nat p) v = (cq_ring m)\<lparr>rg_slots := (rg_slots (cq_ring m))[p mod c := v]\<rparr>"
  using assms capacity_bounds(3) [OF assms(2)]
  by (simp_all add: follows_def ring_slot_def ring_set_def slot_index_of_nat)

lemma seq_diff_near:
  assumes "x < y + 2 ^ 63" and "y < x + 2 ^ 63"
  shows "seq_diff (of_nat x) (of_nat y) = int x - int y"
proof -
  have "(of_nat x - of_nat y :: u64) = of_int (int x - int y)" by simp
  then show ?thesis using assms sint_of_int_small [of "int x - int y"] by (simp add: seq_diff_def)
qed

lemma of_nat_near: "x < y + 2 ^ 63 \<Longrightarrow> y < x + 2 ^ 63 \<Longrightarrow> (of_nat x :: u64) = of_nat y \<longleftrightarrow> x = y"
  using seq_diff_near [of x y] by (auto simp: seq_diff_def)

text \<open>Every number of the machine lies in a window above \<open>b\<close>.\<close>

lemma seq_window:
  assumes "nat_ring_ok c b s" and "i < c"
  shows "b \<le> nr_seq s i \<and> nr_seq s i \<le> nr_tail s + c \<and> nr_tail s \<le> nr_seq s i + c"
proof -
  note D = nat_ring_okD [OF assms(1)]
  let ?T = "nr_tail s"
  define q where "q = ?T + (i + c - ?T mod c) mod c"
  have q: "?T \<le> q" "q < ?T + c" using assms(2) by (simp_all add: q_def)
  have "q mod c = i"
  proof -
    have lap: "?T mod c < c" using assms(2) by simp
    have "q mod c = (?T mod c + (i + c - ?T mod c)) mod c" unfolding q_def by (simp add: mod_simps)
    also have "?T mod c + (i + c - ?T mod c) = i + c" using lap by linarith
    finally show ?thesis using assms(2) by simp
  qed
  note i = this [symmetric]
  show ?thesis
  proof (cases "q < b + c")
    case True
    then show ?thesis using D(1,2) q i by (simp add: slots_ok_def phases_ok_def)
  next
    case False
    let ?p = "q - c"
    have p: "b \<le> ?p" "?p < ?T" "?T \<le> ?p + c" "q = ?p + c" using False q by simp_all
    then have "nr_seq s i = phase_seq c ?p (nr_phase s ?p)" using D(2) i by (metis mod_add_self2 slots_ok_def)
    then show ?thesis using p assms(2) by (cases "nr_phase s ?p") simp_all
  qed
qed

text \<open>The positions a thread holds.\<close>

fun pc_position :: "('p, 'a) ring_pc \<Rightarrow> 'p option" where
  "pc_position (Enq_seq x p) = Some p"
| "pc_position (Enq_cas x p) = Some p"
| "pc_position (Enq_store x p) = Some p"
| "pc_position (Enq_publish p) = Some p"
| "pc_position (Deq_seq p) = Some p"
| "pc_position (Deq_cas p) = Some p"
| "pc_position (Deq_read p) = Some p"
| "pc_position (Deq_publish p x) = Some p"
| "pc_position _ = None"

lemma position_window:
  assumes "nat_ring_ok c b s" and "pc_position (nr_thread s t) = Some p"
  shows "b \<le> p \<and> p \<le> nr_tail s"
proof -
  note D = nat_ring_okD [OF assms(1)]
  have "thread_ok c b s t (nr_thread s t)" by (rule D(4))
  moreover have "nr_head s \<le> nr_tail s" using D(1) by (simp add: phases_ok_def)
  moreover have "b \<le> p \<Longrightarrow> nr_phase s p = Writing t \<or> nr_phase s p = Reading t \<Longrightarrow> p < nr_tail s"
    using phases_facts(5) [OF D(1), of p] by auto
  ultimately show ?thesis using assms(2) by (cases "nr_thread s t") auto
qed

definition in_window :: "nat \<Rightarrow> nat \<Rightarrow> 'a nat_ring \<Rightarrow> bool" where
  "in_window c b s \<longleftrightarrow> nr_tail s + c + 1 < b + 2 ^ 63"

lemma follows_goto:
  assumes "follows n c s m" and "t < n" and "pc' = map_ring_pc of_nat id pc"
  shows "follows n c (nr_goto t pc s) (cq_goto t pc' m)"
  using assms by (auto simp: follows_def cq_goto_def nth_list_update)

lemma follows_update:
  assumes "follows n c s m" and "cq_threads m' = cq_threads m" and "nr_thread s' = nr_thread s"
    and "ring_capacity (cq_ring m') = c"
    and "\<And>i. i < c \<Longrightarrow> rg_slots (cq_ring m') ! i = \<lparr>qs_sequence = of_nat (nr_seq s' i), qs_storage = nr_store s' i\<rparr>"
    and "rg_head (cq_ring m') = of_nat (nr_head s')" and "rg_tail (cq_ring m') = of_nat (nr_tail s')"
    and "cq_accepted m' = nr_accepted s'" and "cq_delivered m' = map (map_prod of_nat id) (nr_delivered s')"
  shows "follows n c s' m'"
  using assms by (simp add: follows_def)

lemma seq_test:
  assumes f: "follows n c s m" and c: "capacity_ok c" and ok: "nat_ring_ok c b s" and w: "in_window c b s"
    and p: "b \<le> p" "p \<le> nr_tail s + 1"
  shows "seq_diff (qs_sequence (ring_slot (cq_ring m) (of_nat i))) (of_nat p) = int (nr_seq s (i mod c)) - int p"
proof -
  have "b \<le> nr_seq s (i mod c) \<and> nr_seq s (i mod c) \<le> nr_tail s + c"
    using seq_window [OF ok, of "i mod c"] capacity_bounds(3) [OF c] by simp
  then have "seq_diff (of_nat (nr_seq s (i mod c))) (of_nat p) = int (nr_seq s (i mod c)) - int p"
    using w p capacity_bounds(3) [OF c] by (intro seq_diff_near) (simp_all add: in_window_def)
  then show ?thesis using follows_slot(1) [OF f c] by simp
qed

lemma enqueue_follows:
  assumes f: "follows n c s m" and c: "capacity_ok c" and ok: "nat_ring_ok c b s" and w: "in_window c b s"
    and t: "t < n" and step: "enqueue_step weak t m = Some m'"
  shows "\<exists>s'. nat_step c weak t s = Some s' \<and> follows n c s' m'"
proof -
  have F: "cq_threads m ! t = map_ring_pc of_nat id (nr_thread s t)" "rg_tail (cq_ring m) = of_nat (nr_tail s)"
    "ring_capacity (cq_ring m) = c" "cq_accepted m = nr_accepted s"
    using f t by (simp_all add: follows_def)
  note step = step [unfolded enqueue_step_def Let_def F(1)]
  note goto = follows_goto [OF _ t refl] and pos = position_window [OF ok, of t] and slot = follows_slot [OF f c]
  show ?thesis
  proof (cases "nr_thread s t")
    case (Enq_load x)
    then show ?thesis using step F(2) goto [OF f, of "Enq_seq x (nr_tail s)"] by (auto simp: nat_step_def)
  next
    case (Enq_seq x p)
    then have "seq_diff (qs_sequence (ring_slot (cq_ring m) (of_nat p))) (of_nat p) = int (nr_seq s (p mod c)) - int p"
      using pos by (intro seq_test [OF f c ok w]) simp_all
    then show ?thesis
      using step Enq_seq goto [OF f, of "Enq_cas x p"] goto [OF f, of Away] goto [OF f, of "Enq_load x"]
      by (auto simp: nat_step_def)
  next
    case (Enq_cas x p)
    then have "of_nat (nr_tail s) = (of_nat p :: u64) \<longleftrightarrow> nr_tail s = p"
      using pos w by (intro of_nat_near) (simp_all add: in_window_def)
    then have eq: "rg_tail (cq_ring m) = of_nat p \<longleftrightarrow> nr_tail s = p" using F(2) by simp
    show ?thesis
    proof (cases "nr_tail s = p \<and> \<not> weak")
      case True
      let ?s = "s\<lparr>nr_tail := p + 1, nr_accepted := nr_accepted s @ [x], nr_phase := (nr_phase s)(p := Writing t)\<rparr>"
      let ?m = "m\<lparr>cq_ring := (cq_ring m)\<lparr>rg_tail := of_nat p + 1\<rparr>, cq_accepted := cq_accepted m @ [x]\<rparr>"
      have "follows n c ?s ?m" using f by (intro follows_update [OF f]) (simp_all add: follows_def)
      from goto [OF this, of "Enq_store x p"]
      have "follows n c (nr_goto t (Enq_store x p) ?s) (cq_goto t (Enq_store x (of_nat p)) ?m)" by simp
      moreover have "m' = cq_goto t (Enq_store x (of_nat p)) ?m" using step Enq_cas eq True by simp
      ultimately show ?thesis using True Enq_cas by (auto simp: nat_step_def)
    next
      case False
      then have "m' = cq_goto t (Enq_seq x (of_nat (nr_tail s))) m" using step Enq_cas eq F(2) by auto
      then show ?thesis
        using False Enq_cas goto [OF f, of "Enq_seq x (nr_tail s)"] by (auto simp: nat_step_def)
    qed
  next
    case (Enq_store x p)
    let ?s = "s\<lparr>nr_store := (nr_store s)(p mod c := x)\<rparr>"
    let ?m = "m\<lparr>cq_ring := ring_set (cq_ring m) (of_nat p) ((ring_slot (cq_ring m) (of_nat p))\<lparr>qs_storage := x\<rparr>)\<rparr>"
    have "follows n c ?s ?m"
      using f by (intro follows_update [OF f]) (auto simp: follows_def slot nth_list_update)
    from goto [OF this, of "Enq_publish p"]
    have "follows n c (nr_goto t (Enq_publish p) ?s) (cq_goto t (Enq_publish (of_nat p)) ?m)" by simp
    then show ?thesis using step Enq_store by (auto simp: nat_step_def)
  next
    case (Enq_publish p)
    let ?s = "s\<lparr>nr_seq := (nr_seq s)(p mod c := p + 1), nr_phase := (nr_phase s)(p := Full)\<rparr>"
    let ?m = "m\<lparr>cq_ring := ring_set (cq_ring m) (of_nat p) ((ring_slot (cq_ring m) (of_nat p))\<lparr>qs_sequence := of_nat p + 1\<rparr>)\<rparr>"
    have "follows n c ?s ?m"
      using f by (intro follows_update [OF f]) (auto simp: follows_def slot nth_list_update)
    from goto [OF this, of Away] have "follows n c (nr_goto t Away ?s) (cq_goto t Away ?m)" by simp
    then show ?thesis using step Enq_publish by (auto simp: nat_step_def)
  qed (use step in auto)
qed

lemma dequeue_follows:
  assumes f: "follows n c s m" and c: "capacity_ok c" and ok: "nat_ring_ok c b s" and w: "in_window c b s"
    and t: "t < n" and step: "mpmc_dequeue_step weak t m = Some m'"
  shows "\<exists>s'. nat_step c weak t s = Some s' \<and> follows n c s' m'"
proof -
  have F: "cq_threads m ! t = map_ring_pc of_nat id (nr_thread s t)" "rg_head (cq_ring m) = of_nat (nr_head s)"
    "ring_capacity (cq_ring m) = c" "cq_delivered m = map (map_prod of_nat id) (nr_delivered s)"
    using f t by (simp_all add: follows_def)
  have H: "b \<le> nr_head s" "nr_head s \<le> nr_tail s" using ok by (simp_all add: nat_ring_ok_def phases_ok_def)
  note step = step [unfolded mpmc_dequeue_step_def Let_def F(1)]
  note goto = follows_goto [OF _ t refl] and pos = position_window [OF ok, of t] and slot = follows_slot [OF f c]
  show ?thesis
  proof (cases "nr_thread s t")
    case Deq_load
    then show ?thesis using step F(2) goto [OF f, of "Deq_seq (nr_head s)"] by (auto simp: nat_step_def)
  next
    case (Deq_seq p)
    then have "seq_diff (qs_sequence (ring_slot (cq_ring m) (of_nat p))) (of_nat (p + 1)) = int (nr_seq s (p mod c)) - int (p + 1)"
      using pos by (intro seq_test [OF f c ok w]) simp_all
    then have "seq_diff (qs_sequence (ring_slot (cq_ring m) (of_nat p))) (of_nat p + 1) = int (nr_seq s (p mod c)) - int (p + 1)"
      by (simp add: add.commute)
    then show ?thesis
      using step Deq_seq goto [OF f, of "Deq_cas p"] goto [OF f, of Away] goto [OF f, of Deq_load]
      by (auto simp: nat_step_def)
  next
    case (Deq_cas p)
    then have "of_nat (nr_head s) = (of_nat p :: u64) \<longleftrightarrow> nr_head s = p"
      using pos w H by (intro of_nat_near) (simp_all add: in_window_def)
    then have eq: "rg_head (cq_ring m) = of_nat p \<longleftrightarrow> nr_head s = p" using F(2) by simp
    show ?thesis
    proof (cases "nr_head s = p \<and> \<not> weak")
      case True
      let ?s = "s\<lparr>nr_head := p + 1, nr_phase := (nr_phase s)(p := Reading t)\<rparr>"
      let ?m = "m\<lparr>cq_ring := (cq_ring m)\<lparr>rg_head := of_nat p + 1\<rparr>\<rparr>"
      have "follows n c ?s ?m" using f by (intro follows_update [OF f]) (simp_all add: follows_def)
      from goto [OF this, of "Deq_read p"]
      have "follows n c (nr_goto t (Deq_read p) ?s) (cq_goto t (Deq_read (of_nat p)) ?m)" by simp
      moreover have "m' = cq_goto t (Deq_read (of_nat p)) ?m" using step Deq_cas eq True by simp
      ultimately show ?thesis using True Deq_cas by (auto simp: nat_step_def)
    next
      case False
      then have "m' = cq_goto t (Deq_seq (of_nat (nr_head s))) m" using step Deq_cas eq F(2) by auto
      then show ?thesis using False Deq_cas goto [OF f, of "Deq_seq (nr_head s)"] by (auto simp: nat_step_def)
    qed
  next
    case (Deq_read p)
    then show ?thesis
      using step slot(1) [of p] goto [OF f, of "Deq_publish p (nr_store s (p mod c))"] by (auto simp: nat_step_def)
  next
    case (Deq_publish p x)
    let ?s = "s\<lparr>nr_seq := (nr_seq s)(p mod c := p + c), nr_phase := (nr_phase s)(p := Done), nr_delivered := nr_delivered s @ [(p, x)]\<rparr>"
    let ?m = "m\<lparr>cq_ring := ring_set (cq_ring m) (of_nat p) ((ring_slot (cq_ring m) (of_nat p))\<lparr>qs_sequence := of_nat p + of_nat c\<rparr>),
      cq_delivered := cq_delivered m @ [(of_nat p, x)]\<rparr>"
    have "follows n c ?s ?m"
      using f by (intro follows_update [OF f]) (auto simp: follows_def slot nth_list_update)
    from goto [OF this, of Away] have "follows n c (nr_goto t Away ?s) (cq_goto t Away ?m)" by simp
    then show ?thesis using step Deq_publish F(3) by (auto simp: nat_step_def)
  qed (use step in auto)
qed

lemma mpmc_follows:
  assumes "follows n c s m" "capacity_ok c" "nat_ring_ok c b s" "in_window c b s" "mpmc_step weak t m = Some m'"
  shows "\<exists>s'. nat_step c weak t s = Some s' \<and> follows n c s' m' \<and> nat_ring_ok c b s'"
proof -
  have t: "t < n" using assms(1,5) by (simp add: mpmc_step_def follows_def split: if_splits)
  have "\<exists>s'. nat_step c weak t s = Some s' \<and> follows n c s' m'"
    using assms(5) t enqueue_follows [OF assms(1-4) t] dequeue_follows [OF assms(1-4) t]
    by (simp add: mpmc_step_def split: if_splits option.splits)
  then show ?thesis using nat_step_ok [OF assms(3)] by blast
qed

section \<open>A ring at rest\<close>

definition nat_ring_of :: "'a ring \<Rightarrow> 'a nat_ring" where
  "nat_ring_of q =
     (let b = unat (rg_head q) in
      \<lparr>nr_seq = (\<lambda>i. b + unat (qs_sequence (rg_slots q ! i) - rg_head q)), nr_store = (\<lambda>i. qs_storage (rg_slots q ! i)),
       nr_head = b, nr_tail = b + ring_len q, nr_thread = (\<lambda>t. Away), nr_accepted = ring_contents q, nr_delivered = [],
       nr_phase = (\<lambda>p. if b \<le> p \<and> p < b + ring_len q then Full else Free)\<rparr>)"

lemma nat_ring_of_slot:
  assumes "ring_ok q" and "j < ring_capacity q"
  shows "rg_slots q ! ((unat (rg_head q) + j) mod ring_capacity q) = ring_slot q (rg_head q + of_nat j)"
    and "unat (qs_sequence (ring_slot q (rg_head q + of_nat j)) - rg_head q) = (if j < ring_len q then j + 1 else j)"
proof -
  have c: "capacity_ok (ring_capacity q)" using assms(1) by (simp add: ring_ok_def)
  show "rg_slots q ! ((unat (rg_head q) + j) mod ring_capacity q) = ring_slot q (rg_head q + of_nat j)"
    using slot_index_add [OF c] by (simp add: ring_slot_def)
  have "qs_sequence (ring_slot q (rg_head q + of_nat j)) - rg_head q = of_nat (if j < ring_len q then j + 1 else j)"
    using assms by (simp add: ring_ok_def)
  then show "unat (qs_sequence (ring_slot q (rg_head q + of_nat j)) - rg_head q) = (if j < ring_len q then j + 1 else j)"
    using assms(2) capacity_bounds(2) [OF c] by (simp add: unat_of_nat64)
qed

lemma nat_ring_of_ok:
  assumes "ring_ok q"
  shows "nat_ring_ok (ring_capacity q) (unat (rg_head q)) (nat_ring_of q)" (is "nat_ring_ok ?c ?b ?s")
proof (rule nat_ring_okI)
  have c: "capacity_ok ?c" "ring_len q \<le> ?c" using assms by (simp_all add: ring_ok_def)
  have slot: "nr_seq ?s (p mod ?c) = (if p < ?b + ring_len q then p + 1 else p)"
      "nr_store ?s (p mod ?c) = qs_storage (ring_slot q (rg_head q + of_nat (p - ?b)))" if "?b \<le> p" "p < ?b + ?c" for p
  proof -
    have j: "p - ?b < ?c" "?b + (p - ?b) = p" using that by simp_all
    then show "nr_seq ?s (p mod ?c) = (if p < ?b + ring_len q then p + 1 else p)"
      "nr_store ?s (p mod ?c) = qs_storage (ring_slot q (rg_head q + of_nat (p - ?b)))"
      using nat_ring_of_slot [OF assms j(1)] by (auto simp: nat_ring_of_def Let_def)
  qed
  have simps: "nr_head ?s = ?b" "nr_tail ?s = ?b + ring_len q" "nr_accepted ?s = ring_contents q"
    "nr_phase ?s p = (if ?b \<le> p \<and> p < ?b + ring_len q then Full else Free)" "nr_thread ?s t = Away" "nr_delivered ?s = []" for p t
    by (simp_all add: nat_ring_of_def Let_def)
  show "phases_ok ?c ?b ?s"
    unfolding phases_ok_def simps using c capacity_bounds(1) [OF c(1)] by auto
  show "slots_ok ?c ?b ?s"
    unfolding slots_ok_def simps item_at_def using slot c(2) by (auto simp: ring_contents_def)
  show "delivered_ok ?b ?s" unfolding delivered_ok_def simps by auto
  show "thread_ok ?c ?b ?s u (nr_thread ?s u)" for u by (simp add: simps)
qed (auto simp: nat_ring_of_def Let_def split: if_splits)

lemma nat_ring_of_follows:
  assumes "ring_ok q"
  shows "follows n (ring_capacity q) (nat_ring_of q) (cq_new q n)"
  by (simp add: follows_def cq_new_def nat_ring_of_def Let_def rg_tail_eq)

section \<open>Every execution follows the machine\<close>

definition follows_from :: "'a ring \<Rightarrow> nat \<Rightarrow> 'a nat_ring \<Rightarrow> 'a concurrent_queue \<Rightarrow> bool" where
  "follows_from q0 n s m \<longleftrightarrow> follows n (ring_capacity q0) s m \<and> nat_ring_ok (ring_capacity q0) (unat (rg_head q0)) s"

lemma follows_window:
  assumes "follows_from q0 n s m" and "ring_ok q0" and "length (cq_accepted m) < 2 ^ 62"
  shows "in_window (ring_capacity q0) (unat (rg_head q0)) s"
proof -
  have "ring_capacity q0 \<le> 2 ^ 57" using assms(2) capacity_bounds(2) by (simp add: ring_ok_def)
  moreover have "nr_tail s = unat (rg_head q0) + length (cq_accepted m)"
    using assms(1) by (simp add: follows_from_def follows_def nat_ring_ok_def phases_ok_def)
  ultimately show ?thesis using assms(3) by (simp add: in_window_def)
qed

lemma follows_from_step:
  assumes "follows_from q0 n s m" and "ring_ok q0" and "length (cq_accepted m) < 2 ^ 62" and "mpmc_step weak t m = Some m'"
  shows "\<exists>s'. nat_step (ring_capacity q0) weak t s = Some s' \<and> follows_from q0 n s' m'"
  using mpmc_follows [OF _ _ _ follows_window [OF assms(1-3)] assms(4), of n] assms(1,2)
  by (simp add: follows_from_def ring_ok_def)

lemma call_pc:
  assumes "pc = Deq_load \<or> (\<exists>x. pc = Enq_load x)"
  shows "\<exists>pc'. pc = map_ring_pc f id pc' \<and> (pc' = Deq_load \<or> (\<exists>x. pc' = Enq_load x))"
  using assms
proof (elim disjE exE)
  assume "pc = Deq_load"
  then show ?thesis by (intro exI [of _ Deq_load]) simp
next
  fix x assume "pc = Enq_load x"
  then show ?thesis by (intro exI [of _ "Enq_load x"]) simp
qed

lemma follows_from_call:
  assumes "follows_from q0 n s m" and "t < n" and "cq_threads m ! t = Away" and "pc = Deq_load \<or> (\<exists>x. pc = Enq_load x)"
  shows "\<exists>s'. follows_from q0 n s' (cq_goto t pc m)"
proof -
  have s: "follows n (ring_capacity q0) s m" "nat_ring_ok (ring_capacity q0) (unat (rg_head q0)) s"
    using assms(1) by (simp_all add: follows_from_def)
  have "map_ring_pc of_nat id (nr_thread s t) = (Away :: (QueueSequence, 'a) ring_pc)" using s(1) assms(2,3) by (simp add: follows_def)
  then have away: "nr_thread s t = Away" by (cases "nr_thread s t") simp_all
  obtain pc' where pc': "pc = map_ring_pc of_nat id pc'" "pc' = Deq_load \<or> (\<exists>x. pc' = Enq_load x)"
    using call_pc [OF assms(4), of of_nat] by blast
  then have "nat_ring_ok (ring_capacity q0) (unat (rg_head q0)) (nr_goto t pc' s)"
    using away by (intro goto_ok [OF s(2)]) auto
  then show ?thesis using follows_goto [OF s(1) assms(2) pc'(1)] by (auto simp: follows_from_def)
qed

lemma step_accepted:
  "mpmc_step weak t m = Some m' \<Longrightarrow> length (cq_accepted m) \<le> length (cq_accepted m')"
  by (auto simp: mpmc_step_def enqueue_step_def mpmc_dequeue_step_def Let_def cq_goto_def
      split: if_splits option.splits ring_pc.splits)

lemma mpmc_follows_from:
  assumes "mpmc_reachable q0 n m" and "ring_ok q0" and "length (cq_accepted m) < 2 ^ 62"
  shows "\<exists>s. follows_from q0 n s m"
  using assms(1,3)
proof (induction rule: mpmc_reachable.induct)
  case start
  then show ?case
    using nat_ring_of_follows [OF assms(2)] nat_ring_of_ok [OF assms(2)] by (auto simp: follows_from_def)
next
  case (step m weak t m')
  have "length (cq_accepted m) < 2 ^ 62" using step_accepted [OF step.hyps(2)] step.prems by simp
  then show ?case using step follows_from_step [OF _ assms(2)] by blast
qed (use follows_from_call in \<open>fastforce simp: cq_goto_def\<close>)+

section \<open>Safety\<close>

text \<open>The slot whose storage the next step of a thread accesses.\<close>

fun touches :: "('p, 'a) ring_pc \<Rightarrow> 'p option" where
  "touches (Enq_store x p) = Some p"
| "touches (Deq_read p) = Some p"
| "touches _ = None"

lemma touches_map: "touches (map_ring_pc f g pc) = map_option f (touches pc)"
  by (cases pc) simp_all

lemma touches_live:
  assumes "nat_ring_ok c b s" and "touches (nr_thread s t) = Some p"
  shows "b \<le> p \<and> (nr_phase s p = Writing t \<or> nr_phase s p = Reading t)"
proof -
  have "thread_ok c b s t (nr_thread s t)" using assms(1) by (rule nat_ring_okD)
  then show ?thesis using assms(2) by (cases "nr_thread s t") auto
qed

lemma no_two_touch:
  assumes "nat_ring_ok c b s" and "t \<noteq> u" and "touches (nr_thread s t) = Some p" and "touches (nr_thread s u) = Some q"
  shows "p mod c \<noteq> q mod c"
proof
  assume eq: "p mod c = q mod c"
  note t = touches_live [OF assms(1,3)] and u = touches_live [OF assms(1,4)]
  have "p = q"
    using t u eq by (intro same_slot [OF nat_ring_okD(1) [OF assms(1)], of p q]) auto
  then show False using t u assms(2) by auto
qed

lemma delivered_positions:
  assumes "nat_ring_ok c b s" and "b = unat (h :: u64)"
  shows "\<exists>ks. distinct ks \<and> (\<forall>k \<in> set ks. k < length (nr_accepted s)) \<and>
    map (map_prod of_nat id) (nr_delivered s) = map (\<lambda>k. (h + of_nat k, nr_accepted s ! k)) ks"
proof (intro exI conjI ballI)
  let ?ks = "map (\<lambda>(p, x). p - b) (nr_delivered s)"
  note D = nat_ring_okD [OF assms(1)]
  have d: "b \<le> p \<and> p < nr_tail s \<and> x = item_at b s p" if "(p, x) \<in> set (nr_delivered s)" for p x
    using D(3) that phases_facts(4) [OF D(1), of p] D(1) by (auto simp: delivered_ok_def phases_ok_def)
  have "inj_on (\<lambda>p. p - b) (fst ` set (nr_delivered s))"
    by (rule inj_onI) (use d in \<open>fastforce simp: eq_diff_iff\<close>)
  moreover have "?ks = map (\<lambda>p. p - b) (map fst (nr_delivered s))" by (simp add: case_prod_unfold)
  ultimately show "distinct ?ks" using D(3) by (simp only: delivered_ok_def distinct_map set_map)
  have len: "nr_tail s = b + length (nr_accepted s)" using D(1) by (simp add: phases_ok_def)
  show "k < length (nr_accepted s)" if "k \<in> set ?ks" for k using that d len by fastforce
  have "map_prod of_nat id e = (h + of_nat (fst e - b), nr_accepted s ! (fst e - b))" if "e \<in> set (nr_delivered s)" for e
    using d [of "fst e" "snd e"] that assms(2) by (cases e) (simp add: item_at_def of_nat_diff)
  then show "map (map_prod of_nat id) (nr_delivered s) = map (\<lambda>k. (h + of_nat k, nr_accepted s ! k)) ?ks"
    by (simp add: case_prod_unfold)
qed

lemma mpmc_safe:
  assumes "mpmc_reachable q0 n m" and "ring_ok q0" and "length (cq_accepted m) < 2 ^ 62"
  shows "ring_len (cq_ring m) \<le> ring_capacity q0 \<and>
    (\<forall>t < n. \<forall>u < n. \<forall>p r. t \<noteq> u \<and> touches (cq_threads m ! t) = Some p \<and> touches (cq_threads m ! u) = Some r
      \<longrightarrow> slot_index (ring_capacity q0) p \<noteq> slot_index (ring_capacity q0) r) \<and>
    (\<exists>ks. distinct ks \<and> (\<forall>k \<in> set ks. k < length (cq_accepted m)) \<and>
      cq_delivered m = map (\<lambda>k. (rg_head q0 + of_nat k, cq_accepted m ! k)) ks)"
proof -
  let ?c = "ring_capacity q0" and ?b = "unat (rg_head q0)"
  have c: "capacity_ok ?c" using assms(2) by (simp add: ring_ok_def)
  obtain s where f: "follows n ?c s m" and ok: "nat_ring_ok ?c ?b s"
    using mpmc_follows_from [OF assms] by (auto simp: follows_from_def)
  have P: "nr_head s \<le> nr_tail s" "nr_tail s \<le> nr_head s + ?c" using ok by (simp_all add: nat_ring_ok_def phases_ok_def)
  have "rg_tail (cq_ring m) - rg_head (cq_ring m) = of_nat (nr_tail s - nr_head s)"
    using f P by (simp add: follows_def of_nat_diff)
  then have "ring_len (cq_ring m) = unat (of_nat (nr_tail s - nr_head s) :: u64)" by (simp only: ring_len_def)
  also have "\<dots> = nr_tail s - nr_head s"
    by (rule unat_of_nat64) (use P capacity_bounds(2) [OF c] in simp)
  finally have "ring_len (cq_ring m) = nr_tail s - nr_head s" .
  moreover have "slot_index ?c p \<noteq> slot_index ?c r"
    if "t < n" "u < n" "t \<noteq> u" "touches (cq_threads m ! t) = Some p" "touches (cq_threads m ! u) = Some r" for t u p r
    using that f no_two_touch [OF ok that(3)] by (auto simp: follows_def touches_map slot_index_of_nat [OF c])
  moreover have "cq_delivered m = map (map_prod of_nat id) (nr_delivered s)" "cq_accepted m = nr_accepted s"
    using f by (simp_all add: follows_def)
  ultimately show ?thesis using P delivered_positions [OF ok refl] by auto
qed

text \<open>C6. With any number of threads inside \<open>Enqueue\<close> and \<open>Dequeue\<close>, wherever they are: no two of them
  are about to access the storage of the same slot, at most \<open>Capacity\<close> positions are taken, every item
  that \<open>Dequeue\<close> handed out is the item accepted at the position it claimed, and no position is handed
  out twice; an item is neither lost, duplicated nor torn.\<close>

theorem mpmc_race_free:
  assumes "mpmc_reachable q0 n m" and "ring_ok q0" and "length (cq_accepted m) < 2 ^ 62"
  shows "ring_len (cq_ring m) \<le> ring_capacity q0 \<and>
    (\<forall>t < n. \<forall>u < n. \<forall>p r. t \<noteq> u \<and> touches (cq_threads m ! t) = Some p \<and> touches (cq_threads m ! u) = Some r
      \<longrightarrow> slot_index (ring_capacity q0) p \<noteq> slot_index (ring_capacity q0) r) \<and>
    (\<exists>ks. distinct ks \<and> (\<forall>k \<in> set ks. k < length (cq_accepted m)) \<and>
      cq_delivered m = map (\<lambda>k. (rg_head q0 + of_nat k, cq_accepted m ! k)) ks)"
  by (rule mpmc_safe [OF assms])

section \<open>Refusals\<close>

lemma refused_enqueue:
  assumes "nat_ring_ok c b s" and "b \<le> p" and "p \<le> nr_tail s" and "nr_seq s (p mod c) < p"
  shows "p = nr_tail s \<and> b + c \<le> nr_tail s \<and> live (nr_phase s (nr_tail s - c))"
proof -
  note D = nat_ring_okD [OF assms(1)]
  have c: "0 < c" using D(1) by (simp add: phases_ok_def)
  have "\<not> p < nr_tail s"
  proof
    assume less: "p < nr_tail s"
    show False
    proof (cases "nr_tail s \<le> p + c")
      case True
      then have "nr_seq s (p mod c) = phase_seq c p (nr_phase s p)" using D(2) assms(2) less by (simp add: slots_ok_def)
      then show False using assms(4) by (cases "nr_phase s p") simp_all
    next
      case False
      then show False using seq_window [OF assms(1), of "p mod c"] c assms(4) by simp
    qed
  qed
  then have "p = nr_tail s" using assms(3) by simp
  then show ?thesis using tail_slot [OF D(1,2)] assms(4) by auto
qed

lemma refused_dequeue:
  assumes "nat_ring_ok c b s" and "b \<le> p" and "p \<le> nr_head s" and "nr_seq s (p mod c) < p + 1"
  shows "p = nr_head s \<and> (nr_head s = nr_tail s \<or> (\<exists>u. nr_phase s (nr_head s) = Writing u))"
proof -
  note D = nat_ring_okD [OF assms(1)]
  have c: "2 \<le> c" "nr_head s \<le> nr_tail s" using D(1) by (simp_all add: phases_ok_def)
  have "\<not> p < nr_head s"
  proof
    assume less: "p < nr_head s"
    show False
    proof (cases "nr_tail s \<le> p + c")
      case True
      then have "nr_seq s (p mod c) = phase_seq c p (nr_phase s p)" using D(2) assms(2) less c by (simp add: slots_ok_def)
      moreover have "nr_phase s p = Done \<or> (\<exists>t. nr_phase s p = Reading t)"
        using D(1) assms(2) less by (simp add: phases_ok_def)
      ultimately show False using assms(4) c by auto
    next
      case False
      then show False using seq_window [OF assms(1), of "p mod c"] c assms(4) by simp
    qed
  qed
  then have "p = nr_head s" using assms(3) by simp
  then show ?thesis using head_slot [OF D(1,2)] assms(4) by auto
qed

text \<open>The position that a producer has claimed and not yet published.\<close>

fun writing_at :: "('p, 'a) ring_pc \<Rightarrow> 'p option" where
  "writing_at (Enq_store x p) = Some p"
| "writing_at (Enq_publish p) = Some p"
| "writing_at _ = None"

lemma writing_at_map: "writing_at (map_ring_pc f g pc) = map_option f (writing_at pc)"
  by (cases pc) simp_all

lemma enqueue_test:
  assumes f: "follows n c s m" and ok: "nat_ring_ok c b s" and c: "capacity_ok c" and w: "in_window c b s" and t: "t < n"
    and pc: "cq_threads m ! t = Enq_seq x pos"
  shows "\<exists>p. pos = of_nat p \<and> b \<le> p \<and> p \<le> nr_tail s \<and>
    seq_diff (qs_sequence (ring_slot (cq_ring m) pos)) pos = int (nr_seq s (p mod c)) - int p"
proof -
  have "map_ring_pc of_nat id (nr_thread s t) = Enq_seq x pos" using f t pc by (simp add: follows_def)
  then obtain p where p: "nr_thread s t = Enq_seq x p" "pos = of_nat p" by (cases "nr_thread s t") auto
  moreover have "b \<le> p" "p \<le> nr_tail s" using position_window [OF ok, of t p] p(1) by simp_all
  ultimately show ?thesis using seq_test [OF f c ok w, of p p] by auto
qed

lemma dequeue_test:
  assumes f: "follows n c s m" and ok: "nat_ring_ok c b s" and c: "capacity_ok c" and w: "in_window c b s" and t: "t < n"
    and pc: "cq_threads m ! t = Deq_seq pos"
  shows "\<exists>p. pos = of_nat p \<and> b \<le> p \<and> p \<le> nr_head s \<and>
    seq_diff (qs_sequence (ring_slot (cq_ring m) pos)) (pos + 1) = int (nr_seq s (p mod c)) - int (p + 1)"
proof -
  have "map_ring_pc of_nat id (nr_thread s t) = (Deq_seq pos :: (QueueSequence, 'a) ring_pc)" using f t pc by (simp add: follows_def)
  then obtain p where p: "nr_thread s t = Deq_seq p" "pos = of_nat p" by (cases "nr_thread s t") auto
  have "thread_ok c b s t (nr_thread s t)" using ok by (rule nat_ring_okD)
  then have b: "b \<le> p" "p \<le> nr_head s" using p(1) by simp_all
  moreover have "nr_head s \<le> nr_tail s" using ok by (simp add: nat_ring_ok_def phases_ok_def)
  ultimately have "seq_diff (qs_sequence (ring_slot (cq_ring m) pos)) (of_nat (p + 1)) = int (nr_seq s (p mod c)) - int (p + 1)"
    unfolding p(2) by (intro seq_test [OF f c ok w]) simp_all
  then show ?thesis using p(2) b by (auto simp: add.commute)
qed

lemma enqueue_refusal:
  assumes f: "follows n c s m" and ok: "nat_ring_ok c b s" and c: "capacity_ok c" and w: "in_window c b s" and t: "t < n"
    and pc: "cq_threads m ! t = Enq_seq x pos" and diff: "seq_diff (qs_sequence (ring_slot (cq_ring m) pos)) pos < 0"
  shows "c \<le> length (cq_accepted m) \<and> pos = of_nat (b + length (cq_accepted m)) \<and> pos - of_nat c \<notin> fst ` set (cq_delivered m)"
proof -
  note D = nat_ring_okD [OF ok]
  have T: "nr_tail s = b + length (cq_accepted m)" using f D(1) by (simp add: follows_def phases_ok_def)
  obtain p where p: "pos = of_nat p" "b \<le> p" "p \<le> nr_tail s" "nr_seq s (p mod c) < p"
    using enqueue_test [OF f ok c w t pc] diff by auto
  note r = refused_enqueue [OF ok p(2-4)]
  have "of_nat (nr_tail s - c) \<noteq> (of_nat p' :: u64)" if d: "(p', y) \<in> set (nr_delivered s)" for p' y
  proof -
    have "nr_phase s p' = Done" "b \<le> p'" using D(3) d by (auto simp: delivered_ok_def)
    then have "nr_tail s - c \<noteq> p'" "b \<le> p'" "p' < nr_tail s"
      using r phases_facts(4) [OF D(1), of p'] D(1) by (auto simp: phases_ok_def)
    then show ?thesis using w r by (subst of_nat_near) (auto simp: in_window_def)
  qed
  then have "\<forall>e \<in> set (nr_delivered s). of_nat (nr_tail s - c) \<noteq> (of_nat (fst e) :: u64)" by (metis prod.collapse)
  moreover have "fst ` set (cq_delivered m) = (of_nat \<circ> fst) ` set (nr_delivered s)"
    using f by (simp add: follows_def image_image)
  ultimately have "of_nat (nr_tail s - c) \<notin> fst ` set (cq_delivered m)" by (simp add: image_iff)
  moreover have "pos - of_nat c = of_nat (nr_tail s - c)" using r p(1) by (simp add: of_nat_diff)
  ultimately have "pos - of_nat c \<notin> fst ` set (cq_delivered m)" by simp
  then show ?thesis using r p(1) T by simp
qed

lemma dequeue_refusal:
  assumes f: "follows n c s m" and ok: "nat_ring_ok c b s" and c: "capacity_ok c" and w: "in_window c b s" and t: "t < n"
    and pc: "cq_threads m ! t = Deq_seq pos" and diff: "seq_diff (qs_sequence (ring_slot (cq_ring m) pos)) (pos + 1) < 0"
  shows "pos = rg_head (cq_ring m) \<and> (ring_len (cq_ring m) = 0 \<or> (\<exists>u < n. writing_at (cq_threads m ! u) = Some pos))"
proof -
  note D = nat_ring_okD [OF ok]
  obtain p where p: "pos = of_nat p" "b \<le> p" "p \<le> nr_head s" "nr_seq s (p mod c) < p + 1"
    using dequeue_test [OF f ok c w t pc] diff by auto
  note r = refused_dequeue [OF ok p(2-4)]
  then have pos: "pos = rg_head (cq_ring m)" using f p(1) by (simp add: follows_def)
  show ?thesis
  proof (cases "nr_head s = nr_tail s")
    case True
    then show ?thesis using pos f by (simp add: ring_len_def follows_def)
  next
    case False
    then obtain u where "nr_phase s p = Writing u" using r by auto
    then have u: "claims_write p (nr_thread s u)" using D(5) p(2) by blast
    then have "u < n" using f by (cases "u < n") (simp_all add: follows_def)
    moreover have "writing_at (nr_thread s u) = Some p" using u by (cases "nr_thread s u") simp_all
    ultimately have "writing_at (cq_threads m ! u) = Some pos" using f p(1) by (simp add: follows_def writing_at_map)
    then show ?thesis using pos \<open>u < n\<close> by blast
  qed
qed

text \<open>C40. When \<open>Enqueue\<close> is about to report a full queue, \<open>Capacity\<close> items have been accepted and the one
  accepted \<open>Capacity\<close> places before the next has not been handed out; when \<open>Dequeue\<close> is about to report
  an empty queue, every accepted item has been claimed by a consumer, or the oldest of the others is
  still being written by a producer.\<close>

theorem mpmc_refusals:
  assumes "mpmc_reachable q0 n m" and "ring_ok q0" and "length (cq_accepted m) < 2 ^ 62" and "t < n"
  shows "(\<forall>x pos. cq_threads m ! t = Enq_seq x pos \<and> seq_diff (qs_sequence (ring_slot (cq_ring m) pos)) pos < 0 \<longrightarrow>
      ring_capacity q0 \<le> length (cq_accepted m) \<and> pos = rg_head q0 + of_nat (length (cq_accepted m)) \<and>
      pos - of_nat (ring_capacity q0) \<notin> fst ` set (cq_delivered m)) \<and>
    (\<forall>pos. cq_threads m ! t = Deq_seq pos \<and> seq_diff (qs_sequence (ring_slot (cq_ring m) pos)) (pos + 1) < 0 \<longrightarrow>
      pos = rg_head (cq_ring m) \<and>
      (ring_len (cq_ring m) = 0 \<or> (\<exists>u < n. writing_at (cq_threads m ! u) = Some pos)))"
proof -
  have c: "capacity_ok (ring_capacity q0)" using assms(2) by (simp add: ring_ok_def)
  obtain s where s: "follows_from q0 n s m" using mpmc_follows_from [OF assms(1-3)] by blast
  then have f: "follows n (ring_capacity q0) s m" and ok: "nat_ring_ok (ring_capacity q0) (unat (rg_head q0)) s"
    by (simp_all add: follows_from_def)
  note w = follows_window [OF s assms(2,3)]
  show ?thesis
    using enqueue_refusal [OF f ok c w assms(4)] dequeue_refusal [OF f ok c w assms(4)] by simp
qed

section \<open>Calls return\<close>

fun unclaimed :: "('p, 'a) ring_pc \<Rightarrow> nat" where
  "unclaimed (Enq_load x) = 1"
| "unclaimed (Enq_seq x p) = 1"
| "unclaimed (Enq_cas x p) = 1"
| "unclaimed Deq_load = 1"
| "unclaimed (Deq_seq p) = 1"
| "unclaimed (Deq_cas p) = 1"
| "unclaimed _ = 0"

text \<open>The steps a thread is from a claim or a return while the counters stand still.\<close>

fun steps_left :: "'p \<Rightarrow> 'p \<Rightarrow> ('p, 'a) ring_pc \<Rightarrow> nat" where
  "steps_left h l Away = 0"
| "steps_left h l (Enq_load x) = 3"
| "steps_left h l (Enq_seq x p) = (if p = l then 2 else 5)"
| "steps_left h l (Enq_cas x p) = (if p = l then 1 else 4)"
| "steps_left h l (Enq_store x p) = 2"
| "steps_left h l (Enq_publish p) = 1"
| "steps_left h l Deq_load = 3"
| "steps_left h l (Deq_seq p) = (if p = h then 2 else 5)"
| "steps_left h l (Deq_cas p) = (if p = h then 1 else 4)"
| "steps_left h l (Deq_read p) = 2"
| "steps_left h l (Deq_publish p x) = 1"
| "steps_left h l (Deq_advance p) = 0"

definition calls_unclaimed :: "'a concurrent_queue \<Rightarrow> nat" where
  "calls_unclaimed m = sum_list (map unclaimed (cq_threads m))"

definition work_left :: "'a concurrent_queue \<Rightarrow> nat" where
  "work_left m = sum_list (map (steps_left (rg_head (cq_ring m)) (rg_tail (cq_ring m))) (cq_threads m))"

lemma queue_move:
  assumes t: "t < length (cq_threads m)" and m': "cq_threads m' = (cq_threads m)[t := pc]"
    and less: "unclaimed pc < unclaimed (cq_threads m ! t) \<or>
      unclaimed pc = unclaimed (cq_threads m ! t) \<and> rg_head (cq_ring m') = rg_head (cq_ring m) \<and> rg_tail (cq_ring m') = rg_tail (cq_ring m) \<and>
      steps_left (rg_head (cq_ring m)) (rg_tail (cq_ring m)) pc
        < steps_left (rg_head (cq_ring m)) (rg_tail (cq_ring m)) (cq_threads m ! t)"
  shows "(m', m) \<in> measures [calls_unclaimed, work_left]"
proof -
  note sums = sum_list_update_plus [OF t, of unclaimed pc]
    sum_list_update_plus [OF t, of "steps_left (rg_head (cq_ring m)) (rg_tail (cq_ring m))" pc]
  show ?thesis using less
  proof
    assume "unclaimed pc < unclaimed (cq_threads m ! t)"
    then have "calls_unclaimed m' < calls_unclaimed m" unfolding calls_unclaimed_def m' using sums(1) by linarith
    then show ?thesis by simp
  next
    assume d: "unclaimed pc = unclaimed (cq_threads m ! t) \<and> rg_head (cq_ring m') = rg_head (cq_ring m) \<and>
      rg_tail (cq_ring m') = rg_tail (cq_ring m) \<and> steps_left (rg_head (cq_ring m)) (rg_tail (cq_ring m)) pc
        < steps_left (rg_head (cq_ring m)) (rg_tail (cq_ring m)) (cq_threads m ! t)"
    then have "calls_unclaimed m' = calls_unclaimed m" unfolding calls_unclaimed_def m' using sums(1) by simp
    moreover have "work_left m' < work_left m" unfolding work_left_def m' using d sums(2) by simp
    ultimately show ?thesis by simp
  qed
qed

text \<open>A position that still is the counter's is not found behind its slot.\<close>

lemma fresh_tests:
  assumes "follows_from q0 n s m" and "ring_ok q0" and "length (cq_accepted m) < 2 ^ 62" and "t < n"
  shows "cq_threads m ! t = Enq_seq x (rg_tail (cq_ring m)) \<Longrightarrow>
      seq_diff (qs_sequence (ring_slot (cq_ring m) (rg_tail (cq_ring m)))) (rg_tail (cq_ring m)) \<le> 0"
    and "cq_threads m ! t = Deq_seq (rg_head (cq_ring m)) \<Longrightarrow>
      seq_diff (qs_sequence (ring_slot (cq_ring m) (rg_head (cq_ring m)))) (rg_head (cq_ring m) + 1) \<le> 0"
proof -
  let ?c = "ring_capacity q0" and ?b = "unat (rg_head q0)"
  have c: "capacity_ok ?c" using assms(2) by (simp add: ring_ok_def)
  have f: "follows n ?c s m" and ok: "nat_ring_ok ?c ?b s" using assms(1) by (simp_all add: follows_from_def)
  note w = follows_window [OF assms(1-3)] and D = nat_ring_okD [OF ok]
  have R: "rg_tail (cq_ring m) = of_nat (nr_tail s)" "rg_head (cq_ring m) = of_nat (nr_head s)" using f by (simp_all add: follows_def)
  have H: "?b \<le> nr_head s" "nr_head s \<le> nr_tail s" using D(1) by (simp_all add: phases_ok_def)
  show "seq_diff (qs_sequence (ring_slot (cq_ring m) (rg_tail (cq_ring m)))) (rg_tail (cq_ring m)) \<le> 0"
    using seq_test [OF f c ok w, of "nr_tail s" "nr_tail s"] tail_slot [OF D(1,2)] H unfolding R by auto
  have "seq_diff (qs_sequence (ring_slot (cq_ring m) (of_nat (nr_head s)))) (of_nat (nr_head s + 1)) \<le> 0"
    using seq_test [OF f c ok w, of "nr_head s + 1" "nr_head s"] head_slot [OF D(1,2)] H by auto
  then show "seq_diff (qs_sequence (ring_slot (cq_ring m) (rg_head (cq_ring m)))) (rg_head (cq_ring m) + 1) \<le> 0"
    unfolding R by (simp add: add.commute)
qed

lemma mpmc_step_decreases:
  assumes s: "follows_from q0 n s m" and q: "ring_ok q0" and len: "length (cq_accepted m) < 2 ^ 62"
    and step: "mpmc_step False t m = Some m'"
  shows "(m', m) \<in> measures [calls_unclaimed, work_left]"
proof -
  have t: "t < length (cq_threads m)" using step by (simp add: mpmc_step_def split: if_splits)
  have n: "t < n" using s t by (simp add: follows_from_def follows_def)
  note fresh = fresh_tests [OF s q len n]
  note step = step [unfolded mpmc_step_def enqueue_step_def mpmc_dequeue_step_def Let_def]
  show ?thesis
  proof (rule queue_move [OF t, where pc = "cq_threads m' ! t"])
    show "cq_threads m' = (cq_threads m)[t := cq_threads m' ! t]"
      using step t by (auto simp: cq_goto_def split: if_splits option.splits ring_pc.splits)
    let ?left = "steps_left (rg_head (cq_ring m)) (rg_tail (cq_ring m))"
    show "unclaimed (cq_threads m' ! t) < unclaimed (cq_threads m ! t) \<or>
      unclaimed (cq_threads m' ! t) = unclaimed (cq_threads m ! t) \<and> rg_head (cq_ring m') = rg_head (cq_ring m) \<and>
      rg_tail (cq_ring m') = rg_tail (cq_ring m) \<and> ?left (cq_threads m' ! t) < ?left (cq_threads m ! t)"
    proof (cases "cq_threads m ! t")
      case (Enq_seq x p)
      then show ?thesis using step t fresh(1) [of x] by (auto simp: cq_goto_def split: if_splits)
    next
      case (Deq_seq p)
      then show ?thesis using step t fresh(2) by (auto simp: cq_goto_def split: if_splits)
    qed (use step t in \<open>auto simp: cq_goto_def split: if_splits\<close>)
  qed
qed

lemma follows_len:
  assumes "follows n c s m" and "nat_ring_ok c b s" and "capacity_ok c"
  shows "ring_len (cq_ring m) = nr_tail s - nr_head s"
proof -
  have P: "nr_head s \<le> nr_tail s" "nr_tail s \<le> nr_head s + c" using assms(2) by (simp_all add: nat_ring_ok_def phases_ok_def)
  have "rg_tail (cq_ring m) - rg_head (cq_ring m) = of_nat (nr_tail s - nr_head s)"
    using assms(1) P by (simp add: follows_def of_nat_diff)
  then have "ring_len (cq_ring m) = unat (of_nat (nr_tail s - nr_head s) :: u64)" by (simp only: ring_len_def)
  also have "\<dots> = nr_tail s - nr_head s"
    by (rule unat_of_nat64) (use P capacity_bounds(2) [OF assms(3)] in simp)
  finally show ?thesis .
qed

text \<open>When every thread is outside, each position is free, holds its item, or has been handed out.\<close>

lemma rest_phases:
  assumes "nat_ring_ok c b s" and "\<And>t. nr_thread s t = Away"
  shows "nr_head s \<le> p \<Longrightarrow> p < nr_tail s \<Longrightarrow> nr_phase s p = Full" and "b \<le> p \<Longrightarrow> p < nr_head s \<Longrightarrow> nr_phase s p = Done"
proof -
  note D = nat_ring_okD [OF assms(1)]
  have P: "b \<le> nr_head s" "nr_head s \<le> p \<Longrightarrow> p < nr_tail s \<Longrightarrow> nr_phase s p = Full \<or> (\<exists>t. nr_phase s p = Writing t)"
    "b \<le> p \<Longrightarrow> p < nr_head s \<Longrightarrow> nr_phase s p = Done \<or> (\<exists>t. nr_phase s p = Reading t)"
    using D(1) unfolding phases_ok_def by blast+
  have "nr_phase s p \<noteq> Writing t" "nr_phase s p \<noteq> Reading t" if "b \<le> p" for t
    using D(5,6) [OF that, of t] assms(2) by auto
  then show "nr_head s \<le> p \<Longrightarrow> p < nr_tail s \<Longrightarrow> nr_phase s p = Full" and "b \<le> p \<Longrightarrow> p < nr_head s \<Longrightarrow> nr_phase s p = Done"
    using P by auto
qed

lemma rest_ring:
  assumes f: "follows n c s m" and ok: "nat_ring_ok c b s" and c: "capacity_ok c" and away: "\<And>t. nr_thread s t = Away"
  shows "ring_ok (cq_ring m) \<and> ring_contents (cq_ring m) = drop (nr_head s - b) (cq_accepted m)"
proof -
  note D = nat_ring_okD [OF ok] and len = follows_len [OF f ok c] and ph = rest_phases [OF ok away]
  have P: "b \<le> nr_head s" "nr_head s \<le> nr_tail s" "nr_tail s \<le> nr_head s + c" "nr_tail s = b + length (nr_accepted s)"
    using D(1) by (simp_all add: phases_ok_def)
  have slot: "ring_slot (cq_ring m) (rg_head (cq_ring m) + of_nat j) =
      \<lparr>qs_sequence = of_nat (nr_seq s ((nr_head s + j) mod c)), qs_storage = nr_store s ((nr_head s + j) mod c)\<rparr>" for j
    using follows_slot(1) [OF f c, of "nr_head s + j"] f by (simp add: follows_def)
  have seq: "nr_seq s ((nr_head s + j) mod c) = (if nr_head s + j < nr_tail s then nr_head s + j + 1 else nr_head s + j)"
    if "j < c" for j
  proof (cases "nr_head s + j < nr_tail s")
    case True
    then show ?thesis using D(2) P ph(1) [of "nr_head s + j"] by (simp add: slots_ok_def)
  next
    case False
    show ?thesis
    proof (cases "nr_head s + j < b + c")
      case True
      then show ?thesis using False D(2) by (simp add: slots_ok_def)
    next
      case wrap: False
      let ?p = "nr_head s + j - c"
      have p: "b \<le> ?p" "?p < nr_head s" "nr_tail s \<le> ?p + c" "nr_head s + j = ?p + c" using wrap that False by simp_all
      then have "nr_seq s (?p mod c) = ?p + c" using D(2) P ph(2) [of ?p] by (simp add: slots_ok_def)
      then show ?thesis using p(4) False by (metis mod_add_self2)
    qed
  qed
  have cap: "ring_capacity (cq_ring m) = c" "rg_head (cq_ring m) = of_nat (nr_head s)" using f by (simp_all add: follows_def)
  have "ring_ok (cq_ring m)"
    unfolding ring_ok_def slot cap(1) len
    using c P(3) seq by (auto simp: cap(2) add.assoc)
  moreover have "nr_store s ((nr_head s + j) mod c) = nr_accepted s ! (nr_head s - b + j)" if "j < nr_tail s - nr_head s" for j
    using that D(2) P ph(1) [of "nr_head s + j"] by (simp add: slots_ok_def item_at_def)
  then have "ring_contents (cq_ring m) = drop (nr_head s - b) (cq_accepted m)"
    using f P unfolding ring_contents_def slot len by (intro nth_equalityI) (simp_all add: follows_def)
  ultimately show ?thesis ..
qed

lemma rest_delivered:
  assumes ok: "nat_ring_ok c b s" and away: "\<And>t. nr_thread s t = Away"
  shows "length (nr_delivered s) = nr_head s - b \<and>
    mset (map snd (nr_delivered s)) = mset (take (nr_head s - b) (nr_accepted s))"
proof -
  note D = nat_ring_okD [OF ok] and ph = rest_phases [OF ok away]
  have P: "b \<le> nr_head s" "nr_head s \<le> nr_tail s" "nr_tail s = b + length (nr_accepted s)" using D(1) by (simp_all add: phases_ok_def)
  have "set (map fst (nr_delivered s)) = set [b..<nr_head s]"
    using D(3) ph(2) phases_facts(4) [OF D(1)] by (fastforce simp: delivered_ok_def)
  moreover have "distinct (map fst (nr_delivered s))" using D(3) by (simp add: delivered_ok_def)
  ultimately have pos: "mset (map fst (nr_delivered s)) = mset [b..<nr_head s]"
    by (metis distinct_upt set_eq_iff_mset_eq_distinct)
  have "map snd (nr_delivered s) = map (item_at b s) (map fst (nr_delivered s))"
    using D(3) by (auto simp: delivered_ok_def)
  then have "mset (map snd (nr_delivered s)) = image_mset (item_at b s) (mset (map fst (nr_delivered s)))"
    by (metis mset_map)
  also have "\<dots> = mset (map (item_at b s) [b..<nr_head s])" unfolding pos by simp
  also have "map (item_at b s) [b..<nr_head s] = take (nr_head s - b) (nr_accepted s)"
    using P by (intro nth_equalityI) (simp_all add: item_at_def)
  finally show ?thesis using arg_cong [OF pos, of size] by simp
qed

lemma away_when_stuck:
  "t < length (cq_threads m) \<Longrightarrow> mpmc_step weak t m = None \<Longrightarrow> cq_threads m ! t = Away \<or> (\<exists>p. cq_threads m ! t = Deq_advance p)"
  by (cases "cq_threads m ! t") (auto simp: mpmc_step_def enqueue_step_def mpmc_dequeue_step_def Let_def)

lemma mpmc_at_rest:
  assumes "mpmc_reachable q0 n m" and "ring_ok q0" and "length (cq_accepted m) < 2 ^ 62" and "\<forall>t. mpmc_step False t m = None"
  shows "ring_ok (cq_ring m) \<and> ring_contents (cq_ring m) = drop (length (cq_delivered m)) (cq_accepted m) \<and>
    mset (map snd (cq_delivered m)) = mset (take (length (cq_delivered m)) (cq_accepted m))"
proof -
  obtain s where s: "follows n (ring_capacity q0) s m" "nat_ring_ok (ring_capacity q0) (unat (rg_head q0)) s"
    using mpmc_follows_from [OF assms(1-3)] by (auto simp: follows_from_def)
  have c: "capacity_ok (ring_capacity q0)" using assms(2) by (simp add: ring_ok_def)
  have away: "nr_thread s t = Away" for t
  proof (cases "t < n")
    case True
    then have "map_ring_pc of_nat id (nr_thread s t) = (Away :: (QueueSequence, 'a) ring_pc) \<or>
        (\<exists>p. map_ring_pc of_nat id (nr_thread s t) = (Deq_advance p :: (QueueSequence, 'a) ring_pc))"
      using s(1) away_when_stuck [of t m False] assms(4) by (simp add: follows_def)
    then show ?thesis using nat_ring_okD(4) [OF s(2), of t] by (cases "nr_thread s t") simp_all
  qed (use s(1) in \<open>simp add: follows_def\<close>)
  have D: "length (cq_delivered m) = nr_head s - unat (rg_head q0)" "map snd (cq_delivered m) = map snd (nr_delivered s)"
    "cq_accepted m = nr_accepted s"
    using s(1) rest_delivered [OF s(2) away] by (simp_all add: follows_def)
  then show ?thesis using rest_ring [OF s(1,2) c away] rest_delivered [OF s(2) away] D by simp
qed

text \<open>C8. Calls return, whatever the schedule: with no new calls, and a compare-and-swap that fails only
  when the values differ, no execution goes on for ever, however the threads are scheduled; and where no
  thread can step the queue is a consistent ring that holds the accepted items except those handed out,
  in order, and those handed out are the first accepted, each once.\<close>

theorem mpmc_calls_return:
  assumes "ring_ok q0"
  shows "wf {(m', m). (\<exists>n. mpmc_reachable q0 n m) \<and> length (cq_accepted m) < 2 ^ 62 \<and> (\<exists>t. mpmc_step False t m = Some m')} \<and>
    (\<forall>n m. mpmc_reachable q0 n m \<and> length (cq_accepted m) < 2 ^ 62 \<and> (\<forall>t. mpmc_step False t m = None) \<longrightarrow>
      ring_ok (cq_ring m) \<and> ring_contents (cq_ring m) = drop (length (cq_delivered m)) (cq_accepted m) \<and>
      mset (map snd (cq_delivered m)) = mset (take (length (cq_delivered m)) (cq_accepted m)))"
proof (rule conjI)
  show "wf {(m', m). (\<exists>n. mpmc_reachable q0 n m) \<and> length (cq_accepted m) < 2 ^ 62 \<and> (\<exists>t. mpmc_step False t m = Some m')}"
    by (rule wf_subset [OF wf_measures])
      (use mpmc_follows_from [OF _ assms] mpmc_step_decreases [OF _ assms] in blast)
qed (use mpmc_at_rest [OF _ assms] in blast)

section \<open>Witnesses\<close>

datatype 'a queue_event = Run nat | Call_enqueue nat 'a | Call_dequeue nat

fun queue_event_step :: "(nat \<Rightarrow> 'a concurrent_queue \<Rightarrow> 'a concurrent_queue option) \<Rightarrow> 'a queue_event \<Rightarrow> 'a concurrent_queue
    \<Rightarrow> 'a concurrent_queue option" where
  "queue_event_step step (Run t) m = step t m"
| "queue_event_step step (Call_enqueue t x) m =
     (if t < length (cq_threads m) \<and> cq_threads m ! t = Away then Some (cq_goto t (Enq_load x) m) else None)"
| "queue_event_step step (Call_dequeue t) m =
     (if t < length (cq_threads m) \<and> cq_threads m ! t = Away then Some (cq_goto t Deq_load m) else None)"

fun run_queue_events :: "(nat \<Rightarrow> 'a concurrent_queue \<Rightarrow> 'a concurrent_queue option) \<Rightarrow> 'a queue_event list \<Rightarrow> 'a concurrent_queue
    \<Rightarrow> 'a concurrent_queue option" where
  "run_queue_events step [] m = Some m"
| "run_queue_events step (e # es) m = Option.bind (queue_event_step step e m) (run_queue_events step es)"

lemma mpmc_step_length: "mpmc_step weak t m = Some m' \<Longrightarrow> length (cq_threads m') = length (cq_threads m)"
  by (auto simp: mpmc_step_def enqueue_step_def mpmc_dequeue_step_def Let_def cq_goto_def
      split: if_splits option.splits ring_pc.splits)

lemma run_queue_events_reachable:
  assumes "mpmc_reachable q0 n m" and "length (cq_threads m) = n" and "run_queue_events (mpmc_step False) es m = Some m'"
  shows "mpmc_reachable q0 n m'"
  using assms
proof (induction es arbitrary: m)
  case (Cons e es)
  obtain m1 where m1: "queue_event_step (mpmc_step False) e m = Some m1" "run_queue_events (mpmc_step False) es m1 = Some m'"
    using Cons.prems(3) by (auto split: bind_splits)
  have "mpmc_reachable q0 n m1 \<and> length (cq_threads m1) = n"
  proof (cases e)
    case (Run t)
    then show ?thesis using Cons.prems m1(1) mpmc_step_length by (auto intro: mpmc_reachable.step)
  next
    case (Call_enqueue t x)
    then show ?thesis
      using Cons.prems m1(1) by (auto split: if_splits intro: mpmc_reachable.call_enqueue simp: cq_goto_def [symmetric]) (auto simp: cq_goto_def)
  next
    case (Call_dequeue t)
    then show ?thesis
      using Cons.prems m1(1) by (auto split: if_splits intro: mpmc_reachable.call_dequeue simp: cq_goto_def [symmetric]) (auto simp: cq_goto_def)
  qed
  then show ?case using Cons.IH m1(2) by blast
qed simp

lemma run_queue_events_new:
  assumes "case run_queue_events (mpmc_step False) es (cq_new q0 n) of None \<Rightarrow> False | Some m \<Rightarrow> P m"
  shows "\<exists>m. mpmc_reachable q0 n m \<and> P m"
proof -
  have "length (cq_threads (cq_new q0 n)) = n" by (simp add: cq_new_def)
  from run_queue_events_reachable [OF mpmc_reachable.start this, of es] show ?thesis
    using assms by (cases "run_queue_events (mpmc_step False) es (cq_new q0 n)") auto
qed

text \<open>Two producers find the same slot free, across the wrap-around of the counters; one of them retries.\<close>

definition two_producers :: "nat queue_event list" where
  "two_producers = [Call_enqueue 0 4, Call_enqueue 1 5, Run 0, Run 1, Run 0, Run 1, Run 0, Run 1, Run 1, Run 1]"

lemma two_producers_run:
  "case run_queue_events (mpmc_step False) two_producers (cq_new wrapping_ring 3) of None \<Rightarrow> False
   | Some m \<Rightarrow> cq_threads m = [Enq_store 4 (- 1), Enq_store 5 0, Away] \<and> cq_accepted m = [4, 5]"
  by code_simp

lemma late_producer_run:
  "case run_queue_events (mpmc_step False) (two_producers @ [Run 1, Run 1, Call_dequeue 2, Run 2]) (cq_new wrapping_ring 3) of None \<Rightarrow> False
   | Some m \<Rightarrow> cq_threads m = [Enq_store 4 (- 1), Away, Deq_seq (- 1)] \<and> cq_accepted m = [4, 5] \<and>
       seq_diff (qs_sequence (ring_slot (cq_ring m) (- 1))) (- 1 + 1) < 0"
  by code_simp

lemma consumer_run:
  "case run_queue_events (mpmc_step False)
      (two_producers @ [Run 0, Run 0, Run 1, Run 1, Call_dequeue 2, Run 2, Run 2, Run 2, Run 2, Run 2]) (cq_new wrapping_ring 3) of None \<Rightarrow> False
   | Some m \<Rightarrow> cq_threads m = [Away, Away, Away] \<and> cq_accepted m = [4, 5] \<and> cq_delivered m = [(- 1, 4)]"
  by code_simp

theorem mpmc_race_free_witness:
  "\<exists>m. mpmc_reachable wrapping_ring 3 m \<and> cq_threads m = [Enq_store 4 (- 1), Enq_store 5 0, Away] \<and>
    slot_index 2 (- 1) \<noteq> slot_index 2 0"
proof -
  obtain m where m: "mpmc_reachable wrapping_ring 3 m" "cq_threads m = [Enq_store 4 (- 1), Enq_store 5 0, Away]" "cq_accepted m = [4, 5]"
    using run_queue_events_new [OF two_producers_run] by blast
  have "slot_index (ring_capacity wrapping_ring) (- 1) \<noteq> slot_index (ring_capacity wrapping_ring) 0"
    using mpmc_race_free [OF m(1) wrapping_ring_ok(1)] m(2,3) by (auto simp: numeral_3_eq_3 All_less_Suc)
  then show ?thesis using m(1,2) wrapping_ring_ok(3) by (intro exI [of _ m]) simp
qed

theorem mpmc_refusals_witness:
  "\<exists>m. mpmc_reachable wrapping_ring 3 m \<and> cq_threads m = [Enq_store 4 (- 1), Away, Deq_seq (- 1)] \<and> rg_head (cq_ring m) = - 1 \<and>
    (ring_len (cq_ring m) = 0 \<or> (\<exists>u < 3. writing_at (cq_threads m ! u) = Some (- 1)))"
proof -
  obtain m where m: "mpmc_reachable wrapping_ring 3 m" "cq_threads m = [Enq_store 4 (- 1), Away, Deq_seq (- 1)]" "cq_accepted m = [4, 5]"
    "seq_diff (qs_sequence (ring_slot (cq_ring m) (- 1))) (- 1 + 1) < 0"
    using run_queue_events_new [OF late_producer_run] by blast
  have "length (cq_accepted m) < 2 ^ 62" "2 < (3 :: nat)" "cq_threads m ! 2 = Deq_seq (- 1)" using m(2,3) by simp_all
  then show ?thesis
    using mpmc_refusals [OF m(1) wrapping_ring_ok(1), of 2] m(1,2,4) by (intro exI [of _ m]) metis
qed

theorem mpmc_calls_return_witness:
  "\<exists>m. mpmc_reachable wrapping_ring 3 m \<and> cq_delivered m = [(- 1, 4)] \<and> ring_ok (cq_ring m) \<and> ring_contents (cq_ring m) = [5]"
proof -
  obtain m where m: "mpmc_reachable wrapping_ring 3 m" "cq_threads m = [Away, Away, Away]" "cq_accepted m = [4, 5]" "cq_delivered m = [(- 1, 4)]"
    using run_queue_events_new [OF consumer_run] by blast
  have "mpmc_step False t m = None" for t
    using m(2) by (cases t rule: nat.exhaust; auto simp: mpmc_step_def enqueue_step_def mpmc_dequeue_step_def Let_def less_Suc_eq nth_Cons')
  moreover have "length (cq_accepted m) < 2 ^ 62" using m(3) by simp
  ultimately have "ring_ok (cq_ring m)" "ring_contents (cq_ring m) = drop (length (cq_delivered m)) (cq_accepted m)"
    using mpmc_calls_return [OF wrapping_ring_ok(1)] m(1) by blast+
  then show ?thesis using m by auto
qed

end
