(* ===== verification/Ring_Consumer.thy ===== *)
theory Ring_Consumer
  imports Ring_Concurrent
begin

text \<open>
  \<open>MPSCQueue\<close> with its producers and its only consumer interleaved. The consumer claims nothing: it
  reads the head that only it writes, and advances it after the slot has been released. Its steps refine
  those of \<open>MPMCQueue\<close>: a head that is about to be advanced counts as advanced from the moment the item
  was found. What theory Ring_Concurrent proves carries over, and the items come out in order.
\<close>

section \<open>The steps of MPSCQueue\<close>

definition mpsc_dequeue_step :: "nat \<Rightarrow> 'a concurrent_queue \<Rightarrow> 'a concurrent_queue option" where
  "mpsc_dequeue_step t m =
     (let q = cq_ring m in
      case cq_threads m ! t of
        Deq_load \<Rightarrow> Some (cq_goto t (Deq_seq (rg_head q)) m)
      | Deq_seq deqPos \<Rightarrow>
          let diff = seq_diff (qs_sequence (ring_slot q deqPos)) (deqPos + 1) in
          Some (cq_goto t (if diff = 0 then Deq_read deqPos else Away) m)
      | Deq_read deqPos \<Rightarrow> Some (cq_goto t (Deq_publish deqPos (qs_storage (ring_slot q deqPos))) m)
      | Deq_publish deqPos out \<Rightarrow>
          Some (cq_goto t (Deq_advance deqPos)
            (m\<lparr>cq_ring := ring_set q deqPos ((ring_slot q deqPos)\<lparr>qs_sequence := deqPos + of_nat (ring_capacity q)\<rparr>),
               cq_delivered := cq_delivered m @ [(deqPos, out)]\<rparr>))
      | Deq_advance deqPos \<Rightarrow> Some (cq_goto t Away (m\<lparr>cq_ring := q\<lparr>rg_head := deqPos + 1\<rparr>\<rparr>))
      | _ \<Rightarrow> None)"

definition mpsc_step :: "bool \<Rightarrow> nat \<Rightarrow> 'a concurrent_queue \<Rightarrow> 'a concurrent_queue option" where
  "mpsc_step weak t m =
     (if t \<ge> length (cq_threads m) then None
      else case enqueue_step weak t m of Some m' \<Rightarrow> Some m' | None \<Rightarrow> mpsc_dequeue_step t m)"

text \<open>Any thread may enqueue; thread 0 is the consumer.\<close>

inductive mpsc_reachable :: "'a ring \<Rightarrow> nat \<Rightarrow> 'a concurrent_queue \<Rightarrow> bool" for q0 :: "'a ring" and n :: nat where
  start: "mpsc_reachable q0 n (cq_new q0 n)"
| step: "mpsc_reachable q0 n m \<Longrightarrow> mpsc_step weak t m = Some m' \<Longrightarrow> mpsc_reachable q0 n m'"
| call_enqueue: "mpsc_reachable q0 n m \<Longrightarrow> t < n \<Longrightarrow> cq_threads m ! t = Away \<Longrightarrow>
    mpsc_reachable q0 n (cq_goto t (Enq_load x) m)"
| call_dequeue: "mpsc_reachable q0 n m \<Longrightarrow> 0 < n \<Longrightarrow> cq_threads m ! 0 = Away \<Longrightarrow>
    mpsc_reachable q0 n (cq_goto 0 Deq_load m)"

section \<open>Refinement of MPMCQueue\<close>

fun consumer_head :: "QueueSequence \<Rightarrow> (QueueSequence, 'a) ring_pc \<Rightarrow> QueueSequence" where
  "consumer_head h (Deq_read p) = p + 1"
| "consumer_head h (Deq_publish p x) = p + 1"
| "consumer_head h (Deq_advance p) = p + 1"
| "consumer_head h _ = h"

fun forget_advance :: "(QueueSequence, 'a) ring_pc \<Rightarrow> (QueueSequence, 'a) ring_pc" where
  "forget_advance (Deq_advance p) = Away"
| "forget_advance pc = pc"

definition as_mpmc :: "'a concurrent_queue \<Rightarrow> 'a concurrent_queue" where
  "as_mpmc m =
     m\<lparr>cq_ring := (cq_ring m)\<lparr>rg_head := consumer_head (rg_head (cq_ring m)) (cq_threads m ! 0)\<rparr>,
       cq_threads := (cq_threads m)[0 := forget_advance (cq_threads m ! 0)]\<rparr>"

fun consuming :: "('p, 'a) ring_pc \<Rightarrow> bool" where
  "consuming Away = False"
| "consuming (Enq_load x) = False"
| "consuming (Enq_seq x p) = False"
| "consuming (Enq_cas x p) = False"
| "consuming (Enq_store x p) = False"
| "consuming (Enq_publish p) = False"
| "consuming _ = True"

fun consumer_at :: "'p \<Rightarrow> ('p, 'a) ring_pc \<Rightarrow> bool" where
  "consumer_at h (Deq_seq p) \<longleftrightarrow> p = h"
| "consumer_at h (Deq_cas p) \<longleftrightarrow> False"
| "consumer_at h (Deq_read p) \<longleftrightarrow> p = h"
| "consumer_at h (Deq_publish p x) \<longleftrightarrow> p = h"
| "consumer_at h (Deq_advance p) \<longleftrightarrow> p = h"
| "consumer_at h _ \<longleftrightarrow> True"

fun advancing :: "('p, 'a) ring_pc \<Rightarrow> nat" where
  "advancing (Deq_advance p) = 1"
| "advancing _ = 0"

text \<open>One consumer, at the head; it has been given the positions from the start on, in order.\<close>

definition single_ok :: "QueueSequence \<Rightarrow> nat \<Rightarrow> 'a concurrent_queue \<Rightarrow> bool" where
  "single_ok h0 n m \<longleftrightarrow> length (cq_threads m) = n \<and> (\<forall>t < n. 0 < t \<longrightarrow> \<not> consuming (cq_threads m ! t)) \<and>
     consumer_at (rg_head (cq_ring m)) (cq_threads m ! 0) \<and>
     map fst (cq_delivered m) = map (\<lambda>k. h0 + of_nat k) [0..<length (cq_delivered m)] \<and>
     h0 + of_nat (length (cq_delivered m)) = rg_head (cq_ring m) + of_nat (advancing (cq_threads m ! 0))"

lemma as_mpmc_simps [simp]:
  "length (cq_threads (as_mpmc m)) = length (cq_threads m)" "cq_accepted (as_mpmc m) = cq_accepted m"
  "cq_delivered (as_mpmc m) = cq_delivered m" "rg_tail (cq_ring (as_mpmc m)) = rg_tail (cq_ring m)"
  "rg_slots (cq_ring (as_mpmc m)) = rg_slots (cq_ring m)" "ring_slot (cq_ring (as_mpmc m)) p = ring_slot (cq_ring m) p"
  by (simp_all add: as_mpmc_def ring_slot_def)

lemma as_mpmc_thread: "t < length (cq_threads m) \<Longrightarrow> cq_threads (as_mpmc m) ! t =
    (if t = 0 then forget_advance (cq_threads m ! 0) else cq_threads m ! t)"
  by (cases "t = 0") (auto simp: as_mpmc_def)

lemma as_mpmc_head: "rg_head (cq_ring (as_mpmc m)) = consumer_head (rg_head (cq_ring m)) (cq_threads m ! 0)"
  by (simp add: as_mpmc_def)

lemma queue_eqI:
  "rg_slots (cq_ring m) = rg_slots (cq_ring m') \<Longrightarrow> rg_head (cq_ring m) = rg_head (cq_ring m') \<Longrightarrow>
   rg_tail (cq_ring m) = rg_tail (cq_ring m') \<Longrightarrow> cq_threads m = cq_threads m' \<Longrightarrow> cq_accepted m = cq_accepted m' \<Longrightarrow>
   cq_delivered m = cq_delivered m' \<Longrightarrow> (m :: 'a concurrent_queue) = m'"
  by (cases m; cases m'; cases "cq_ring m"; cases "cq_ring m'") simp

lemma not_consuming [simp]:
  "\<not> consuming pc \<Longrightarrow> consumer_head h pc = h" "\<not> consuming pc \<Longrightarrow> forget_advance pc = pc"
  "\<not> consuming pc \<Longrightarrow> advancing pc = 0" "\<not> consuming pc \<Longrightarrow> consumer_at h pc"
  by (cases pc; simp)+

lemma as_mpmc_goto:
  assumes "t < length (cq_threads m)" and "\<not> consuming (cq_threads m ! t)" and "\<not> consuming pc"
  shows "as_mpmc (cq_goto t pc m) = cq_goto t pc (as_mpmc m)"
proof (cases "t = 0")
  case True
  then show ?thesis using assms by (auto intro!: queue_eqI simp: as_mpmc_def cq_goto_def)
next
  case False
  then show ?thesis by (simp add: as_mpmc_def cq_goto_def list_update_swap)
qed

lemma as_mpmc_enqueue:
  assumes t: "t < length (cq_threads m)" and step: "enqueue_step weak t m = Some m'"
  shows "enqueue_step weak t (as_mpmc m) = Some (as_mpmc m') \<and> \<not> consuming (cq_threads m ! t)"
proof -
  have pc: "\<not> consuming (cq_threads m ! t)"
    using step by (cases "cq_threads m ! t") (auto simp: enqueue_step_def)
  then have at: "cq_threads (as_mpmc m) ! t = cq_threads m ! t" using t by (auto simp: as_mpmc_thread)
  have ring: "as_mpmc (m\<lparr>cq_ring := ring_set (cq_ring m) p v\<rparr>) = (as_mpmc m)\<lparr>cq_ring := ring_set (cq_ring (as_mpmc m)) p v\<rparr>" for p v
    by (rule queue_eqI) (simp_all add: as_mpmc_def ring_set_def)
  have claim: "as_mpmc (m\<lparr>cq_ring := (cq_ring m)\<lparr>rg_tail := p\<rparr>, cq_accepted := xs\<rparr>)
      = (as_mpmc m)\<lparr>cq_ring := (cq_ring (as_mpmc m))\<lparr>rg_tail := p\<rparr>, cq_accepted := xs\<rparr>" for p xs
    by (rule queue_eqI) (simp_all add: as_mpmc_def)
  have threads: "cq_threads (m\<lparr>cq_ring := q\<rparr>) = cq_threads m" "cq_threads (m\<lparr>cq_ring := q, cq_accepted := xs\<rparr>) = cq_threads m" for q xs
    by simp_all
  note goto = as_mpmc_goto [where t = t]
  have "enqueue_step weak t (as_mpmc m) = Some (as_mpmc m')"
  proof (cases "cq_threads m ! t")
    case (Enq_seq x p)
    then show ?thesis using step t pc at goto [of m] by (auto simp: enqueue_step_def Let_def)
  next
    case (Enq_cas x p)
    then show ?thesis
      using step t pc at goto [of m] goto [of "m\<lparr>cq_ring := (cq_ring m)\<lparr>rg_tail := p + 1\<rparr>, cq_accepted := cq_accepted m @ [x]\<rparr>"]
      by (auto simp: enqueue_step_def Let_def claim)
  next
    case (Enq_store x p)
    then show ?thesis
      using step t pc at goto [of "m\<lparr>cq_ring := ring_set (cq_ring m) p ((ring_slot (cq_ring m) p)\<lparr>qs_storage := x\<rparr>)\<rparr>"]
      by (auto simp: enqueue_step_def Let_def ring)
  next
    case (Enq_publish p)
    then show ?thesis
      using step t pc at goto [of "m\<lparr>cq_ring := ring_set (cq_ring m) p ((ring_slot (cq_ring m) p)\<lparr>qs_sequence := p + 1\<rparr>)\<rparr>"]
      by (auto simp: enqueue_step_def Let_def ring)
  qed (use step t pc at goto [of m] in \<open>auto simp: enqueue_step_def Let_def\<close>)
  then show ?thesis using pc by simp
qed

lemma enqueue_single:
  assumes ok: "single_ok h0 n m" and t: "t < length (cq_threads m)" and step: "enqueue_step weak t m = Some m'"
  shows "single_ok h0 n m'"
proof -
  have pc: "\<not> consuming (cq_threads m ! t)" using as_mpmc_enqueue [OF t step] by simp
  obtain pc' where m': "cq_threads m' = (cq_threads m)[t := pc']" "rg_head (cq_ring m') = rg_head (cq_ring m)"
      "cq_delivered m' = cq_delivered m" "\<not> consuming pc'"
    using step by (cases "cq_threads m ! t") (auto simp: enqueue_step_def Let_def cq_goto_def split: if_splits)
  have "consumer_at (rg_head (cq_ring m)) (cq_threads m' ! 0)" "advancing (cq_threads m' ! 0) = advancing (cq_threads m ! 0)"
    using ok m'(1,4) pc t by (cases "t = 0"; simp add: single_ok_def)+
  moreover have "\<not> consuming (cq_threads m' ! u)" if "u < n" "0 < u" for u
    using ok m'(1,4) that by (cases "u = t") (simp_all add: single_ok_def)
  ultimately show ?thesis using ok m'(1-3) unfolding single_ok_def by simp
qed

lemma consumer_thread:
  assumes "single_ok h0 n m" and "t < n" and "consuming (cq_threads m ! t)"
  shows "t = 0"
  using assms by (auto simp: single_ok_def)

lemma as_mpmc_dequeue:
  assumes ok: "single_ok h0 n m" and t: "t < length (cq_threads m)" and step: "mpsc_dequeue_step t m = Some m'"
    and test: "\<And>pos. cq_threads m ! 0 = Deq_seq pos \<Longrightarrow> seq_diff (qs_sequence (ring_slot (cq_ring m) pos)) (pos + 1) \<le> 0"
  shows "mpmc_step False 0 (as_mpmc m) = Some (as_mpmc m') \<or>
    (\<exists>mid. mpmc_step False 0 (as_mpmc m) = Some mid \<and> cq_accepted mid = cq_accepted m \<and>
      mpmc_step False 0 mid = Some (as_mpmc m')) \<or>
    as_mpmc m' = as_mpmc m \<and> (\<exists>p. cq_threads m ! 0 = Deq_advance p) \<and> cq_threads m' ! 0 = Away"
proof -
  have "consuming (cq_threads m ! t)" using step by (cases "cq_threads m ! t") (auto simp: mpsc_dequeue_step_def)
  then have t0: "t = 0" using consumer_thread [OF ok] t ok by (simp add: single_ok_def)
  have n: "0 < length (cq_threads m)" using t t0 by simp
  have ne: "cq_threads (as_mpmc m) \<noteq> []" using n by (simp add: as_mpmc_def)
  have h: "consumer_at (rg_head (cq_ring m)) (cq_threads m ! 0)" using ok by (simp add: single_ok_def)
  note step = step [unfolded mpsc_dequeue_step_def Let_def t0] and at = as_mpmc_thread [OF n]
  note defs = mpmc_step_def enqueue_step_def mpmc_dequeue_step_def Let_def as_mpmc_head
  let ?one = "mpmc_step False 0 (as_mpmc m) = Some (as_mpmc m')"
  show ?thesis
  proof (cases "cq_threads m ! 0")
    case Deq_load
    then have "?one" using step n at by (auto simp: defs cq_goto_def intro!: queue_eqI) (simp_all add: as_mpmc_def)
    then show ?thesis ..
  next
    case (Deq_seq p)
    show ?thesis
    proof (cases "seq_diff (qs_sequence (ring_slot (cq_ring m) p)) (p + 1) = 0")
      case True
      let ?mid = "cq_goto 0 (Deq_cas p) (as_mpmc m)"
      have "mpmc_step False 0 (as_mpmc m) = Some ?mid" "cq_accepted ?mid = cq_accepted m"
        using Deq_seq n ne at True by (simp_all add: defs) (simp add: cq_goto_def)
      moreover have "mpmc_step False 0 ?mid = Some (as_mpmc m')"
        using Deq_seq step n at True h
        by (auto simp: defs cq_goto_def intro!: queue_eqI) (simp_all add: as_mpmc_def)
      ultimately show ?thesis by blast
    next
      case False
      then have "seq_diff (qs_sequence (ring_slot (cq_ring m) p)) (p + 1) < 0" using test [OF Deq_seq] by simp
      then have "?one"
        using Deq_seq step n at by (auto simp: defs cq_goto_def intro!: queue_eqI) (simp_all add: as_mpmc_def)
      then show ?thesis ..
    qed
  next
    case (Deq_read p)
    then have "?one"
      using step n at by (auto simp: defs cq_goto_def intro!: queue_eqI) (simp_all add: as_mpmc_def)
    then show ?thesis ..
  next
    case (Deq_publish p x)
    then have "?one"
      using step n at by (auto simp: defs cq_goto_def intro!: queue_eqI) (simp_all add: as_mpmc_def ring_set_def)
    then show ?thesis ..
  next
    case (Deq_advance p)
    then have "as_mpmc m' = as_mpmc m"
      using step n by (auto simp: cq_goto_def as_mpmc_def intro!: queue_eqI)
    then show ?thesis using Deq_advance step n by (auto simp: cq_goto_def)
  qed (use step in auto)
qed

lemma dequeue_single:
  assumes ok: "single_ok h0 n m" and t: "t < length (cq_threads m)" and step: "mpsc_dequeue_step t m = Some m'"
  shows "single_ok h0 n m'"
proof -
  have "consuming (cq_threads m ! t)" using step by (cases "cq_threads m ! t") (auto simp: mpsc_dequeue_step_def)
  then have t0: "t = 0" using consumer_thread [OF ok] t ok by (simp add: single_ok_def)
  have n: "0 < length (cq_threads m)" using t t0 by simp
  note step = step [unfolded mpsc_dequeue_step_def Let_def t0]
  show ?thesis
  proof (cases "cq_threads m ! 0")
    case (Deq_publish p x)
    then show ?thesis
      using ok step n by (auto simp: single_ok_def cq_goto_def add.assoc [symmetric])
  qed (use ok step n in \<open>auto simp: single_ok_def cq_goto_def\<close>)
qed

lemma single_call:
  assumes ok: "single_ok h0 n m" and t: "t < n" and away: "cq_threads m ! t = Away"
    and pc: "pc = Deq_load \<and> t = 0 \<or> (\<exists>x. pc = Enq_load x)"
  shows "single_ok h0 n (cq_goto t pc m)" and "as_mpmc (cq_goto t pc m) = cq_goto t pc (as_mpmc m)"
    and "cq_threads (as_mpmc m) ! t = Away"
proof -
  have len: "t < length (cq_threads m)" using ok t by (simp add: single_ok_def)
  then show "single_ok h0 n (cq_goto t pc m)"
    using ok away pc by (auto simp: single_ok_def cq_goto_def nth_list_update)
  show "cq_threads (as_mpmc m) ! t = Away" using len away by (auto simp: as_mpmc_thread)
  show "as_mpmc (cq_goto t pc m) = cq_goto t pc (as_mpmc m)"
  proof (cases "consuming pc")
    case True
    then have "pc = Deq_load" "t = 0" using pc by auto
    then show ?thesis using len away by (auto intro!: queue_eqI simp: as_mpmc_def cq_goto_def)
  next
    case False
    then show ?thesis using as_mpmc_goto [OF len] away by simp
  qed
qed

lemma mpsc_accepted: "mpsc_step weak t m = Some m' \<Longrightarrow> length (cq_accepted m) \<le> length (cq_accepted m')"
  by (auto simp: mpsc_step_def enqueue_step_def mpsc_dequeue_step_def Let_def cq_goto_def
      split: if_splits option.splits ring_pc.splits)

text \<open>The consumer never finds a slot ahead of its head.\<close>

lemma consumer_test:
  assumes "mpmc_reachable q0 n (as_mpmc m)" and "ring_ok q0" and "length (cq_accepted m) < 2 ^ 62" and "0 < n"
    and "single_ok h0 n m" and "cq_threads m ! 0 = Deq_seq pos"
  shows "seq_diff (qs_sequence (ring_slot (cq_ring m) pos)) (pos + 1) \<le> 0"
proof -
  obtain s where s: "follows_from q0 n s (as_mpmc m)" using mpmc_follows_from [OF assms(1,2)] assms(3) by auto
  have pos: "pos = rg_head (cq_ring m)" "0 < length (cq_threads m)" using assms(4-6) by (simp_all add: single_ok_def)
  then have "cq_threads (as_mpmc m) ! 0 = Deq_seq (rg_head (cq_ring (as_mpmc m)))"
    using assms(6) as_mpmc_thread [of 0 m] by (simp add: as_mpmc_head)
  from fresh_tests(2) [OF s assms(2) _ assms(4) this] assms(3,6) pos(1) show ?thesis by (simp add: as_mpmc_head)
qed

lemma mpsc_refines:
  assumes "mpsc_reachable q0 n m" and "ring_ok q0" and "0 < n" and "length (cq_accepted m) < 2 ^ 62"
  shows "single_ok (rg_head q0) n m \<and> mpmc_reachable q0 n (as_mpmc m)"
  using assms(1,4)
proof (induction rule: mpsc_reachable.induct)
  case start
  have "as_mpmc (cq_new q0 n) = cq_new q0 n"
    using assms(3) by (cases n) (auto intro!: queue_eqI simp: as_mpmc_def cq_new_def)
  moreover have "single_ok (rg_head q0) n (cq_new q0 n)" using assms(3) by (simp add: single_ok_def cq_new_def)
  ultimately show ?case using mpmc_reachable.start by simp
next
  case (step m weak t m')
  have len: "length (cq_accepted m) < 2 ^ 62" using mpsc_accepted [OF step.hyps(2)] step.prems by simp
  then have IH: "single_ok (rg_head q0) n m" "mpmc_reachable q0 n (as_mpmc m)" using step.IH by simp_all
  have t: "t < length (cq_threads m)" using step.hyps(2) by (simp add: mpsc_step_def split: if_splits)
  show ?case
  proof (cases "enqueue_step weak t m")
    case None
    then have d: "mpsc_dequeue_step t m = Some m'" using step.hyps(2) t by (simp add: mpsc_step_def)
    have "mpmc_reachable q0 n (as_mpmc m')"
      using as_mpmc_dequeue [OF IH(1) t d consumer_test [OF IH(2) assms(2) len assms(3) IH(1)]] IH(2)
      by (metis mpmc_reachable.step)
    then show ?thesis using dequeue_single [OF IH(1) t d] by simp
  next
    case (Some m1)
    then have e: "enqueue_step weak t m = Some m'" using step.hyps(2) t by (simp add: mpsc_step_def)
    have "mpmc_step weak t (as_mpmc m) = Some (as_mpmc m')"
      using as_mpmc_enqueue [OF t e] t by (simp add: mpmc_step_def)
    then show ?thesis using enqueue_single [OF IH(1) t e] IH(2) mpmc_reachable.step by blast
  qed
next
  case (call_enqueue m t x)
  then have "single_ok (rg_head q0) n m" "mpmc_reachable q0 n (as_mpmc m)" by (simp_all add: cq_goto_def)
  then show ?case
    using single_call [of "rg_head q0" n m t "Enq_load x"] call_enqueue mpmc_reachable.call_enqueue by fastforce
next
  case (call_dequeue m)
  then have "single_ok (rg_head q0) n m" "mpmc_reachable q0 n (as_mpmc m)" by (simp_all add: cq_goto_def)
  then show ?case
    using single_call [of "rg_head q0" n m 0 Deq_load] call_dequeue mpmc_reachable.call_dequeue by fastforce
qed

section \<open>Properties\<close>

lemma touches_forget [simp]: "touches (forget_advance pc) = touches pc"
  by (cases pc) simp_all

text \<open>C7. With any number of producers inside \<open>Enqueue\<close> and one consumer inside \<open>Dequeue\<close>: no two threads
  are about to access the storage of the same slot, and what \<open>Dequeue\<close> has handed out is, at every
  moment, the beginning of what \<open>Enqueue\<close> accepted, in the same order.\<close>

theorem mpsc_delivers_in_order:
  assumes "mpsc_reachable q0 n m" and "ring_ok q0" and "0 < n" and "length (cq_accepted m) < 2 ^ 62"
  shows "(\<forall>t < n. \<forall>u < n. \<forall>p r. t \<noteq> u \<and> touches (cq_threads m ! t) = Some p \<and> touches (cq_threads m ! u) = Some r
      \<longrightarrow> slot_index (ring_capacity q0) p \<noteq> slot_index (ring_capacity q0) r) \<and>
    map snd (cq_delivered m) = take (length (cq_delivered m)) (cq_accepted m)"
proof -
  have s: "single_ok (rg_head q0) n m" "mpmc_reachable q0 n (as_mpmc m)" using mpsc_refines [OF assms] by simp_all
  have n: "length (cq_threads m) = n" using s(1) by (simp add: single_ok_def)
  have "length (cq_accepted (as_mpmc m)) < 2 ^ 62" using assms(4) by simp
  note safe = mpmc_safe [OF s(2) assms(2) this]
  have same: "touches (cq_threads (as_mpmc m) ! t) = touches (cq_threads m ! t)" if "t < n" for t
    using that n by (simp add: as_mpmc_thread)
  obtain ks where ks: "distinct ks" "\<forall>k \<in> set ks. k < length (cq_accepted m)"
    "cq_delivered m = map (\<lambda>k. (rg_head q0 + of_nat k, cq_accepted m ! k)) ks"
    using safe by auto
  have len: "length ks \<le> length (cq_accepted m)"
    using card_mono [of "{..< length (cq_accepted m)}" "set ks"] ks(1,2) by (auto simp: distinct_card)
  have "map fst (cq_delivered m) = map (\<lambda>k. rg_head q0 + of_nat k) [0..<length (cq_delivered m)]"
    using s(1) by (simp add: single_ok_def)
  then have words: "map (\<lambda>k. rg_head q0 + of_nat k) ks = map (\<lambda>k. rg_head q0 + of_nat k) [0..<length ks]"
    unfolding ks(3) by (simp add: comp_def)
  have "ks ! i = i" if i: "i < length ks" for i
  proof -
    have "rg_head q0 + of_nat (ks ! i) = rg_head q0 + of_nat i" using arg_cong [OF words, of "\<lambda>xs. xs ! i"] i by simp
    moreover have "ks ! i < length (cq_accepted m)" using ks(2) nth_mem [OF i] by blast
    then have "ks ! i < 2 ^ 62" "i < 2 ^ 62" using i len assms(4) by linarith+
    ultimately show ?thesis using of_nat_near [of "ks ! i" i] by simp
  qed
  then have "ks = [0..<length ks]" by (intro nth_equalityI) simp_all
  then have "map snd (cq_delivered m) = take (length (cq_delivered m)) (cq_accepted m)"
  proof -
    assume eq: "ks = [0..<length ks]"
    have "map snd (cq_delivered m) = map (\<lambda>k. cq_accepted m ! k) ks" unfolding ks(3) by (simp add: comp_def)
    also have "\<dots> = map (\<lambda>k. cq_accepted m ! k) [0..<length ks]" using eq by simp
    also have "\<dots> = take (length ks) (cq_accepted m)" using len by (intro nth_equalityI) simp_all
    finally show ?thesis using ks(3) by simp
  qed
  then show ?thesis using safe same by simp
qed

definition mpsc_measure :: "('a concurrent_queue \<times> 'a concurrent_queue) set" where
  "mpsc_measure = measures [\<lambda>m. calls_unclaimed (as_mpmc m), \<lambda>m. work_left (as_mpmc m), \<lambda>m. advancing (cq_threads m ! 0)]"

lemma mpsc_measureI:
  "(as_mpmc m', as_mpmc m) \<in> measures [calls_unclaimed, work_left] \<Longrightarrow> (m', m) \<in> mpsc_measure"
  by (auto simp: mpsc_measure_def)

lemma measures_trans: "(x, y) \<in> measures [f, g] \<Longrightarrow> (y, z) \<in> measures [f, g] \<Longrightarrow> (x, z) \<in> measures [f, g]"
  by auto

lemma mpsc_step_decreases:
  assumes m: "mpsc_reachable q0 n m" and q: "ring_ok q0" and n: "0 < n" and len: "length (cq_accepted m) < 2 ^ 62"
    and step: "mpsc_step False t m = Some m'"
  shows "(m', m) \<in> mpsc_measure"
proof -
  have ok: "single_ok (rg_head q0) n m" and r: "mpmc_reachable q0 n (as_mpmc m)" using mpsc_refines [OF m q n len] by simp_all
  have t: "t < length (cq_threads m)" using step by (simp add: mpsc_step_def split: if_splits)
  have len': "length (cq_accepted (as_mpmc m)) < 2 ^ 62" using len by simp
  obtain s where s: "follows_from q0 n s (as_mpmc m)" using mpmc_follows_from [OF r q len'] by blast
  note down = mpmc_step_decreases [OF s q len']
  show ?thesis
  proof (cases "enqueue_step False t m")
    case (Some m1)
    then have "enqueue_step False t m = Some m'" using step t by (simp add: mpsc_step_def)
    then have "mpmc_step False t (as_mpmc m) = Some (as_mpmc m')"
      using as_mpmc_enqueue [OF t] t by (simp add: mpmc_step_def)
    then show ?thesis by (rule mpsc_measureI [OF down])
  next
    case None
    then have d: "mpsc_dequeue_step t m = Some m'" using step t by (simp add: mpsc_step_def)
    consider (one) "mpmc_step False 0 (as_mpmc m) = Some (as_mpmc m')"
      | (two) mid where "mpmc_step False 0 (as_mpmc m) = Some mid" "cq_accepted mid = cq_accepted m" "mpmc_step False 0 mid = Some (as_mpmc m')"
      | (advance) p where "as_mpmc m' = as_mpmc m" "cq_threads m ! 0 = Deq_advance p" "cq_threads m' ! 0 = Away"
      using as_mpmc_dequeue [OF ok t d consumer_test [OF r q len n ok]] by blast
    then show ?thesis
    proof cases
      case one
      then show ?thesis by (rule mpsc_measureI [OF down])
    next
      case two
      obtain s' where "follows_from q0 n s' mid" using follows_from_step [OF s q len' two(1)] by blast
      then have "(as_mpmc m', mid) \<in> measures [calls_unclaimed, work_left]"
        using two(2) len by (intro mpmc_step_decreases [OF _ q _ two(3)]) simp_all
      then show ?thesis by (rule mpsc_measureI [OF measures_trans [OF _ down [OF two(1)]]])
    next
      case advance
      then show ?thesis by (simp add: mpsc_measure_def)
    qed
  qed
qed

lemma mpsc_stuck:
  "t < length (cq_threads m) \<Longrightarrow> mpsc_step weak t m = None \<Longrightarrow> cq_threads m ! t = Away \<or> (\<exists>p. cq_threads m ! t = Deq_cas p)"
  by (cases "cq_threads m ! t") (auto simp: mpsc_step_def enqueue_step_def mpsc_dequeue_step_def Let_def)

text \<open>The calls of the producers and of the consumer return, whatever the schedule, when a
  compare-and-swap fails only if the values differ; and where no thread can step the queue is a
  consistent ring that holds the items accepted and not yet handed out, in order.\<close>

theorem mpsc_calls_return:
  assumes "ring_ok q0" and "0 < n"
  shows "wf {(m', m). mpsc_reachable q0 n m \<and> length (cq_accepted m) < 2 ^ 62 \<and> (\<exists>t. mpsc_step False t m = Some m')} \<and>
    (\<forall>m. mpsc_reachable q0 n m \<and> length (cq_accepted m) < 2 ^ 62 \<and> (\<forall>t. mpsc_step False t m = None) \<longrightarrow>
      ring_ok (cq_ring m) \<and> ring_contents (cq_ring m) = drop (length (cq_delivered m)) (cq_accepted m))"
proof (intro conjI allI impI; (elim conjE)?)
  show "wf {(m', m). mpsc_reachable q0 n m \<and> length (cq_accepted m) < 2 ^ 62 \<and> (\<exists>t. mpsc_step False t m = Some m')}"
    by (rule wf_subset [of mpsc_measure]) (use mpsc_step_decreases [OF _ assms] in \<open>auto simp: mpsc_measure_def\<close>)
next
  fix m assume m: "mpsc_reachable q0 n m" "length (cq_accepted m) < 2 ^ 62" "\<forall>t. mpsc_step False t m = None"
  have ok: "single_ok (rg_head q0) n m" "mpmc_reachable q0 n (as_mpmc m)" using mpsc_refines [OF m(1) assms m(2)] by simp_all
  have away: "cq_threads m ! t = Away" if "t < length (cq_threads m)" for t
    using mpsc_stuck [OF that] m(3) ok(1) that by (cases "t = 0") (fastforce simp: single_ok_def)+
  have "as_mpmc m = m"
    using away [of 0] assms(2) ok(1) by (intro queue_eqI) (auto simp: as_mpmc_def single_ok_def list_update_same_conv)
  moreover have "mpmc_step False t m = None" for t
    using away by (auto simp: mpmc_step_def enqueue_step_def mpmc_dequeue_step_def Let_def)
  ultimately have "ring_ok (cq_ring m) \<and> ring_contents (cq_ring m) = drop (length (cq_delivered m)) (cq_accepted m) \<and>
      mset (map snd (cq_delivered m)) = mset (take (length (cq_delivered m)) (cq_accepted m))"
    using ok(2) m(2) by (intro mpmc_at_rest [OF _ assms(1), of n]) simp_all
  then show "ring_ok (cq_ring m)" and "ring_contents (cq_ring m) = drop (length (cq_delivered m)) (cq_accepted m)" by simp_all
qed

section \<open>Witnesses\<close>

fun mpsc_event :: "'a queue_event \<Rightarrow> bool" where
  "mpsc_event (Call_dequeue t) = (t = 0)"
| "mpsc_event _ = True"

lemma mpsc_step_length: "mpsc_step weak t m = Some m' \<Longrightarrow> length (cq_threads m') = length (cq_threads m)"
  by (auto simp: mpsc_step_def enqueue_step_def mpsc_dequeue_step_def Let_def cq_goto_def
      split: if_splits option.splits ring_pc.splits)

lemma run_mpsc_events_reachable:
  assumes "mpsc_reachable q0 n m" and "length (cq_threads m) = n" and "list_all mpsc_event es"
    and "run_queue_events (mpsc_step False) es m = Some m'"
  shows "mpsc_reachable q0 n m'"
  using assms
proof (induction es arbitrary: m)
  case (Cons e es)
  obtain m1 where m1: "queue_event_step (mpsc_step False) e m = Some m1" "run_queue_events (mpsc_step False) es m1 = Some m'"
    using Cons.prems(4) by (auto split: bind_splits)
  have "mpsc_reachable q0 n m1 \<and> length (cq_threads m1) = n"
  proof (cases e)
    case (Run t)
    then show ?thesis using Cons.prems m1(1) mpsc_step_length by (auto intro: mpsc_reachable.step)
  next
    case (Call_enqueue t x)
    then show ?thesis
      using Cons.prems m1(1) by (auto split: if_splits intro: mpsc_reachable.call_enqueue simp: cq_goto_def [symmetric]) (auto simp: cq_goto_def)
  next
    case (Call_dequeue t)
    then show ?thesis
      using Cons.prems m1(1) by (auto split: if_splits intro: mpsc_reachable.call_dequeue simp: cq_goto_def [symmetric]) (auto simp: cq_goto_def)
  qed
  then show ?case using Cons.IH [of m1] m1(2) Cons.prems(3) by simp
qed simp

definition producers_and_consumer :: "nat queue_event list" where
  "producers_and_consumer = [Call_enqueue 1 4, Call_enqueue 2 5, Run 1, Run 2, Run 1, Run 2, Run 1, Run 2, Run 1, Call_dequeue 0, Run 0,
     Run 1, Run 0, Run 2, Run 2, Run 2, Run 2, Run 0, Run 0, Run 0]"

lemma producers_and_consumer_run:
  "case run_queue_events (mpsc_step False) producers_and_consumer (cq_new wrapping_ring 3) of None \<Rightarrow> False
   | Some m \<Rightarrow> cq_threads m = [Away, Away, Away] \<and> cq_accepted m = [4, 5] \<and> length (cq_delivered m) = 1"
  by code_simp

lemma producers_and_consumer_reach:
  "\<exists>m. mpsc_reachable wrapping_ring 3 m \<and> cq_threads m = [Away, Away, Away] \<and> cq_accepted m = [4, 5] \<and> length (cq_delivered m) = 1"
proof -
  have "length (cq_threads (cq_new wrapping_ring 3)) = 3" "list_all mpsc_event producers_and_consumer"
    by (simp_all add: cq_new_def producers_and_consumer_def)
  from run_mpsc_events_reachable [OF mpsc_reachable.start this] show ?thesis
    using producers_and_consumer_run
    by (cases "run_queue_events (mpsc_step False) producers_and_consumer (cq_new wrapping_ring 3)") auto
qed

theorem mpsc_delivers_in_order_witness:
  "\<exists>m. mpsc_reachable wrapping_ring 3 m \<and> map snd (cq_delivered m) = [4]"
proof -
  obtain m where m: "mpsc_reachable wrapping_ring 3 m" "cq_accepted m = [4, 5]" "length (cq_delivered m) = 1"
    using producers_and_consumer_reach by blast
  have "map snd (cq_delivered m) = take (length (cq_delivered m)) (cq_accepted m)"
    using mpsc_delivers_in_order [OF m(1) wrapping_ring_ok(1)] m(2) by simp
  then show ?thesis using m by auto
qed

theorem mpsc_calls_return_witness:
  "\<exists>m. mpsc_reachable wrapping_ring 3 m \<and> ring_ok (cq_ring m) \<and> ring_contents (cq_ring m) = [5]"
proof -
  obtain m where m: "mpsc_reachable wrapping_ring 3 m" "cq_threads m = [Away, Away, Away]" "cq_accepted m = [4, 5]"
    "length (cq_delivered m) = 1"
    using producers_and_consumer_reach by blast
  have "mpsc_step False t m = None" for t
    using m(2) by (cases t rule: nat.exhaust; auto simp: mpsc_step_def enqueue_step_def mpsc_dequeue_step_def Let_def less_Suc_eq nth_Cons')
  moreover have "length (cq_accepted m) < 2 ^ 62" "0 < (3 :: nat)" using m(3) by simp_all
  ultimately have "ring_ok (cq_ring m) \<and> ring_contents (cq_ring m) = drop (length (cq_delivered m)) (cq_accepted m)"
    using mpsc_calls_return [OF wrapping_ring_ok(1), of 3] m(1) by blast
  then show ?thesis using m by auto
qed

section \<open>The size\<close>

text \<open>
  \<open>ApproxSize\<close> loads the tail and then the head: in two states, the second reached from the first. Here
  a producer and the consumer finish a call each between the two loads, and the difference wraps around.
\<close>

definition ApproxSize_loads :: "'a concurrent_queue \<Rightarrow> 'a concurrent_queue \<Rightarrow> usize" where
  "ApproxSize_loads m m' = rg_tail (cq_ring m) - rg_head (cq_ring m')"

lemma size_wraps_around:
  "case run_queue_events (mpsc_step False)
      [Call_enqueue 1 4, Run 1, Run 1, Run 1, Run 1, Run 1, Call_dequeue 0, Run 0, Run 0, Run 0, Run 0, Run 0]
      (cq_new wrapping_ring 2) of None \<Rightarrow> False
   | Some m \<Rightarrow> cq_threads m = [Away, Away] \<and> ApproxSize_loads (cq_new wrapping_ring 2) m = 2 ^ 64 - 1 \<and>
       ApproxSize_loads m m = 0"
  by code_simp

end
