(* ===== verification/Spec2Isabelle.thy ===== *)
theory Spec2Isabelle
  imports Serialization Net_Codec Ring_Queue Memory_Pool Timer_Races Event_Bus_Races Event_Bus_Typed Config_Races Logger_Races
    Job_Ticks Pipeline_Executor Tick_Races Net_Rest Ring_Consumer
begin

text \<open>
  Verification of the MMO server core (\<open>src/server_core\<close>): the infrastructure layer (packets,
  serialization, network, lock-free queues, memory pool, timers, event bus, configuration, logger) and
  the runtime layer (task graph, worker pool and job dispatcher, pipeline executor, tick scheduler).

  \<^bold>\<open>How the code is modelled.\<close> A class is a record of its fields, a method a function that takes and
  returns the record, with the guards and early returns of the source in their order. Integers keep
  their width: \<open>u8\<close> to \<open>u64\<close> and \<open>usize\<close> are words that wrap around, time points and durations are
  \<open>int\<close> with overflow out of 64 bits as an error. An operation that can throw, access memory out of
  range, trip an \<open>assert\<close> or terminate the program returns \<open>error + 'a\<close> (theory Prelude lists the
  errors). A loop that might not end is a \<open>partial_function (option)\<close>, \<open>None\<close> being a call that does
  not return, and the theorems state that the calls do return. What is not in the repository is an
  argument: callbacks and handlers (a function from the payload to the calls they make), the clock, the
  file system, the allocator's addresses, \<open>boost::asio\<close> and the tasks' functions. Where
  threads share an object, one theory runs whole calls in turn and another interleaves their atomic
  accesses and critical sections under an arbitrary scheduler. The interleavings are
  sequentially consistent; the weaker orders of the C++ memory model are not modelled.

  \<^bold>\<open>Shared.\<close> Prelude: types, errors, checked arrays, lemmas on words and lists. Bytes: object
  representations that \<open>memcpy\<close> moves, as the locale \<open>byte_codec\<close>, interpreted for the four widths and
  for the headers.

  \<^bold>\<open>packet, serialization.\<close> Packet (buffers, views, headers), Packet_IO (\<open>PacketWriter.cpp\<close>,
  \<open>PacketReader.cpp\<close>), Serialization (\<open>BinaryWriter\<close>, \<open>BinaryReader\<close>, \<open>StringSerializer\<close>). The locales
  \<open>byte_sink\<close> and \<open>byte_source\<close> hold what writers and readers promise and are interpreted on both pairs;
  over them messages of integers and strings are read back as written, reads never leave the view and
  writes stop at 64 KiB.

  \<^bold>\<open>Net.\<close> Net_Codec (\<open>PacketCodec.cpp\<close> and the decode loop of the read handler): the packets that come
  out do not depend on how the stream is cut. Net_Connection (\<open>TcpConnection.cpp\<close>): the write loop of
  \<open>NetServer.cpp\<close> entered by any number of threads, as a step relation with an invariant (one write at a
  time, in order) and a well-founded measure (no packet is left waiting). Net_Server (\<open>NetServer.cpp\<close>):
  connections, accept, read and write handlers, \<open>Send\<close>, \<open>PollPacket\<close>, \<open>Start\<close> and \<open>Stop\<close>; no sequence of
  completions, sends and polls breaks the server, and as long as at most 65536 packets are outstanding the game thread
  gets every packet once and in order. Net_Races: the
  same server with the I/O thread, which runs one handler at a time, and any number of threads in \<open>Send\<close>,
  \<open>PollPacket\<close> and \<open>Stop\<close> interleaved, a critical section, an access to an atomic or a call of the library
  per step; each connection is a write loop of Net_Connection over the same threads. Net_Delivery:
  packets come in and go out in order under every interleaving, and those dropped are counted. Net_Rest:
  such a server comes to rest with nothing left to write, \<open>Stop\<close> returns and leaves no connection up; and
  from which states two threads come to use the same object of the library at once. In these three theories a dequeue of the
  inbound queue is one step, which Ring_Consumer justifies while one thread at a time polls or drains;
  fewer than \<open>2^64 - 1\<close> connections are made; the library's calls take effect at once, also where the
  code shares an object without a lock; and a server is not started again (Net_Server does that).

  \<^bold>\<open>lockfree_queue.\<close> Ring_Queue: both queues with whole calls, refining a bounded list (locale
  \<open>bounded_fifo\<close>, interpreted on both). Ring_Machine: Vyukov's ring with interleaved threads over
  unbounded positions and its invariant. Ring_Concurrent: the accesses of \<open>MPMCQueue\<close>, whose 64-bit
  counters follow that machine as long as fewer than \<open>2^62\<close> items are accepted between two moments at
  rest (far more than a process can reach; beyond it a stalled thread could mistake a counter that
  wrapped around), from any position of the counters: no two threads touch the same storage, every item
  is handed out once, refusals are justified, calls return. Ring_Consumer: \<open>MPSCQueue\<close>, by a mapping
  of its steps to those of \<open>MPMCQueue\<close>; items come out in order. These theorems are why the theories
  of the dispatcher and of the server may treat a queue operation as one step.

  \<^bold>\<open>memory_pool, timer, EventBus, ConfigSystem, logger.\<close> Memory_Pool (locale \<open>memory_pool\<close>: blocks out
  at the same time are disjoint and inside the storage). Timer_Queue (the heap as a sorted list through
  the locale \<open>min_queue\<close>; what a tick runs, and never runs, with callbacks that schedule and cancel; a tick returns when no callback
  schedules a timer that is already due).
  Timer_Races (the queue with its threads interleaved, a thread being a stack of calls because callbacks
  call back: where every identifier issued is at any moment, and that a cancelled timer stays silent; the
  64-bit identifiers are assumed not to have wrapped around).
  Event_Bus (handler entries in a store because snapshots and lists share them; dispatch over a snapshot
  while handlers subscribe, unsubscribe and publish; the nesting of publications is bounded by a depth
  argument). Event_Bus_Contract (an abstract bus of subscriptions, locale \<open>event_bus_contract\<close>, which the code's bus
  refines with handlers that call back; where the handlers publish in bounded depth, given by a rank of the event types,
  every call is shown to return).
  Event_Bus_Typed (the templates over it: no event is cast to a type it does not have).
  Event_Bus_Races (the same bus with its threads interleaved: what publishers see, that calls return,
  how often a handler can still run after it was unsubscribed).
  Config_System (the parser of \<open>key=value\<close> text, the sources, \<open>Load\<close> all or nothing over any parser).
  Config_Races (threads loading and clearing at once: one \<open>Load\<close> wins, unless a parser throws, whose \<open>catch\<close> block
  runs without the lock). Logger (level filter, sinks, the formatter's \<open>snprintf\<close> truncation).
  Logger_Races (threads logging at once: every sink has whole lines, each thread's in order).

  \<^bold>\<open>runtime.\<close> Task_Graph: phases, context, pipeline, graph; no source builds a graph, so its
  well-formedness (\<open>graph_ok\<close>) is a hypothesis, and Job_Lifecycle has graphs that satisfy it.
  Worker_Pool: \<open>Start\<close>, \<open>Stop\<close>, \<open>Join\<close> against an abstract machine. Job_Dispatch: the operations of
  \<open>JobDispatch.cpp\<close> that one thread runs. Job_Phases: their invariant. Job_Lifecycle: \<open>Initialize\<close> and \<open>Shutdown\<close>.
  Job_Races: \<open>ExecutePhase\<close> with caller and workers interleaved; without
  inner edges it is free of races and loses no wake-up; from any state in which the seeding loop stands at a task with a
  later child in the phase that child may run twice, and a child that is queued but not yet counted lets the barrier
  open early. Job_Ticks: the dispatcher's whole life interleaved, from \<open>Initialize\<close> over any number of
  ticks to \<open>Shutdown\<close>, for graphs without inner edges: every task once per tick, parents first, and no
  schedule that goes on for ever or gets stuck. Job_Crew: the calls of a client over that machine, a call being the steps
  that a scheduler, an arbitrary function, makes the threads take until the owner is back; for graphs without inner edges
  every tick returns and executes the graph, also after \<open>Shutdown\<close> and a new \<open>Initialize\<close>. Pipeline_Executor:
  \<open>RuntimePipelineExecutor.cpp\<close> over any dispatcher, whose calls may also throw or not return
  (locale \<open>phase_dispatcher\<close>), then over the repository's under any scheduler. Tick_Scheduler: \<open>TickScheduler.cpp\<close> over
  Timer_Queue. Tick_Races: its loop with \<open>Shutdown\<close> in another thread, which stops it within one more tick
  (11 steps), but may be overwritten.

  \<^bold>\<open>Not modelled.\<close> Memory orders and spurious wake-ups of \<open>atomic::wait\<close>; what a task does to the
  context (a task is an opaque call that is recorded; the tasks of a phase share the context by
  reference, and nothing in the repository orders their accesses to it); sockets beyond open and closed;
  destructors, which call the modelled shutdowns; padding and alignment of the queues' members; the
  declarations no code uses; build files and tests. \<open>SteadyClock\<close> and the virtual interfaces only
  forward.
\<close>

end
